(* ===== verification/Chess_Prelude.thy ===== *)
theory Chess_Prelude
  imports Main "HOL-Library.Multiset"
begin

text \<open>
  The shared layer of the development: the narrowing conversion to \<open>int8_t\<close>, the ways a run
  of the program is cut short (a failed \<open>CHECK\<close>, a null pointer, a bad index), the result type
  that carries them, the two loop forms of the sources (a loop whose body may abort, and a
  loop that looks for the first element with a property), and the named collections of
  rewrite rules the component theories add to.
\<close>

named_theorems i8_simps \<open>evaluation of narrowing conversions on in-range values\<close>
named_theorems board_simps \<open>how the board's operations act on its observations\<close>
named_theorems result_simps \<open>propagation of aborts\<close>

section \<open>Narrowing to int8_t\<close>

text \<open>
  Rows, columns and stored scores are \<open>int8_t\<close>. Arithmetic on them is done in \<open>int\<close> after
  promotion; the result is narrowed, modulo \<open>2 ^ 8\<close>, where it is stored in an \<open>int8_t\<close>.
\<close>

definition i8 :: "int \<Rightarrow> int" where
  "i8 x = (x + 128) mod 256 - 128"

lemma i8_id [simp, i8_simps]: "- 128 \<le> x \<Longrightarrow> x < 128 \<Longrightarrow> i8 x = x"
  by (simp add: i8_def)

lemma i8_range: "- 128 \<le> i8 x \<and> i8 x < 128"
  by (simp add: i8_def)

lemma i8_idem [simp]: "i8 (i8 x) = i8 x"
  using i8_range [of x] by simp

lemma i8_cong: "i8 x = i8 y \<longleftrightarrow> x mod 256 = y mod 256"
  by (simp add: i8_def mod_eq_dvd_iff)

lemma i8_wrap: "128 \<le> x \<Longrightarrow> x < 384 \<Longrightarrow> i8 x = x - 256"
proof -
  assume x: "128 \<le> x" "x < 384"
  have "(x + 128) mod 256 = (x - 128 + 256) mod 256" by (simp add: add.commute)
  also have "\<dots> = x - 128" using x by (subst mod_add_self2) simp
  finally show ?thesis by (simp add: i8_def)
qed

section \<open>Aborts and results\<close>

text \<open>
  Every way the modelled code stops early. The first block are the checks of the board
  loader, the second those of the moves and of the search; \<open>NullPointer\<close> and \<open>BadIndex\<close> are
  the accesses C++ leaves undefined.
\<close>

datatype fatal =
    LoadFailed | LineSize | UnknownNotation | RowRange | ColRange | SquareTaken
  | SecondBlackKing | SecondWhiteKing | NoBlackKing | NoWhiteKing
  | AddEmpty | MoveEmpty | EnPassantNoWhitePawn | EnPassantNotPawn | EnPassantNoBlackPawn
  | NotCastling | InvalidTarget | LevelsNotPositive | NoMaxState | NoSolution | ParentOrder
  | NullPointer | BadIndex

type_synonym 'a result = "fatal + 'a"

primrec rbind :: "'e + 'a \<Rightarrow> ('a \<Rightarrow> 'e + 'b) \<Rightarrow> 'e + 'b" where
  "rbind (Inl e) f = Inl e"
| "rbind (Inr x) f = f x"

definition CHECK :: "bool \<Rightarrow> fatal \<Rightarrow> unit result" where
  "CHECK c e = (if c then Inr () else Inl e)"

lemma rbind_cong [fundef_cong]:
  "m = m' \<Longrightarrow> (\<And>x. m' = Inr x \<Longrightarrow> f x = g x) \<Longrightarrow> rbind m f = rbind m' g"
  by (cases m') auto

lemma rbind_assoc [result_simps]: "rbind (rbind m f) g = rbind m (\<lambda>x. rbind (f x) g)"
  by (cases m) auto

lemma rbind_Inr_iff: "rbind m f = Inr y \<longleftrightarrow> (\<exists>x. m = Inr x \<and> f x = Inr y)"
  by (cases m) auto

lemma rbind_Inl_iff: "rbind m f = Inl e \<longleftrightarrow> m = Inl e \<or> (\<exists>x. m = Inr x \<and> f x = Inl e)"
  by (cases m) auto

lemma rbind_InrE:
  assumes "rbind m f = Inr y"
  obtains x where "m = Inr x" and "f x = Inr y"
  using assms by (auto simp: rbind_Inr_iff)

lemma CHECK_True [simp]: "CHECK True e = Inr ()"
  by (simp add: CHECK_def)

lemma CHECK_False [simp]: "CHECK False e = Inl e"
  by (simp add: CHECK_def)

lemma CHECK_Inr_iff [simp]: "CHECK c e = Inr u \<longleftrightarrow> c"
  by (simp add: CHECK_def)

lemma CHECK_Inl_iff [simp]: "CHECK c e = Inl e' \<longleftrightarrow> \<not> c \<and> e' = e"
  by (auto simp: CHECK_def)

section \<open>Loops\<close>

text \<open>\<open>rfold\<close> is a range-based \<open>for\<close> whose body updates a state and may abort.\<close>

fun rfold :: "('a \<Rightarrow> 's \<Rightarrow> 'e + 's) \<Rightarrow> 'a list \<Rightarrow> 's \<Rightarrow> 'e + 's" where
  "rfold f [] s = Inr s"
| "rfold f (x # xs) s = rbind (f x s) (rfold f xs)"

lemma rfold_append [result_simps]: "rfold f (xs @ ys) s = rbind (rfold f xs s) (rfold f ys)"
  by (induction xs arbitrary: s) (auto simp: rbind_assoc intro: rbind_cong)

lemma rfold_invariant:
  assumes "rfold f xs s = Inr t" and "P s"
    and "\<And>x u v. x \<in> set xs \<Longrightarrow> P u \<Longrightarrow> f x u = Inr v \<Longrightarrow> P v"
  shows "P t"
  using assms by (induction xs arbitrary: s) (auto elim!: rbind_InrE)

lemma rfold_total:
  assumes "P s" and "\<And>x u. x \<in> set xs \<Longrightarrow> P u \<Longrightarrow> \<exists>v. f x u = Inr v \<and> P v"
  shows "\<exists>t. rfold f xs s = Inr t \<and> P t"
  using assms
proof (induction xs arbitrary: s)
  case Nil
  then show ?case by simp
next
  case (Cons x xs)
  then obtain v where "f x s = Inr v" "P v" by (meson list.set_intros(1))
  with Cons show ?case by simp
qed

lemma rfold_collect:
  "(\<And>x acc. x \<in> set xs \<Longrightarrow> f x acc = Inr (acc @ g x)) \<Longrightarrow>
    rfold f xs acc = Inr (acc @ concat (map g xs))"
  by (induction xs arbitrary: acc) auto

section \<open>Lists\<close>

lemma sorted_wrt_map_index:
  "sorted_wrt (\<lambda>x y. f x \<ge> (f y :: 'b :: linorder)) xs \<longleftrightarrow> sorted_wrt (\<ge>) (map f xs)"
  by (induction xs) auto

lemma in_set_if: "x \<in> set (if c then xs else []) \<longleftrightarrow> c \<and> x \<in> set xs"
  by simp

lemma mset_eq_set: "mset xs = mset ys \<Longrightarrow> set xs = set ys"
  by (metis set_mset_mset)

lemma not_in_update: "x \<noteq> y \<Longrightarrow> x \<notin> set xs \<Longrightarrow> x \<notin> set (xs[i := y])"
  by (metis insert_iff set_update_subset_insert subset_iff)

section \<open>Sequences of operations\<close>

text \<open>
  A component that is used through calls: \<open>step\<close> is the state after a call, \<open>inv\<close> its
  invariant, \<open>allowed\<close> the calls of clients that keep to the contract. The second locale adds an
  abstract machine that every call of the component follows.
\<close>

locale op_invariant =
  fixes step :: "'o \<Rightarrow> 's \<Rightarrow> 's" and inv :: "'s \<Rightarrow> bool" and allowed :: "'o \<Rightarrow> bool"
  assumes inv_step: "inv s \<Longrightarrow> allowed c \<Longrightarrow> inv (step c s)"
begin

lemma inv_run: "inv s \<Longrightarrow> list_all allowed cs \<Longrightarrow> inv (fold step cs s)"
  by (induction cs arbitrary: s) (auto simp: inv_step)

end

locale op_refinement = op_invariant step inv allowed
  for step :: "'o \<Rightarrow> 's \<Rightarrow> 's" and inv :: "'s \<Rightarrow> bool" and allowed :: "'o \<Rightarrow> bool" +
  fixes abs_state :: "'s \<Rightarrow> 'a" and spec_step :: "'o \<Rightarrow> 'a \<Rightarrow> 'a"
  assumes step_refines: "inv s \<Longrightarrow> allowed c \<Longrightarrow> abs_state (step c s) = spec_step c (abs_state s)"
begin

lemma run_refines:
  "inv s \<Longrightarrow> list_all allowed cs \<Longrightarrow> abs_state (fold step cs s) = fold spec_step cs (abs_state s)"
  by (induction cs arbitrary: s) (auto simp: step_refines inv_step)

end

end
