(* ===== verification/Piece_Type.thy ===== *)
theory Piece_Type
  imports Chess_Prelude
begin

text \<open>
  The enumeration \<open>Piece::Type\<close>, its colour tests and the piece object of
  \<open>chess/piece.h\<close>, and positions with their validity test from \<open>chess/board.h\<close>.
  A \<open>Piece\<close> object is its three data members; the subclass of a piece is determined by its
  type (\<open>Piece::create\<close>), so virtual calls are case distinctions on \<open>type\<close>.
\<close>

section \<open>Piece types\<close>

datatype ptype =
    EMPTY
  | W_PAWN | W_ROOK | W_KNIGHT | W_KING | W_QUEEN | W_BISHOP
  | B_PAWN | B_ROOK | B_KNIGHT | B_KING | B_QUEEN | B_BISHOP

text \<open>\<open>static_cast<int8_t>(type)\<close>: the enumerators' values, black being white plus eight.\<close>

fun type_value :: "ptype \<Rightarrow> int" where
  "type_value EMPTY = 0"
| "type_value W_PAWN = 1"
| "type_value W_ROOK = 2"
| "type_value W_KNIGHT = 3"
| "type_value W_KING = 4"
| "type_value W_QUEEN = 5"
| "type_value W_BISHOP = 6"
| "type_value B_PAWN = 1 + 8"
| "type_value B_ROOK = 2 + 8"
| "type_value B_KNIGHT = 3 + 8"
| "type_value B_KING = 4 + 8"
| "type_value B_QUEEN = 5 + 8"
| "type_value B_BISHOP = 6 + 8"

definition isBlack :: "ptype \<Rightarrow> bool" where
  "isBlack t \<longleftrightarrow> type_value t > 8"

definition isWhite :: "ptype \<Rightarrow> bool" where
  "isWhite t \<longleftrightarrow> type_value t > 0 \<and> type_value t < 8"

definition isSameColor :: "ptype \<Rightarrow> ptype \<Rightarrow> bool" where
  "isSameColor t1 t2 =
     (if t1 = EMPTY \<or> t2 = EMPTY then False else isBlack t1 = isBlack t2)"

definition opponentType :: "ptype \<Rightarrow> ptype" where
  "opponentType t = (if isBlack t then W_KING else B_KING)"

definition getSameQueenType :: "ptype \<Rightarrow> ptype" where
  "getSameQueenType t = (if isBlack t then B_QUEEN else W_QUEEN)"

definition getSameKingType :: "ptype \<Rightarrow> ptype" where
  "getSameKingType t = (if isBlack t then B_KING else W_KING)"

definition getSameRookType :: "ptype \<Rightarrow> ptype" where
  "getSameRookType t = (if isBlack t then B_ROOK else W_ROOK)"

definition getSameKnightType :: "ptype \<Rightarrow> ptype" where
  "getSameKnightType t = (if isBlack t then B_KNIGHT else W_KNIGHT)"

definition kPieceChar :: "string" where
  "kPieceChar = ''xprnkqbxxPRNKQB''"

section \<open>Positions\<close>

type_synonym position = "int \<times> int"

record DeltaMove =
  dr :: int
  dc :: int

abbreviation (input) BOARD_SIZE :: int where
  "BOARD_SIZE \<equiv> 8"

definition invalidPosition :: position where
  "invalidPosition = (- 1, - 1)"

fun isValidPosition :: "position \<Rightarrow> bool" where
  "isValidPosition (r, c) \<longleftrightarrow> r \<ge> 0 \<and> r < BOARD_SIZE \<and> c \<ge> 0 \<and> c < BOARD_SIZE"

text \<open>
  \<open>Position(r, c)\<close> and \<open>Position{r, c}\<close> narrow both coordinates; \<open>step_from\<close> is
  \<open>pos.first += step.dr; pos.second += step.dc\<close>.
\<close>

definition mk_pos :: "int \<Rightarrow> int \<Rightarrow> position" where
  "mk_pos r c = (i8 r, i8 c)"

definition step_from :: "position \<Rightarrow> DeltaMove \<Rightarrow> position" where
  "step_from p s = mk_pos (fst p + dr s) (snd p + dc s)"

text \<open>The squares in the order of the two nested loops \<open>for row, for col\<close>.\<close>

definition all_positions :: "position list" where
  "all_positions = concat (map (\<lambda>r. map (\<lambda>c. (r, c)) [0..7]) [0..7])"

section \<open>Piece objects\<close>

record piece =
  type :: ptype
  row :: int
  col :: int

definition position :: "piece \<Rightarrow> position" where
  "position p = (row p, col p)"

definition setPosition :: "position \<Rightarrow> piece \<Rightarrow> piece" where
  "setPosition pos p = p\<lparr>row := fst pos, col := snd pos\<rparr>"

text \<open>The constructors of the seven classes.\<close>

definition new_BPawn :: "int \<Rightarrow> int \<Rightarrow> piece" where
  "new_BPawn r c = \<lparr>type = B_PAWN, row = r, col = c\<rparr>"

definition new_WPawn :: "int \<Rightarrow> int \<Rightarrow> piece" where
  "new_WPawn r c = \<lparr>type = W_PAWN, row = r, col = c\<rparr>"

definition new_Rook :: "bool \<Rightarrow> int \<Rightarrow> int \<Rightarrow> piece" where
  "new_Rook black r c = \<lparr>type = (if black then B_ROOK else W_ROOK), row = r, col = c\<rparr>"

definition new_Bishop :: "bool \<Rightarrow> int \<Rightarrow> int \<Rightarrow> piece" where
  "new_Bishop black r c = \<lparr>type = (if black then B_BISHOP else W_BISHOP), row = r, col = c\<rparr>"

definition new_Queen :: "bool \<Rightarrow> int \<Rightarrow> int \<Rightarrow> piece" where
  "new_Queen black r c = \<lparr>type = (if black then B_QUEEN else W_QUEEN), row = r, col = c\<rparr>"

definition new_Knight :: "bool \<Rightarrow> int \<Rightarrow> int \<Rightarrow> piece" where
  "new_Knight black r c = \<lparr>type = (if black then B_KNIGHT else W_KNIGHT), row = r, col = c\<rparr>"

definition new_King :: "bool \<Rightarrow> int \<Rightarrow> int \<Rightarrow> piece" where
  "new_King black r c = \<lparr>type = (if black then B_KING else W_KING), row = r, col = c\<rparr>"

text \<open>\<open>Piece::create\<close>: the null pointer for \<open>EMPTY\<close>.\<close>

definition create :: "ptype \<Rightarrow> position \<Rightarrow> piece option" where
  "create t pos =
     (case t of
        B_PAWN \<Rightarrow> Some (new_BPawn (fst pos) (snd pos))
      | W_PAWN \<Rightarrow> Some (new_WPawn (fst pos) (snd pos))
      | B_KING \<Rightarrow> Some (new_King True (fst pos) (snd pos))
      | W_KING \<Rightarrow> Some (new_King False (fst pos) (snd pos))
      | B_QUEEN \<Rightarrow> Some (new_Queen True (fst pos) (snd pos))
      | W_QUEEN \<Rightarrow> Some (new_Queen False (fst pos) (snd pos))
      | B_ROOK \<Rightarrow> Some (new_Rook True (fst pos) (snd pos))
      | W_ROOK \<Rightarrow> Some (new_Rook False (fst pos) (snd pos))
      | B_BISHOP \<Rightarrow> Some (new_Bishop True (fst pos) (snd pos))
      | W_BISHOP \<Rightarrow> Some (new_Bishop False (fst pos) (snd pos))
      | B_KNIGHT \<Rightarrow> Some (new_Knight True (fst pos) (snd pos))
      | W_KNIGHT \<Rightarrow> Some (new_Knight False (fst pos) (snd pos))
      | EMPTY \<Rightarrow> None)"

definition piece_equals :: "piece \<Rightarrow> piece \<Rightarrow> bool" where
  "piece_equals p q \<longleftrightarrow> type p = type q \<and> position p = position q"

section \<open>Lemmas\<close>

instantiation ptype :: linorder
begin

definition less_eq_ptype :: "ptype \<Rightarrow> ptype \<Rightarrow> bool" where
  "less_eq_ptype s t \<longleftrightarrow> type_value s \<le> type_value t"

definition less_ptype :: "ptype \<Rightarrow> ptype \<Rightarrow> bool" where
  "less_ptype s t \<longleftrightarrow> type_value s < type_value t"

instance
proof
  fix s t :: ptype
  assume "s \<le> t" and "t \<le> s"
  then have "type_value s = type_value t" by (simp add: less_eq_ptype_def)
  then show "s = t" by (cases s; cases t; simp)
qed (auto simp: less_eq_ptype_def less_ptype_def)

end

lemma type_value_inj: "type_value s = type_value t \<longleftrightarrow> s = t"
  by (cases s; cases t; simp)

lemma type_value_range: "0 \<le> type_value t \<and> type_value t \<le> 14"
  by (cases t) auto

lemma isBlack_simps [simp]:
  "\<not> isBlack EMPTY" "\<not> isBlack W_PAWN" "\<not> isBlack W_ROOK" "\<not> isBlack W_KNIGHT"
  "\<not> isBlack W_KING" "\<not> isBlack W_QUEEN" "\<not> isBlack W_BISHOP"
  "isBlack B_PAWN" "isBlack B_ROOK" "isBlack B_KNIGHT"
  "isBlack B_KING" "isBlack B_QUEEN" "isBlack B_BISHOP"
  by (simp_all add: isBlack_def)

lemma isWhite_iff: "isWhite t \<longleftrightarrow> t \<noteq> EMPTY \<and> \<not> isBlack t"
  by (cases t) (auto simp: isWhite_def)

lemma isSameColor_iff: "isSameColor s t \<longleftrightarrow> s \<noteq> EMPTY \<and> t \<noteq> EMPTY \<and> isBlack s = isBlack t"
  by (simp add: isSameColor_def)

lemma isSameColor_EMPTY [simp]: "\<not> isSameColor t EMPTY" "\<not> isSameColor EMPTY t"
  by (simp_all add: isSameColor_def)

lemma isBlack_same_type [simp]:
  "isBlack (getSameQueenType t) = isBlack t" "isBlack (getSameKnightType t) = isBlack t"
  "isBlack (getSameRookType t) = isBlack t" "isBlack (getSameKingType t) = isBlack t"
  by (simp_all add: getSameQueenType_def getSameKnightType_def getSameRookType_def
      getSameKingType_def)

lemma isBlack_opponentType [simp]: "isBlack (opponentType t) \<longleftrightarrow> \<not> isBlack t"
  by (simp add: opponentType_def)

lemma same_type_not_king [simp]:
  "getSameQueenType t \<notin> {EMPTY, W_KING, B_KING, W_PAWN, B_PAWN}"
  "getSameKnightType t \<notin> {EMPTY, W_KING, B_KING, W_PAWN, B_PAWN}"
  by (simp_all add: getSameQueenType_def getSameKnightType_def)

lemma set_all_positions [simp]: "p \<in> set all_positions \<longleftrightarrow> isValidPosition p"
  by (cases p) (auto simp: all_positions_def image_iff)

lemma distinct_all_positions: "distinct all_positions"
  by code_simp

lemma position_simps [simp]:
  "position \<lparr>type = t, row = r, col = c\<rparr> = (r, c)"
  "position (setPosition pos p) = pos"
  "type (setPosition pos p) = type p"
  by (simp_all add: position_def setPosition_def)

lemmas new_piece_defs = new_BPawn_def new_WPawn_def new_Rook_def new_Bishop_def new_Queen_def
  new_Knight_def new_King_def

lemma create_eq: "create t pos =
    (if t = EMPTY then None else Some \<lparr>type = t, row = fst pos, col = snd pos\<rparr>)"
  by (cases t) (simp_all add: create_def new_piece_defs)

lemma create_Some_iff: "create t pos = Some p \<longleftrightarrow>
    t \<noteq> EMPTY \<and> p = \<lparr>type = t, row = fst pos, col = snd pos\<rparr>"
  by (auto simp: create_eq)

lemma create_position: "create t pos = Some p \<Longrightarrow> position p = pos \<and> type p = t"
  by (auto simp: create_eq split: if_splits)

lemma mk_pos_valid [simp]:
  "- 128 \<le> r \<Longrightarrow> r < 128 \<Longrightarrow> - 128 \<le> c \<Longrightarrow> c < 128 \<Longrightarrow> mk_pos r c = (r, c)"
  by (simp add: mk_pos_def)

lemma step_from_eq:
  "isValidPosition p \<Longrightarrow> - 100 \<le> dr s \<Longrightarrow> dr s \<le> 100 \<Longrightarrow> - 100 \<le> dc s \<Longrightarrow> dc s \<le> 100 \<Longrightarrow>
    step_from p s = (fst p + dr s, snd p + dc s)"
  by (cases p) (simp add: step_from_def)

text \<open>A valid position is one of the sixty-four cells, in row-major order.\<close>

definition cell_index :: "position \<Rightarrow> int" where
  "cell_index p = 8 * fst p + snd p"

lemma cell_index_range: "isValidPosition p \<Longrightarrow> 0 \<le> cell_index p \<and> cell_index p < 64"
  by (cases p) (auto simp: cell_index_def)

lemma position_of_index:
  "isValidPosition p \<Longrightarrow> p = (cell_index p div 8, cell_index p mod 8)"
  by (cases p) (simp add: cell_index_def)

lemma cell_index_inj:
  "isValidPosition p \<Longrightarrow> isValidPosition q \<Longrightarrow> cell_index p = cell_index q \<longleftrightarrow> p = q"
  using position_of_index [of p] position_of_index [of q] by metis

lemma nat_cell_index_inj:
  "isValidPosition p \<Longrightarrow> isValidPosition q \<Longrightarrow>
    nat (cell_index p) = nat (cell_index q) \<longleftrightarrow> p = q"
  using cell_index_inj [of p q] cell_index_range [of p] cell_index_range [of q] by auto

end
