(* ===== verification/Board_State.thy ===== *)
theory Board_State
  imports Piece_Type
begin

text \<open>
  The data of \<open>Move\<close> (\<open>chess/move.h\<close>) and \<open>Board\<close> (\<open>chess/board.h\<close>) and the board's cell
  operations: \<open>set\<close>, \<open>add\<close>, \<open>remove\<close>, the reads, the empty board and \<open>Board::init\<close>.

  The array \<open>positions_[8][8]\<close> is its sixty-four contiguous cells in row-major order, as
  \<open>hash()\<close>, \<open>compare()\<close> and \<open>clear()\<close> use it. The code also indexes it with columns and rows
  outside \<open>0..7\<close> (the pawns' capture tests read \<open>col() - 1\<close> and \<open>col() + 1\<close> before they test
  validity): \<open>positions_[row][col]\<close> is the cell at offset \<open>8 * row + col\<close>, and what lies
  outside the array is the arbitrary content \<open>beyond\<close> of the board, about which nothing is
  assumed.
\<close>

section \<open>Moves and boards\<close>

datatype SpecialType =
    NORMAL_MOVE | QUEEN_PROMOTION | KNIGHT_PROMOTION | PAWN_EN_PASSANT | KING_CASTLING

record move =
  special :: SpecialType
  from_pos :: position
  to_pos :: position
  fromType :: ptype
  toType :: ptype

definition default_move :: move where
  "default_move = \<lparr>special = NORMAL_MOVE, from_pos = (- 1, - 1), to_pos = (- 1, - 1),
     fromType = EMPTY, toType = EMPTY\<rparr>"

definition newType :: "move \<Rightarrow> ptype" where
  "newType m = (case special m of
       QUEEN_PROMOTION \<Rightarrow> getSameQueenType (fromType m)
     | KNIGHT_PROMOTION \<Rightarrow> getSameKnightType (fromType m)
     | _ \<Rightarrow> fromType m)"

record board =
  blackKingPosition :: position
  whiteKingPosition :: position
  positions :: "ptype list"
  score :: int
  lastMove :: move
  beyond :: "int \<Rightarrow> ptype"

abbreviation (input) NONE :: int where "NONE \<equiv> 0"
abbreviation (input) CHECK_HEURISTIC :: int where "CHECK_HEURISTIC \<equiv> 10"
abbreviation (input) STALLMATE :: int where "STALLMATE \<equiv> - 2"
abbreviation (input) CHECKMATE :: int where "CHECKMATE \<equiv> 100"

section \<open>Cells\<close>

definition getPieceTypeAtPosition :: "board \<Rightarrow> position \<Rightarrow> ptype" where
  "getPieceTypeAtPosition b pos =
     (let i = cell_index pos
      in if 0 \<le> i \<and> i < 64 then positions b ! nat i else beyond b i)"

definition isEmpty :: "board \<Rightarrow> position \<Rightarrow> bool" where
  "isEmpty b pos \<longleftrightarrow> getPieceTypeAtPosition b pos = EMPTY"

definition setInternal :: "ptype \<Rightarrow> position \<Rightarrow> board \<Rightarrow> board" where
  "setInternal t pos b =
     (let i = cell_index pos
      in if 0 \<le> i \<and> i < 64 then b\<lparr>positions := (positions b)[nat i := t]\<rparr>
         else b\<lparr>beyond := (beyond b)(i := t)\<rparr>)"

definition setKingPositionIfNeeded :: "ptype \<Rightarrow> position \<Rightarrow> board \<Rightarrow> board" where
  "setKingPositionIfNeeded t pos b =
     (case t of
        B_KING \<Rightarrow> b\<lparr>blackKingPosition := pos\<rparr>
      | W_KING \<Rightarrow> b\<lparr>whiteKingPosition := pos\<rparr>
      | _ \<Rightarrow> b)"

definition Board_set :: "ptype \<Rightarrow> position \<Rightarrow> board \<Rightarrow> board" where
  "Board_set t pos b = setKingPositionIfNeeded t pos (setInternal t pos b)"

definition Board_remove :: "position \<Rightarrow> board \<Rightarrow> board" where
  "Board_remove pos b = setInternal EMPTY pos b"

definition Board_add :: "ptype \<Rightarrow> position \<Rightarrow> board \<Rightarrow> board result" where
  "Board_add t pos b = rbind (CHECK (t \<noteq> EMPTY) AddEmpty) (\<lambda>_. Inr (Board_set t pos b))"

definition setScore :: "int \<Rightarrow> board \<Rightarrow> board" where
  "setScore s b = b\<lparr>score := i8 s\<rparr>"

definition Board_piece :: "board \<Rightarrow> position \<Rightarrow> piece option" where
  "Board_piece b pos = create (getPieceTypeAtPosition b pos) pos"

definition blackKing :: "board \<Rightarrow> piece option" where
  "blackKing b = Board_piece b (blackKingPosition b)"

definition whiteKing :: "board \<Rightarrow> piece option" where
  "whiteKing b = Board_piece b (whiteKingPosition b)"

text \<open>\<open>memcmp\<close> over the sixty-four cells: the sign of the first difference.\<close>

fun memcmp_cells :: "ptype list \<Rightarrow> ptype list \<Rightarrow> int" where
  "memcmp_cells (s # ss) (t # ts) =
     (if s = t then memcmp_cells ss ts else if s < t then - 1 else 1)"
| "memcmp_cells _ _ = 0"

definition Board_compare :: "board \<Rightarrow> board \<Rightarrow> int" where
  "Board_compare b b' = memcmp_cells (positions b) (positions b')"

section \<open>Constructors\<close>

text \<open>\<open>Board(false)\<close>: \<open>clear()\<close> zeroes the cells; what lies outside them is not touched.\<close>

definition empty_board :: "(int \<Rightarrow> ptype) \<Rightarrow> board" where
  "empty_board out = \<lparr>blackKingPosition = (- 1, - 1), whiteKingPosition = (- 1, - 1),
     positions = replicate 64 EMPTY, score = NONE, lastMove = default_move, beyond = out\<rparr>"

text \<open>\<open>Board::init\<close>: the additions in the order of the source.\<close>

definition init_adds :: "(ptype \<times> position) list" where
  "init_adds =
     [(B_ROOK, (7, 0)), (B_KNIGHT, (7, 1)), (B_BISHOP, (7, 2)), (B_QUEEN, (7, 3)),
      (B_KING, (7, 4)), (B_BISHOP, (7, 5)), (B_KNIGHT, (7, 6)), (B_ROOK, (7, 7))]
     @ map (\<lambda>c. (B_PAWN, (6, c))) [0..7]
     @ [(W_ROOK, (0, 0)), (W_KNIGHT, (0, 1)), (W_BISHOP, (0, 2)), (W_QUEEN, (0, 3)),
      (W_KING, (0, 4)), (W_BISHOP, (0, 5)), (W_KNIGHT, (0, 6)), (W_ROOK, (0, 7))]
     @ map (\<lambda>c. (B_PAWN, (1, c))) [0..7]"

definition Board_init :: "board \<Rightarrow> board result" where
  "Board_init b = rfold (\<lambda>(t, pos). Board_add t pos) init_adds b"

definition new_Board :: "(int \<Rightarrow> ptype) \<Rightarrow> bool \<Rightarrow> board result" where
  "new_Board out init_it =
     (if init_it then Board_init (empty_board out) else Inr (empty_board out))"

section \<open>Observations\<close>

text \<open>
  \<open>wf_board\<close> is the type invariant of the array; \<open>board_ok\<close> adds that the two king fields
  name the one square each king stands on, which \<open>Board(file)\<close> establishes and the moves of
  the program keep.
\<close>

definition wf_board :: "board \<Rightarrow> bool" where
  "wf_board b \<longleftrightarrow> length (positions b) = 64"

definition kings_ok :: "board \<Rightarrow> bool" where
  "kings_ok b \<longleftrightarrow>
     isValidPosition (blackKingPosition b) \<and> isValidPosition (whiteKingPosition b) \<and>
     list_all (\<lambda>p. (getPieceTypeAtPosition b p = B_KING \<longleftrightarrow> p = blackKingPosition b) \<and>
                   (getPieceTypeAtPosition b p = W_KING \<longleftrightarrow> p = whiteKingPosition b))
       all_positions"

definition board_ok :: "board \<Rightarrow> bool" where
  "board_ok b \<longleftrightarrow> wf_board b \<and> kings_ok b"

lemma get_valid:
  "isValidPosition p \<Longrightarrow> getPieceTypeAtPosition b p = positions b ! nat (cell_index p)"
  using cell_index_range [of p] by (simp add: getPieceTypeAtPosition_def)

lemma get_setInternal [board_simps]:
  "wf_board b \<Longrightarrow>
    getPieceTypeAtPosition (setInternal t p b) q =
      (if cell_index q = cell_index p then t else getPieceTypeAtPosition b q)"
  by (auto simp: getPieceTypeAtPosition_def setInternal_def Let_def wf_board_def nth_list_update
      nat_eq_iff)

lemma setInternal_frame [board_simps]:
  "blackKingPosition (setInternal t p b) = blackKingPosition b"
  "whiteKingPosition (setInternal t p b) = whiteKingPosition b"
  "score (setInternal t p b) = score b"
  "lastMove (setInternal t p b) = lastMove b"
  "wf_board (setInternal t p b) \<longleftrightarrow> wf_board b"
  by (simp_all add: setInternal_def Let_def wf_board_def)

lemma setKing_frame [board_simps]:
  "positions (setKingPositionIfNeeded t p b) = positions b"
  "score (setKingPositionIfNeeded t p b) = score b"
  "lastMove (setKingPositionIfNeeded t p b) = lastMove b"
  "beyond (setKingPositionIfNeeded t p b) = beyond b"
  "getPieceTypeAtPosition (setKingPositionIfNeeded t p b) q = getPieceTypeAtPosition b q"
  "wf_board (setKingPositionIfNeeded t p b) \<longleftrightarrow> wf_board b"
  by (simp_all add: setKingPositionIfNeeded_def wf_board_def getPieceTypeAtPosition_def Let_def
      split: ptype.split)

lemma Board_set_frame [board_simps]:
  "score (Board_set t p b) = score b"
  "lastMove (Board_set t p b) = lastMove b"
  "wf_board (Board_set t p b) \<longleftrightarrow> wf_board b"
  by (simp_all add: Board_set_def board_simps)

lemma Board_set_kings [board_simps]:
  "blackKingPosition (Board_set t p b) = (if t = B_KING then p else blackKingPosition b)"
  "whiteKingPosition (Board_set t p b) = (if t = W_KING then p else whiteKingPosition b)"
  by (simp_all add: Board_set_def setKingPositionIfNeeded_def board_simps split: ptype.split)

lemma get_Board_set:
  "wf_board b \<Longrightarrow>
    getPieceTypeAtPosition (Board_set t p b) q =
      (if cell_index q = cell_index p then t else getPieceTypeAtPosition b q)"
  by (simp add: Board_set_def board_simps)

lemma get_Board_set_valid [board_simps]:
  "wf_board b \<Longrightarrow> isValidPosition p \<Longrightarrow> isValidPosition q \<Longrightarrow>
    getPieceTypeAtPosition (Board_set t p b) q =
      (if q = p then t else getPieceTypeAtPosition b q)"
  by (simp add: get_Board_set cell_index_inj)

lemma beyond_Board_set [board_simps]:
  "isValidPosition p \<Longrightarrow> beyond (Board_set t p b) = beyond b"
  using cell_index_range [of p] by (simp add: Board_set_def setInternal_def board_simps Let_def)

lemma isEmpty_simps [board_simps]:
  "isEmpty (b\<lparr>lastMove := m\<rparr>) p = isEmpty b p" "isEmpty (b\<lparr>score := s\<rparr>) p = isEmpty b p"
  by (simp_all add: isEmpty_def getPieceTypeAtPosition_def Let_def)

lemma get_update_frame [simp]:
  "getPieceTypeAtPosition (b\<lparr>lastMove := m\<rparr>) p = getPieceTypeAtPosition b p"
  "getPieceTypeAtPosition (b\<lparr>score := s\<rparr>) p = getPieceTypeAtPosition b p"
  "getPieceTypeAtPosition (b\<lparr>blackKingPosition := k\<rparr>) p = getPieceTypeAtPosition b p"
  "getPieceTypeAtPosition (b\<lparr>whiteKingPosition := k\<rparr>) p = getPieceTypeAtPosition b p"
  "wf_board (b\<lparr>lastMove := m\<rparr>) = wf_board b" "wf_board (b\<lparr>score := s\<rparr>) = wf_board b"
  "wf_board (b\<lparr>blackKingPosition := k\<rparr>) = wf_board b"
  "wf_board (b\<lparr>whiteKingPosition := k\<rparr>) = wf_board b"
  by (simp_all add: getPieceTypeAtPosition_def wf_board_def Let_def)

lemma kings_ok_update [simp]:
  "kings_ok (b\<lparr>lastMove := m\<rparr>) = kings_ok b" "kings_ok (b\<lparr>score := s\<rparr>) = kings_ok b"
  "board_ok (b\<lparr>lastMove := m\<rparr>) = board_ok b" "board_ok (b\<lparr>score := s\<rparr>) = board_ok b"
  by (simp_all add: kings_ok_def board_ok_def)

lemma kings_ok_iff:
  "kings_ok b \<longleftrightarrow>
     isValidPosition (blackKingPosition b) \<and> isValidPosition (whiteKingPosition b) \<and>
     (\<forall>p. isValidPosition p \<longrightarrow>
        (getPieceTypeAtPosition b p = B_KING \<longleftrightarrow> p = blackKingPosition b) \<and>
        (getPieceTypeAtPosition b p = W_KING \<longleftrightarrow> p = whiteKingPosition b))"
  by (simp add: kings_ok_def list_all_iff Ball_def del: split_paired_All)

lemma board_okD:
  assumes "board_ok b"
  shows "wf_board b" "kings_ok b"
    "isValidPosition (blackKingPosition b)" "isValidPosition (whiteKingPosition b)"
    "isValidPosition p \<Longrightarrow> getPieceTypeAtPosition b p = B_KING \<longleftrightarrow> p = blackKingPosition b"
    "isValidPosition p \<Longrightarrow> getPieceTypeAtPosition b p = W_KING \<longleftrightarrow> p = whiteKingPosition b"
  using assms by (auto simp: board_ok_def kings_ok_iff simp del: split_paired_All)

text \<open>Two well-formed boards that agree on every square have the same cells.\<close>

lemma nth_cell: "i < 64 \<Longrightarrow> \<exists>p. isValidPosition p \<and> nat (cell_index p) = i"
proof -
  assume "i < 64"
  then have "isValidPosition (int (i div 8), int (i mod 8))" by simp
  moreover have "nat (cell_index (int (i div 8), int (i mod 8))) = i"
    by (simp add: cell_index_def nat_add_distrib nat_mult_distrib)
  ultimately show ?thesis by blast
qed

lemma positions_eqI:
  assumes "wf_board b" and "wf_board b'"
    and "\<And>p. isValidPosition p \<Longrightarrow> getPieceTypeAtPosition b p = getPieceTypeAtPosition b' p"
  shows "positions b = positions b'"
proof (rule nth_equalityI)
  show "length (positions b) = length (positions b')"
    using assms by (simp add: wf_board_def)
  fix i assume "i < length (positions b)"
  then have "i < 64" using assms by (simp add: wf_board_def)
  then obtain p where "isValidPosition p" "nat (cell_index p) = i"
    using nth_cell by blast
  with assms(3) [of p] show "positions b ! i = positions b' ! i"
    by (simp add: get_valid)
qed

lemma board_eqI:
  assumes "wf_board b" and "wf_board b'"
    and "\<And>p. isValidPosition p \<Longrightarrow> getPieceTypeAtPosition b p = getPieceTypeAtPosition b' p"
    and "blackKingPosition b = blackKingPosition b'"
    and "whiteKingPosition b = whiteKingPosition b'"
    and "score b = score b'" and "lastMove b = lastMove b'" and "beyond b = beyond b'"
  shows "(b :: board) = b'"
  using positions_eqI [OF assms(1-3)] assms(4-) by (cases b; cases b'; simp)

lemma memcmp_cells_eq_0:
  "length ss = length ts \<Longrightarrow> memcmp_cells ss ts = 0 \<longleftrightarrow> ss = ts"
  by (induction ss ts rule: memcmp_cells.induct) auto

lemma wf_empty_board [simp]: "wf_board (empty_board out)"
  by (simp add: empty_board_def wf_board_def)

lemma Board_add_Inr: "t \<noteq> EMPTY \<Longrightarrow> Board_add t p b = Inr (Board_set t p b)"
  by (simp add: Board_add_def)

text \<open>The board with the given pieces and no last move; the examples are written with it.\<close>

definition board_of :: "(ptype \<times> position) list \<Rightarrow> board" where
  "board_of ps = fold (\<lambda>(t, p). Board_set t p) ps (empty_board (\<lambda>_. EMPTY))"

end
