(* ===== verification/Move_Ops.thy ===== *)
theory Move_Ops
  imports Board_State
begin

text \<open>
  \<open>chess/move.cc\<close>: the constructor of \<open>Move\<close>, \<open>apply\<close> and \<open>undo\<close> with their en passant and
  castling parts. The main result is that \<open>undo\<close> reverts \<open>apply\<close>; the search relies on it
  because \<open>TryMove\<close> (\<open>chess/one_round.cc\<close>) applies every candidate move to one scratch board
  and takes it back.
\<close>

section \<open>Operations\<close>

definition new_Move :: "board \<Rightarrow> SpecialType \<Rightarrow> position \<Rightarrow> position \<Rightarrow> move" where
  "new_Move b sp from to = \<lparr>special = sp, from_pos = from, to_pos = to,
     fromType = getPieceTypeAtPosition b from, toType = getPieceTypeAtPosition b to\<rparr>"

definition getCastlingRookPos :: "move \<Rightarrow> (position \<times> position) result" where
  "getCastlingRookPos m =
     rbind (CHECK (special m = KING_CASTLING) NotCastling) (\<lambda>_.
       let cols = (if snd (to_pos m) = 2 then (0, 3) else (7, 5))
       in Inr ((fst (from_pos m), fst cols), (fst (from_pos m), snd cols)))"

definition setupEnPassant :: "move \<Rightarrow> board \<Rightarrow> board result" where
  "setupEnPassant m b =
     (if fromType m = B_PAWN then
        let ep = mk_pos (fst (to_pos m) + 1) (snd (to_pos m))
        in rbind (CHECK (getPieceTypeAtPosition b ep = W_PAWN) EnPassantNoWhitePawn)
             (\<lambda>_. Inr (Board_set EMPTY ep b))
      else
        rbind (CHECK (fromType m = W_PAWN) EnPassantNotPawn) (\<lambda>_.
          let ep = mk_pos (fst (to_pos m) - 1) (snd (to_pos m))
          in rbind (CHECK (getPieceTypeAtPosition b ep = B_PAWN) EnPassantNoBlackPawn)
               (\<lambda>_. Inr (Board_set EMPTY ep b))))"

definition undoEnPassant :: "move \<Rightarrow> board \<Rightarrow> board" where
  "undoEnPassant m b =
     (if fromType m = B_PAWN
      then Board_set W_PAWN (mk_pos (fst (to_pos m) + 1) (snd (to_pos m))) b
      else Board_set B_PAWN (mk_pos (fst (to_pos m) - 1) (snd (to_pos m))) b)"

definition setupCastling :: "move \<Rightarrow> board \<Rightarrow> board result" where
  "setupCastling m b =
     rbind (getCastlingRookPos m) (\<lambda>(pre, post).
       let rType = getPieceTypeAtPosition b pre
       in Inr (Board_set rType post (Board_set EMPTY pre b)))"

definition undoCastling :: "move \<Rightarrow> board \<Rightarrow> board result" where
  "undoCastling m b =
     rbind (getCastlingRookPos m) (\<lambda>(pre, post).
       let rType = getPieceTypeAtPosition b post
       in Inr (Board_set rType pre (Board_set EMPTY post b)))"

definition Move_apply :: "move \<Rightarrow> board \<Rightarrow> board result" where
  "Move_apply m b0 =
     (let b = Board_set EMPTY (from_pos m) b0
      in case special m of
           QUEEN_PROMOTION \<Rightarrow> Inr (Board_set (getSameQueenType (fromType m)) (to_pos m) b)
         | KNIGHT_PROMOTION \<Rightarrow> Inr (Board_set (getSameKnightType (fromType m)) (to_pos m) b)
         | PAWN_EN_PASSANT \<Rightarrow>
             rbind (setupEnPassant m b) (\<lambda>b1. Inr (Board_set (fromType m) (to_pos m) b1))
         | KING_CASTLING \<Rightarrow>
             rbind (setupCastling m b) (\<lambda>b1. Inr (Board_set (fromType m) (to_pos m) b1))
         | NORMAL_MOVE \<Rightarrow>
             rbind (CHECK (fromType m \<noteq> EMPTY) MoveEmpty)
               (\<lambda>_. Inr (Board_set (fromType m) (to_pos m) b)))"

definition Move_undo :: "move \<Rightarrow> board \<Rightarrow> board result" where
  "Move_undo m b0 =
     (let b = Board_set (fromType m) (from_pos m) (Board_set (toType m) (to_pos m) b0)
      in if special m = PAWN_EN_PASSANT then Inr (undoEnPassant m b)
         else if special m = KING_CASTLING then undoCastling m b
         else Inr b)"

section \<open>Moves that fit a board\<close>

text \<open>
  \<open>move_fits\<close> is what every generator of the program guarantees about a move it builds for a
  board: its squares are on the board and distinct, it carries what stands on them, it does
  not capture a king, and the special kinds have their shape: a promotion is a pawn's, an en
  passant capture lands on an empty square beside the pawn it takes.
\<close>

definition ep_victim :: "move \<Rightarrow> position" where
  "ep_victim m = (fst (to_pos m) + (if fromType m = B_PAWN then 1 else - 1), snd (to_pos m))"

definition ep_shape :: "board \<Rightarrow> move \<Rightarrow> bool" where
  "ep_shape b m \<longleftrightarrow>
     fromType m \<in> {W_PAWN, B_PAWN} \<and> isValidPosition (ep_victim m) \<and>
     ep_victim m \<noteq> from_pos m \<and>
     getPieceTypeAtPosition b (ep_victim m) = (if fromType m = B_PAWN then W_PAWN else B_PAWN)"

definition move_fits :: "board \<Rightarrow> move \<Rightarrow> bool" where
  "move_fits b m \<longleftrightarrow>
     isValidPosition (from_pos m) \<and> isValidPosition (to_pos m) \<and> from_pos m \<noteq> to_pos m \<and>
     fromType m = getPieceTypeAtPosition b (from_pos m) \<and>
     toType m = getPieceTypeAtPosition b (to_pos m) \<and>
     fromType m \<noteq> EMPTY \<and> \<not> isSameColor (fromType m) (toType m) \<and>
     (special m = PAWN_EN_PASSANT \<longrightarrow> ep_shape b m) \<and>
     (special m \<in> {QUEEN_PROMOTION, KNIGHT_PROMOTION} \<longrightarrow> fromType m \<in> {W_PAWN, B_PAWN}) \<and>
     special m \<noteq> KING_CASTLING"

lemma ep_victim_mk_pos:
  "isValidPosition (to_pos m) \<Longrightarrow>
    ep_victim m =
      (if fromType m = B_PAWN then mk_pos (fst (to_pos m) + 1) (snd (to_pos m))
       else mk_pos (fst (to_pos m) - 1) (snd (to_pos m)))"
  by (cases "to_pos m") (auto simp: ep_victim_def)

text \<open>What stands where after a fitting move: one equation for every kind of move.\<close>

definition moved :: "move \<Rightarrow> board \<Rightarrow> board" where
  "moved m b =
     Board_set (newType m) (to_pos m)
       (if special m = PAWN_EN_PASSANT
        then Board_set EMPTY (ep_victim m) (Board_set EMPTY (from_pos m) b)
        else Board_set EMPTY (from_pos m) b)"

lemma Move_apply_moved:
  assumes "wf_board b" and "move_fits b m"
  shows "Move_apply m b = Inr (moved m b)"
proof (cases "special m = PAWN_EN_PASSANT")
  case True
  have vict: "isValidPosition (ep_victim m)" "ep_victim m \<noteq> from_pos m"
    "getPieceTypeAtPosition b (ep_victim m) = (if fromType m = B_PAWN then W_PAWN else B_PAWN)"
    "fromType m = B_PAWN \<or> fromType m = W_PAWN"
    using assms True by (auto simp: move_fits_def ep_shape_def)
  have "getPieceTypeAtPosition (Board_set EMPTY (from_pos m) b) (ep_victim m) =
      (if fromType m = B_PAWN then W_PAWN else B_PAWN)"
    using assms vict by (simp add: move_fits_def board_simps)
  with vict True assms show ?thesis
    by (auto simp: Move_apply_def moved_def setupEnPassant_def newType_def Let_def move_fits_def
        ep_victim_mk_pos)
next
  case False
  with assms show ?thesis
    by (auto simp: Move_apply_def moved_def newType_def move_fits_def Let_def
        split: SpecialType.split)
qed

lemma moved_frame [board_simps]:
  "wf_board (moved m b) \<longleftrightarrow> wf_board b"
  "score (moved m b) = score b" "lastMove (moved m b) = lastMove b"
  by (simp_all add: moved_def board_simps)

lemma get_moved:
  assumes "wf_board b" and "move_fits b m" and "isValidPosition q"
  shows "getPieceTypeAtPosition (moved m b) q =
    (if q = to_pos m then newType m
     else if q = from_pos m \<or> special m = PAWN_EN_PASSANT \<and> q = ep_victim m then EMPTY
     else getPieceTypeAtPosition b q)"
  using assms by (auto simp: moved_def move_fits_def ep_shape_def board_simps)

lemma newType_colour: "isBlack (newType m) = isBlack (fromType m)"
  by (simp add: newType_def split: SpecialType.split)

lemma newType_not_EMPTY: "fromType m \<noteq> EMPTY \<Longrightarrow> newType m \<noteq> EMPTY"
  by (simp add: newType_def getSameQueenType_def getSameKnightType_def
      split: SpecialType.split)

lemma newType_king:
  "move_fits b m \<Longrightarrow> newType m = K \<longleftrightarrow> fromType m = K" if "K \<in> {W_KING, B_KING}" for K
  using that by (auto simp: newType_def move_fits_def getSameQueenType_def getSameKnightType_def
      split: SpecialType.splits)

section \<open>Taking a move back\<close>

text \<open>
  \<open>castle_fits\<close> is the shape of a castling move: the king leaves column 4 for column 2 or 6
  of its row, over an empty rook target square to an empty square.
\<close>

definition castle_fits :: "board \<Rightarrow> move \<Rightarrow> bool" where
  "castle_fits b m \<longleftrightarrow>
     special m = KING_CASTLING \<and> fromType m \<in> {W_KING, B_KING} \<and>
     (\<exists>r \<in> {0..7}. from_pos m = (r, 4) \<and>
        (to_pos m = (r, 2) \<and> getPieceTypeAtPosition b (r, 3) = EMPTY \<or>
         to_pos m = (r, 6) \<and> getPieceTypeAtPosition b (r, 5) = EMPTY)) \<and>
     fromType m = getPieceTypeAtPosition b (from_pos m) \<and>
     toType m = EMPTY \<and> getPieceTypeAtPosition b (to_pos m) = EMPTY"

lemma undo_moved:
  assumes ok: "board_ok b" and fits: "move_fits b m"
  shows "Move_undo m (moved m b) = Inr b"
proof -
  define b1 where "b1 = Board_set (fromType m) (from_pos m) (Board_set (toType m) (to_pos m) (moved m b))"
  define b2 where "b2 = (if special m = PAWN_EN_PASSANT
      then Board_set (if fromType m = B_PAWN then W_PAWN else B_PAWN) (ep_victim m) b1 else b1)"
  have wf: "wf_board b" using ok by (simp add: board_ok_def)
  have val: "isValidPosition (from_pos m)" "isValidPosition (to_pos m)"
    "special m = PAWN_EN_PASSANT \<Longrightarrow> isValidPosition (ep_victim m)"
    using fits by (auto simp: move_fits_def ep_shape_def)
  have undo: "Move_undo m (moved m b) = Inr b2"
    using fits val by (auto simp: Move_undo_def b2_def b1_def undoEnPassant_def move_fits_def
        ep_victim_mk_pos Let_def)
  have "b2 = b"
  proof (rule board_eqI)
    show "wf_board b2" "wf_board b"
      using wf by (simp_all add: b2_def b1_def board_simps)
    show "getPieceTypeAtPosition b2 p = getPieceTypeAtPosition b p" if "isValidPosition p" for p
      using that wf val fits
      by (auto simp: b2_def b1_def board_simps get_moved move_fits_def ep_shape_def)
    show "blackKingPosition b2 = blackKingPosition b"
      using fits board_okD(5) [OF ok val(1)] board_okD(5) [OF ok val(2)]
      by (auto simp: b2_def b1_def moved_def board_simps newType_king [of _ b] move_fits_def)
    show "whiteKingPosition b2 = whiteKingPosition b"
      using fits board_okD(6) [OF ok val(1)] board_okD(6) [OF ok val(2)]
      by (auto simp: b2_def b1_def moved_def board_simps newType_king [of _ b] move_fits_def)
  qed (use val in \<open>simp_all add: b2_def b1_def moved_def board_simps\<close>)
  with undo show ?thesis by simp
qed

lemma undo_castling:
  assumes ok: "board_ok b" and fits: "castle_fits b m"
  shows "rbind (Move_apply m b) (Move_undo m) = Inr b"
proof -
  obtain r pre post where r: "0 \<le> r" "r \<le> 7" and frm: "from_pos m = (r, 4)"
    and cols: "(pre, post) \<in> {(0, 3), (7, 5)}" and to: "to_pos m = (r, if pre = 0 then 2 else 6)"
    and post: "getPieceTypeAtPosition b (r, post) = EMPTY"
    and rook: "getCastlingRookPos m = Inr ((r, pre), (r, post))"
    using fits by (fastforce simp: castle_fits_def getCastlingRookPos_def Let_def)
  define rt where "rt = getPieceTypeAtPosition b (r, pre)"
  define k where "k = fromType m"
  define b1 where "b1 = Board_set k (to_pos m) (Board_set rt (r, post)
      (Board_set EMPTY (r, pre) (Board_set EMPTY (r, 4) b)))"
  define b2 where "b2 = Board_set k (r, 4) (Board_set EMPTY (to_pos m) b1)"
  define b3 where "b3 = Board_set rt (r, pre) (Board_set EMPTY (r, post) b2)"
  have sp: "special m = KING_CASTLING" and k: "k \<in> {W_KING, B_KING}"
    and cell: "getPieceTypeAtPosition b (r, 4) = k" and tt: "toType m = EMPTY"
    and te: "getPieceTypeAtPosition b (to_pos m) = EMPTY"
    using fits frm by (auto simp: castle_fits_def k_def)
  have wf: "wf_board b" using ok by (simp add: board_ok_def)
  have "Move_apply m b = Inr b1"
    using sp rook frm r wf cols to
    by (auto simp: Move_apply_def setupCastling_def b1_def rt_def k_def board_simps Let_def)
  moreover have "getPieceTypeAtPosition b2 (r, post) = rt"
    using r wf cols to by (auto simp: b1_def b2_def board_simps)
  then have "Move_undo m b1 = Inr b3"
    using sp rook frm tt by (simp add: Move_undo_def undoCastling_def b2_def b3_def k_def Let_def)
  moreover have "b3 = b"
  proof (rule board_eqI)
    show "getPieceTypeAtPosition b3 p = getPieceTypeAtPosition b p" if "isValidPosition p" for p
      using that wf r cols to cell post te
      by (auto simp: b3_def b2_def b1_def rt_def board_simps)
    have val: "isValidPosition (r, 4)" "isValidPosition (r, pre)"
      using r cols by auto
    show "blackKingPosition b3 = blackKingPosition b"
      using board_okD(5) [OF ok val(1)] board_okD(5) [OF ok val(2)] cell
      by (auto simp: b3_def b2_def b1_def rt_def board_simps)
    show "whiteKingPosition b3 = whiteKingPosition b"
      using board_okD(6) [OF ok val(1)] board_okD(6) [OF ok val(2)] cell
      by (auto simp: b3_def b2_def b1_def rt_def board_simps)
  qed (use r cols to wf in \<open>auto simp: b3_def b2_def b1_def board_simps\<close>)
  ultimately show ?thesis by simp
qed

text \<open>A fitting move that takes no king keeps the kings' fields right.\<close>

lemma moved_board_ok:
  assumes "board_ok b" and fits: "move_fits b m" and "toType m \<notin> {W_KING, B_KING}"
  shows "board_ok (moved m b)"
proof -
  have wf: "wf_board b" using assms by (simp add: board_ok_def)
  have val: "isValidPosition (from_pos m)" "isValidPosition (to_pos m)"
    using fits by (auto simp: move_fits_def)
  have kings: "blackKingPosition (moved m b) = (if fromType m = B_KING then to_pos m else blackKingPosition b)"
    "whiteKingPosition (moved m b) = (if fromType m = W_KING then to_pos m else whiteKingPosition b)"
    using fits by (auto simp: moved_def board_simps newType_king [of _ b])
  have from_king: "fromType m = B_KING \<longleftrightarrow> from_pos m = blackKingPosition b"
    "fromType m = W_KING \<longleftrightarrow> from_pos m = whiteKingPosition b"
    using fits board_okD(5,6) [OF assms(1) val(1)] by (simp_all add: move_fits_def)
  have to_king: "to_pos m \<noteq> blackKingPosition b" "to_pos m \<noteq> whiteKingPosition b"
    using fits assms(3) board_okD(5,6) [OF assms(1) val(2)] by (auto simp: move_fits_def)
  have "(getPieceTypeAtPosition (moved m b) p = B_KING \<longleftrightarrow> p = blackKingPosition (moved m b)) \<and>
    (getPieceTypeAtPosition (moved m b) p = W_KING \<longleftrightarrow> p = whiteKingPosition (moved m b))"
    if p: "isValidPosition p" for p
  proof -
    note pk = board_okD(5,6) [OF assms(1) p] and cell = get_moved [OF wf fits p]
    consider "p = to_pos m" | "p \<noteq> to_pos m" "p = from_pos m"
      | "p \<noteq> to_pos m" "p \<noteq> from_pos m" "special m = PAWN_EN_PASSANT" "p = ep_victim m"
      | "p \<noteq> to_pos m" "p \<noteq> from_pos m" "\<not> (special m = PAWN_EN_PASSANT \<and> p = ep_victim m)"
      by blast
    then show ?thesis
    proof cases
      case 1
      then show ?thesis
        using to_king cell
        by (simp add: kings newType_king [OF _ fits])
    next
      case 2
      then show ?thesis
        using from_king cell by (auto simp: kings)
    next
      case 3
      then have "getPieceTypeAtPosition b p \<in> {W_PAWN, B_PAWN}"
        using fits by (auto simp: move_fits_def ep_shape_def)
      with 3 pk cell show ?thesis
        by (auto simp: kings)
    next
      case 4
      with pk from_king cell show ?thesis
        by (cases "fromType m = B_KING"; cases "fromType m = W_KING") (simp_all add: kings)
    qed
  qed
  with wf val board_okD(3,4) [OF assms(1)] show ?thesis
    by (simp add: board_ok_def kings_ok_iff board_simps kings del: split_paired_All)
qed

end
