(* ===== verification/Piece_Attack.thy ===== *)
theory Piece_Attack
  imports Move_Ops
begin

text \<open>
  Attacks: \<open>Piece::checkCanAttackLine\<close> (\<open>chess/piece.cc\<close>) and \<open>canAttack\<close> of the seven piece
  classes (\<open>chess/bishop.cc\<close>, \<open>rook.cc\<close>, \<open>queen.cc\<close>, \<open>knight.cc\<close>, \<open>king.cc\<close>, \<open>wpawn.cc\<close>,
  \<open>bpawn.cc\<close>). The geometric reading \<open>line_reach\<close> of a line attack (some number of unit steps
  leads to the target over empty squares) is the specification the loops are shown to meet.
\<close>

section \<open>Walking along a line\<close>

text \<open>
  How many more steps a walk can take before it leaves the board. It bounds the loops of
  \<open>checkCanAttackLine\<close>, \<open>addMovesFromLine\<close> and \<open>canMove\<close>. The only walk that would not stop is
  the one with the zero step over an empty board; no caller takes it, and the definitions
  below return at once for it.
\<close>

definition null_step :: "DeltaMove \<Rightarrow> bool" where
  "null_step s \<longleftrightarrow> i8 (dr s) = 0 \<and> i8 (dc s) = 0"

definition line_room :: "position \<Rightarrow> DeltaMove \<Rightarrow> nat" where
  "line_room p s = nat
     (if i8 (dr s) > 0 then 8 - fst p else if i8 (dr s) < 0 then fst p + 1
      else if i8 (dc s) > 0 then 8 - snd p else snd p + 1)"

lemma i8_step:
  assumes "0 \<le> r" "r < 8" "0 \<le> i8 (r + d)" "i8 (r + d) < 8"
  shows "i8 (r + d) = r + i8 d"
proof -
  have "(r - 128 + (d + 128) mod 256) mod 256 = (r - 128 + (d + 128)) mod 256"
    by (rule mod_add_right_eq)
  then have "i8 (r + d) = i8 (r + i8 d)"
    by (simp add: i8_cong) (simp add: i8_def algebra_simps)
  moreover have "i8 (r + i8 d) = (if r + i8 d < 128 then r + i8 d else r + i8 d - 256)"
    using assms(1,2) i8_range [of d] i8_wrap [of "r + i8 d"] by simp
  ultimately show ?thesis
    using assms i8_range [of d] by (simp split: if_splits)
qed

lemma step_from_valid:
  assumes "isValidPosition p" and "isValidPosition (step_from p s)"
  shows "step_from p s = (fst p + i8 (dr s), snd p + i8 (dc s))"
  using assms i8_step [of "fst p" "dr s"] i8_step [of "snd p" "dc s"]
  by (cases p) (simp add: step_from_def mk_pos_def)

lemma line_room_decreases:
  assumes "isValidPosition p" and "isValidPosition (step_from p s)" and "\<not> null_step s"
  shows "line_room (step_from p s) s < line_room p s"
  using assms step_from_valid [OF assms(1,2)]
  by (cases p) (auto simp: line_room_def null_step_def)

lemma line_room_bound: "isValidPosition p \<Longrightarrow> line_room p s \<le> 8"
  by (cases p) (auto simp: line_room_def)

function checkCanAttackLine :: "board \<Rightarrow> position \<Rightarrow> position \<Rightarrow> DeltaMove \<Rightarrow> bool" where
  "checkCanAttackLine b src tgt s =
     (let pos = step_from src s
      in if \<not> isValidPosition pos then False
         else if tgt = pos then True
         else if \<not> isEmpty b pos then False
         else if null_step s then False
         else checkCanAttackLine b pos tgt s)"
  by pat_completeness auto
termination
proof (relation "measure (\<lambda>(b, p, tgt, s). if isValidPosition p then line_room p s else 9)", goal_cases)
  case 1
  then show ?case by simp
next
  case (2 b src tgt s pos)
  then show ?case
    using line_room_decreases [of src s] line_room_bound [of pos s] by auto
qed

declare checkCanAttackLine.simps [simp del]

section \<open>Attacks of the piece classes\<close>

abbreviation delta :: "int \<Rightarrow> int \<Rightarrow> DeltaMove" where
  "delta r c \<equiv> \<lparr>dr = r, dc = c\<rparr>"

definition Bishop_canAttack :: "piece \<Rightarrow> board \<Rightarrow> position \<Rightarrow> bool" where
  "Bishop_canAttack p b target =
     (let current = position p;
          vr = i8 (fst target - fst current);
          vc = i8 (snd target - snd current)
      in if vr = vc then
           (let step = (if vr > 0 then 1 else - 1)
            in checkCanAttackLine b current target (delta step step))
         else if vr + vc = 0 then
           (if vr > 0 then checkCanAttackLine b current target (delta 1 (- 1))
            else checkCanAttackLine b current target (delta (- 1) 1))
         else False)"

definition Rook_canAttack :: "piece \<Rightarrow> board \<Rightarrow> position \<Rightarrow> bool" where
  "Rook_canAttack p b target =
     (let current = position p;
          vr = i8 (fst target - fst current);
          vc = i8 (snd target - snd current)
      in if vr = 0 then checkCanAttackLine b current target (delta 0 (if vc > 0 then 1 else - 1))
         else if vc = 0 then checkCanAttackLine b current target (delta (if vr > 0 then 1 else - 1) 0)
         else False)"

definition Queen_canAttack :: "piece \<Rightarrow> board \<Rightarrow> position \<Rightarrow> bool" where
  "Queen_canAttack p b target =
     (let current = position p;
          vr = i8 (fst target - fst current);
          vc = i8 (snd target - snd current)
      in if vr = 0 then checkCanAttackLine b current target (delta 0 (if vc > 0 then 1 else - 1))
         else if vc = 0 then checkCanAttackLine b current target (delta (if vr > 0 then 1 else - 1) 0)
         else if vr = vc then
           (let step = (if vr > 0 then 1 else - 1)
            in checkCanAttackLine b current target (delta step step))
         else if vr + vc = 0 then
           (if vr > 0 then checkCanAttackLine b current target (delta 1 (- 1))
            else checkCanAttackLine b current target (delta (- 1) 1))
         else False)"

definition Knight_canAttack :: "piece \<Rightarrow> board \<Rightarrow> position \<Rightarrow> bool" where
  "Knight_canAttack p b target =
     (let current = position p;
          vr = i8 (fst target - fst current);
          vc = i8 (snd target - snd current);
          area = vr * vc
      in area = 2 \<or> area = - 2)"

definition King_canAttack :: "piece \<Rightarrow> board \<Rightarrow> position \<Rightarrow> bool" where
  "King_canAttack p b pos =
     (if pos = position p then False
      else let vr = i8 (fst pos - row p);
               vc = i8 (snd pos - col p)
           in (vr \<le> 1 \<and> vr \<ge> - 1) \<and> (vc \<le> 1 \<and> vc \<ge> - 1))"

definition WPawn_canAttack :: "piece \<Rightarrow> board \<Rightarrow> position \<Rightarrow> bool" where
  "WPawn_canAttack p b pos =
     (let vc = i8 (col p - snd pos)
      in fst pos = row p + 1 \<and> (vc = 1 \<or> vc = - 1))"

definition BPawn_canAttack :: "piece \<Rightarrow> board \<Rightarrow> position \<Rightarrow> bool" where
  "BPawn_canAttack p b pos =
     (let vc = i8 (col p - snd pos)
      in fst pos = row p - 1 \<and> (vc = 1 \<or> vc = - 1))"

text \<open>The virtual call \<open>piece->canAttack(board, pos)\<close>. No object has the type \<open>EMPTY\<close>.\<close>

definition canAttack :: "piece \<Rightarrow> board \<Rightarrow> position \<Rightarrow> bool" where
  "canAttack p b pos =
     (case type p of
        W_PAWN \<Rightarrow> WPawn_canAttack p b pos
      | B_PAWN \<Rightarrow> BPawn_canAttack p b pos
      | W_ROOK \<Rightarrow> Rook_canAttack p b pos
      | B_ROOK \<Rightarrow> Rook_canAttack p b pos
      | W_BISHOP \<Rightarrow> Bishop_canAttack p b pos
      | B_BISHOP \<Rightarrow> Bishop_canAttack p b pos
      | W_QUEEN \<Rightarrow> Queen_canAttack p b pos
      | B_QUEEN \<Rightarrow> Queen_canAttack p b pos
      | W_KNIGHT \<Rightarrow> Knight_canAttack p b pos
      | B_KNIGHT \<Rightarrow> Knight_canAttack p b pos
      | W_KING \<Rightarrow> King_canAttack p b pos
      | B_KING \<Rightarrow> King_canAttack p b pos
      | EMPTY \<Rightarrow> False)"

section \<open>Line attacks, geometrically\<close>

definition along :: "position \<Rightarrow> DeltaMove \<Rightarrow> int \<Rightarrow> position" where
  "along p s k = (fst p + k * dr s, snd p + k * dc s)"

definition unit_step :: "DeltaMove \<Rightarrow> bool" where
  "unit_step s \<longleftrightarrow> dr s \<in> {- 1, 0, 1} \<and> dc s \<in> {- 1, 0, 1} \<and> \<not> (dr s = 0 \<and> dc s = 0)"

definition line_reach :: "board \<Rightarrow> position \<Rightarrow> position \<Rightarrow> DeltaMove \<Rightarrow> bool" where
  "line_reach b src tgt s \<longleftrightarrow>
     (\<exists>k \<ge> 1. tgt = along src s k \<and> isValidPosition tgt \<and>
        (\<forall>j. 1 \<le> j \<and> j < k \<longrightarrow> isEmpty b (along src s j)))"

lemma along_0 [simp]: "along p s 0 = p"
  by (simp add: along_def)

lemma along_along: "along (along p s j) s k = along p s (j + k)"
  by (simp add: along_def algebra_simps)

lemma unit_step_cases:
  assumes "unit_step s"
  obtains "dr s = 1" | "dr s = - 1" | "dr s = 0" "dc s = 1" | "dr s = 0" "dc s = - 1"
  using assms by (auto simp: unit_step_def)

lemma unit_stepD:
  assumes "unit_step s"
  shows "- 1 \<le> dr s" "dr s \<le> 1" "- 1 \<le> dc s" "dc s \<le> 1" "\<not> null_step s"
  using assms by (auto simp: unit_step_def null_step_def)

lemma step_from_along:
  "unit_step s \<Longrightarrow> isValidPosition p \<Longrightarrow> step_from p s = along p s 1"
  by (cases p) (auto simp: unit_step_def along_def step_from_def)

lemma valid_between:
  assumes "unit_step s" and "isValidPosition p" and "isValidPosition (along p s k)"
    and "0 \<le> j" and "j \<le> k"
  shows "isValidPosition (along p s j)"
  using assms by (cases p) (auto simp: unit_step_def along_def)

lemma along_inj:
  assumes "unit_step s"
  shows "along p s j = along p s k \<longleftrightarrow> j = k"
  using assms by (auto simp: unit_step_def along_def)

lemma checkCanAttackLine_iff:
  assumes "unit_step s" and "isValidPosition src"
  shows "checkCanAttackLine b src tgt s \<longleftrightarrow> line_reach b src tgt s"
  using assms
proof (induction b src tgt s rule: checkCanAttackLine.induct)
  case (1 b src tgt s)
  let ?pos = "along src s 1"
  have pos: "step_from src s = ?pos"
    using "1.prems" by (rule step_from_along)
  have unfold: "checkCanAttackLine b src tgt s =
      (isValidPosition ?pos \<and> (tgt = ?pos \<or> isEmpty b ?pos \<and> checkCanAttackLine b ?pos tgt s))"
    using unit_stepD(5) [OF "1.prems"(1)]
    by (subst checkCanAttackLine.simps) (auto simp: pos Let_def)
  show ?case
  proof (cases "isValidPosition ?pos \<and> tgt \<noteq> ?pos \<and> isEmpty b ?pos")
    case True
    with "1.IH" [OF pos [symmetric]] unit_stepD(5) [OF "1.prems"(1)] "1.prems"
    have "checkCanAttackLine b src tgt s \<longleftrightarrow> line_reach b ?pos tgt s"
      by (simp add: unfold pos)
    also have "\<dots> \<longleftrightarrow> line_reach b src tgt s"
    proof
      assume "line_reach b ?pos tgt s"
      then obtain k where k: "1 \<le> k" "tgt = along src s (1 + k)" "isValidPosition tgt"
        "\<forall>j. 1 \<le> j \<and> j < k \<longrightarrow> isEmpty b (along src s (1 + j))"
        by (auto simp: line_reach_def along_along)
      have "isEmpty b (along src s j)" if "1 \<le> j" "j < 1 + k" for j
        using that True k(4) [rule_format, of "j - 1"] by (cases "j = 1") auto
      with k show "line_reach b src tgt s"
        unfolding line_reach_def by (intro exI [of _ "1 + k"]) auto
    next
      assume "line_reach b src tgt s"
      then obtain k where k: "1 \<le> k" "tgt = along src s k" "isValidPosition tgt"
        "\<forall>j. 1 \<le> j \<and> j < k \<longrightarrow> isEmpty b (along src s j)"
        by (auto simp: line_reach_def)
      with True have "k \<noteq> 1" by auto
      with k show "line_reach b ?pos tgt s"
        unfolding line_reach_def by (intro exI [of _ "k - 1"]) (auto simp: along_along)
    qed
    finally show ?thesis .
  next
    case False
    have "k = 1" if "isValidPosition ?pos" "\<not> isEmpty b ?pos" "1 \<le> k"
      "\<forall>j. 1 \<le> j \<and> j < k \<longrightarrow> isEmpty b (along src s j)" for k
      using that by (metis order_le_less zero_less_one less_le_not_le)
    moreover have "isValidPosition ?pos" if "isValidPosition (along src s k)" "1 \<le> k" for k
      using valid_between [OF "1.prems" that(1), of 1] that(2) by simp
    ultimately show ?thesis
      using False by (auto simp: unfold line_reach_def)
  qed
qed

section \<open>Attacks of the classes, geometrically\<close>

text \<open>
  \<open>canAttackLine\<close> (\<open>chess/one_round.cc\<close>) tells which directions a piece type attacks along.
  With it the three line movers have one specification; the other pieces attack
  independently of what stands on the board.
\<close>

definition canAttackLine :: "ptype \<Rightarrow> DeltaMove \<Rightarrow> bool" where
  "canAttackLine t step =
     (let area = dr step * dc step
      in case t of
           B_QUEEN \<Rightarrow> True | W_QUEEN \<Rightarrow> True
         | B_ROOK \<Rightarrow> area = 0 | W_ROOK \<Rightarrow> area = 0
         | B_BISHOP \<Rightarrow> area = 1 \<or> area = - 1 | W_BISHOP \<Rightarrow> area = 1 \<or> area = - 1
         | _ \<Rightarrow> False)"

definition is_slider :: "ptype \<Rightarrow> bool" where
  "is_slider t \<longleftrightarrow> t \<in> {W_ROOK, B_ROOK, W_BISHOP, B_BISHOP, W_QUEEN, B_QUEEN}"

lemma canAttackLine_slider: "canAttackLine t s \<Longrightarrow> is_slider t"
  by (cases t) (auto simp: canAttackLine_def is_slider_def)

text \<open>A line attack on a square fixes its direction: the signs of the distances.\<close>

definition sign_step :: "position \<Rightarrow> position \<Rightarrow> DeltaMove" where
  "sign_step src tgt = delta (sgn (fst tgt - fst src)) (sgn (snd tgt - snd src))"

lemma line_reach_direction:
  assumes "unit_step s" and "line_reach b src tgt s"
  shows "s = sign_step src tgt"
proof -
  from assms(2) obtain k where "1 \<le> k" "tgt = along src s k"
    by (auto simp: line_reach_def)
  with assms(1) show ?thesis
    by (cases s) (auto simp: unit_step_def along_def sign_step_def)
qed

lemma line_reach_aligned:
  assumes "unit_step s" and "line_reach b src tgt s"
  shows "fst tgt = fst src \<or> snd tgt = snd src \<or>
    \<bar>fst tgt - fst src\<bar> = \<bar>snd tgt - snd src\<bar>"
proof -
  from assms(2) obtain k where "1 \<le> k" "tgt = along src s k"
    by (auto simp: line_reach_def)
  with assms(1) show ?thesis
    by (auto simp: unit_step_def along_def)
qed

lemma no_self_reach: "unit_step s \<Longrightarrow> \<not> line_reach b src src s"
  using along_inj [of s src 0] by (fastforce simp: line_reach_def)

lemma unit_step_delta [simp]: "unit_step (delta r c) \<longleftrightarrow>
    r \<in> {- 1, 0, 1} \<and> c \<in> {- 1, 0, 1} \<and> \<not> (r = 0 \<and> c = 0)"
  by (simp add: unit_step_def)

lemma unit_sign_step [simp]: "src \<noteq> tgt \<Longrightarrow> unit_step (sign_step src tgt)"
  by (cases src; cases tgt) (auto simp: sign_step_def unit_step_def sgn_if)

lemma slider_spec:
  assumes "isValidPosition src" and "isValidPosition tgt"
  shows "(\<exists>s. unit_step s \<and> P s \<and> line_reach b src tgt s) \<longleftrightarrow>
    src \<noteq> tgt \<and> P (sign_step src tgt) \<and> checkCanAttackLine b src tgt (sign_step src tgt)"
  using assms line_reach_direction no_self_reach
  by (metis checkCanAttackLine_iff unit_sign_step)

lemma checkCanAttackLine_self [simp]:
  "unit_step s \<Longrightarrow> isValidPosition src \<Longrightarrow> \<not> checkCanAttackLine b src src s"
  by (simp add: checkCanAttackLine_iff no_self_reach)

lemma Rook_canAttack_iff:
  assumes "isValidPosition (position p)" and "isValidPosition tgt"
  shows "Rook_canAttack p b tgt \<longleftrightarrow>
    (\<exists>s. unit_step s \<and> dr s * dc s = 0 \<and> line_reach b (position p) tgt s)"
  using assms unfolding slider_spec [OF assms]
  by (cases "position p"; cases tgt)
    (auto simp: Rook_canAttack_def sign_step_def sgn_if Let_def)

lemma Bishop_canAttack_iff:
  assumes "isValidPosition (position p)" and "isValidPosition tgt"
  shows "Bishop_canAttack p b tgt \<longleftrightarrow>
    (\<exists>s. unit_step s \<and> \<bar>dr s * dc s\<bar> = 1 \<and> line_reach b (position p) tgt s)"
proof (cases "\<bar>fst tgt - fst (position p)\<bar> = \<bar>snd tgt - snd (position p)\<bar>")
  case True
  then show ?thesis
    using assms unfolding slider_spec [OF assms]
    by (cases "position p"; cases tgt)
      (auto simp: Bishop_canAttack_def sign_step_def sgn_if Let_def abs_if split: if_splits)
next
  case False
  have "\<not> line_reach b (position p) tgt s" if "unit_step s" "\<bar>dr s * dc s\<bar> = 1" for s
    using False that by (auto simp: line_reach_def along_def abs_mult unit_step_def)
  with False assms show ?thesis
    by (cases "position p"; cases tgt) (auto simp: Bishop_canAttack_def Let_def)
qed

lemma Queen_canAttack_iff:
  assumes "isValidPosition (position p)" and "isValidPosition tgt"
  shows "Queen_canAttack p b tgt \<longleftrightarrow>
    (\<exists>s. unit_step s \<and> line_reach b (position p) tgt s)"
proof -
  have "Queen_canAttack p b tgt \<longleftrightarrow> Rook_canAttack p b tgt \<or> Bishop_canAttack p b tgt"
    using assms by (cases "position p"; cases tgt)
      (auto simp: Queen_canAttack_def Rook_canAttack_def Bishop_canAttack_def Let_def)
  moreover have "dr s * dc s = 0 \<or> \<bar>dr s * dc s\<bar> = 1" if "unit_step s" for s
    using that by (auto simp: unit_step_def)
  ultimately show ?thesis
    using Rook_canAttack_iff [OF assms, of b] Bishop_canAttack_iff [OF assms, of b] by blast
qed

lemma canAttack_slider:
  assumes "is_slider (type p)" and "isValidPosition (position p)" and "isValidPosition tgt"
  shows "canAttack p b tgt \<longleftrightarrow>
    (\<exists>s. unit_step s \<and> canAttackLine (type p) s \<and> line_reach b (position p) tgt s)"
proof -
  have "\<bar>x * y\<bar> = 1 \<longleftrightarrow> x * y = 1 \<or> x * y = - 1" for x y :: int
    by (auto simp: abs_if)
  then show ?thesis
    using assms(1) Rook_canAttack_iff [OF assms(2,3), of b] Bishop_canAttack_iff [OF assms(2,3), of b]
      Queen_canAttack_iff [OF assms(2,3), of b]
    by (auto simp: is_slider_def canAttack_def canAttackLine_def Let_def)
qed

lemma canAttack_leaper: "\<not> is_slider (type p) \<Longrightarrow> canAttack p b tgt = canAttack p b' tgt"
  by (auto simp: canAttack_def is_slider_def WPawn_canAttack_def BPawn_canAttack_def
      Knight_canAttack_def King_canAttack_def split: ptype.split)

text \<open>Attacks look at the board only through the emptiness of its squares.\<close>

lemma line_reach_cong:
  assumes "\<And>q. isValidPosition q \<Longrightarrow> isEmpty b q = isEmpty b' q"
    and "unit_step s" and "isValidPosition src"
  shows "line_reach b src tgt s = line_reach b' src tgt s"
proof -
  have "isEmpty b (along src s j) = isEmpty b' (along src s j)"
    if "isValidPosition (along src s k)" "1 \<le> j" "j < k" for j k
    using assms(1) valid_between [OF assms(2,3) that(1), of j] that(2,3) by simp
  then show ?thesis
    unfolding line_reach_def by blast
qed

lemma canAttack_cong:
  assumes "\<And>q. isValidPosition q \<Longrightarrow> isEmpty b q = isEmpty b' q"
    and "isValidPosition (position p)" and "isValidPosition tgt"
  shows "canAttack p b tgt = canAttack p b' tgt"
proof (cases "is_slider (type p)")
  case True
  show ?thesis
    unfolding canAttack_slider [OF True assms(2,3)]
    using line_reach_cong [OF assms(1) _ assms(2)] by blast
next
  case False
  then show ?thesis by (rule canAttack_leaper)
qed

text \<open>The same line seen from its target.\<close>

definition neg_step :: "DeltaMove \<Rightarrow> DeltaMove" where
  "neg_step s = delta (- dr s) (- dc s)"

lemma unit_neg_step [simp]: "unit_step (neg_step s) \<longleftrightarrow> unit_step s"
  by (auto simp: unit_step_def neg_step_def)

lemma neg_neg_step [simp]: "neg_step (neg_step s) = s"
  by (simp add: neg_step_def)

lemma along_neg: "along (along p s k) (neg_step s) j = along p s (k - j)"
  by (simp add: along_def neg_step_def algebra_simps)

lemma canAttackLine_neg [simp]: "canAttackLine t (neg_step s) = canAttackLine t s"
  by (simp add: canAttackLine_def neg_step_def Let_def split: ptype.split)

lemma line_reach_reverse:
  assumes "isValidPosition src" and "isValidPosition tgt" and "line_reach b src tgt s"
  shows "line_reach b tgt src (neg_step s)"
proof -
  from assms(3) obtain k where k: "1 \<le> k" "tgt = along src s k"
    "\<forall>j. 1 \<le> j \<and> j < k \<longrightarrow> isEmpty b (along src s j)"
    by (auto simp: line_reach_def)
  have "isEmpty b (along tgt (neg_step s) j)" if "1 \<le> j" "j < k" for j
    using k(3) [rule_format, of "k - j"] that by (simp add: k(2) along_neg)
  with k assms(1) show ?thesis
    unfolding line_reach_def by (intro exI [of _ k]) (auto simp: along_neg)
qed

lemma line_reach_sym:
  assumes "isValidPosition src" and "isValidPosition tgt"
  shows "line_reach b src tgt s \<longleftrightarrow> line_reach b tgt src (neg_step s)"
  using line_reach_reverse [OF assms, of b s] line_reach_reverse [OF assms(2,1), of b "neg_step s"]
  by auto

end
