(* ===== verification/Piece_Moves.thy ===== *)
theory Piece_Moves
  imports Piece_Attack
begin

text \<open>
  Move generation: \<open>Piece::canPlace\<close>, \<open>Piece::addMovesFromLine\<close> (\<open>chess/piece.cc\<close>) and
  \<open>getMoves\<close> of the seven piece classes. Generated moves are shown to fit the board they were
  generated for, and the generators of the non-pawns to produce exactly the attacked squares
  that do not hold a piece of the same colour.
\<close>

section \<open>Generators\<close>

text \<open>The command line flags the chess code reads.\<close>

record flags =
  allow_castling :: bool
  min_store_level :: int

definition canPlace :: "piece \<Rightarrow> board \<Rightarrow> position \<Rightarrow> bool" where
  "canPlace p b pos =
     (if \<not> isValidPosition pos then False
      else \<not> isSameColor (type p) (getPieceTypeAtPosition b pos))"

function addMovesFromLine_from :: "piece \<Rightarrow> board \<Rightarrow> DeltaMove \<Rightarrow> position \<Rightarrow> move list" where
  "addMovesFromLine_from p b s newPos =
     (if isValidPosition newPos then
        (if \<not> isSameColor (type p) (getPieceTypeAtPosition b newPos)
         then [new_Move b NORMAL_MOVE (position p) newPos] else [])
        @ (if \<not> isEmpty b newPos then []
           else if null_step s then []
           else addMovesFromLine_from p b s (step_from newPos s))
      else [])"
  by pat_completeness auto
termination
proof (relation "measure (\<lambda>(p, b, s, pos). if isValidPosition pos then Suc (line_room pos s) else 0)", goal_cases)
  case 1
  then show ?case by simp
next
  case (2 p b s newPos)
  then show ?case
    using line_room_decreases [of newPos s] by auto
qed

declare addMovesFromLine_from.simps [simp del]

definition addMovesFromLine :: "piece \<Rightarrow> board \<Rightarrow> DeltaMove \<Rightarrow> move list \<Rightarrow> move list" where
  "addMovesFromLine p b s moves =
     moves @ addMovesFromLine_from p b s (mk_pos (row p + dr s) (col p + dc s))"

definition Bishop_getMoves :: "piece \<Rightarrow> board \<Rightarrow> move list" where
  "Bishop_getMoves p b =
     (let moves = [];
          moves = addMovesFromLine p b (delta (- 1) (- 1)) moves;
          moves = addMovesFromLine p b (delta (- 1) 1) moves;
          moves = addMovesFromLine p b (delta 1 (- 1)) moves;
          moves = addMovesFromLine p b (delta 1 1) moves
      in moves)"

definition Rook_getMoves :: "piece \<Rightarrow> board \<Rightarrow> move list" where
  "Rook_getMoves p b =
     (let moves = [];
          moves = addMovesFromLine p b (delta 0 1) moves;
          moves = addMovesFromLine p b (delta 0 (- 1)) moves;
          moves = addMovesFromLine p b (delta 1 0) moves;
          moves = addMovesFromLine p b (delta (- 1) 0) moves
      in moves)"

definition Queen_getMoves :: "piece \<Rightarrow> board \<Rightarrow> move list" where
  "Queen_getMoves p b =
     (let moves = [];
          moves = addMovesFromLine p b (delta 0 1) moves;
          moves = addMovesFromLine p b (delta 0 (- 1)) moves;
          moves = addMovesFromLine p b (delta 1 0) moves;
          moves = addMovesFromLine p b (delta (- 1) 0) moves;
          moves = addMovesFromLine p b (delta (- 1) (- 1)) moves;
          moves = addMovesFromLine p b (delta (- 1) 1) moves;
          moves = addMovesFromLine p b (delta 1 (- 1)) moves;
          moves = addMovesFromLine p b (delta 1 1) moves
      in moves)"

text \<open>The loop over a table of jumps, shared by \<open>Knight::getMoves\<close> and \<open>King::getMoves\<close>.\<close>

definition jump_moves :: "piece \<Rightarrow> board \<Rightarrow> (int \<times> int) list \<Rightarrow> move list" where
  "jump_moves p b table =
     concat (map (\<lambda>(vr, vc).
       let newPos = mk_pos (row p + vr) (col p + vc)
       in if canPlace p b newPos then [new_Move b NORMAL_MOVE (position p) newPos] else []) table)"

definition kMoves :: "(int \<times> int) list" where
  "kMoves = [(- 1, - 2), (- 1, 2), (1, - 2), (1, 2), (- 2, - 1), (- 2, 1), (2, - 1), (2, 1)]"

definition Knight_getMoves :: "piece \<Rightarrow> board \<Rightarrow> move list" where
  "Knight_getMoves p b = jump_moves p b kMoves"

definition kDelta :: "(int \<times> int) list" where
  "kDelta = [(- 1, - 1), (- 1, 0), (- 1, 1), (0, - 1), (0, 1), (1, - 1), (1, 0), (1, 1)]"

definition origPos :: "piece \<Rightarrow> position" where
  "origPos p = (if type p = B_KING then (7, 4) else (0, 4))"

definition canCastle :: "piece \<Rightarrow> board \<Rightarrow> bool \<Rightarrow> bool" where
  "canCastle p b smaller =
     (if position p \<noteq> origPos p then False
      else
        let rookDelta = (if smaller then - 4 else 3);
            rType = getPieceTypeAtPosition b (mk_pos (row p) (col p + rookDelta))
        in if rType \<noteq> B_ROOK \<and> rType \<noteq> B_ROOK \<and> isSameColor rType (type p) then False
           else if smaller then list_all (\<lambda>i. isEmpty b (mk_pos (row p) (col p - i))) [0..3]
           else list_all (\<lambda>i. isEmpty b (mk_pos (row p) (col p + i))) [0..2])"

definition King_getMoves :: "flags \<Rightarrow> piece \<Rightarrow> board \<Rightarrow> move list" where
  "King_getMoves fl p b =
     jump_moves p b kDelta
     @ (if allow_castling fl then
          (if canCastle p b True
           then [new_Move b KING_CASTLING (position p) (mk_pos (row p) (col p - 2))] else [])
          @ (if canCastle p b False
             then [new_Move b KING_CASTLING (position p) (mk_pos (row p) (col p + 2))] else [])
        else [])"

definition WPawn_addMove :: "piece \<Rightarrow> board \<Rightarrow> position \<Rightarrow> move list" where
  "WPawn_addMove p b newPos =
     (if fst newPos \<noteq> 7 then [new_Move b NORMAL_MOVE (position p) newPos]
      else [new_Move b QUEEN_PROMOTION (position p) newPos,
            new_Move b KNIGHT_PROMOTION (position p) newPos])"

definition WPawn_getMoves :: "piece \<Rightarrow> board \<Rightarrow> move list" where
  "WPawn_getMoves p b =
     (let ahead = mk_pos (row p + 1) (col p);
          ahead2 = mk_pos (row p + 2) (col p);
          left = mk_pos (row p + 1) (col p - 1);
          right = mk_pos (row p + 1) (col p + 1);
          lm = lastMove b
      in (if canPlace p b ahead \<and> isEmpty b ahead then WPawn_addMove p b ahead else [])
         @ (if row p = 1 \<and> isEmpty b ahead then
              (if isEmpty b ahead2 \<and> canPlace p b ahead2
               then [new_Move b NORMAL_MOVE (position p) ahead2] else [])
            else [])
         @ (if \<not> isEmpty b left \<and> canPlace p b left then WPawn_addMove p b left else [])
         @ (if \<not> isEmpty b right \<and> canPlace p b right then WPawn_addMove p b right else [])
         @ (if row p = 4 \<and> fromType lm = B_PAWN \<and> fst (from_pos lm) = 6 \<and> fst (to_pos lm) = 4
               \<and> \<bar>snd (from_pos lm) - col p\<bar> = 1
            then [new_Move b PAWN_EN_PASSANT (position p) (mk_pos (row p + 1) (snd (from_pos lm)))]
            else []))"

definition BPawn_addMove :: "piece \<Rightarrow> board \<Rightarrow> position \<Rightarrow> move list" where
  "BPawn_addMove p b newPos =
     (if fst newPos \<noteq> 0 then [new_Move b NORMAL_MOVE (position p) newPos]
      else [new_Move b QUEEN_PROMOTION (position p) newPos,
            new_Move b KNIGHT_PROMOTION (position p) newPos])"

definition BPawn_getMoves :: "piece \<Rightarrow> board \<Rightarrow> move list" where
  "BPawn_getMoves p b =
     (let ahead = mk_pos (row p - 1) (col p);
          ahead2 = mk_pos (row p - 2) (col p);
          left = mk_pos (row p - 1) (col p + 1);
          right = mk_pos (row p - 1) (col p - 1);
          lm = lastMove b
      in (if canPlace p b ahead \<and> isEmpty b ahead then BPawn_addMove p b ahead else [])
         @ (if row p = 6 \<and> isEmpty b ahead then
              (if isEmpty b ahead2 \<and> canPlace p b ahead2
               then [new_Move b NORMAL_MOVE (position p) ahead2] else [])
            else [])
         @ (if \<not> isEmpty b left \<and> canPlace p b left then BPawn_addMove p b left else [])
         @ (if \<not> isEmpty b right \<and> canPlace p b right then BPawn_addMove p b right else [])
         @ (if row p = 3 \<and> fromType lm = W_PAWN \<and> fst (from_pos lm) = 1 \<and> fst (to_pos lm) = 3
               \<and> \<bar>i8 (snd (from_pos lm) - col p)\<bar> = 1
            then [new_Move b PAWN_EN_PASSANT (position p) (mk_pos (row p - 1) (snd (from_pos lm)))]
            else []))"

text \<open>The virtual call \<open>piece->getMoves(board)\<close>.\<close>

definition getMoves :: "flags \<Rightarrow> piece \<Rightarrow> board \<Rightarrow> move list" where
  "getMoves fl p b =
     (case type p of
        W_PAWN \<Rightarrow> WPawn_getMoves p b
      | B_PAWN \<Rightarrow> BPawn_getMoves p b
      | W_ROOK \<Rightarrow> Rook_getMoves p b
      | B_ROOK \<Rightarrow> Rook_getMoves p b
      | W_BISHOP \<Rightarrow> Bishop_getMoves p b
      | B_BISHOP \<Rightarrow> Bishop_getMoves p b
      | W_QUEEN \<Rightarrow> Queen_getMoves p b
      | B_QUEEN \<Rightarrow> Queen_getMoves p b
      | W_KNIGHT \<Rightarrow> Knight_getMoves p b
      | B_KNIGHT \<Rightarrow> Knight_getMoves p b
      | W_KING \<Rightarrow> King_getMoves fl p b
      | B_KING \<Rightarrow> King_getMoves fl p b
      | EMPTY \<Rightarrow> [])"

section \<open>Generated moves fit the board\<close>

definition on_board :: "board \<Rightarrow> piece \<Rightarrow> bool" where
  "on_board b p \<longleftrightarrow>
     isValidPosition (position p) \<and> type p \<noteq> EMPTY \<and>
     getPieceTypeAtPosition b (position p) = type p"

text \<open>
  \<open>last_ok\<close>: if the last move was a pawn's double step, the pawn still stands where it
  arrived, in the column it left from, and the square it passed over is empty. This is what
  en passant relies on; the program's own boards have it.
\<close>

definition double_step_ok :: "board \<Rightarrow> ptype \<Rightarrow> int \<Rightarrow> int \<Rightarrow> int \<Rightarrow> bool" where
  "double_step_ok b t r0 r1 r2 \<longleftrightarrow>
     (fromType (lastMove b) = t \<and> fst (from_pos (lastMove b)) = r0 \<and> fst (to_pos (lastMove b)) = r2 \<longrightarrow>
      (let c = snd (from_pos (lastMove b))
       in 0 \<le> c \<and> c < 8 \<and> getPieceTypeAtPosition b (r2, c) = t \<and>
          getPieceTypeAtPosition b (r1, c) = EMPTY))"

definition last_ok :: "board \<Rightarrow> bool" where
  "last_ok b \<longleftrightarrow> double_step_ok b B_PAWN 6 5 4 \<and> double_step_ok b W_PAWN 1 2 3"

lemma on_boardD:
  assumes "on_board b p"
  shows "0 \<le> row p" "row p < 8" "0 \<le> col p" "col p < 8" "type p \<noteq> EMPTY"
    "getPieceTypeAtPosition b (row p, col p) = type p" "position p = (row p, col p)"
  using assms by (auto simp: on_board_def position_def)

lemma canPlace_valid: "canPlace p b pos \<Longrightarrow> isValidPosition pos"
  by (simp add: canPlace_def split: if_splits)

lemma canPlace_iff:
  "canPlace p b pos \<longleftrightarrow>
    isValidPosition pos \<and> \<not> isSameColor (type p) (getPieceTypeAtPosition b pos)"
  by (simp add: canPlace_def)

text \<open>A king standing on its own square is never on an empty one, so it never castles.\<close>

lemma canCastle_False:
  assumes "on_board b p"
  shows "\<not> canCastle p b smaller"
proof -
  have "\<not> isEmpty b (mk_pos (row p) (col p))"
    using on_boardD [OF assms] by (simp add: isEmpty_def)
  then have "\<not> list_all (\<lambda>i. isEmpty b (mk_pos (row p) (col p - i))) [0..3]"
    and "\<not> list_all (\<lambda>i. isEmpty b (mk_pos (row p) (col p + i))) [0..2]"
    by (auto simp: list_all_iff intro: bexI [of _ 0])
  then show ?thesis
    by (simp add: canCastle_def Let_def)
qed

lemma new_Move_sel [simp]:
  "special (new_Move b sp src q) = sp" "from_pos (new_Move b sp src q) = src"
  "to_pos (new_Move b sp src q) = q"
  "fromType (new_Move b sp src q) = getPieceTypeAtPosition b src"
  "toType (new_Move b sp src q) = getPieceTypeAtPosition b q"
  by (simp_all add: new_Move_def)

lemma place_fits:
  assumes "on_board b p" and "canPlace p b q"
    and "sp = NORMAL_MOVE \<or> sp \<in> {QUEEN_PROMOTION, KNIGHT_PROMOTION} \<and> type p \<in> {W_PAWN, B_PAWN}"
  shows "move_fits b (new_Move b sp (position p) q)"
proof -
  have "q \<noteq> position p"
    using assms(1,2) by (auto simp: on_board_def canPlace_iff isSameColor_iff)
  with assms show ?thesis
    by (auto simp: move_fits_def on_board_def canPlace_iff)
qed

lemma line_reach_unfold:
  assumes "unit_step s" and "isValidPosition src"
  shows "line_reach b src q s \<longleftrightarrow>
    isValidPosition (along src s 1) \<and>
    (q = along src s 1 \<or> isEmpty b (along src s 1) \<and> line_reach b (along src s 1) q s)"
proof (cases "isValidPosition (along src s 1)")
  case True
  then show ?thesis
    using assms unit_stepD(5) [OF assms(1)]
    by (subst checkCanAttackLine_iff [symmetric, OF assms], subst checkCanAttackLine.simps)
      (simp add: step_from_along checkCanAttackLine_iff Let_def)
next
  case False
  then show ?thesis
    using assms
    by (subst checkCanAttackLine_iff [symmetric, OF assms], subst checkCanAttackLine.simps)
      (simp add: step_from_along)
qed

lemma set_addMovesFromLine_from:
  assumes "unit_step s" and "isValidPosition src" and "pos = along src s 1"
  shows "set (addMovesFromLine_from p b s pos) =
    new_Move b NORMAL_MOVE (position p) `
      {q. line_reach b src q s \<and> \<not> isSameColor (type p) (getPieceTypeAtPosition b q)}"
  using assms
proof (induction p b s pos arbitrary: src rule: addMovesFromLine_from.induct)
  case (1 p b s pos)
  note unf = line_reach_unfold [OF "1.prems"(1,2), of b, folded "1.prems"(3)]
  show ?case
  proof (cases "isValidPosition pos \<and> isEmpty b pos")
    case True
    then have IH: "set (addMovesFromLine_from p b s (step_from pos s)) =
        new_Move b NORMAL_MOVE (position p) `
          {q. line_reach b pos q s \<and> \<not> isSameColor (type p) (getPieceTypeAtPosition b q)}"
      using "1.IH" [of pos] "1.prems"(1) unit_stepD(5) [OF "1.prems"(1)]
      by (simp add: step_from_along)
    show ?thesis
      using True unit_stepD(5) [OF "1.prems"(1)]
      by (subst addMovesFromLine_from.simps) (auto simp: IH unf)
  next
    case False
    then show ?thesis
      by (subst addMovesFromLine_from.simps) (auto simp: unf)
  qed
qed

lemma set_addMovesFromLine:
  assumes "unit_step s" and "isValidPosition (position p)"
  shows "set (addMovesFromLine p b s moves) = set moves \<union>
    new_Move b NORMAL_MOVE (position p) `
      {q. line_reach b (position p) q s \<and> \<not> isSameColor (type p) (getPieceTypeAtPosition b q)}"
proof -
  have "mk_pos (row p + dr s) (col p + dc s) = along (position p) s 1"
    using assms by (auto simp: along_def position_def unit_step_def)
  with set_addMovesFromLine_from [OF assms] show ?thesis
    by (simp add: addMovesFromLine_def)
qed

text \<open>The three line movers generate along exactly the directions they attack along.\<close>

definition line_moves :: "piece \<Rightarrow> board \<Rightarrow> move set" where
  "line_moves p b =
     new_Move b NORMAL_MOVE (position p) `
       {q. (\<exists>s. unit_step s \<and> canAttackLine (type p) s \<and> line_reach b (position p) q s) \<and>
           \<not> isSameColor (type p) (getPieceTypeAtPosition b q)}"

definition line_dirs :: "DeltaMove set" where
  "line_dirs = {delta 0 1, delta 0 (- 1), delta 1 0, delta (- 1) 0,
     delta (- 1) (- 1), delta (- 1) 1, delta 1 (- 1), delta 1 1}"

lemma unit_step_iff: "unit_step s \<longleftrightarrow> s \<in> line_dirs"
  by (cases s) (auto simp: unit_step_def line_dirs_def)

lemma line_moves_enum:
  "line_moves p b = (\<Union>s \<in> {s \<in> line_dirs. canAttackLine (type p) s}.
     new_Move b NORMAL_MOVE (position p) `
       {q. line_reach b (position p) q s \<and> \<not> isSameColor (type p) (getPieceTypeAtPosition b q)})"
  unfolding line_moves_def unit_step_iff by blast

lemma set_Rook_getMoves:
  assumes "isValidPosition (position p)" and "type p \<in> {W_ROOK, B_ROOK}"
  shows "set (Rook_getMoves p b) = line_moves p b"
proof -
  have "{s \<in> line_dirs. canAttackLine (type p) s} =
      {delta 0 1, delta 0 (- 1), delta 1 0, delta (- 1) 0}"
    using assms(2) by (auto simp: canAttackLine_def line_dirs_def)
  then show ?thesis
    using assms(1) by (simp add: Rook_getMoves_def set_addMovesFromLine line_moves_enum Let_def Un_ac)
qed

lemma set_Bishop_getMoves:
  assumes "isValidPosition (position p)" and "type p \<in> {W_BISHOP, B_BISHOP}"
  shows "set (Bishop_getMoves p b) = line_moves p b"
proof -
  have "{s \<in> line_dirs. canAttackLine (type p) s} =
      {delta (- 1) (- 1), delta (- 1) 1, delta 1 (- 1), delta 1 1}"
    using assms(2) by (auto simp: canAttackLine_def line_dirs_def)
  then show ?thesis
    using assms(1) by (simp add: Bishop_getMoves_def set_addMovesFromLine line_moves_enum Let_def Un_ac)
qed

lemma set_Queen_getMoves:
  assumes "isValidPosition (position p)" and "type p \<in> {W_QUEEN, B_QUEEN}"
  shows "set (Queen_getMoves p b) = line_moves p b"
proof -
  have "{s \<in> line_dirs. canAttackLine (type p) s} = line_dirs"
    using assms(2) by (auto simp: canAttackLine_def)
  then show ?thesis
    using assms(1) by (simp add: line_dirs_def Queen_getMoves_def set_addMovesFromLine line_moves_enum Let_def Un_ac)
qed

lemmas set_line_getMoves = set_Rook_getMoves set_Bishop_getMoves set_Queen_getMoves

lemma getMoves_slider:
  assumes "on_board b p" and "is_slider (type p)"
  shows "set (getMoves fl p b) = line_moves p b"
proof -
  have "isValidPosition (position p)"
    using assms(1) by (simp add: on_board_def)
  with assms(2) show ?thesis
    by (cases "type p") (simp_all add: is_slider_def getMoves_def set_line_getMoves)
qed

section \<open>Jumps\<close>

lemma set_jump_moves:
  "set (jump_moves p b table) = new_Move b NORMAL_MOVE (position p) `
     {q. canPlace p b q \<and> (\<exists>(vr, vc) \<in> set table. q = mk_pos (row p + vr) (col p + vc))}"
  by (fastforce simp: jump_moves_def Let_def)

lemma jump_target:
  assumes "isValidPosition (position p)" and "\<forall>(vr, vc) \<in> set table. \<bar>vr\<bar> \<le> 2 \<and> \<bar>vc\<bar> \<le> 2"
  shows "(\<exists>(vr, vc) \<in> set table. q = mk_pos (row p + vr) (col p + vc)) \<longleftrightarrow>
    (fst q - row p, snd q - col p) \<in> set table"
proof -
  have "mk_pos (row p + vr) (col p + vc) = (row p + vr, col p + vc)" if "(vr, vc) \<in> set table" for vr vc
    using assms that by (fastforce simp: position_def)
  then show ?thesis
    by (cases q) force
qed

lemma kMoves_iff:
  assumes "- 7 \<le> x" and "x \<le> 7" and "- 7 \<le> y" and "y \<le> 7"
  shows "(x, y) \<in> set kMoves \<longleftrightarrow> x * y = 2 \<or> x * y = - 2"
proof -
  have "\<forall>x \<in> set [- 7..7]. \<forall>y \<in> set [- 7..7]. (x, y) \<in> set kMoves \<longleftrightarrow> x * y = 2 \<or> x * y = - 2"
    by code_simp
  moreover have "x \<in> set [- 7..7]" "y \<in> set [- 7..7]"
    using assms by (simp_all only: set_upto atLeastAtMost_iff)
  ultimately show ?thesis by blast
qed

lemma kDelta_iff:
  "(x, y) \<in> set kDelta \<longleftrightarrow> (x \<le> 1 \<and> x \<ge> - 1) \<and> (y \<le> 1 \<and> y \<ge> - 1) \<and> \<not> (x = 0 \<and> y = 0)"
proof -
  have "x \<le> 1 \<and> x \<ge> - 1 \<longleftrightarrow> x = - 1 \<or> x = 0 \<or> x = 1" for x :: int
    by auto
  then show ?thesis
    by (auto simp: kDelta_def)
qed

lemma kMoves_target:
  assumes "isValidPosition (position p)" and "isValidPosition q"
  shows "(\<exists>(vr, vc) \<in> set kMoves. q = mk_pos (row p + vr) (col p + vc)) \<longleftrightarrow> Knight_canAttack p b q"
proof -
  have "- 7 \<le> fst q - row p" "fst q - row p \<le> 7" "- 7 \<le> snd q - col p" "snd q - col p \<le> 7"
    using assms by (cases q, simp add: position_def)+
  moreover have "\<forall>(vr, vc) \<in> set kMoves. \<bar>vr\<bar> \<le> 2 \<and> \<bar>vc\<bar> \<le> 2"
    by (simp add: kMoves_def)
  ultimately show ?thesis
    by (simp add: jump_target [OF assms(1)] kMoves_iff Knight_canAttack_def position_def Let_def)
qed

lemma kDelta_target:
  assumes "isValidPosition (position p)" and "isValidPosition q"
  shows "(\<exists>(vr, vc) \<in> set kDelta. q = mk_pos (row p + vr) (col p + vc)) \<longleftrightarrow> King_canAttack p b q"
proof -
  have "\<forall>(vr, vc) \<in> set kDelta. \<bar>vr\<bar> \<le> 2 \<and> \<bar>vc\<bar> \<le> 2"
    by (simp add: kDelta_def)
  from jump_target [OF assms(1) this, of q] assms show ?thesis
    by (cases q) (auto simp: kDelta_iff King_canAttack_def position_def Let_def)
qed

lemma set_Knight_getMoves:
  assumes "isValidPosition (position p)"
  shows "set (Knight_getMoves p b) =
    new_Move b NORMAL_MOVE (position p) ` {q. canPlace p b q \<and> Knight_canAttack p b q}"
proof -
  have "{q. canPlace p b q \<and> (\<exists>(vr, vc) \<in> set kMoves. q = mk_pos (row p + vr) (col p + vc))} =
      {q. canPlace p b q \<and> Knight_canAttack p b q}"
    using kMoves_target [OF assms] canPlace_valid by blast
  then show ?thesis
    by (simp add: Knight_getMoves_def set_jump_moves)
qed

lemma set_King_getMoves:
  assumes "on_board b p"
  shows "set (King_getMoves fl p b) =
    new_Move b NORMAL_MOVE (position p) ` {q. canPlace p b q \<and> King_canAttack p b q}"
proof -
  have "{q. canPlace p b q \<and> (\<exists>(vr, vc) \<in> set kDelta. q = mk_pos (row p + vr) (col p + vc))} =
      {q. canPlace p b q \<and> King_canAttack p b q}"
    using kDelta_target [of p] assms canPlace_valid unfolding on_board_def by blast
  then show ?thesis
    by (simp add: King_getMoves_def set_jump_moves canCastle_False [OF assms])
qed

text \<open>
  The moves of every piece but the pawns: the attacked squares it can be placed on, one
  ordinary move each.
\<close>

lemma getMoves_non_pawn:
  assumes "on_board b p" and "type p \<notin> {W_PAWN, B_PAWN}"
  shows "set (getMoves fl p b) =
    new_Move b NORMAL_MOVE (position p) ` {q. canPlace p b q \<and> canAttack p b q}"
proof (cases "is_slider (type p)")
  case True
  have val: "isValidPosition (position p)" using assms(1) by (simp add: on_board_def)
  have "canPlace p b q \<and> canAttack p b q \<longleftrightarrow>
      (\<exists>s. unit_step s \<and> canAttackLine (type p) s \<and> line_reach b (position p) q s) \<and>
      \<not> isSameColor (type p) (getPieceTypeAtPosition b q)" for q
    using canAttack_slider [OF True val, of q b] by (auto simp: canPlace_iff line_reach_def)
  then show ?thesis
    by (simp add: getMoves_slider [OF assms(1) True] line_moves_def)
next
  case False
  have val: "isValidPosition (position p)" using assms(1) by (simp add: on_board_def)
  from False assms show ?thesis
    by (cases "type p") (simp_all add: is_slider_def getMoves_def canAttack_def on_board_def
        set_Knight_getMoves [OF val] set_King_getMoves [OF assms(1)])
qed

section \<open>Pawns\<close>

lemma WPawn_addMove_fits:
  assumes "on_board b p" "type p = W_PAWN" "canPlace p b q" "m \<in> set (WPawn_addMove p b q)"
  shows "move_fits b m \<and> from_pos m = position p \<and> to_pos m = q \<and> special m \<noteq> PAWN_EN_PASSANT"
  using assms by (auto simp: WPawn_addMove_def intro!: place_fits split: if_splits)

lemma BPawn_addMove_fits:
  assumes "on_board b p" "type p = B_PAWN" "canPlace p b q" "m \<in> set (BPawn_addMove p b q)"
  shows "move_fits b m \<and> from_pos m = position p \<and> to_pos m = q \<and> special m \<noteq> PAWN_EN_PASSANT"
  using assms by (auto simp: BPawn_addMove_def intro!: place_fits split: if_splits)

lemma WPawn_en_passant_fits:
  assumes "on_board b p" "type p = W_PAWN" "last_ok b"
    and "row p = 4" "fromType (lastMove b) = B_PAWN" "fst (from_pos (lastMove b)) = 6"
      "fst (to_pos (lastMove b)) = 4" "\<bar>snd (from_pos (lastMove b)) - col p\<bar> = 1"
  shows "move_fits b (new_Move b PAWN_EN_PASSANT (position p)
    (mk_pos (row p + 1) (snd (from_pos (lastMove b)))))"
  using assms on_boardD [OF assms(1)]
  by (auto simp: move_fits_def ep_shape_def ep_victim_def last_ok_def double_step_ok_def Let_def)

lemma BPawn_en_passant_fits:
  assumes "on_board b p" "type p = B_PAWN" "last_ok b"
    and "row p = 3" "fromType (lastMove b) = W_PAWN" "fst (from_pos (lastMove b)) = 1"
      "fst (to_pos (lastMove b)) = 3" "\<bar>i8 (snd (from_pos (lastMove b)) - col p)\<bar> = 1"
  shows "move_fits b (new_Move b PAWN_EN_PASSANT (position p)
    (mk_pos (row p - 1) (snd (from_pos (lastMove b)))))"
  using assms on_boardD [OF assms(1)]
  by (auto simp: move_fits_def ep_shape_def ep_victim_def last_ok_def double_step_ok_def Let_def)

lemma WPawn_getMoves_fits:
  assumes "on_board b p" "type p = W_PAWN" "last_ok b" "m \<in> set (WPawn_getMoves p b)"
  shows "move_fits b m \<and> from_pos m = position p"
proof -
  consider q where "canPlace p b q" "m \<in> set (WPawn_addMove p b q)"
    | q where "canPlace p b q" "m = new_Move b NORMAL_MOVE (position p) q"
    | "row p = 4" "fromType (lastMove b) = B_PAWN" "fst (from_pos (lastMove b)) = 6"
      "fst (to_pos (lastMove b)) = 4" "\<bar>snd (from_pos (lastMove b)) - col p\<bar> = 1"
      "m = new_Move b PAWN_EN_PASSANT (position p)
        (mk_pos (row p + 1) (snd (from_pos (lastMove b))))"
    using assms(4) unfolding WPawn_getMoves_def Let_def
    unfolding set_append Un_iff in_set_if by (elim disjE conjE) auto
  then show ?thesis
    using assms WPawn_addMove_fits place_fits WPawn_en_passant_fits [OF assms(1-3)]
    by cases auto
qed

lemma BPawn_getMoves_fits:
  assumes "on_board b p" "type p = B_PAWN" "last_ok b" "m \<in> set (BPawn_getMoves p b)"
  shows "move_fits b m \<and> from_pos m = position p"
proof -
  consider q where "canPlace p b q" "m \<in> set (BPawn_addMove p b q)"
    | q where "canPlace p b q" "m = new_Move b NORMAL_MOVE (position p) q"
    | "row p = 3" "fromType (lastMove b) = W_PAWN" "fst (from_pos (lastMove b)) = 1"
      "fst (to_pos (lastMove b)) = 3" "\<bar>i8 (snd (from_pos (lastMove b)) - col p)\<bar> = 1"
      "m = new_Move b PAWN_EN_PASSANT (position p)
        (mk_pos (row p - 1) (snd (from_pos (lastMove b))))"
    using assms(4) unfolding BPawn_getMoves_def Let_def
    unfolding set_append Un_iff in_set_if by (elim disjE conjE) auto
  then show ?thesis
    using assms BPawn_addMove_fits place_fits BPawn_en_passant_fits [OF assms(1-3)]
    by cases auto
qed

text \<open>Every generated move fits the board it was generated for.\<close>

lemma getMoves_fits:
  assumes "on_board b p" and "last_ok b" and "m \<in> set (getMoves fl p b)"
  shows "move_fits b m" and "from_pos m = position p"
proof -
  have "move_fits b m \<and> from_pos m = position p"
  proof (cases "type p \<in> {W_PAWN, B_PAWN}")
    case True
    with assms WPawn_getMoves_fits BPawn_getMoves_fits show ?thesis
      by (auto simp: getMoves_def)
  next
    case False
    then show ?thesis
      using assms by (auto simp: getMoves_non_pawn intro!: place_fits)
  qed
  then show "move_fits b m" and "from_pos m = position p" by auto
qed

lemma getMoves_fromType:
  assumes "on_board b p" and "last_ok b" and "m \<in> set (getMoves fl p b)"
  shows "fromType m = type p"
  using getMoves_fits [OF assms] assms(1) by (simp add: move_fits_def on_board_def)

section \<open>What lies outside the array does not matter\<close>

lemma beyond_frame [simp]:
  "isValidPosition q \<Longrightarrow> getPieceTypeAtPosition (b\<lparr>beyond := f\<rparr>) q = getPieceTypeAtPosition b q"
  "isValidPosition q \<Longrightarrow> isEmpty (b\<lparr>beyond := f\<rparr>) q = isEmpty b q"
  "canPlace p (b\<lparr>beyond := f\<rparr>) q' = canPlace p b q'"
  "on_board (b\<lparr>beyond := f\<rparr>) p = on_board b p"
  "isValidPosition src \<Longrightarrow> isValidPosition q \<Longrightarrow>
    new_Move (b\<lparr>beyond := f\<rparr>) sp src q = new_Move b sp src q"
  by (auto simp: get_valid isEmpty_def canPlace_iff on_board_def new_Move_def)

lemma new_Move_beyond:
  "isValidPosition src \<Longrightarrow> canPlace p b q \<Longrightarrow>
    new_Move (b\<lparr>beyond := f\<rparr>) sp src q = new_Move b sp src q"
  using canPlace_valid [of p b q] by simp

lemma addMovesFromLine_from_beyond:
  "isValidPosition (position p) \<Longrightarrow>
    addMovesFromLine_from p (b\<lparr>beyond := f\<rparr>) s pos = addMovesFromLine_from p b s pos"
proof (induction p b s pos rule: addMovesFromLine_from.induct)
  case (1 p b s pos)
  then show ?case
    by (subst (1 2) addMovesFromLine_from.simps) auto
qed

lemma jump_moves_beyond:
  assumes "isValidPosition (position p)"
  shows "jump_moves p (b\<lparr>beyond := f\<rparr>) table = jump_moves p b table"
  using assms by (auto simp: jump_moves_def Let_def new_Move_beyond intro!: arg_cong [where f = concat])

lemma guards_beyond:
  "(canPlace p b q \<and> isEmpty (b\<lparr>beyond := f\<rparr>) q) = (canPlace p b q \<and> isEmpty b q)"
  "(isEmpty (b\<lparr>beyond := f\<rparr>) q \<and> canPlace p b q) = (isEmpty b q \<and> canPlace p b q)"
  "(\<not> isEmpty (b\<lparr>beyond := f\<rparr>) q \<and> canPlace p b q) = (\<not> isEmpty b q \<and> canPlace p b q)"
  using canPlace_valid [of p b q] by auto

lemma addMove_beyond:
  "isValidPosition (position p) \<Longrightarrow> canPlace p b q \<Longrightarrow>
    WPawn_addMove p (b\<lparr>beyond := f\<rparr>) q = WPawn_addMove p b q"
  "isValidPosition (position p) \<Longrightarrow> canPlace p b q \<Longrightarrow>
    BPawn_addMove p (b\<lparr>beyond := f\<rparr>) q = BPawn_addMove p b q"
  by (simp_all add: WPawn_addMove_def BPawn_addMove_def new_Move_beyond)

lemma WPawn_getMoves_beyond:
  assumes "on_board b p" "type p = W_PAWN" "last_ok b"
  shows "WPawn_getMoves p (b\<lparr>beyond := f\<rparr>) = WPawn_getMoves p b"
proof -
  have pos: "isValidPosition (position p)" using assms(1) by (simp add: on_board_def)
  have ahead: "isEmpty (b\<lparr>beyond := f\<rparr>) (mk_pos 2 (col p)) = isEmpty b (mk_pos 2 (col p))"
    using on_boardD [OF assms(1)] by simp
  have ep: "isValidPosition (mk_pos 5 (snd (from_pos (lastMove b))))"
    if "fromType (lastMove b) = B_PAWN" "fst (from_pos (lastMove b)) = 6" "fst (to_pos (lastMove b)) = 4"
    using assms(3) that by (simp add: last_ok_def double_step_ok_def Let_def)
  show ?thesis
    unfolding WPawn_getMoves_def Let_def guards_beyond beyond_frame(3)
    by (intro arg_cong2 [where f = append] if_cong)
      (auto simp: pos addMove_beyond new_Move_beyond ahead guards_beyond ep)
qed

lemma BPawn_getMoves_beyond:
  assumes "on_board b p" "type p = B_PAWN" "last_ok b"
  shows "BPawn_getMoves p (b\<lparr>beyond := f\<rparr>) = BPawn_getMoves p b"
proof -
  have pos: "isValidPosition (position p)" using assms(1) by (simp add: on_board_def)
  have ahead: "isEmpty (b\<lparr>beyond := f\<rparr>) (mk_pos 5 (col p)) = isEmpty b (mk_pos 5 (col p))"
    using on_boardD [OF assms(1)] by simp
  have ep: "isValidPosition (mk_pos 2 (snd (from_pos (lastMove b))))"
    if "fromType (lastMove b) = W_PAWN" "fst (from_pos (lastMove b)) = 1" "fst (to_pos (lastMove b)) = 3"
    using assms(3) that by (simp add: last_ok_def double_step_ok_def Let_def)
  show ?thesis
    unfolding BPawn_getMoves_def Let_def guards_beyond beyond_frame(3)
    by (intro arg_cong2 [where f = append] if_cong)
      (auto simp: pos addMove_beyond new_Move_beyond ahead guards_beyond ep)
qed

text \<open>
  The pawns' capture tests read the array with columns \<open>-1\<close> and \<open>8\<close> and rows \<open>-1\<close> and \<open>8\<close>; the
  generated moves do not depend on what they find there.
\<close>

lemma getMoves_beyond:
  assumes "on_board b p" and "last_ok b"
  shows "getMoves fl p (b\<lparr>beyond := f\<rparr>) = getMoves fl p b"
proof -
  have pos: "isValidPosition (position p)" using assms(1) by (simp add: on_board_def)
  have line: "addMovesFromLine p (b\<lparr>beyond := f\<rparr>) s ms = addMovesFromLine p b s ms" for s ms
    by (simp add: addMovesFromLine_def addMovesFromLine_from_beyond [OF pos])
  have castle: "\<not> canCastle p (b\<lparr>beyond := f\<rparr>) x" "\<not> canCastle p b x" for x
    using assms(1) by (simp_all add: canCastle_False)
  show ?thesis
    using WPawn_getMoves_beyond BPawn_getMoves_beyond assms
    by (cases "type p") (simp_all add: getMoves_def Rook_getMoves_def Bishop_getMoves_def
        Queen_getMoves_def Knight_getMoves_def King_getMoves_def line jump_moves_beyond [OF pos] castle)
qed

end
