(* ===== verification/Board_Ops.thy ===== *)
theory Board_Ops
  imports Piece_Moves
begin

text \<open>
  \<open>Board::isChecked\<close>, \<open>isEnpassantMove\<close>, \<open>isCastlingMove\<close> and the two \<open>makeMove\<close>
  (\<open>chess/board.cc\<close>), and \<open>Piece::getNextStates\<close> and \<open>hasNextStates\<close> (\<open>chess/piece.cc\<close>).
  The invariant of a game, \<open>game_ok\<close>, is shown to be kept by every generated move that does
  not take a king, and taking a king to be possible only when that king is in check.
\<close>

section \<open>Operations\<close>

fun isChecked_at :: "board \<Rightarrow> ptype \<Rightarrow> position \<Rightarrow> position list \<Rightarrow> bool result" where
  "isChecked_at b kingType kingPos [] = Inr False"
| "isChecked_at b kingType kingPos (pos # rest) =
     (if isEmpty b pos then isChecked_at b kingType kingPos rest
      else
        let otherType = getPieceTypeAtPosition b pos
        in if isSameColor kingType otherType then isChecked_at b kingType kingPos rest
           else case create otherType pos of
                  None \<Rightarrow> Inl NullPointer
                | Some opponent \<Rightarrow>
                    if canAttack opponent b kingPos then Inr True
                    else isChecked_at b kingType kingPos rest)"

definition isChecked_run :: "board \<Rightarrow> bool \<Rightarrow> bool result" where
  "isChecked_run b black =
     (let kingType = (if black then B_KING else W_KING);
          kingPos = (if black then blackKingPosition b else whiteKingPosition b)
      in isChecked_at b kingType kingPos all_positions)"

text \<open>\<open>isChecked\<close> as a test: the run above always returns (\<open>isChecked_run_eq\<close> below).\<close>

definition isChecked :: "board \<Rightarrow> bool \<Rightarrow> bool" where
  "isChecked b black =
     (let kingType = (if black then B_KING else W_KING);
          kingPos = (if black then blackKingPosition b else whiteKingPosition b)
      in list_ex (\<lambda>pos.
           let otherType = getPieceTypeAtPosition b pos
           in \<not> isEmpty b pos \<and> \<not> isSameColor kingType otherType \<and>
              canAttack \<lparr>type = otherType, row = fst pos, col = snd pos\<rparr> b kingPos) all_positions)"

definition isEnpassantMove :: "board \<Rightarrow> position \<Rightarrow> position \<Rightarrow> bool" where
  "isEnpassantMove b fromPos toPos =
     (let ft = getPieceTypeAtPosition b fromPos
      in if ft \<noteq> B_PAWN \<or> ft = W_PAWN then False
         else if snd toPos = snd fromPos then False
         else isEmpty b toPos)"

definition isCastlingMove :: "board \<Rightarrow> position \<Rightarrow> position \<Rightarrow> bool" where
  "isCastlingMove b fromPos toPos =
     (let ft = getPieceTypeAtPosition b fromPos
      in if ft \<noteq> W_KING \<or> ft \<noteq> B_KING then False
         else \<bar>i8 (snd toPos - snd fromPos)\<bar> > 1)"

text \<open>\<open>Board::makeMove(const Move&)\<close>.\<close>

definition makeMove :: "board \<Rightarrow> move \<Rightarrow> board result" where
  "makeMove b m = rbind (Move_apply m b) (\<lambda>cloned. Inr (cloned\<lparr>lastMove := m\<rparr>))"

text \<open>\<open>Board::makeMove(Position, Position, bool*)\<close>: the new board and \<open>*pawnPromotion\<close>.\<close>

definition special_of :: "board \<Rightarrow> position \<Rightarrow> position \<Rightarrow> SpecialType" where
  "special_of b pos newPos =
     (let t = getPieceTypeAtPosition b pos
      in if t = B_PAWN \<and> fst newPos = 0 \<or> t = W_PAWN \<and> fst newPos = BOARD_SIZE - 1
         then QUEEN_PROMOTION
         else if isEnpassantMove b pos newPos then PAWN_EN_PASSANT
         else if isCastlingMove b pos newPos then KING_CASTLING
         else NORMAL_MOVE)"

definition makeMove_pos :: "board \<Rightarrow> position \<Rightarrow> position \<Rightarrow> (board \<times> bool) result" where
  "makeMove_pos b pos newPos =
     rbind (CHECK (isValidPosition newPos) InvalidTarget) (\<lambda>_.
       let sp = special_of b pos newPos;
           m = new_Move b sp pos newPos
       in rbind (Move_apply m b) (\<lambda>nb. Inr (nb\<lparr>lastMove := m\<rparr>, sp = QUEEN_PROMOTION)))"

definition nextStates_step :: "piece \<Rightarrow> board \<Rightarrow> move \<Rightarrow> board list \<Rightarrow> board list result" where
  "nextStates_step p b m acc =
     (let newPos = to_pos m
      in rbind (CHECK (isValidPosition newPos) InvalidTarget) (\<lambda>_.
         rbind (makeMove_pos b (position p) newPos) (\<lambda>(nxt, promotion).
           if \<not> isChecked nxt (isBlack (type p)) then
             if promotion then
               let queenPromo = Board_set (if isBlack (type p) then B_QUEEN else W_QUEEN) newPos nxt;
                   nxt' = Board_set (if isBlack (type p) then B_KNIGHT else W_KNIGHT) newPos nxt
               in Inr (acc @ [queenPromo] @ [nxt'])
             else Inr (acc @ [nxt])
           else Inr acc)))"

definition getNextStates :: "flags \<Rightarrow> piece \<Rightarrow> board \<Rightarrow> board list result" where
  "getNextStates fl p b = rfold (nextStates_step p b) (getMoves fl p b) []"

fun hasNextStates_at :: "piece \<Rightarrow> board \<Rightarrow> move list \<Rightarrow> bool result" where
  "hasNextStates_at p b [] = Inr False"
| "hasNextStates_at p b (m # ms) =
     (let newPos = to_pos m
      in rbind (CHECK (isValidPosition newPos) InvalidTarget) (\<lambda>_.
         rbind (makeMove_pos b (position p) newPos) (\<lambda>(nxt, promotion).
           if isChecked nxt (isBlack (type p)) then hasNextStates_at p b ms
           else Inr True)))"

definition hasNextStates :: "flags \<Rightarrow> piece \<Rightarrow> board \<Rightarrow> bool result" where
  "hasNextStates fl p b = hasNextStates_at p b (getMoves fl p b)"

section \<open>Check\<close>

lemma isChecked_at_eq:
  "isChecked_at b kt kp ps = Inr (list_ex (\<lambda>pos.
     let otherType = getPieceTypeAtPosition b pos
     in \<not> isEmpty b pos \<and> \<not> isSameColor kt otherType \<and>
        canAttack \<lparr>type = otherType, row = fst pos, col = snd pos\<rparr> b kp) ps)"
  by (induction ps) (auto simp: create_eq isEmpty_def Let_def)

lemma isChecked_run_eq: "isChecked_run b black = Inr (isChecked b black)"
  by (simp add: isChecked_run_def isChecked_def isChecked_at_eq Let_def)

text \<open>A king is in check when some piece of the other colour attacks its square.\<close>

definition king_of :: "board \<Rightarrow> bool \<Rightarrow> position" where
  "king_of b black = (if black then blackKingPosition b else whiteKingPosition b)"

lemma isChecked_iff:
  "isChecked b black \<longleftrightarrow>
    (\<exists>p. on_board b p \<and> isBlack (type p) \<noteq> black \<and> canAttack p b (king_of b black))"
proof
  assume "isChecked b black"
  then obtain pos where pos: "isValidPosition pos" "\<not> isEmpty b pos"
    "\<not> isSameColor (if black then B_KING else W_KING) (getPieceTypeAtPosition b pos)"
    "canAttack \<lparr>type = getPieceTypeAtPosition b pos, row = fst pos, col = snd pos\<rparr> b (king_of b black)"
    by (auto simp: isChecked_def list_ex_iff king_of_def Let_def simp del: split_paired_Ex split_paired_All)
  then show "\<exists>p. on_board b p \<and> isBlack (type p) \<noteq> black \<and> canAttack p b (king_of b black)"
    by (intro exI [of _ "\<lparr>type = getPieceTypeAtPosition b pos, row = fst pos, col = snd pos\<rparr>"])
      (auto simp: on_board_def isEmpty_def isSameColor_iff split: if_splits)
next
  assume "\<exists>p. on_board b p \<and> isBlack (type p) \<noteq> black \<and> canAttack p b (king_of b black)"
  then obtain p where p: "on_board b p" "isBlack (type p) \<noteq> black" "canAttack p b (king_of b black)"
    by blast
  then have "p = \<lparr>type = getPieceTypeAtPosition b (position p), row = fst (position p), col = snd (position p)\<rparr>"
    by (cases p) (simp add: on_board_def)
  with p show "isChecked b black"
    by (auto simp: isChecked_def list_ex_iff king_of_def Let_def on_board_def isEmpty_def isSameColor_iff
        intro!: bexI [of _ "position p"])
qed

lemma isChecked_cong:
  assumes "\<And>q. isValidPosition q \<Longrightarrow> getPieceTypeAtPosition b q = getPieceTypeAtPosition b' q"
    and "king_of b black = king_of b' black" and "isValidPosition (king_of b black)"
  shows "isChecked b black = isChecked b' black"
proof -
  have "on_board b p = on_board b' p" for p
    using assms(1) [of "position p"] by (auto simp: on_board_def)
  moreover have "canAttack p b (king_of b black) = canAttack p b' (king_of b black)"
    if "on_board b p" for p
    using that assms by (intro canAttack_cong) (auto simp: on_board_def isEmpty_def)
  ultimately show ?thesis
    using assms(2) by (auto simp: isChecked_iff)
qed

lemma isChecked_update [simp]:
  "isChecked (b\<lparr>lastMove := m\<rparr>) black = isChecked b black"
  "isChecked (b\<lparr>score := x\<rparr>) black = isChecked b black"
proof -
  have "checkCanAttackLine (b\<lparr>lastMove := m\<rparr>) src tgt s = checkCanAttackLine b src tgt s"
    "checkCanAttackLine (b\<lparr>score := x\<rparr>) src tgt s = checkCanAttackLine b src tgt s" for src tgt s
    by (induction b src tgt s rule: checkCanAttackLine.induct)
      (subst (1 2) checkCanAttackLine.simps, simp add: board_simps Let_def)+
  then have "canAttack p (b\<lparr>lastMove := m\<rparr>) q = canAttack p b q"
    "canAttack p (b\<lparr>score := x\<rparr>) q = canAttack p b q" for p q
    by (cases "type p"; simp add: canAttack_def Rook_canAttack_def Bishop_canAttack_def
        Queen_canAttack_def Knight_canAttack_def King_canAttack_def WPawn_canAttack_def
        BPawn_canAttack_def)+
  then show "isChecked (b\<lparr>lastMove := m\<rparr>) black = isChecked b black"
    "isChecked (b\<lparr>score := x\<rparr>) black = isChecked b black"
    by (simp_all add: isChecked_iff on_board_def king_of_def)
qed

section \<open>Captures are attacks\<close>

lemma WPawn_capture_attacks:
  assumes "on_board b p" "type p = W_PAWN" "last_ok b" "m \<in> set (WPawn_getMoves p b)"
    and "toType m \<noteq> EMPTY"
  shows "WPawn_canAttack p b (to_pos m)"
proof -
  have add: "m \<in> set (WPawn_addMove p b q) \<Longrightarrow> to_pos m = q \<and> toType m = getPieceTypeAtPosition b q" for q
    by (auto simp: WPawn_addMove_def split: if_splits)
  consider "to_pos m = mk_pos (row p + 1) (col p - 1)" | "to_pos m = mk_pos (row p + 1) (col p + 1)"
    | "row p = 4" "fromType (lastMove b) = B_PAWN" "fst (from_pos (lastMove b)) = 6"
      "fst (to_pos (lastMove b)) = 4" "toType m = getPieceTypeAtPosition b (mk_pos 5 (snd (from_pos (lastMove b))))"
    using assms(4,5) add unfolding WPawn_getMoves_def Let_def set_append Un_iff in_set_if isEmpty_def
    by (elim disjE conjE) auto
  then show ?thesis
    using on_boardD [OF assms(1)] assms(3,5)
    by cases (auto simp: WPawn_canAttack_def last_ok_def double_step_ok_def Let_def)
qed

lemma BPawn_capture_attacks:
  assumes "on_board b p" "type p = B_PAWN" "last_ok b" "m \<in> set (BPawn_getMoves p b)"
    and "toType m \<noteq> EMPTY"
  shows "BPawn_canAttack p b (to_pos m)"
proof -
  have add: "m \<in> set (BPawn_addMove p b q) \<Longrightarrow> to_pos m = q \<and> toType m = getPieceTypeAtPosition b q" for q
    by (auto simp: BPawn_addMove_def split: if_splits)
  consider "to_pos m = mk_pos (row p - 1) (col p - 1)" | "to_pos m = mk_pos (row p - 1) (col p + 1)"
    | "row p = 3" "fromType (lastMove b) = W_PAWN" "fst (from_pos (lastMove b)) = 1"
      "fst (to_pos (lastMove b)) = 3" "toType m = getPieceTypeAtPosition b (mk_pos 2 (snd (from_pos (lastMove b))))"
    using assms(4,5) add unfolding BPawn_getMoves_def Let_def set_append Un_iff in_set_if isEmpty_def
    by (elim disjE conjE) auto
  then show ?thesis
    using on_boardD [OF assms(1)] assms(3,5)
    by cases (auto simp: BPawn_canAttack_def last_ok_def double_step_ok_def Let_def)
qed

lemma capture_attacks:
  assumes "on_board b p" "last_ok b" "m \<in> set (getMoves fl p b)" "toType m \<noteq> EMPTY"
  shows "canAttack p b (to_pos m)"
proof (cases "type p \<in> {W_PAWN, B_PAWN}")
  case True
  with assms WPawn_capture_attacks BPawn_capture_attacks show ?thesis
    by (auto simp: getMoves_def canAttack_def)
next
  case False
  with assms show ?thesis by (auto simp: getMoves_non_pawn)
qed

text \<open>
  A side whose opponent is not in check takes no king: the opponent's king is not attacked,
  and a piece of its own colour is never a target.
\<close>

lemma no_king_capture:
  assumes "board_ok b" "last_ok b" "on_board b p" "m \<in> set (getMoves fl p b)"
    and "\<not> isChecked b (\<not> isBlack (type p))"
  shows "toType m \<notin> {W_KING, B_KING}"
proof
  assume king: "toType m \<in> {W_KING, B_KING}"
  have fits: "move_fits b m" and ft: "fromType m = type p"
    using getMoves_fits getMoves_fromType assms by blast+
  then have to: "isValidPosition (to_pos m)" "toType m = getPieceTypeAtPosition b (to_pos m)"
    and col: "\<not> isSameColor (type p) (toType m)" "type p \<noteq> EMPTY"
    by (auto simp: move_fits_def)
  have "toType m \<noteq> EMPTY" using king by auto
  then have att: "canAttack p b (to_pos m)"
    using capture_attacks [OF assms(3,2,4)] by blast
  have "to_pos m = king_of b (\<not> isBlack (type p))"
    using king col to board_okD(5,6) [OF assms(1) to(1)]
    by (auto simp: king_of_def isSameColor_iff)
  with att assms(3,5) show False
    by (auto simp: isChecked_iff)
qed

end
