(* ===== verification/Game_Inv.thy ===== *)
theory Game_Inv
  imports Board_Ops
begin

text \<open>
  The invariant of a game and the operations that step it. \<open>game_ok\<close> says that the king
  fields are right and that a pawn that has just made a double step stands where en passant
  expects it. Every generated move that takes no king keeps it, \<open>makeMove\<close> and \<open>getNextStates\<close>
  do not abort on such boards, and their results are characterised.
\<close>

definition game_ok :: "board \<Rightarrow> bool" where
  "game_ok b \<longleftrightarrow> board_ok b \<and> last_ok b"

section \<open>Double steps\<close>

definition double_shape :: "board \<Rightarrow> move \<Rightarrow> bool" where
  "double_shape b m \<longleftrightarrow>
     (fromType m = B_PAWN \<and> fst (from_pos m) = 6 \<and> fst (to_pos m) = 4 \<longrightarrow>
        special m = NORMAL_MOVE \<and> snd (to_pos m) = snd (from_pos m) \<and> toType m = EMPTY \<and>
        getPieceTypeAtPosition b (5, snd (from_pos m)) = EMPTY) \<and>
     (fromType m = W_PAWN \<and> fst (from_pos m) = 1 \<and> fst (to_pos m) = 3 \<longrightarrow>
        special m = NORMAL_MOVE \<and> snd (to_pos m) = snd (from_pos m) \<and> toType m = EMPTY \<and>
        getPieceTypeAtPosition b (2, snd (from_pos m)) = EMPTY)"

lemma WPawn_double_shape:
  assumes "on_board b p" "type p = W_PAWN" "m \<in> set (WPawn_getMoves p b)" "row p = 1" "fst (to_pos m) = 3"
  shows "special m = NORMAL_MOVE \<and> snd (to_pos m) = col p \<and> toType m = EMPTY \<and>
    getPieceTypeAtPosition b (2, col p) = EMPTY"
proof -
  have add: "m \<in> set (WPawn_addMove p b q) \<Longrightarrow> to_pos m = q" for q
    by (auto simp: WPawn_addMove_def split: if_splits)
  from assms(3) add assms(4,5) on_boardD(3,4) [OF assms(1)] show ?thesis
    unfolding WPawn_getMoves_def Let_def set_append Un_iff in_set_if isEmpty_def
    by (elim disjE conjE) auto
qed

lemma BPawn_double_shape:
  assumes "on_board b p" "type p = B_PAWN" "m \<in> set (BPawn_getMoves p b)" "row p = 6" "fst (to_pos m) = 4"
  shows "special m = NORMAL_MOVE \<and> snd (to_pos m) = col p \<and> toType m = EMPTY \<and>
    getPieceTypeAtPosition b (5, col p) = EMPTY"
proof -
  have add: "m \<in> set (BPawn_addMove p b q) \<Longrightarrow> to_pos m = q" for q
    by (auto simp: BPawn_addMove_def split: if_splits)
  from assms(3) add assms(4,5) on_boardD(3,4) [OF assms(1)] show ?thesis
    unfolding BPawn_getMoves_def Let_def set_append Un_iff in_set_if isEmpty_def
    by (elim disjE conjE) auto
qed

lemma getMoves_double_shape:
  assumes "on_board b p" "last_ok b" "m \<in> set (getMoves fl p b)"
  shows "double_shape b m"
proof -
  have "fromType m = type p" "from_pos m = (row p, col p)"
    using getMoves_fromType [OF assms] getMoves_fits(2) [OF assms] by (simp_all add: position_def)
  then show ?thesis
    using assms(3) WPawn_double_shape [OF assms(1)] BPawn_double_shape [OF assms(1)]
    by (auto simp: double_shape_def getMoves_def)
qed

lemma moved_last_ok:
  assumes "wf_board b" and fits: "move_fits b m" and "double_shape b m"
  shows "last_ok ((moved m b)\<lparr>lastMove := m\<rparr>)"
proof -
  have "double_step_ok ((moved m b)\<lparr>lastMove := m\<rparr>) B_PAWN 6 5 4"
  proof (cases "fromType m = B_PAWN \<and> fst (from_pos m) = 6 \<and> fst (to_pos m) = 4")
    case True
    then obtain c where "from_pos m = (6, c)" "to_pos m = (4, c)" "special m = NORMAL_MOVE"
      "getPieceTypeAtPosition b (5, c) = EMPTY"
      using assms(3) by (cases "from_pos m"; cases "to_pos m") (auto simp: double_shape_def)
    with True fits show ?thesis
      by (simp add: double_step_ok_def get_moved [OF assms(1) fits] newType_def move_fits_def)
  next
    case False
    then show ?thesis by (auto simp: double_step_ok_def)
  qed
  moreover have "double_step_ok ((moved m b)\<lparr>lastMove := m\<rparr>) W_PAWN 1 2 3"
  proof (cases "fromType m = W_PAWN \<and> fst (from_pos m) = 1 \<and> fst (to_pos m) = 3")
    case True
    then obtain c where "from_pos m = (1, c)" "to_pos m = (3, c)" "special m = NORMAL_MOVE"
      "getPieceTypeAtPosition b (2, c) = EMPTY"
      using assms(3) by (cases "from_pos m"; cases "to_pos m") (auto simp: double_shape_def)
    with True fits show ?thesis
      by (simp add: double_step_ok_def get_moved [OF assms(1) fits] newType_def move_fits_def)
  next
    case False
    then show ?thesis by (auto simp: double_step_ok_def)
  qed
  ultimately show ?thesis by (simp add: last_ok_def)
qed

section \<open>makeMove keeps the invariant\<close>

lemma makeMove_eq:
  assumes "wf_board b" and "move_fits b m"
  shows "makeMove b m = Inr ((moved m b)\<lparr>lastMove := m\<rparr>)"
  by (simp add: makeMove_def Move_apply_moved [OF assms])

lemma moved_game_ok:
  assumes "game_ok b" "move_fits b m" "double_shape b m" "toType m \<notin> {W_KING, B_KING}"
  shows "game_ok ((moved m b)\<lparr>lastMove := m\<rparr>)"
  using assms moved_board_ok moved_last_ok by (simp add: game_ok_def board_ok_def)

lemma makeMove_game_ok:
  assumes "game_ok b" "on_board b p" "m \<in> set (getMoves fl p b)"
    and "\<not> isChecked b (\<not> isBlack (type p))"
  shows "\<exists>b'. makeMove b m = Inr b' \<and> game_ok b'"
proof -
  have ok: "board_ok b" "last_ok b" "wf_board b"
    using assms(1) by (simp_all add: game_ok_def board_ok_def)
  have "move_fits b m" "double_shape b m" "toType m \<notin> {W_KING, B_KING}"
    using getMoves_fits(1) getMoves_double_shape no_king_capture assms ok by blast+
  with assms(1) ok show ?thesis
    by (simp add: makeMove_eq moved_game_ok)
qed

section \<open>getNextStates\<close>

text \<open>
  \<open>makeMove_pos\<close> rebuilds a move from its squares. For a generated move the rebuilt one still
  fits the board: it is a queen promotion where the pawn arrives, the en passant capture if
  the pawn is black, and an ordinary move otherwise.
\<close>

definition rebuilt :: "board \<Rightarrow> piece \<Rightarrow> move \<Rightarrow> move" where
  "rebuilt b p m = new_Move b (special_of b (position p) (to_pos m)) (position p) (to_pos m)"

lemma BPawn_diagonal_empty:
  assumes "on_board b p" "type p = B_PAWN" "m \<in> set (BPawn_getMoves p b)"
    and "snd (to_pos m) \<noteq> col p" "isEmpty b (to_pos m)"
  shows "special m = PAWN_EN_PASSANT"
proof -
  have add: "m \<in> set (BPawn_addMove p b q) \<Longrightarrow> to_pos m = q" for q
    by (auto simp: BPawn_addMove_def split: if_splits)
  from assms(3-5) add on_boardD(1-4) [OF assms(1)] show ?thesis
    unfolding BPawn_getMoves_def Let_def set_append Un_iff in_set_if
    by (elim disjE conjE) auto
qed

lemma rebuilt_fits:
  assumes "on_board b p" "last_ok b" "m \<in> set (getMoves fl p b)"
  shows "move_fits b (rebuilt b p m)"
proof -
  define sp where "sp = special_of b (position p) (to_pos m)"
  have fits: "move_fits b m" and frm: "from_pos m = position p" and ft: "fromType m = type p"
    using getMoves_fits [OF assms] getMoves_fromType [OF assms] by auto
  have cell: "getPieceTypeAtPosition b (position p) = type p" "position p = (row p, col p)"
    using on_boardD [OF assms(1)] by auto
  have ep: "ep_shape b (rebuilt b p m)" if "sp = PAWN_EN_PASSANT"
  proof -
    from that have bp: "type p = B_PAWN" "snd (to_pos m) \<noteq> col p" "isEmpty b (to_pos m)"
      using cell by (auto simp: sp_def special_of_def isEnpassantMove_def Let_def split: if_splits)
    with assms have "special m = PAWN_EN_PASSANT"
      by (auto intro: BPawn_diagonal_empty simp: getMoves_def)
    with fits have "ep_shape b m" by (simp add: move_fits_def)
    with frm ft cell show ?thesis
      by (simp add: ep_shape_def rebuilt_def ep_victim_def)
  qed
  have "sp \<in> {NORMAL_MOVE, QUEEN_PROMOTION, PAWN_EN_PASSANT}"
    by (auto simp: sp_def special_of_def isCastlingMove_def Let_def)
  moreover have "sp = QUEEN_PROMOTION \<Longrightarrow> type p \<in> {W_PAWN, B_PAWN}"
    using cell by (auto simp: sp_def special_of_def Let_def split: if_splits)
  moreover have "rebuilt b p m = new_Move b sp (position p) (to_pos m)"
    by (simp add: rebuilt_def sp_def)
  moreover have "isValidPosition (position p)" "isValidPosition (to_pos m)" "position p \<noteq> to_pos m"
    "type p \<noteq> EMPTY" "\<not> isSameColor (type p) (getPieceTypeAtPosition b (to_pos m))"
    using fits frm ft by (auto simp: move_fits_def)
  ultimately show ?thesis
    using cell(1) ep by (simp add: move_fits_def) blast
qed

lemma makeMove_pos_eq:
  assumes "wf_board b" "on_board b p" "last_ok b" "m \<in> set (getMoves fl p b)"
  shows "makeMove_pos b (position p) (to_pos m) =
    Inr ((moved (rebuilt b p m) b)\<lparr>lastMove := rebuilt b p m\<rparr>,
         special_of b (position p) (to_pos m) = QUEEN_PROMOTION)"
proof -
  have "isValidPosition (to_pos m)"
    using getMoves_fits [OF assms(2-4)] by (simp add: move_fits_def)
  moreover have "Move_apply (rebuilt b p m) b = Inr (moved (rebuilt b p m) b)"
    using Move_apply_moved [OF assms(1) rebuilt_fits [OF assms(2-4)]] .
  ultimately show ?thesis
    by (simp add: makeMove_pos_def rebuilt_def Let_def)
qed

definition states_of :: "board \<Rightarrow> piece \<Rightarrow> move \<Rightarrow> board list" where
  "states_of b p m =
     (let nb = (moved (rebuilt b p m) b)\<lparr>lastMove := rebuilt b p m\<rparr>
      in if isChecked nb (isBlack (type p)) then []
         else if special_of b (position p) (to_pos m) = QUEEN_PROMOTION
         then [Board_set (if isBlack (type p) then B_QUEEN else W_QUEEN) (to_pos m) nb,
               Board_set (if isBlack (type p) then B_KNIGHT else W_KNIGHT) (to_pos m) nb]
         else [nb])"

lemma getNextStates_eq:
  assumes "wf_board b" "on_board b p" "last_ok b"
  shows "getNextStates fl p b = Inr (concat (map (states_of b p) (getMoves fl p b)))"
proof -
  have "nextStates_step p b m acc = Inr (acc @ states_of b p m)"
    if "m \<in> set (getMoves fl p b)" for m acc
  proof -
    have "isValidPosition (to_pos m)"
      using getMoves_fits [OF assms(2,3) that] by (simp add: move_fits_def)
    then show ?thesis
      by (simp add: nextStates_step_def states_of_def makeMove_pos_eq [OF assms that] Let_def)
  qed
  from rfold_collect [of "getMoves fl p b" "nextStates_step p b" "states_of b p", OF this]
  show ?thesis by (simp add: getNextStates_def)
qed

lemma hasNextStates_eq:
  assumes "wf_board b" "on_board b p" "last_ok b"
  shows "hasNextStates fl p b = Inr (\<exists>m \<in> set (getMoves fl p b). states_of b p m \<noteq> [])"
proof -
  have "hasNextStates_at p b ms = Inr (\<exists>m \<in> set ms. states_of b p m \<noteq> [])"
    if "set ms \<subseteq> set (getMoves fl p b)" for ms
    using that
  proof (induction ms)
    case Nil
    then show ?case by simp
  next
    case (Cons m ms)
    then have m: "m \<in> set (getMoves fl p b)" by simp
    have "isValidPosition (to_pos m)"
      using getMoves_fits [OF assms(2,3) m] by (simp add: move_fits_def)
    with Cons show ?case
      by (auto simp: makeMove_pos_eq [OF assms m] states_of_def Let_def)
  qed
  then show ?thesis by (simp add: hasNextStates_def)
qed

end
