(* ===== verification/Folly_Hash.thy ===== *)
theory Folly_Hash
  imports Chess_Prelude "HOL-Library.Word"
begin

text \<open>
  \<open>folly/Hash.h\<close>: the hash functions behind \<open>Board::hash\<close>. Unsigned integers are words of
  their width, so arithmetic wraps as it does in the source; \<open>std::hash\<close> of the hashed types,
  which the standard leaves to the implementation, is an argument. \<open>char\<close> is read as a signed
  byte, as on the platforms the build files name.
\<close>

unbundle bit_operations_syntax

type_synonym u8 = "8 word"
type_synonym u16 = "16 word"
type_synonym u32 = "32 word"
type_synonym u64 = "64 word"

section \<open>Combining hashes\<close>

definition hash_128_to_64 :: "u64 \<Rightarrow> u64 \<Rightarrow> u64" where
  "hash_128_to_64 upper lower =
     (let kMul = 0x9ddfea08eb382d69;
          a = (lower XOR upper) * kMul;
          a = a XOR drop_bit 47 a;
          b = (upper XOR a) * kMul;
          b = b XOR drop_bit 47 b;
          b = b * kMul
      in b)"

fun hash_range :: "('a \<Rightarrow> u64) \<Rightarrow> 'a list \<Rightarrow> u64 \<Rightarrow> u64" where
  "hash_range hasher [] h = h"
| "hash_range hasher (x # xs) h = hash_range hasher xs (hash_128_to_64 h (hasher x))"

text \<open>
  \<open>hash_combine_generic\<close> over the hashes of its arguments, which the template recursion
  takes one by one; with no argument it is 0, with one it is that hash.
\<close>

fun hash_combine_generic :: "u64 list \<Rightarrow> u64" where
  "hash_combine_generic [] = 0"
| "hash_combine_generic (seed # ts) =
     (if ts = [] then seed else hash_128_to_64 seed (hash_combine_generic ts))"

definition hash_combine :: "u64 list \<Rightarrow> u64" where
  "hash_combine hs = hash_combine_generic hs"

definition std_hash_pair :: "('a \<Rightarrow> u64) \<Rightarrow> ('b \<Rightarrow> u64) \<Rightarrow> 'a \<times> 'b \<Rightarrow> u64" where
  "std_hash_pair h1 h2 x = hash_combine [h1 (fst x), h2 (snd x)]"

text \<open>
  \<open>TupleHasher\<close>: \<open>hash_combine\<close> of the hasher of the shorter tuple, which is a \<open>size_t\<close> and is
  hashed once more, with the last element.
\<close>

fun TupleHasher :: "(u64 \<Rightarrow> u64) \<Rightarrow> u64 list \<Rightarrow> nat \<Rightarrow> u64" where
  "TupleHasher hsize elems 0 = hash_combine [elems ! 0]"
| "TupleHasher hsize elems (Suc index) =
     hash_combine [hsize (TupleHasher hsize elems index), elems ! Suc index]"

section \<open>Integer mixers\<close>

definition twang_mix64 :: "u64 \<Rightarrow> u64" where
  "twang_mix64 key =
     (let key = (NOT key) + push_bit 21 key;
          key = key XOR drop_bit 24 key;
          key = key + push_bit 3 key + push_bit 8 key;
          key = key XOR drop_bit 14 key;
          key = key + push_bit 2 key + push_bit 4 key;
          key = key XOR drop_bit 28 key;
          key = key + push_bit 31 key
      in key)"

definition twang_unmix64 :: "u64 \<Rightarrow> u64" where
  "twang_unmix64 key =
     (let key = key * 4611686016279904257;
          key = key XOR (drop_bit 28 key XOR drop_bit 56 key);
          key = key * 14933078535860113213;
          key = key XOR (drop_bit 14 key XOR drop_bit 28 key XOR drop_bit 42 key XOR drop_bit 56 key);
          key = key * 15244667743933553977;
          key = key XOR (drop_bit 24 key XOR drop_bit 48 key);
          key = (key + 1) * 9223367638806167551
      in key)"

definition twang_32from64 :: "u64 \<Rightarrow> u32" where
  "twang_32from64 key =
     (let key = (NOT key) + push_bit 18 key;
          key = key XOR drop_bit 31 key;
          key = key * 21;
          key = key XOR drop_bit 11 key;
          key = key + push_bit 6 key;
          key = key XOR drop_bit 22 key
      in ucast key)"

definition jenkins_rev_mix32 :: "u32 \<Rightarrow> u32" where
  "jenkins_rev_mix32 key =
     (let key = key + push_bit 12 key;
          key = key XOR drop_bit 22 key;
          key = key + push_bit 4 key;
          key = key XOR drop_bit 9 key;
          key = key + push_bit 10 key;
          key = key XOR drop_bit 2 key;
          key = key + push_bit 7 key;
          key = key + push_bit 12 key
      in key)"

definition jenkins_rev_unmix32 :: "u32 \<Rightarrow> u32" where
  "jenkins_rev_unmix32 key =
     (let key = key * 2364026753;
          key = key XOR
            (drop_bit 2 key XOR drop_bit 4 key XOR drop_bit 6 key XOR drop_bit 8 key XOR
             drop_bit 10 key XOR drop_bit 12 key XOR drop_bit 14 key XOR drop_bit 16 key XOR
             drop_bit 18 key XOR drop_bit 20 key XOR drop_bit 22 key XOR drop_bit 24 key XOR
             drop_bit 26 key XOR drop_bit 28 key XOR drop_bit 30 key);
          key = key * 3222273025;
          key = key XOR (drop_bit 9 key XOR drop_bit 18 key XOR drop_bit 27 key);
          key = key * 4042322161;
          key = key XOR drop_bit 22 key;
          key = key * 16773121
      in key)"

text \<open>The \<open>folly::hasher\<close> specialisations; the signed ones convert their argument first.\<close>

definition hasher_uint32 :: "u32 \<Rightarrow> u64" where
  "hasher_uint32 key = ucast (jenkins_rev_mix32 key)"

definition hasher_int32 :: "int \<Rightarrow> u64" where
  "hasher_int32 key = ucast (jenkins_rev_mix32 (word_of_int key))"

definition hasher_uint64 :: "u64 \<Rightarrow> u64" where
  "hasher_uint64 key = twang_mix64 key"

definition hasher_int64 :: "int \<Rightarrow> u64" where
  "hasher_int64 key = twang_mix64 (word_of_int key)"

section \<open>Byte strings\<close>

text \<open>\<open>hash ^= *s\<close> converts the signed \<open>char\<close> to the hash's width.\<close>

definition FNV_32_HASH_START :: u32 where
  "FNV_32_HASH_START = 2166136261"

definition FNV_64_HASH_START :: u64 where
  "FNV_64_HASH_START = 14695981039346656037"

definition fnv32_step :: "u8 \<Rightarrow> u32 \<Rightarrow> u32" where
  "fnv32_step ch h =
     (let h = h + (push_bit 1 h + push_bit 4 h + push_bit 7 h + push_bit 8 h + push_bit 24 h)
      in h XOR scast ch)"

text \<open>
  \<open>fnv32(const char*)\<close> runs to the terminating zero; memory that holds none before its end
  (the end of the list) is read out of bounds.
\<close>

fun fnv32 :: "u8 list \<Rightarrow> u32 \<Rightarrow> u32 result" where
  "fnv32 [] h = Inl BadIndex"
| "fnv32 (ch # s) h = (if ch = 0 then Inr h else fnv32 s (fnv32_step ch h))"

definition fnv32_buf :: "u8 list \<Rightarrow> u32 \<Rightarrow> u32" where
  "fnv32_buf buf h = fold fnv32_step buf h"

definition fnv64_step :: "u8 \<Rightarrow> u64 \<Rightarrow> u64" where
  "fnv64_step ch h =
     (let h = h + (push_bit 1 h + push_bit 4 h + push_bit 5 h + push_bit 7 h + push_bit 8 h + push_bit 40 h)
      in h XOR scast ch)"

fun fnv64 :: "u8 list \<Rightarrow> u64 \<Rightarrow> u64 result" where
  "fnv64 [] h = Inl BadIndex"
| "fnv64 (ch # s) h = (if ch = 0 then Inr h else fnv64 s (fnv64_step ch h))"

definition fnv64_buf :: "u8 list \<Rightarrow> u64 \<Rightarrow> u64" where
  "fnv64_buf buf h = fold fnv64_step buf h"

text \<open>\<open>fnv32(std::string)\<close>, \<open>fnv64(std::string)\<close>.\<close>

definition fnv32_str :: "u8 list \<Rightarrow> u32 \<Rightarrow> u32" where
  "fnv32_str str h = fnv32_buf str h"

definition fnv64_str :: "u8 list \<Rightarrow> u64 \<Rightarrow> u64" where
  "fnv64_str str h = fnv64_buf str h"

text \<open>\<open>hsieh_hash32_buf\<close> on a little-endian machine; \<open>get16bits\<close> reads two bytes.\<close>

definition get16bits :: "u8 \<Rightarrow> u8 \<Rightarrow> u32" where
  "get16bits lo hi = ucast lo OR push_bit 8 (ucast hi)"

fun hsieh_main :: "u8 list \<Rightarrow> u32 \<Rightarrow> u32 \<times> u8 list" where
  "hsieh_main (a # b # c # d # s) h =
     (let h = h + get16bits a b;
          tmp = push_bit 11 (get16bits c d) XOR h;
          h = push_bit 16 h XOR tmp;
          h = h + drop_bit 11 h
      in hsieh_main s h)"
| "hsieh_main s h = (h, s)"

definition hsieh_tail :: "u8 list \<Rightarrow> u32 \<Rightarrow> u32" where
  "hsieh_tail s h =
     (case s of
        [a, b, c] \<Rightarrow>
          (let h = h + get16bits a b;
               h = h XOR push_bit 16 h;
               h = h XOR push_bit 18 (scast c);
               h = h + drop_bit 11 h
           in h)
      | [a, b] \<Rightarrow>
          (let h = h + get16bits a b;
               h = h XOR push_bit 11 h;
               h = h + drop_bit 17 h
           in h)
      | [a] \<Rightarrow>
          (let h = h + scast a;
               h = h XOR push_bit 10 h;
               h = h + drop_bit 1 h
           in h)
      | _ \<Rightarrow> h)"

definition hsieh_avalanche :: "u32 \<Rightarrow> u32" where
  "hsieh_avalanche h =
     (let h = h XOR push_bit 3 h;
          h = h + drop_bit 5 h;
          h = h XOR push_bit 4 h;
          h = h + drop_bit 17 h;
          h = h XOR push_bit 25 h;
          h = h + drop_bit 6 h
      in h)"

definition hsieh_hash32_buf :: "u8 list \<Rightarrow> u32" where
  "hsieh_hash32_buf buf =
     (if buf = [] then 0
      else let (h, s) = hsieh_main buf (word_of_nat (length buf))
           in hsieh_avalanche (hsieh_tail s h))"

definition hsieh_hash32_str :: "u8 list \<Rightarrow> u32" where
  "hsieh_hash32_str str = hsieh_hash32_buf str"

text \<open>\<open>hsieh_hash32(const char*)\<close>: the bytes before the terminating zero (\<open>strlen\<close>).\<close>

definition hsieh_hash32 :: "u8 list \<Rightarrow> u32 result" where
  "hsieh_hash32 s =
     (if 0 \<in> set s then Inr (hsieh_hash32_buf (takeWhile (\<lambda>ch. ch \<noteq> 0) s)) else Inl BadIndex)"

section \<open>The mixers are permutations\<close>

text \<open>Undoing \<open>key ^= key >> n\<close> takes the shifted copies up to the width.\<close>

lemma xor_twice [simp]: "(x :: 'a :: len word) XOR (x XOR y) = y"
  by (simp add: xor.assoc [symmetric])

lemma drop_bit_width: "LENGTH('a) \<le> n \<Longrightarrow> drop_bit n (x :: 'a :: len word) = 0"
  by (rule bit_word_eqI) (simp add: bit_drop_bit_eq)

lemmas unshift_simps = drop_bit_xor drop_bit_drop_bit drop_bit_width xor.assoc xor.left_commute
  xor.commute

lemma unshift64:
  fixes x :: u64
  shows "(x XOR drop_bit 28 x) XOR (drop_bit 28 (x XOR drop_bit 28 x) XOR drop_bit 56 (x XOR drop_bit 28 x)) = x"
    and "(x XOR drop_bit 14 x) XOR (drop_bit 14 (x XOR drop_bit 14 x) XOR drop_bit 28 (x XOR drop_bit 14 x)
      XOR drop_bit 42 (x XOR drop_bit 14 x) XOR drop_bit 56 (x XOR drop_bit 14 x)) = x"
    and "(x XOR drop_bit 24 x) XOR (drop_bit 24 (x XOR drop_bit 24 x) XOR drop_bit 48 (x XOR drop_bit 24 x)) = x"
  by (simp_all add: unshift_simps)

lemma push_bit_mult: "push_bit n (x :: 'a :: len word) = x * 2 ^ n"
  by (rule push_bit_eq_mult)

lemma twang_mults:
  fixes k :: u64
  shows "(NOT k) + push_bit 21 k = k * 2097151 - 1"
    and "k + push_bit 3 k + push_bit 8 k = k * 265"
    and "k + push_bit 2 k + push_bit 4 k = k * 21"
    and "k + push_bit 31 k = k * 2147483649"
  by (simp_all add: push_bit_mult algebra_simps not_eq_complement)

lemma twang_units:
  "(2147483649 :: u64) * 4611686016279904257 = 1" "(21 :: u64) * 14933078535860113213 = 1"
  "(265 :: u64) * 15244667743933553977 = 1" "(2097151 :: u64) * 9223367638806167551 = 1"
  by (simp_all)

lemma twang_inverses:
  fixes k :: u64
  shows "k * 2147483649 * 4611686016279904257 = k" "k * 21 * 14933078535860113213 = k"
    "k * 265 * 15244667743933553977 = k" "(k * 2097151 - 1 + 1) * 9223367638806167551 = k"
  by (simp_all only: mult.assoc twang_units mult_1_right diff_add_cancel)

lemma twang_unmix_mix: "twang_unmix64 (twang_mix64 key) = key"
  unfolding twang_unmix64_def twang_mix64_def Let_def twang_mults twang_inverses unshift64
  by (rule refl)

lemma unshift32:
  fixes x :: u32
  shows "(x XOR drop_bit 22 x) XOR drop_bit 22 (x XOR drop_bit 22 x) = x"
    and "(x XOR drop_bit 9 x) XOR (drop_bit 9 (x XOR drop_bit 9 x) XOR drop_bit 18 (x XOR drop_bit 9 x)
      XOR drop_bit 27 (x XOR drop_bit 9 x)) = x"
  by (simp_all add: unshift_simps)

lemma unshift32_2:
  fixes x :: u32
  defines "y \<equiv> x XOR drop_bit 2 x"
  shows "y XOR
    (drop_bit 2 y XOR drop_bit 4 y XOR drop_bit 6 y XOR drop_bit 8 y XOR
     drop_bit 10 y XOR drop_bit 12 y XOR drop_bit 14 y XOR drop_bit 16 y XOR
     drop_bit 18 y XOR drop_bit 20 y XOR drop_bit 22 y XOR drop_bit 24 y XOR
     drop_bit 26 y XOR drop_bit 28 y XOR drop_bit 30 y) = x"
  by (simp add: y_def unshift_simps)

lemma jenkins_mults:
  fixes k :: u32
  shows "k + push_bit 12 k = k * 4097" "k + push_bit 4 k = k * 17"
    "k + push_bit 10 k = k * 1025" "k + push_bit 7 k = k * 129"
  by (simp_all add: push_bit_mult algebra_simps)

lemma jenkins_units:
  "(4097 :: u32) * 16773121 = 1" "(17 :: u32) * 4042322161 = 1"
  "(1025 :: u32) * 3222273025 = 1" "(129 :: u32) * (4097 * 2364026753) = 1"
  by simp_all

lemma jenkins_inverses:
  fixes k :: u32
  shows "k * 4097 * 16773121 = k" "k * 17 * 4042322161 = k" "k * 1025 * 3222273025 = k"
    "k * 129 * 4097 * 2364026753 = k"
  by (simp_all only: mult.assoc jenkins_units mult_1_right)

lemma jenkins_unmix_mix: "jenkins_rev_unmix32 (jenkins_rev_mix32 key) = key"
  unfolding jenkins_rev_unmix32_def jenkins_rev_mix32_def Let_def jenkins_mults jenkins_inverses
    unshift32 unshift32_2
  by (rule refl)

text \<open>A left inverse on a finite type is a right inverse.\<close>

lemma finite_right_inverse:
  fixes f g :: "'a :: finite \<Rightarrow> 'a"
  assumes "\<And>x. g (f x) = x"
  shows "f (g y) = y"
proof -
  have "inj f" by (rule inj_on_inverseI) (rule assms)
  then have "surj f" by (rule finite_UNIV_inj_surj [OF finite])
  then obtain x where "y = f x" by blast
  then show ?thesis by (simp add: assms)
qed

text \<open>The last byte of a non-empty buffer is mixed in after the rest.\<close>

lemma fnv32_buf_append: "fnv32_buf (xs @ ys) h = fnv32_buf ys (fnv32_buf xs h)"
  by (simp add: fnv32_buf_def)

lemma fnv64_buf_append: "fnv64_buf (xs @ ys) h = fnv64_buf ys (fnv64_buf xs h)"
  by (simp add: fnv64_buf_def)

lemma fnv32_zero_terminated:
  "0 \<notin> set s \<Longrightarrow> fnv32 (s @ 0 # rest) h = Inr (fnv32_buf s h)"
  by (induction s arbitrary: h) (auto simp: fnv32_buf_def)

lemma fnv64_zero_terminated:
  "0 \<notin> set s \<Longrightarrow> fnv64 (s @ 0 # rest) h = Inr (fnv64_buf s h)"
  by (induction s arbitrary: h) (auto simp: fnv64_buf_def)

lemma hsieh_main_rest: "length (snd (hsieh_main s h)) = length s mod 4"
  by (induction s h rule: hsieh_main.induct) (auto simp: Let_def)

end
