(* ===== verification/Cpu_Id.thy ===== *)
theory Cpu_Id
  imports Folly_Hash
begin

text \<open>
  \<open>folly/CpuId.h\<close>: the feature bits of an Intel processor, which \<open>Checksum.cpp\<close> asks whether
  the CRC instructions are there. The \<open>cpuid\<close> instruction is an argument of the constructor:
  a function from the leaf (register EAX) and the sub-leaf (ECX, read by leaf 7 only) to the
  four result registers. The accessors that the header's macros generate are tables of names
  and bit numbers, one per word of the object.
\<close>

section \<open>The object\<close>

record cpu_regs =
  eax :: u32
  ebx :: u32
  ecx :: u32
  edx :: u32

type_synonym cpuid_insn = "u32 \<Rightarrow> u32 \<Rightarrow> cpu_regs"

record cpu_id =
  f1c :: u32
  f1d :: u32
  f7b :: u32
  f7c :: u32

definition CpuId :: "cpuid_insn \<Rightarrow> cpu_id" where
  "CpuId cpuid =
     (let n = eax (cpuid 0 0);
          cpu = \<lparr>f1c = 0, f1d = 0, f7b = 0, f7c = 0\<rparr>;
          cpu = (if 1 \<le> n
                then cpu\<lparr>f1c := ecx (cpuid 1 0), f1d := edx (cpuid 1 0)\<rparr> else cpu)
      in (if 7 \<le> n
          then cpu\<lparr>f7b := ebx (cpuid 7 0), f7c := ecx (cpuid 7 0)\<rparr> else cpu))"

section \<open>The accessors\<close>

text \<open>The test that the macro \<open>X\<close> puts into every accessor.\<close>

definition cpu_bit :: "u32 \<Rightarrow> nat \<Rightarrow> bool" where
  "cpu_bit r b \<longleftrightarrow> r AND push_bit b 1 \<noteq> 0"

definition f1c_table :: "(string \<times> nat) list" where
  "f1c_table =
     [(''sse3'', 0), (''pclmuldq'', 1), (''dtes64'', 2), (''monitor'', 3), (''dscpl'',
      4), (''vmx'', 5), (''smx'', 6), (''eist'', 7), (''tm2'', 8), (''ssse3'', 9),
      (''cnxtid'', 10), (''fma'', 12), (''cx16'', 13), (''xtpr'', 14), (''pdcm'', 15),
      (''pcid'', 17), (''dca'', 18), (''sse41'', 19), (''sse42'', 20), (''x2apic'', 21),
      (''movbe'', 22), (''popcnt'', 23), (''tscdeadline'', 24), (''aes'', 25),
      (''xsave'', 26), (''osxsave'', 27), (''avx'', 28), (''f16c'', 29), (''rdrand'',
      30)]"

definition f1d_table :: "(string \<times> nat) list" where
  "f1d_table =
     [(''fpu'', 0), (''vme'', 1), (''de'', 2), (''pse'', 3), (''tsc'', 4), (''msr'', 5),
      (''pae'', 6), (''mce'', 7), (''cx8'', 8), (''apic'', 9), (''sep'', 11), (''mtrr'',
      12), (''pge'', 13), (''mca'', 14), (''cmov'', 15), (''pat'', 16), (''pse36'', 17),
      (''psn'', 18), (''clfsh'', 19), (''ds'', 21), (''acpi'', 22), (''mmx'', 23),
      (''fxsr'', 24), (''sse'', 25), (''sse2'', 26), (''ss'', 27), (''htt'', 28),
      (''tm'', 29), (''pbe'', 31)]"

definition f7b_table :: "(string \<times> nat) list" where
  "f7b_table =
     [(''bmi1'', 3), (''hle'', 4), (''avx2'', 5), (''smep'', 7), (''bmi2'', 8),
      (''erms'', 9), (''invpcid'', 10), (''rtm'', 11), (''mpx'', 14), (''avx512f'', 16),
      (''avx512dq'', 17), (''rdseed'', 18), (''adx'', 19), (''smap'', 20),
      (''avx512ifma'', 21), (''pcommit'', 22), (''clflushopt'', 23), (''clwb'', 24),
      (''avx512pf'', 26), (''avx512er'', 27), (''avx512cd'', 28), (''sha'', 29),
      (''avx512bw'', 30), (''avx512vl'', 31)]"

definition f7c_table :: "(string \<times> nat) list" where
  "f7c_table =
     [(''prefetchwt1'', 0), (''avx512vbmi'', 1)]"

text \<open>An accessor, called by its name; the header declares no other names.\<close>

definition cpu_feature :: "string \<Rightarrow> cpu_id \<Rightarrow> bool option" where
  "cpu_feature name cpu =
     (case map_of f1c_table name of Some b \<Rightarrow> Some (cpu_bit (f1c cpu) b) | None \<Rightarrow>
      case map_of f1d_table name of Some b \<Rightarrow> Some (cpu_bit (f1d cpu) b) | None \<Rightarrow>
      case map_of f7b_table name of Some b \<Rightarrow> Some (cpu_bit (f7b cpu) b) | None \<Rightarrow>
      map_option (cpu_bit (f7c cpu)) (map_of f7c_table name))"

definition sse42 :: "cpu_id \<Rightarrow> bool" where
  "sse42 cpu = cpu_bit (f1c cpu) 20"

section \<open>Lemmas\<close>

lemma cpu_bit_iff: "cpu_bit r b \<longleftrightarrow> bit r b"
  by (simp add: cpu_bit_def push_bit_eq_mult and_exp_eq_0_iff_not_bit)

lemmas cpu_tables = f1c_table_def f1d_table_def f7b_table_def f7c_table_def

lemma cpu_names_distinct:
  "distinct (map fst (f1c_table @ f1d_table @ f7b_table @ f7c_table))"
  unfolding cpu_tables by code_simp

lemma cpu_bits_distinct:
  "distinct (map snd f1c_table)" "distinct (map snd f1d_table)"
  "distinct (map snd f7b_table)" "distinct (map snd f7c_table)"
  unfolding cpu_tables by code_simp+

lemma cpu_bits_in_word:
  "list_all (\<lambda>(s, b). b < 32) (f1c_table @ f1d_table @ f7b_table @ f7c_table)"
  unfolding cpu_tables by code_simp

lemma CpuId_fields:
  "f1c (CpuId c) = (if 1 \<le> eax (c 0 0) then ecx (c 1 0) else 0)"
  "f1d (CpuId c) = (if 1 \<le> eax (c 0 0) then edx (c 1 0) else 0)"
  "f7b (CpuId c) = (if 7 \<le> eax (c 0 0) then ebx (c 7 0) else 0)"
  "f7c (CpuId c) = (if 7 \<le> eax (c 0 0) then ecx (c 7 0) else 0)"
  by (simp_all add: CpuId_def Let_def)

lemma map_of_first: "distinct (map fst (xs @ ys)) \<Longrightarrow> (k, v) \<in> set xs \<Longrightarrow> map_of xs k = Some v"
  by (rule map_of_is_SomeI) auto

lemma map_of_later:
  assumes "distinct (map fst (xs @ ys))" "(k, v) \<in> set ys"
  shows "map_of xs k = None"
proof -
  have "k \<in> set (map fst ys)" using assms(2) by force
  then have "k \<notin> set (map fst xs)" using assms(1) by auto
  then show ?thesis by (simp add: map_of_eq_None_iff)
qed

lemma map_of_four:
  assumes d: "distinct (map fst (as @ bs @ cs @ ds))"
  shows "(k, v) \<in> set as \<Longrightarrow> map_of as k = Some v"
    and "(k, v) \<in> set bs \<Longrightarrow> map_of as k = None \<and> map_of bs k = Some v"
    and "(k, v) \<in> set cs \<Longrightarrow> map_of as k = None \<and> map_of bs k = None \<and> map_of cs k = Some v"
    and "(k, v) \<in> set ds \<Longrightarrow>
           map_of as k = None \<and> map_of bs k = None \<and> map_of cs k = None \<and> map_of ds k = Some v"
proof -
  have d2: "distinct (map fst (bs @ cs @ ds))" and d3: "distinct (map fst (cs @ ds))"
    and d4: "distinct (map fst (ds @ []))" using d by simp_all
  note first = map_of_first [OF d, of k v] map_of_first [OF d2, of k v]
    map_of_first [OF d3, of k v] map_of_first [OF d4, of k v]
  note later = map_of_later [OF d, of k v] map_of_later [OF d2, of k v]
    map_of_later [OF d3, of k v]
  show "(k, v) \<in> set as \<Longrightarrow> map_of as k = Some v" by (rule first)
  show "(k, v) \<in> set bs \<Longrightarrow> map_of as k = None \<and> map_of bs k = Some v"
    using first later by simp
  show "(k, v) \<in> set cs \<Longrightarrow> map_of as k = None \<and> map_of bs k = None \<and> map_of cs k = Some v"
    using first later by simp
  show "(k, v) \<in> set ds \<Longrightarrow>
      map_of as k = None \<and> map_of bs k = None \<and> map_of cs k = None \<and> map_of ds k = Some v"
    using first later by simp
qed

lemmas map_of_tables = map_of_four [OF cpu_names_distinct]

lemmas cpu_feature_simps = cpu_feature_def CpuId_fields cpu_bit_iff

lemma cpu_feature_f1:
  "(nm, b) \<in> set f1c_table \<Longrightarrow>
     cpu_feature nm (CpuId c) = Some (1 \<le> eax (c 0 0) \<and> bit (ecx (c 1 0)) b)"
  "(nm, b) \<in> set f1d_table \<Longrightarrow>
     cpu_feature nm (CpuId c) = Some (1 \<le> eax (c 0 0) \<and> bit (edx (c 1 0)) b)"
  using map_of_tables(1,2) [of nm b] by (simp_all add: cpu_feature_simps)

lemma cpu_feature_f7:
  "(nm, b) \<in> set f7b_table \<Longrightarrow>
     cpu_feature nm (CpuId c) = Some (7 \<le> eax (c 0 0) \<and> bit (ebx (c 7 0)) b)"
  "(nm, b) \<in> set f7c_table \<Longrightarrow>
     cpu_feature nm (CpuId c) = Some (7 \<le> eax (c 0 0) \<and> bit (ecx (c 7 0)) b)"
  using map_of_tables(3,4) [of nm b] by (simp_all add: cpu_feature_simps)

lemma sse42_feature: "Some (sse42 cpu) = cpu_feature ''sse42'' cpu"
  by (simp add: sse42_def cpu_feature_def f1c_table_def)

end
