(* ===== verification/Checksum.thy ===== *)
theory Checksum
  imports Cpu_Id
begin

text \<open>
  \<open>folly/Checksum.cpp\<close>: CRC-32C with the SSE 4.2 instructions or with Boost's table-driven
  engine. The instructions and the engine are not part of the repository and are
  arguments; \<open>crc_platform_ok\<close> states what their documentation says of them, against the
  bitwise definition of the checksum.
\<close>

section \<open>The platform's part\<close>

record crc_platform =
  cpuid :: cpuid_insn
  crc32qi :: "u32 \<Rightarrow> u8 \<Rightarrow> u32"
  crc32di :: "u64 \<Rightarrow> u64 \<Rightarrow> u64"
  boost_crc :: "u32 \<Rightarrow> u8 list \<Rightarrow> u32"

text \<open>An aligned 64-bit read of eight bytes on a little-endian machine.\<close>

fun le_bytes :: "u8 list \<Rightarrow> u64" where
  "le_bytes [] = 0"
| "le_bytes (b # bs) = ucast b OR push_bit 8 (le_bytes bs)"

section \<open>The code\<close>

definition crc_bytes :: "crc_platform \<Rightarrow> u8 list \<Rightarrow> u32 \<Rightarrow> u32" where
  "crc_bytes pl bs crc = fold (\<lambda>b s. crc32qi pl s b) bs crc"

function crc_words :: "crc_platform \<Rightarrow> u8 list \<Rightarrow> u32 \<Rightarrow> u32 \<times> u8 list" where
  "crc_words pl bs crc =
     (if 8 \<le> length bs
      then crc_words pl (drop 8 bs) (ucast (crc32di pl (ucast crc) (le_bytes (take 8 bs))))
      else (crc, bs))"
  by pat_completeness auto
termination by (relation "measure (\<lambda>(pl, bs, crc). length bs)") auto

declare crc_words.simps [simp del]

text \<open>
  \<open>amask\<close> is \<open>(uintptr_t)data & 7\<close>. The list is what the loops have not read yet, so the
  offset of the source is the number of bytes dropped.
\<close>

definition crc32c_hw :: "crc_platform \<Rightarrow> nat \<Rightarrow> u8 list \<Rightarrow> u32 \<Rightarrow> u32" where
  "crc32c_hw pl amask data startingChecksum =
     (let nbytes = length data;
          limit = (if amask \<noteq> 0 then min nbytes (8 - amask) else 0);
          crc = crc_bytes pl (take limit data) startingChecksum;
          (crc, rest) = crc_words pl (drop limit data) crc
      in crc_bytes pl rest crc)"

definition crc32c_hw_supported :: "crc_platform \<Rightarrow> bool" where
  "crc32c_hw_supported pl = sse42 (CpuId (cpuid pl))"

definition reverse_checksum :: "u32 \<Rightarrow> u32" where
  "reverse_checksum x =
     (let x = (drop_bit 1 x AND 0x55555555) OR push_bit 1 (x AND 0x55555555);
          x = (drop_bit 2 x AND 0x33333333) OR push_bit 2 (x AND 0x33333333);
          x = (drop_bit 4 x AND 0x0f0f0f0f) OR push_bit 4 (x AND 0x0f0f0f0f);
          x = (drop_bit 8 x AND 0x00ff00ff) OR push_bit 8 (x AND 0x00ff00ff);
          x = drop_bit 16 x OR push_bit 16 x
      in x)"

definition crc32c_sw :: "crc_platform \<Rightarrow> u8 list \<Rightarrow> u32 \<Rightarrow> u32" where
  "crc32c_sw pl data startingChecksum = boost_crc pl (reverse_checksum startingChecksum) data"

definition crc32c :: "crc_platform \<Rightarrow> nat \<Rightarrow> u8 list \<Rightarrow> u32 \<Rightarrow> u32" where
  "crc32c pl amask data startingChecksum =
     (if crc32c_hw_supported pl then crc32c_hw pl amask data startingChecksum
      else crc32c_sw pl data startingChecksum)"

section \<open>The checksum, bit by bit\<close>

text \<open>
  CRC-32C in its reflected form: one shift register, the polynomial \<open>0x1EDC6F41\<close> read
  backwards. The instruction on a byte advances it by eight bits, the one on a 64-bit word by
  the word's bytes from the low one up; Boost's reflecting engine takes its start value and
  keeps its remainder with the bits in the other order and returns the reflected remainder.
\<close>

definition crc_shift :: "u32 \<Rightarrow> u32" where
  "crc_shift s = (if bit s 0 then drop_bit 1 s XOR 0x82F63B78 else drop_bit 1 s)"

definition crc_byte :: "u32 \<Rightarrow> u8 \<Rightarrow> u32" where
  "crc_byte s b = (crc_shift ^^ 8) (s XOR ucast b)"

definition crc_ref :: "u8 list \<Rightarrow> u32 \<Rightarrow> u32" where
  "crc_ref bs s = fold (\<lambda>b s. crc_byte s b) bs s"

definition mirrored :: "u32 \<Rightarrow> u32 \<Rightarrow> bool" where
  "mirrored x y \<longleftrightarrow> (\<forall>n < 32. bit y n \<longleftrightarrow> bit x (31 - n))"

definition crc_platform_ok :: "crc_platform \<Rightarrow> bool" where
  "crc_platform_ok pl \<longleftrightarrow>
     (\<forall>s b. crc32qi pl s b = crc_byte s b) \<and>
     (\<forall>s bs. length bs = 8 \<longrightarrow> crc32di pl (ucast s) (le_bytes bs) = ucast (crc_ref bs s)) \<and>
     (\<forall>s r bs. mirrored s r \<longrightarrow> boost_crc pl r bs = crc_ref bs s)"

section \<open>Lemmas\<close>

lemma crc_ref_append: "crc_ref (xs @ ys) s = crc_ref ys (crc_ref xs s)"
  by (simp add: crc_ref_def)

lemma crc_bytes_eq: "crc_platform_ok pl \<Longrightarrow> crc_bytes pl bs s = crc_ref bs s"
  by (simp add: crc_bytes_def crc_ref_def crc_platform_ok_def)

lemma ucast_up_down [simp]: "(ucast (ucast (x :: u32) :: u64) :: u32) = x"
  by (rule bit_word_eqI) (simp add: bit_simps)

lemma crc_words_eq:
  assumes ok: "crc_platform_ok pl"
  shows "crc_words pl bs s = (s', rest) \<Longrightarrow> crc_ref rest s' = crc_ref bs s"
proof (induction "length bs" arbitrary: bs s rule: less_induct)
  case less
  show ?case
  proof (cases "8 \<le> length bs")
    case True
    have "length (take 8 bs) = 8" using True by simp
    then have "crc32di pl (ucast s) (le_bytes (take 8 bs)) = ucast (crc_ref (take 8 bs) s)"
      using ok unfolding crc_platform_ok_def by blast
    then have "crc_words pl (drop 8 bs) (crc_ref (take 8 bs) s) = (s', rest)"
      using less.prems True by (subst (asm) crc_words.simps) (simp)
    then have "crc_ref rest s' = crc_ref (drop 8 bs) (crc_ref (take 8 bs) s)"
      using True by (intro less.hyps) auto
    also have "\<dots> = crc_ref (take 8 bs @ drop 8 bs) s" by (rule crc_ref_append [symmetric])
    finally show ?thesis by simp
  next
    case False
    with less.prems show ?thesis by (simp add: crc_words.simps)
  qed
qed

text \<open>Each line of the reversal swaps neighbouring groups of bits.\<close>

lemma group_masks:
  assumes "n < 32"
  shows "bit (0x55555555 :: u32) n \<longleftrightarrow> even n"
    and "bit (0x33333333 :: u32) n \<longleftrightarrow> even (n div 2)"
    and "bit (0x0f0f0f0f :: u32) n \<longleftrightarrow> even (n div 4)"
    and "bit (0x00ff00ff :: u32) n \<longleftrightarrow> even (n div 8)"
proof -
  have "\<forall>n \<in> set [0..<32]. (bit (0x55555555 :: u32) n \<longleftrightarrow> even n) \<and>
    (bit (0x33333333 :: u32) n \<longleftrightarrow> even (n div 2)) \<and> (bit (0x0f0f0f0f :: u32) n \<longleftrightarrow> even (n div 4)) \<and>
    (bit (0x00ff00ff :: u32) n \<longleftrightarrow> even (n div 8))"
    by code_simp
  with assms show "bit (0x55555555 :: u32) n \<longleftrightarrow> even n" "bit (0x33333333 :: u32) n \<longleftrightarrow> even (n div 2)"
    "bit (0x0f0f0f0f :: u32) n \<longleftrightarrow> even (n div 4)" "bit (0x00ff00ff :: u32) n \<longleftrightarrow> even (n div 8)"
    by simp_all
qed

lemma bit_swap:
  fixes x m :: u32
  assumes "n < 32" "0 < k"
    and "\<And>n. n < 32 \<Longrightarrow> bit m n \<longleftrightarrow> even (n div k)"
    and "even (n div k) \<Longrightarrow> n + k < 32" and "odd (n div k) \<Longrightarrow> k \<le> n"
  shows "bit ((drop_bit k x AND m) OR push_bit k (x AND m)) n =
      bit x (if even (n div k) then n + k else n - k)"
proof -
  have "even ((n - k) div k) \<longleftrightarrow> odd (n div k)" if "k \<le> n"
  proof -
    have "n div k = (n - k) div k + 1"
      using that assms(2) by (simp add: div_if [of n k])
    then show ?thesis by simp
  qed
  then show ?thesis
    using assms by (auto simp: bit_simps add.commute)
qed

definition swap_index :: "nat \<Rightarrow> nat \<Rightarrow> nat" where
  "swap_index k n = (if even (n div k) then n + k else n - k)"

lemma swap_index_reverses:
  assumes "n < 32"
  shows "swap_index 16 n < 32" "swap_index 8 (swap_index 16 n) < 32"
    "swap_index 4 (swap_index 8 (swap_index 16 n)) < 32"
    "swap_index 2 (swap_index 4 (swap_index 8 (swap_index 16 n))) < 32"
    "swap_index 1 (swap_index 2 (swap_index 4 (swap_index 8 (swap_index 16 n)))) = 31 - n"
proof -
  have "\<forall>n \<in> set [0..<32]. swap_index 16 n < 32 \<and> swap_index 8 (swap_index 16 n) < 32 \<and>
    swap_index 4 (swap_index 8 (swap_index 16 n)) < 32 \<and>
    swap_index 2 (swap_index 4 (swap_index 8 (swap_index 16 n))) < 32 \<and>
    swap_index 1 (swap_index 2 (swap_index 4 (swap_index 8 (swap_index 16 n)))) = 31 - n"
    by code_simp
  with assms show "swap_index 16 n < 32" "swap_index 8 (swap_index 16 n) < 32"
    "swap_index 4 (swap_index 8 (swap_index 16 n)) < 32"
    "swap_index 2 (swap_index 4 (swap_index 8 (swap_index 16 n))) < 32"
    "swap_index 1 (swap_index 2 (swap_index 4 (swap_index 8 (swap_index 16 n)))) = 31 - n"
    by simp_all
qed

lemma swap_groups:
  fixes x :: u32
  assumes n: "n < 32"
  shows "bit ((drop_bit 1 x AND 0x55555555) OR push_bit 1 (x AND 0x55555555)) n = bit x (swap_index 1 n)"
    and "bit ((drop_bit 2 x AND 0x33333333) OR push_bit 2 (x AND 0x33333333)) n = bit x (swap_index 2 n)"
    and "bit ((drop_bit 4 x AND 0x0f0f0f0f) OR push_bit 4 (x AND 0x0f0f0f0f)) n = bit x (swap_index 4 n)"
    and "bit ((drop_bit 8 x AND 0x00ff00ff) OR push_bit 8 (x AND 0x00ff00ff)) n = bit x (swap_index 8 n)"
    and "bit (drop_bit 16 x OR push_bit 16 x) n = bit x (swap_index 16 n)"
proof -
  have mask1: "bit (0x55555555 :: u32) i \<longleftrightarrow> even (i div 1)" if "i < 32" for i
    using group_masks(1) [OF that] by simp
  show "bit ((drop_bit 1 x AND 0x55555555) OR push_bit 1 (x AND 0x55555555)) n = bit x (swap_index 1 n)"
    unfolding swap_index_def using n by (intro bit_swap mask1) presburger+
  show "bit ((drop_bit 2 x AND 0x33333333) OR push_bit 2 (x AND 0x33333333)) n = bit x (swap_index 2 n)"
    unfolding swap_index_def using n by (intro bit_swap group_masks) presburger+
  show "bit ((drop_bit 4 x AND 0x0f0f0f0f) OR push_bit 4 (x AND 0x0f0f0f0f)) n = bit x (swap_index 4 n)"
    unfolding swap_index_def using n by (intro bit_swap group_masks) presburger+
  show "bit ((drop_bit 8 x AND 0x00ff00ff) OR push_bit 8 (x AND 0x00ff00ff)) n = bit x (swap_index 8 n)"
    unfolding swap_index_def using n by (intro bit_swap group_masks) presburger+
  have "even (n div 16) \<longleftrightarrow> n < 16" using n by presburger
  then show "bit (drop_bit 16 x OR push_bit 16 x) n = bit x (swap_index 16 n)"
    using n by (auto simp: swap_index_def bit_simps add.commute dest: bit_imp_le_length)
qed

lemma reverse_checksum_mirrored: "mirrored x (reverse_checksum x)"
proof -
  have "bit (reverse_checksum x) n \<longleftrightarrow> bit x (31 - n)" if "n < 32" for n
    unfolding reverse_checksum_def Let_def
    by (simp only: swap_groups swap_index_reverses [OF that] that)
  then show ?thesis by (simp add: mirrored_def)
qed

text \<open>On every platform and at every alignment the checksum is the bitwise one.\<close>

lemma crc32c_hw_eq:
  assumes "crc_platform_ok pl"
  shows "crc32c_hw pl amask data s = crc_ref data s"
proof -
  define limit where "limit = (if amask \<noteq> 0 then min (length data) (8 - amask) else 0)"
  obtain s' rest where w: "crc_words pl (drop limit data) (crc_ref (take limit data) s) = (s', rest)"
    by (cases "crc_words pl (drop limit data) (crc_ref (take limit data) s)")
  have "crc_ref rest s' = crc_ref (drop limit data) (crc_ref (take limit data) s)"
    using crc_words_eq [OF assms w] .
  also have "\<dots> = crc_ref data s"
    by (simp flip: crc_ref_append)
  finally show ?thesis
    using w unfolding crc32c_hw_def crc_bytes_eq [OF assms] Let_def limit_def [symmetric] by simp
qed

lemma crc32c_eq:
  assumes "crc_platform_ok pl"
  shows "crc32c pl amask data s = crc_ref data s"
proof -
  have "crc32c_sw pl data s = crc_ref data s"
    using assms reverse_checksum_mirrored [of s]
    unfolding crc32c_sw_def crc_platform_ok_def by blast
  then show ?thesis
    by (simp add: crc32c_def crc32c_hw_eq [OF assms])
qed

end
