(* ===== verification/Board_Hash.thy ===== *)
theory Board_Hash
  imports Checksum Board_State
begin

text \<open>
  \<open>Board::hash\<close> (\<open>chess/board.h\<close>): the signature under which the search caches a position, a
  combination of the checksums of the two halves of the cell array.
\<close>

text \<open>
  \<open>std_hash_u32\<close> is the implementation's \<open>std::hash<uint32_t>\<close>; \<open>positions_mask\<close> is the
  address of \<open>positions_\<close> modulo 8. The second half starts 32 bytes later, so its alignment is
  the same.
\<close>

record hash_platform = crc_platform +
  std_hash_u32 :: "u32 \<Rightarrow> u64"
  positions_mask :: nat

definition cell_byte :: "ptype \<Rightarrow> u8" where
  "cell_byte t = word_of_int (type_value t)"

definition Board_hash :: "('a) hash_platform_scheme \<Rightarrow> board \<Rightarrow> u64" where
  "Board_hash pl b =
     (let bytes = map cell_byte (positions b);
          halfSize = 32;
          start = take halfSize bytes;
          mid = take halfSize (drop halfSize bytes);
          crc = (\<lambda>half. crc32c (crc_platform.truncate pl) (positions_mask pl) half (- 1))
      in std_hash_pair (std_hash_u32 pl) (std_hash_u32 pl) (crc start, crc mid))"

lemma Board_hash_eq:
  assumes "crc_platform_ok (crc_platform.truncate pl)"
  shows "Board_hash pl b = hash_128_to_64
    (std_hash_u32 pl (crc_ref (take 32 (map cell_byte (positions b))) (- 1)))
    (std_hash_u32 pl (crc_ref (take 32 (drop 32 (map cell_byte (positions b)))) (- 1)))"
  by (simp add: Board_hash_def crc32c_eq [OF assms] std_hash_pair_def hash_combine_def Let_def)

lemma Board_hash_compare:
  assumes "wf_board b" "wf_board b'" "Board_compare b b' = 0"
  shows "Board_hash pl b = Board_hash pl b'"
proof -
  have "positions b = positions b'"
    using assms memcmp_cells_eq_0 by (simp add: Board_compare_def wf_board_def)
  then show ?thesis by (simp add: Board_hash_def)
qed

end
