(* ===== verification/Piece_Bank.thy ===== *)
theory Piece_Bank
  imports Board_State
begin

text \<open>
  \<open>PieceBank\<close> (\<open>chess/piece_bank.h\<close>, \<open>piece_bank.cc\<close>): the one table of immutable piece
  objects that \<open>safePiece\<close>, the search and the printing code point into, and the printing of
  pieces and moves. A table \<open>T[8][8]\<close> is its sixty-four elements in row-major order, a pointer
  to an element is that element's value, since nothing writes to the tables after \<open>init\<close>.
\<close>

section \<open>The tables\<close>

record piece_bank =
  bpawns :: "piece list"
  wpawns :: "piece list"
  rooks :: "bool \<Rightarrow> piece list"
  bishops :: "bool \<Rightarrow> piece list"
  kings :: "bool \<Rightarrow> piece list"
  queens :: "bool \<Rightarrow> piece list"
  knights :: "bool \<Rightarrow> piece list"

text \<open>
  The second dimension \<open>[2]\<close> of the other tables is indexed by \<open>True\<close> (index 0, black) and
  \<open>False\<close> (index 1, white). Default construction makes every element black, at \<open>(-1, -1)\<close>.
\<close>

definition default_bank :: piece_bank where
  "default_bank = \<lparr>bpawns = replicate 64 (new_BPawn (- 1) (- 1)),
     wpawns = replicate 64 (new_WPawn (- 1) (- 1)),
     rooks = (\<lambda>_. replicate 64 (new_Rook True (- 1) (- 1))),
     bishops = (\<lambda>_. replicate 64 (new_Bishop True (- 1) (- 1))),
     kings = (\<lambda>_. replicate 64 (new_King True (- 1) (- 1))),
     queens = (\<lambda>_. replicate 64 (new_Queen True (- 1) (- 1))),
     knights = (\<lambda>_. replicate 64 (new_Knight True (- 1) (- 1)))\<rparr>"

definition at_cell :: "position \<Rightarrow> ('a \<Rightarrow> 'a) \<Rightarrow> 'a list \<Rightarrow> 'a list" where
  "at_cell pos f xs = (let i = nat (cell_index pos) in xs[i := f (xs ! i)])"

definition set_type :: "ptype \<Rightarrow> piece \<Rightarrow> piece" where
  "set_type t p = p\<lparr>type := t\<rparr>"

definition init_cell :: "position \<Rightarrow> piece_bank \<Rightarrow> piece_bank" where
  "init_cell pos bk = \<lparr>
     bpawns = at_cell pos (setPosition pos) (bpawns bk),
     wpawns = at_cell pos (setPosition pos) (wpawns bk),
     rooks = (\<lambda>black. at_cell pos (\<lambda>p. set_type (if black then B_ROOK else W_ROOK) (setPosition pos p))
       (rooks bk black)),
     bishops = (\<lambda>black. at_cell pos (\<lambda>p. set_type (if black then B_BISHOP else W_BISHOP) (setPosition pos p))
       (bishops bk black)),
     kings = (\<lambda>black. at_cell pos (\<lambda>p. set_type (if black then B_KING else W_KING) (setPosition pos p))
       (kings bk black)),
     queens = (\<lambda>black. at_cell pos (\<lambda>p. set_type (if black then B_QUEEN else W_QUEEN) (setPosition pos p))
       (queens bk black)),
     knights = (\<lambda>black. at_cell pos (\<lambda>p. set_type (if black then B_KNIGHT else W_KNIGHT) (setPosition pos p))
       (knights bk black))\<rparr>"

definition PieceBank_init :: "piece_bank \<Rightarrow> piece_bank" where
  "PieceBank_init bk = fold init_cell all_positions bk"

definition theBank :: piece_bank where
  "theBank = PieceBank_init default_bank"

definition cell_at :: "'a list \<Rightarrow> position \<Rightarrow> 'a option result" where
  "cell_at xs pos =
     (let i = cell_index pos in if 0 \<le> i \<and> i < 64 then Inr (Some (xs ! nat i)) else Inl BadIndex)"

text \<open>\<open>PieceBank::piece\<close>: \<open>None\<close> is the null pointer.\<close>

definition bank_piece :: "piece_bank \<Rightarrow> ptype \<Rightarrow> position \<Rightarrow> piece option result" where
  "bank_piece bk t pos =
     (case t of
        B_PAWN \<Rightarrow> cell_at (bpawns bk) pos
      | W_PAWN \<Rightarrow> cell_at (wpawns bk) pos
      | B_ROOK \<Rightarrow> cell_at (rooks bk True) pos
      | W_ROOK \<Rightarrow> cell_at (rooks bk False) pos
      | B_BISHOP \<Rightarrow> cell_at (bishops bk True) pos
      | W_BISHOP \<Rightarrow> cell_at (bishops bk False) pos
      | B_KNIGHT \<Rightarrow> cell_at (knights bk True) pos
      | W_KNIGHT \<Rightarrow> cell_at (knights bk False) pos
      | B_QUEEN \<Rightarrow> cell_at (queens bk True) pos
      | W_QUEEN \<Rightarrow> cell_at (queens bk False) pos
      | B_KING \<Rightarrow> cell_at (kings bk True) pos
      | W_KING \<Rightarrow> cell_at (kings bk False) pos
      | EMPTY \<Rightarrow> Inr None)"

definition PieceBank_get :: "ptype \<Rightarrow> position \<Rightarrow> piece option result" where
  "PieceBank_get t pos = bank_piece theBank t pos"

definition PieceBank_moveTo :: "piece \<Rightarrow> position \<Rightarrow> piece option result" where
  "PieceBank_moveTo p pos = bank_piece theBank (type p) pos"

definition safePiece :: "board \<Rightarrow> position \<Rightarrow> piece option result" where
  "safePiece b pos = PieceBank_get (getPieceTypeAtPosition b pos) pos"

text \<open>A pointer that is dereferenced.\<close>

definition deref :: "'a option \<Rightarrow> 'a result" where
  "deref p = (case p of None \<Rightarrow> Inl NullPointer | Some x \<Rightarrow> Inr x)"

section \<open>Printing\<close>

definition printPiece :: "ptype \<Rightarrow> position \<Rightarrow> string" where
  "printPiece t pos =
     [kPieceChar ! nat (type_value t), char_of (97 + snd pos), char_of (49 + fst pos)]"

definition print_piece :: "piece \<Rightarrow> string" where
  "print_piece p = printPiece (type p) (position p)"

definition Move_print :: "move \<Rightarrow> string result" where
  "Move_print m =
     rbind (PieceBank_get (fromType m) (from_pos m)) (\<lambda>pf.
     rbind (deref pf) (\<lambda>f.
     rbind (PieceBank_get (newType m) (to_pos m)) (\<lambda>pt.
     rbind (deref pt) (\<lambda>t.
       Inr (print_piece f
         @ (if special m = QUEEN_PROMOTION \<or> special m = KNIGHT_PROMOTION then '' x '' else '' - '')
         @ print_piece t)))))"

definition notation_mark :: "SpecialType \<Rightarrow> string" where
  "notation_mark sp = (case sp of
       PAWN_EN_PASSANT \<Rightarrow> ''^''
     | KING_CASTLING \<Rightarrow> ''0''
     | QUEEN_PROMOTION \<Rightarrow> ''x''
     | KNIGHT_PROMOTION \<Rightarrow> ''x''
     | NORMAL_MOVE \<Rightarrow> '' '')"

definition Move_notation :: "move \<Rightarrow> string result" where
  "Move_notation m =
     rbind (PieceBank_get (newType m) (to_pos m)) (\<lambda>pt.
     rbind (deref pt) (\<lambda>t. Inr (notation_mark (special m) @ print_piece t)))"

definition printLastMove :: "board \<Rightarrow> string result" where
  "printLastMove b =
     (if \<not> isValidPosition (from_pos (lastMove b)) then Inr ''---'' else Move_notation (lastMove b))"

section \<open>The bank holds what create makes\<close>

lemma length_at_cell [simp]: "length (at_cell pos f xs) = length xs"
  by (simp add: at_cell_def Let_def)

lemma length_fold_at_cell [simp]: "length (fold (\<lambda>p. at_cell p (F p)) ps xs) = length xs"
  by (induction ps arbitrary: xs) auto

lemma nth_fold_at_cell:
  assumes "distinct ps" "\<forall>q \<in> set ps. isValidPosition q" "isValidPosition p" "length xs = 64"
  shows "fold (\<lambda>p. at_cell p (F p)) ps xs ! nat (cell_index p) =
    (if p \<in> set ps then F p (xs ! nat (cell_index p)) else xs ! nat (cell_index p))"
  using assms
proof (induction ps arbitrary: xs)
  case Nil
  then show ?case by simp
next
  case (Cons q ps)
  have "nat (cell_index p) < 64" using Cons.prems(3) cell_index_range [of p] by linarith
  then have "at_cell q (F q) xs ! nat (cell_index p) =
      (if q = p then F p (xs ! nat (cell_index p)) else xs ! nat (cell_index p))"
    using Cons.prems nat_cell_index_inj [of q p] by (auto simp: at_cell_def Let_def)
  with Cons show ?case by auto
qed

lemma bank_tables:
  "bpawns (fold init_cell ps bk) = fold (\<lambda>p. at_cell p (setPosition p)) ps (bpawns bk)"
  "wpawns (fold init_cell ps bk) = fold (\<lambda>p. at_cell p (setPosition p)) ps (wpawns bk)"
  "rooks (fold init_cell ps bk) s = fold (\<lambda>p. at_cell p
     (\<lambda>q. set_type (if s then B_ROOK else W_ROOK) (setPosition p q))) ps (rooks bk s)"
  "bishops (fold init_cell ps bk) s = fold (\<lambda>p. at_cell p
     (\<lambda>q. set_type (if s then B_BISHOP else W_BISHOP) (setPosition p q))) ps (bishops bk s)"
  "kings (fold init_cell ps bk) s = fold (\<lambda>p. at_cell p
     (\<lambda>q. set_type (if s then B_KING else W_KING) (setPosition p q))) ps (kings bk s)"
  "queens (fold init_cell ps bk) s = fold (\<lambda>p. at_cell p
     (\<lambda>q. set_type (if s then B_QUEEN else W_QUEEN) (setPosition p q))) ps (queens bk s)"
  "knights (fold init_cell ps bk) s = fold (\<lambda>p. at_cell p
     (\<lambda>q. set_type (if s then B_KNIGHT else W_KNIGHT) (setPosition p q))) ps (knights bk s)"
  by (induction ps arbitrary: bk) (simp_all add: init_cell_def)

lemma init_table:
  assumes "isValidPosition p" "length xs = 64"
  shows "cell_at (fold (\<lambda>p. at_cell p (F p)) all_positions xs) p =
    Inr (Some (F p (xs ! nat (cell_index p))))"
  using assms cell_index_range [OF assms(1)]
  by (simp add: cell_at_def nth_fold_at_cell distinct_all_positions)

lemma PieceBank_get_eq:
  assumes "isValidPosition pos"
  shows "PieceBank_get t pos = Inr (create t pos)"
proof -
  have "nat (cell_index pos) < 64" using cell_index_range [OF assms] by linarith
  with assms show ?thesis
    by (cases t)
    (simp_all add: PieceBank_get_def bank_piece_def theBank_def PieceBank_init_def bank_tables init_table
      default_bank_def create_def new_piece_defs setPosition_def set_type_def)
qed

lemma PieceBank_get_code [code]:
  "PieceBank_get t pos =
     (if isValidPosition pos then Inr (create t pos) else bank_piece theBank t pos)"
  by (simp add: PieceBank_get_eq) (simp add: PieceBank_get_def)

lemma safePiece_eq: "isValidPosition pos \<Longrightarrow> safePiece b pos = Inr (Board_piece b pos)"
  by (simp add: safePiece_def Board_piece_def PieceBank_get_eq)

lemma kPieceChar_nth:
  "kPieceChar ! nat (type_value t) = (case t of EMPTY \<Rightarrow> CHR ''x''
     | W_PAWN \<Rightarrow> CHR ''p'' | W_ROOK \<Rightarrow> CHR ''r'' | W_KNIGHT \<Rightarrow> CHR ''n''
     | W_KING \<Rightarrow> CHR ''k'' | W_QUEEN \<Rightarrow> CHR ''q'' | W_BISHOP \<Rightarrow> CHR ''b''
     | B_PAWN \<Rightarrow> CHR ''P'' | B_ROOK \<Rightarrow> CHR ''R'' | B_KNIGHT \<Rightarrow> CHR ''N''
     | B_KING \<Rightarrow> CHR ''K'' | B_QUEEN \<Rightarrow> CHR ''Q'' | B_BISHOP \<Rightarrow> CHR ''B'')"
  by (cases t) (simp_all add: kPieceChar_def)

lemma kPieceChar_inj:
  "kPieceChar ! nat (type_value s) = kPieceChar ! nat (type_value t) \<longleftrightarrow> s = t"
  unfolding kPieceChar_nth by (cases s; cases t; simp)

lemma char_of_inj:
  "0 \<le> x \<Longrightarrow> x < 256 \<Longrightarrow> 0 \<le> y \<Longrightarrow> y < 256 \<Longrightarrow> (char_of x :: char) = char_of y \<longleftrightarrow> x = (y :: int)"
  by (simp add: char_of_eq_iff take_bit_eq_mod)

lemma printPiece_inj:
  assumes "isValidPosition p" "isValidPosition q" "printPiece s p = printPiece t q"
  shows "s = t \<and> p = q"
  using assms char_of_inj [of "97 + snd p" "97 + snd q"] char_of_inj [of "49 + fst p" "49 + fst q"]
  by (cases p; cases q) (auto simp: printPiece_def kPieceChar_inj)

lemma Move_notation_eq:
  assumes "isValidPosition (to_pos m)" "newType m \<noteq> EMPTY"
  shows "Move_notation m = Inr (notation_mark (special m) @ printPiece (newType m) (to_pos m))"
  using assms by (simp add: Move_notation_def PieceBank_get_eq create_eq deref_def print_piece_def)

end
