(* ===== verification/Heuristics.thy ===== *)
theory Heuristics
  imports Complex_Main Board_Hash Piece_Attack Piece_Bank
begin

text \<open>
  \<open>Piece::heuristicScore\<close>, \<open>Piece::distanceFactor\<close> (\<open>chess/piece.cc\<close>) and
  \<open>Move::heuristicScore\<close> (\<open>chess/move.cc\<close>): the estimates the search orders moves by.

  A finite \<open>float\<close> is a rational number. The platform's rounding to \<open>float\<close> and its two
  exponential functions are arguments, applied where the source rounds and calls them; the
  platform also brings the \<open>std::sort\<close> the search orders the moves with, which may arrange
  equal elements as it likes.
\<close>

record platform = hash_platform +
  fl :: "rat \<Rightarrow> rat"
  exp_float :: "rat \<Rightarrow> rat"
  exp_double :: "rat \<Rightarrow> rat"
  std_sort :: "(nat \<Rightarrow> nat \<Rightarrow> bool) \<Rightarrow> nat list \<Rightarrow> nat list"

text \<open>What the standard says of \<open>std::sort\<close> with a comparison by keys, largest first.\<close>

definition sort_ok :: "platform \<Rightarrow> bool" where
  "sort_ok pl \<longleftrightarrow>
     (\<forall>(key :: nat \<Rightarrow> rat) xs.
        mset (std_sort pl (\<lambda>x y. key x > key y) xs) = mset xs \<and>
        sorted_wrt (\<lambda>x y. key x \<ge> key y) (std_sort pl (\<lambda>x y. key x > key y) xs))"

definition distanceFactor :: "platform \<Rightarrow> piece \<Rightarrow> position \<Rightarrow> rat" where
  "distanceFactor pl p other =
     (let dx = i8 \<bar>i8 (fst other - row p)\<bar>;
          dy = i8 \<bar>i8 (snd other - col p)\<bar>;
          distance = i8 (dx + dy);
          times = (\<lambda>x y. fl pl (x * y));
          decay = (\<lambda>rate. exp_float pl (times (- fl pl rate) (of_int distance)))
      in if type p = B_QUEEN \<or> type p = W_QUEEN then
           let factor = times 1 (decay (5 / 100))
           in if dx = 0 \<or> dy = 0 \<or> dx = dy then times factor (fl pl (5 / 10))
              else times factor (fl pl (25 / 100))
         else if type p = B_ROOK \<or> type p = W_ROOK then
           let factor = times 1 (decay (1 / 10))
           in if dx = 0 \<or> dy = 0 then times factor (fl pl (5 / 10)) else times factor (fl pl (1 / 10))
         else if type p = B_BISHOP \<or> type p = W_BISHOP then
           let factor = times 1 (decay (1 / 10))
           in if dx = dy then times factor (fl pl (4 / 10)) else times factor (fl pl (1 / 10))
         else if type p = B_KNIGHT \<or> type p = W_KNIGHT then decay (3 / 10)
         else if type p = B_KING \<or> type p = W_KING then
           fl pl (exp_double pl (- 1 * of_int distance))
         else if type p = B_PAWN \<or> type p = W_PAWN then
           fl pl (exp_double pl (- (5 / 10) * of_int distance))
         else 0)"

definition Piece_heuristicScore :: "platform \<Rightarrow> piece \<Rightarrow> board \<Rightarrow> rat" where
  "Piece_heuristicScore pl p b =
     (let opponentKingPos = (if isBlack (type p) then whiteKingPosition b else blackKingPosition b)
      in if canAttack p b opponentKingPos then of_int CHECK_HEURISTIC
         else fl pl (of_int CHECK_HEURISTIC * distanceFactor pl p opponentKingPos))"

definition Move_heuristicScore :: "platform \<Rightarrow> move \<Rightarrow> board \<Rightarrow> rat result" where
  "Move_heuristicScore pl m b =
     rbind (PieceBank_get (newType m) (to_pos m)) (\<lambda>pt.
     rbind (deref pt) (\<lambda>p. Inr (Piece_heuristicScore pl p b)))"

section \<open>A check is the best estimate\<close>

text \<open>
  What is used of the arithmetic: rounding is monotone and keeps the numbers 0, 1 and 10,
  and the exponential of a number that is not positive lies between 0 and 1.
\<close>

definition float_ok :: "platform \<Rightarrow> bool" where
  "float_ok pl \<longleftrightarrow>
     (\<forall>x y. x \<le> y \<longrightarrow> fl pl x \<le> fl pl y) \<and> fl pl 0 = 0 \<and> fl pl 1 = 1 \<and> fl pl 10 = 10 \<and>
     (\<forall>x \<le> 0. 0 \<le> exp_float pl x \<and> exp_float pl x \<le> 1 \<and>
        0 \<le> exp_double pl x \<and> exp_double pl x \<le> 1)"

lemma fl_unit:
  assumes "float_ok pl" "0 \<le> x" "x \<le> 1"
  shows "0 \<le> fl pl x \<and> fl pl x \<le> 1"
proof -
  have "fl pl 0 \<le> fl pl x" "fl pl x \<le> fl pl 1"
    using assms unfolding float_ok_def by blast+
  then show ?thesis using assms(1) by (simp add: float_ok_def)
qed

lemma fl_unit_times:
  assumes "float_ok pl" "0 \<le> x \<and> x \<le> 1" "0 \<le> y \<and> y \<le> 1"
  shows "0 \<le> fl pl (x * y) \<and> fl pl (x * y) \<le> 1"
  using assms by (intro fl_unit) (auto intro: mult_le_one)

lemma decay_unit:
  assumes "float_ok pl" "0 \<le> rate" "0 \<le> d"
  shows "0 \<le> exp_float pl (fl pl (- fl pl rate * d)) \<and> exp_float pl (fl pl (- fl pl rate * d)) \<le> 1"
proof -
  have "0 \<le> fl pl rate"
    using assms(1,2) unfolding float_ok_def by metis
  then have "- fl pl rate * d \<le> 0" using assms(3) by simp
  then have "fl pl (- fl pl rate * d) \<le> 0"
    using assms(1) unfolding float_ok_def by metis
  then show ?thesis
    using assms(1) unfolding float_ok_def by blast
qed

lemma distance_nonneg:
  assumes "isValidPosition (position p)" "isValidPosition other"
  shows "0 \<le> i8 (i8 \<bar>i8 (fst other - row p)\<bar> + i8 \<bar>i8 (snd other - col p)\<bar>)"
  using assms by (cases other) (auto simp: position_def)

lemma distanceFactor_unit:
  assumes ok: "float_ok pl" and "isValidPosition (position p)" "isValidPosition other"
  shows "0 \<le> distanceFactor pl p other \<and> distanceFactor pl p other \<le> 1"
proof -
  define d where "d = i8 (i8 \<bar>i8 (fst other - row p)\<bar> + i8 \<bar>i8 (snd other - col p)\<bar>)"
  have d: "(0 :: rat) \<le> of_int d"
    using distance_nonneg [OF assms(2,3)] by (simp add: d_def)
  have dec: "0 \<le> exp_float pl (fl pl (- fl pl r * of_int d)) \<and> exp_float pl (fl pl (- fl pl r * of_int d)) \<le> 1"
    if "0 \<le> r" for r
    using decay_unit [OF ok that d] .
  have dbl: "0 \<le> fl pl (exp_double pl (- (r * of_int d))) \<and> fl pl (exp_double pl (- (r * of_int d))) \<le> 1"
    if "0 \<le> r" for r
  proof -
    have "- (r * of_int d) \<le> 0" using that d by simp
    then have "0 \<le> exp_double pl (- (r * of_int d))" "exp_double pl (- (r * of_int d)) \<le> 1"
      using ok unfolding float_ok_def by blast+
    then show ?thesis by (rule fl_unit [OF ok])
  qed
  have one: "fl pl (1 * x) = fl pl x" for x by simp
  have prod: "0 \<le> fl pl (fl pl (1 * exp_float pl (fl pl (- fl pl r * of_int d))) * fl pl k) \<and>
      fl pl (fl pl (1 * exp_float pl (fl pl (- fl pl r * of_int d))) * fl pl k) \<le> 1"
    if "0 \<le> r" "0 \<le> k" "k \<le> 1" for r k
    using dec [OF that(1)] that(2,3) unfolding one
    by (intro fl_unit_times [OF ok] fl_unit [OF ok]) auto
  note cases = prod [of "5 / 100" "5 / 10"] prod [of "5 / 100" "25 / 100"] prod [of "1 / 10" "5 / 10"]
    prod [of "1 / 10" "1 / 10"] prod [of "1 / 10" "4 / 10"] dec [of "3 / 10"] dbl [of 1] dbl [of "5 / 10"]
  show ?thesis
    unfolding distanceFactor_def Let_def d_def [symmetric]
    using cases by auto
qed

text \<open>
  The estimate of a piece lies between 0 and the value of a check, which is what an attack on
  the king yields.
\<close>

lemma Piece_heuristicScore_bounds:
  assumes "float_ok pl" "isValidPosition (position p)" "board_ok b"
  shows "0 \<le> Piece_heuristicScore pl p b \<and> Piece_heuristicScore pl p b \<le> 10"
proof -
  define k where "k = (if isBlack (type p) then whiteKingPosition b else blackKingPosition b)"
  have "isValidPosition k" using board_okD(3,4) [OF assms(3)] by (simp add: k_def)
  then have "0 \<le> 10 * distanceFactor pl p k" "10 * distanceFactor pl p k \<le> 10"
    using distanceFactor_unit [OF assms(1,2), of k] by simp_all
  then have "fl pl 0 \<le> fl pl (10 * distanceFactor pl p k)" "fl pl (10 * distanceFactor pl p k) \<le> fl pl 10"
    using assms(1) unfolding float_ok_def by blast+
  then have "0 \<le> fl pl (10 * distanceFactor pl p k) \<and> fl pl (10 * distanceFactor pl p k) \<le> 10"
    using assms(1) by (simp add: float_ok_def)
  then show ?thesis
    by (simp add: Piece_heuristicScore_def Let_def flip: k_def)
qed

end
