(* ===== verification/Static_Forest.thy ===== *)
theory Static_Forest
  imports Chess_Prelude "HOL-Library.Word"
begin

text \<open>
  \<open>StaticForest\<close> (\<open>chess/static_forest.h\<close>): an append-only vector of nodes that refer to each
  other by 32-bit index. The interface its one client, the solution cache, relies on is the
  locale \<open>node_store\<close>; it is interpreted on the model of the container.
\<close>

section \<open>The container\<close>

type_synonym index = "32 word"

definition NULL_INDEX :: index where
  "NULL_INDEX = - 1"

record 'a node =
  data :: 'a
  children :: "index list"

record 'a forest =
  container :: "'a node list"

definition empty_forest :: "'a forest" where
  "empty_forest = \<lparr>container = []\<rparr>"

definition emplace_back :: "'a \<Rightarrow> 'a forest \<Rightarrow> 'a forest" where
  "emplace_back d f = f\<lparr>container := container f @ [\<lparr>data = d, children = []\<rparr>]\<rparr>"

definition forest_size :: "'a forest \<Rightarrow> nat" where
  "forest_size f = length (container f)"

text \<open>\<open>add(data)\<close>: the index is \<open>container.size() - 1\<close> narrowed to \<open>uint32_t\<close>.\<close>

definition forest_add :: "'a \<Rightarrow> 'a forest \<Rightarrow> index \<times> 'a forest" where
  "forest_add d f =
     (let f' = emplace_back d f in (word_of_nat (forest_size f' - 1), f'))"

definition forest_addChild :: "index \<Rightarrow> index \<Rightarrow> 'a forest \<Rightarrow> 'a forest result" where
  "forest_addChild parent child f =
     (if unat parent < forest_size f then
        let nd = container f ! unat parent
        in Inr (f\<lparr>container := (container f)[unat parent := nd\<lparr>children := children nd @ [child]\<rparr>]\<rparr>)
      else Inl BadIndex)"

text \<open>\<open>add(data, parent)\<close>, with both of its \<open>emplace_back\<close> calls.\<close>

definition forest_add_under :: "'a \<Rightarrow> index \<Rightarrow> 'a forest \<Rightarrow> (index \<times> 'a forest) result" where
  "forest_add_under d parent f =
     (let f' = emplace_back d (emplace_back d f);
          idx = word_of_nat (forest_size f' - 1)
      in if parent \<noteq> NULL_INDEX then
           rbind (CHECK (parent < idx) ParentOrder) (\<lambda>_.
           rbind (forest_addChild parent idx f') (\<lambda>f''. Inr (idx, f'')))
         else Inr (idx, f'))"

definition forest_node :: "'a forest \<Rightarrow> index \<Rightarrow> 'a node result" where
  "forest_node f idx =
     (if unat idx < forest_size f then Inr (container f ! unat idx) else Inl BadIndex)"

definition forest_clear :: "'a forest \<Rightarrow> 'a forest" where
  "forest_clear f = f\<lparr>container := []\<rparr>"

definition forest_memsize :: "nat \<Rightarrow> nat \<Rightarrow> nat" where
  "forest_memsize capacity sizeof_node = capacity * sizeof_node"

section \<open>The interface\<close>

text \<open>
  What a client may rely on: a new node is found under the index it was given, with its data
  and no children, and under no index of an older node; adding a child appends to the
  children of one node and changes nothing else.
\<close>

locale node_store =
  fixes add :: "'d \<Rightarrow> 's \<Rightarrow> 'i \<times> 's"
    and child :: "'i \<Rightarrow> 'i \<Rightarrow> 's \<Rightarrow> 's result"
    and look :: "'s \<Rightarrow> 'i \<Rightarrow> ('d \<times> 'i list) option"
    and room :: "'s \<Rightarrow> bool"
  assumes add_fresh: "room s \<Longrightarrow> look s (fst (add d s)) = None"
    and add_look: "room s \<Longrightarrow>
      look (snd (add d s)) i = (if i = fst (add d s) then Some (d, []) else look s i)"
    and child_look: "look s i = Some (d, cs) \<Longrightarrow>
      \<exists>s'. child i c s = Inr s' \<and> (\<forall>j. look s' j = (if j = i then Some (d, cs @ [c]) else look s j))"
    and child_missing: "look s i = None \<Longrightarrow> child i c s = Inl BadIndex"
begin

lemma add_keeps: "room s \<Longrightarrow> look s i = Some x \<Longrightarrow> look (snd (add d s)) i = Some x"
  using add_fresh [of s d] by (auto simp: add_look)

lemma add_child:
  assumes "room s" and "look s i = Some (d, cs)"
  shows "\<exists>s'. child i (fst (add x s)) (snd (add x s)) = Inr s' \<and>
    look s' i = Some (d, cs @ [fst (add x s)]) \<and> look s' (fst (add x s)) = Some (x, [])"
proof -
  have "look (snd (add x s)) i = Some (d, cs)"
    using assms by (rule add_keeps)
  moreover have "fst (add x s) \<noteq> i"
    using add_fresh [OF assms(1), of x] assms(2) by auto
  ultimately show ?thesis
    using child_look [of "snd (add x s)" i d cs "fst (add x s)"] by (auto simp: add_look assms(1))
qed

end

section \<open>The container implements the interface\<close>

definition forest_look :: "'a forest \<Rightarrow> index \<Rightarrow> ('a \<times> index list) option" where
  "forest_look f i =
     (case forest_node f i of Inl _ \<Rightarrow> None | Inr nd \<Rightarrow> Some (data nd, children nd))"

text \<open>Room for one more node whose index is not the null index.\<close>

definition forest_room :: "'a forest \<Rightarrow> bool" where
  "forest_room f \<longleftrightarrow> forest_size f < 2 ^ 32 - 1"

lemma unat_index: "n < 2 ^ 32 \<Longrightarrow> unat (word_of_nat n :: index) = n"
  by (simp add: unat_of_nat)

lemma forest_add_eq: "forest_add d f = (word_of_nat (forest_size f), emplace_back d f)"
  by (simp add: forest_add_def emplace_back_def forest_size_def Let_def)

lemma forest_size_simps [simp]:
  "forest_size (emplace_back d f) = Suc (forest_size f)"
  "forest_size empty_forest = 0" "forest_size (forest_clear f) = 0"
  by (simp_all add: emplace_back_def forest_size_def empty_forest_def forest_clear_def)

lemma look_emplace_back:
  assumes "forest_room f"
  shows "forest_look (emplace_back d f) i =
    (if i = word_of_nat (forest_size f) then Some (d, []) else forest_look f i)"
proof -
  have "i = word_of_nat (forest_size f) \<longleftrightarrow> unat i = forest_size f"
    using assms unat_index [of "forest_size f"] by (auto simp: forest_room_def word_unat_eq_iff)
  then show ?thesis
    by (auto simp: forest_look_def forest_node_def emplace_back_def forest_size_def nth_append)
qed

interpretation forest: node_store forest_add forest_addChild forest_look forest_room
proof
  fix f :: "'a forest" and d i
  assume room: "forest_room f"
  then show "forest_look f (fst (forest_add d f)) = None"
    using unat_index [of "forest_size f"]
    by (simp add: forest_add_eq forest_look_def forest_node_def forest_room_def)
  show "forest_look (snd (forest_add d f)) i =
      (if i = fst (forest_add d f) then Some (d, []) else forest_look f i)"
    using room by (simp add: forest_add_eq look_emplace_back)
next
  fix f :: "'a forest" and i d cs c
  assume look: "forest_look f i = Some (d, cs)"
  then have i: "unat i < forest_size f" "container f ! unat i = \<lparr>data = d, children = cs\<rparr>"
    by (auto simp: forest_look_def forest_node_def split: if_splits)
  define f' where "f' = f\<lparr>container := (container f)[unat i := \<lparr>data = d, children = cs @ [c]\<rparr>]\<rparr>"
  have "forest_addChild i c f = Inr f'"
    using i by (simp add: forest_addChild_def f'_def)
  moreover have "forest_look f' j = (if j = i then Some (d, cs @ [c]) else forest_look f j)" for j
    using i by (auto simp: f'_def forest_look_def forest_node_def forest_size_def nth_list_update
        word_unat_eq_iff)
  ultimately show "\<exists>s'. forest_addChild i c f = Inr s' \<and>
      (\<forall>j. forest_look s' j = (if j = i then Some (d, cs @ [c]) else forest_look f j))"
    by blast
next
  fix f :: "'a forest" and i c
  assume "forest_look f i = None"
  then show "forest_addChild i c f = Inl BadIndex"
    by (auto simp: forest_look_def forest_node_def forest_addChild_def split: if_splits)
qed

lemma forest_index_not_null:
  assumes "forest_room f"
  shows "fst (forest_add d f) \<noteq> NULL_INDEX"
proof
  assume "fst (forest_add d f) = NULL_INDEX"
  then have "unat (word_of_nat (forest_size f) :: index) = unat (- 1 :: index)"
    by (simp add: forest_add_eq NULL_INDEX_def)
  with assms show False
    by (simp add: forest_room_def unat_index unsigned_minus_1_eq_mask mask_eq_exp_minus_1)
qed

end
