(* ===== verification/Solution_Cache.thy ===== *)
theory Solution_Cache
  imports Static_Forest Board_State
begin

text \<open>
  \<open>SolutionCache\<close> (\<open>chess/solution_cache.h\<close>, \<open>solution_cache.cc\<close>): two maps from board
  signatures to intervals of search heights, the forest of solution moves, and the map from
  signatures to solution roots. \<open>google::dense_hash_map\<close> is not part of the repository; the
  cache uses its \<open>find\<close>, \<open>insert\<close> (which keeps an existing entry) and \<open>clear\<close> and its
  \<open>size\<close>, which are those of a finite map.

  An entry \<open>(lo, hi)\<close> of a signature records that the position is no forced mate at heights up
  to \<open>lo\<close> and a forced mate at heights from \<open>hi\<close> on. The locale \<open>score_cache\<close> states what the
  search may rely on, and is interpreted on the code of both maps.
\<close>

section \<open>State and operations\<close>

type_synonym sig = "64 word"
type_synonym score_map = "sig \<rightharpoonup> int \<times> int"

abbreviation (input) INT_MAX :: int where "INT_MAX \<equiv> 2147483647"

record cache =
  solutions :: "move forest"
  solutionMap :: "sig \<rightharpoonup> index"
  solutionHits :: int
  maxSignatures :: score_map
  minSignatures :: score_map
  gNumMaxStatesExpanded :: int
  gNumMinStatesExpanded :: int

definition new_SolutionCache :: cache where
  "new_SolutionCache = \<lparr>solutions = empty_forest, solutionMap = Map.empty, solutionHits = 0,
     maxSignatures = Map.empty, minSignatures = Map.empty,
     gNumMaxStatesExpanded = 0, gNumMinStatesExpanded = 0\<rparr>"

definition signatures :: "bool \<Rightarrow> cache \<Rightarrow> score_map" where
  "signatures maxOrMin c = (if maxOrMin then maxSignatures c else minSignatures c)"

definition set_signatures :: "bool \<Rightarrow> score_map \<Rightarrow> cache \<Rightarrow> cache" where
  "set_signatures maxOrMin M c =
     (if maxOrMin then c\<lparr>maxSignatures := M\<rparr> else c\<lparr>minSignatures := M\<rparr>)"

text \<open>\<open>None\<close> is the result \<open>false\<close>; \<open>Some s\<close> is \<open>true\<close> with \<open>s\<close> stored in \<open>*score\<close>.\<close>

definition getScoreFromCache :: "bool \<Rightarrow> cache \<Rightarrow> sig \<Rightarrow> int \<Rightarrow> int option" where
  "getScoreFromCache maxOrMin c s height =
     (case signatures maxOrMin c s of
        None \<Rightarrow> None
      | Some (lo, hi) \<Rightarrow>
          if lo \<ge> height then Some NONE
          else if hi \<le> height then Some CHECKMATE
          else None)"

definition updateCache :: "int \<Rightarrow> bool \<Rightarrow> sig \<Rightarrow> int \<Rightarrow> int \<Rightarrow> cache \<Rightarrow> cache" where
  "updateCache min_store maxOrMin s height sc c =
     (if height < min_store then c
      else
        let M = signatures maxOrMin c
        in set_signatures maxOrMin
             (case M s of
                Some (lo, hi) \<Rightarrow>
                  if sc < CHECKMATE \<and> lo < height then M(s \<mapsto> (height, hi))
                  else if hi > height then M(s \<mapsto> (lo, height))
                  else M
              | None \<Rightarrow>
                  if sc < CHECKMATE then M(s \<mapsto> (height, INT_MAX))
                  else M(s \<mapsto> (- INT_MAX, height))) c)"

definition getScoreFromMaxCache :: "cache \<Rightarrow> sig \<Rightarrow> int \<Rightarrow> int option" where
  "getScoreFromMaxCache c s height = getScoreFromCache True c s height"

definition getScoreFromMinCache :: "cache \<Rightarrow> sig \<Rightarrow> int \<Rightarrow> int option" where
  "getScoreFromMinCache c s height = getScoreFromCache False c s height"

definition updateMaxCache :: "int \<Rightarrow> sig \<Rightarrow> int \<Rightarrow> int \<Rightarrow> cache \<Rightarrow> cache" where
  "updateMaxCache min_store s height sc c = updateCache min_store True s height sc c"

definition updateMinCache :: "int \<Rightarrow> sig \<Rightarrow> int \<Rightarrow> int \<Rightarrow> cache \<Rightarrow> cache" where
  "updateMinCache min_store s height sc c = updateCache min_store False s height sc c"

definition getSolution :: "sig \<Rightarrow> cache \<Rightarrow> index \<times> cache" where
  "getSolution s c =
     (case solutionMap c s of
        None \<Rightarrow> (NULL_INDEX, c)
      | Some idx \<Rightarrow> (idx, c\<lparr>solutionHits := solutionHits c + 1\<rparr>))"

text \<open>
  \<open>addSolutionNode(board)\<close> and \<open>addSolutionNode(key, board)\<close>; the second returns the index
  already stored for \<open>key\<close> if there is one, because \<open>insert\<close> does not replace it.
\<close>

definition addSolutionNode :: "board \<Rightarrow> cache \<Rightarrow> index \<times> cache" where
  "addSolutionNode b c =
     (let (idx, f) = forest_add (lastMove b) (solutions c) in (idx, c\<lparr>solutions := f\<rparr>))"

definition addSolutionNode_key :: "sig \<Rightarrow> board \<Rightarrow> cache \<Rightarrow> index \<times> cache" where
  "addSolutionNode_key key b c =
     (let (idx, c') = addSolutionNode b c
      in case solutionMap c' key of
           None \<Rightarrow> (idx, c'\<lparr>solutionMap := (solutionMap c')(key \<mapsto> idx)\<rparr>)
         | Some idx' \<Rightarrow> (idx', c'))"

definition addSolutionChild :: "index \<Rightarrow> index \<Rightarrow> cache \<Rightarrow> cache result" where
  "addSolutionChild parent child c =
     rbind (forest_addChild parent child (solutions c)) (\<lambda>f. Inr (c\<lparr>solutions := f\<rparr>))"

definition cache_clear :: "cache \<Rightarrow> cache" where
  "cache_clear c = c\<lparr>solutions := forest_clear (solutions c), maxSignatures := Map.empty,
     minSignatures := Map.empty, gNumMaxStatesExpanded := 0, gNumMinStatesExpanded := 0,
     solutionMap := Map.empty, solutionHits := 0\<rparr>"

section \<open>What an entry means\<close>

text \<open>
  \<open>mate s h\<close> stands for the true value of the position with signature \<open>s\<close> at height \<open>h\<close>; it
  grows with the height. A cache is sound for it when every entry is.
\<close>

definition mate_mono :: "(sig \<Rightarrow> int \<Rightarrow> bool) \<Rightarrow> bool" where
  "mate_mono mate \<longleftrightarrow> (\<forall>s h h'. mate s h \<longrightarrow> h \<le> h' \<longrightarrow> mate s h') \<and> (\<forall>s h. mate s h \<longrightarrow> 0 < h)"

definition entry_sound :: "(int \<Rightarrow> bool) \<Rightarrow> int \<times> int \<Rightarrow> bool" where
  "entry_sound P e \<longleftrightarrow>
     (\<forall>h \<le> fst e. \<not> P h) \<and> (\<forall>h. snd e \<le> h \<and> h < INT_MAX \<longrightarrow> P h)"

definition cache_sound :: "bool \<Rightarrow> (sig \<Rightarrow> int \<Rightarrow> bool) \<Rightarrow> cache \<Rightarrow> bool" where
  "cache_sound maxOrMin mate c \<longleftrightarrow>
     (\<forall>s e. signatures maxOrMin c s = Some e \<longrightarrow> entry_sound (mate s) e)"

locale score_cache =
  fixes get :: "'c \<Rightarrow> sig \<Rightarrow> int \<Rightarrow> int option"
    and put :: "sig \<Rightarrow> int \<Rightarrow> int \<Rightarrow> 'c \<Rightarrow> 'c"
    and sound :: "(sig \<Rightarrow> int \<Rightarrow> bool) \<Rightarrow> 'c \<Rightarrow> bool"
  assumes get_sound: "sound mate c \<Longrightarrow> h < INT_MAX \<Longrightarrow> get c s h = Some x \<Longrightarrow>
      x = (if mate s h then CHECKMATE else NONE)"
    and put_sound: "sound mate c \<Longrightarrow> mate_mono mate \<Longrightarrow> 0 < h \<Longrightarrow> h < INT_MAX \<Longrightarrow>
      get c s h \<noteq> Some NONE \<Longrightarrow> x \<le> CHECKMATE \<Longrightarrow> (x = CHECKMATE \<longleftrightarrow> mate s h) \<Longrightarrow>
      sound mate (put s h x c)"
begin

text \<open>
  The use the search makes of a cache: look the score up; on a miss compute it, which may
  change the cache, and store it. If the computation is right and does not itself settle the
  position at this height as no mate, the result is right and the cache stays sound.
\<close>

definition memo :: "sig \<Rightarrow> int \<Rightarrow> ('c \<Rightarrow> int \<times> 'c) \<Rightarrow> 'c \<Rightarrow> int \<times> 'c" where
  "memo s h compute c =
     (case get c s h of
        Some x \<Rightarrow> (x, c)
      | None \<Rightarrow> let (x, c') = compute c in (x, put s h x c'))"

lemma memo_sound:
  assumes "sound mate c" "mate_mono mate" "0 < h" "h < INT_MAX"
    and comp: "compute c = (x, c')" "sound mate c'" "get c' s h \<noteq> Some NONE"
      "x \<le> CHECKMATE" "x = CHECKMATE \<longleftrightarrow> mate s h"
  shows "(fst (memo s h compute c) = CHECKMATE \<longleftrightarrow> mate s h) \<and> sound mate (snd (memo s h compute c))"
proof (cases "get c s h")
  case None
  with assms put_sound [of mate c' h s x] show ?thesis
    by (simp add: memo_def)
next
  case (Some y)
  with assms get_sound [of mate c h s y] show ?thesis
    by (simp add: memo_def)
qed

end

lemma signatures_set [simp]:
  "signatures k (set_signatures k' M c) = (if k = k' then M else signatures k c)"
  by (auto simp: signatures_def set_signatures_def)

lemma getScore_sound:
  assumes "cache_sound k mate c" "h < INT_MAX" "getScoreFromCache k c s h = Some x"
  shows "x = (if mate s h then CHECKMATE else NONE)"
  using assms
  by (auto simp: getScoreFromCache_def cache_sound_def entry_sound_def split: option.splits if_splits)

lemma updateCache_sound:
  assumes sound: "cache_sound k mate c" and mono: "mate_mono mate" and h: "0 < h" "h < INT_MAX"
    and miss: "getScoreFromCache k c s h \<noteq> Some NONE"
    and x: "x \<le> CHECKMATE" "x = CHECKMATE \<longleftrightarrow> mate s h"
  shows "cache_sound k mate (updateCache lvl k s h x c)"
proof -
  have up: "mate s i" if "mate s h" "h \<le> i" for i
    using mono that by (auto simp: mate_mono_def)
  have down: "\<not> mate s i" if "\<not> mate s h" "i \<le> h" for i
    using mono that by (auto simp: mate_mono_def)
  have neg: "\<not> mate s i" if "i \<le> - INT_MAX" for i
    using mono that by (force simp: mate_mono_def)
  show ?thesis
    using sound miss x up down neg
    by (fastforce simp: cache_sound_def updateCache_def entry_sound_def getScoreFromCache_def Let_def
        split: option.splits if_splits)
qed

interpretation max_cache: score_cache getScoreFromMaxCache "updateMaxCache lvl" "cache_sound True" for lvl
proof
  fix mate c and h :: int and s x
  assume "cache_sound True mate c" "h < INT_MAX" "getScoreFromMaxCache c s h = Some x"
  then show "x = (if mate s h then CHECKMATE else NONE)"
    unfolding getScoreFromMaxCache_def by (rule getScore_sound)
next
  fix mate c and h :: int and s and x :: int
  assume "cache_sound True mate c" "mate_mono mate" "0 < h" "h < INT_MAX"
    "getScoreFromMaxCache c s h \<noteq> Some NONE" "x \<le> CHECKMATE" "x = CHECKMATE \<longleftrightarrow> mate s h"
  then show "cache_sound True mate (updateMaxCache lvl s h x c)"
    unfolding getScoreFromMaxCache_def updateMaxCache_def by (rule updateCache_sound)
qed

interpretation min_cache: score_cache getScoreFromMinCache "updateMinCache lvl" "cache_sound False" for lvl
proof
  fix mate c and h :: int and s x
  assume "cache_sound False mate c" "h < INT_MAX" "getScoreFromMinCache c s h = Some x"
  then show "x = (if mate s h then CHECKMATE else NONE)"
    unfolding getScoreFromMinCache_def by (rule getScore_sound)
next
  fix mate c and h :: int and s and x :: int
  assume "cache_sound False mate c" "mate_mono mate" "0 < h" "h < INT_MAX"
    "getScoreFromMinCache c s h \<noteq> Some NONE" "x \<le> CHECKMATE" "x = CHECKMATE \<longleftrightarrow> mate s h"
  then show "cache_sound False mate (updateMinCache lvl s h x c)"
    unfolding getScoreFromMinCache_def updateMinCache_def by (rule updateCache_sound)
qed

end
