(* ===== verification/One_Round.thy ===== *)
theory One_Round
  imports Game_Inv Heuristics Solution_Cache
begin

text \<open>
  \<open>OneRound\<close> (\<open>chess/one_round.h\<close>, \<open>one_round.cc\<close>): one round of the depth-first search, a move
  of the side that looks for a mate (max) and the replies of the other side (min). The
  object is a record; the static cache is passed along. A function that the source lets write
  to the object or the cache returns their new values; the scratch board \<open>auxBoard\<close> is
  returned too, because \<open>TryMove\<close> changes it and changes it back.
\<close>

section \<open>The object\<close>

text \<open>
  \<open>ancestors\<close> is the chain of \<open>parent_\<close> pointers: of every ancestor, nearest first, the two
  members a descendant reads, its board and its \<open>maxStepState_\<close>. Neither changes while a
  descendant lives.
\<close>

record one_round =
  curBoard :: board
  blackFirst :: bool
  level :: int
  maxStepPieces :: "piece list"
  minStepPieces :: "piece list"
  maxMovePiece :: "piece option"
  isMaxChecked :: bool
  isMinChecked :: bool
  numMaxMoves :: int
  maxStepState :: "board option"
  minStepStates :: "board list"
  minStepSolutionTrees :: "index list"
  numMinMoves :: int
  ancestors :: "(board \<times> board option) list"

definition isKing :: "ptype \<Rightarrow> bool" where
  "isKing t \<longleftrightarrow> t = B_KING \<or> t = W_KING"

definition deltaMove :: "position \<Rightarrow> position \<Rightarrow> DeltaMove" where
  "deltaMove frm to = delta (i8 (fst to - fst frm)) (i8 (snd to - snd frm))"

definition secondMoveKingType :: "one_round \<Rightarrow> ptype" where
  "secondMoveKingType r = (if blackFirst r then W_KING else B_KING)"

text \<open>\<open>OneRound::init\<close> sorts the pieces of the board into the two lists.\<close>

definition init_step :: "position \<Rightarrow> one_round \<Rightarrow> one_round result" where
  "init_step pos r =
     (if isEmpty (curBoard r) pos then Inr r
      else
        rbind (safePiece (curBoard r) pos) (\<lambda>pp.
        rbind (deref pp) (\<lambda>p.
          if isSameColor (if blackFirst r then B_KING else W_KING) (type p)
          then Inr (r\<lparr>maxStepPieces := maxStepPieces r @ [p]\<rparr>)
          else Inr (r\<lparr>minStepPieces := minStepPieces r @ [p]\<rparr>))))"

definition OneRound_init :: "one_round \<Rightarrow> one_round result" where
  "OneRound_init r =
     rbind (rfold init_step all_positions (r\<lparr>maxStepPieces := [], minStepPieces := []\<rparr>))
       (\<lambda>r'. Inr (r'\<lparr>numMaxMoves := 0\<rparr>))"

text \<open>
  The constructor. \<open>mp\<close>, \<open>fs\<close> and \<open>ns\<close> are what the members it does not initialise hold:
  \<open>maxMovePiece_\<close>, the two check flags and \<open>numMinMoves_\<close>.
\<close>

definition new_OneRound ::
  "piece option \<Rightarrow> bool \<times> bool \<Rightarrow> int \<Rightarrow> board \<Rightarrow> bool \<Rightarrow> int \<Rightarrow> (board \<times> board option) list \<Rightarrow>
    one_round result" where
  "new_OneRound mp fs ns b black lvl par =
     OneRound_init \<lparr>curBoard = b, blackFirst = black, level = lvl, maxStepPieces = [],
       minStepPieces = [], maxMovePiece = mp, isMaxChecked = fst fs, isMinChecked = snd fs,
       numMaxMoves = 0, maxStepState = None, minStepStates = [], minStepSolutionTrees = [],
       numMinMoves = ns, ancestors = par\<rparr>"

definition sameSidePieces :: "one_round \<Rightarrow> ptype \<Rightarrow> piece list" where
  "sameSidePieces r t = (if isBlack t = blackFirst r then maxStepPieces r else minStepPieces r)"

definition opponentPieces :: "one_round \<Rightarrow> ptype \<Rightarrow> piece list" where
  "opponentPieces r t = sameSidePieces r (opponentType t)"

definition cleanUpForMinStep :: "one_round \<Rightarrow> one_round" where
  "cleanUpForMinStep r = r\<lparr>minStepStates := [], minStepSolutionTrees := [], numMinMoves := 0\<rparr>"

definition cleanUp :: "one_round \<Rightarrow> one_round" where
  "cleanUp r = r\<lparr>maxStepPieces := [], minStepPieces := []\<rparr>"

section \<open>Checks\<close>

definition checkChecked :: "one_round \<Rightarrow> board \<Rightarrow> bool \<Rightarrow> bool" where
  "checkChecked r b maxSide =
     (let king = (if maxSide = blackFirst r then blackKingPosition b else whiteKingPosition b);
          pieces = (if maxSide then minStepPieces r else maxStepPieces r)
      in list_ex (\<lambda>p. type p = getPieceTypeAtPosition b (position p) \<and> canAttack p b king) pieces)"

definition isChecking :: "one_round \<Rightarrow> bool result" where
  "isChecking r =
     (let king = (if blackFirst r then whiteKingPosition (curBoard r)
                  else blackKingPosition (curBoard r))
      in case maxMovePiece r of
           None \<Rightarrow> rbind (deref (maxStepState r)) (\<lambda>s. Inr (checkChecked r s False))
         | Some p \<Rightarrow> rbind (deref (maxStepState r)) (\<lambda>s.
             Inr (canAttack p s king \<or> checkChecked r s False)))"

definition OneRound_isChecked :: "one_round \<Rightarrow> bool" where
  "OneRound_isChecked r = checkChecked r (curBoard r) True"

text \<open>
  The scan at the end of \<open>canMove\<close>: along the line from the king through the square the piece
  left. As in \<open>checkCanAttackLine\<close>, the zero step, which no call has, ends it at once.
\<close>

function canMove_line :: "board \<Rightarrow> ptype \<Rightarrow> position \<Rightarrow> position \<Rightarrow> DeltaMove \<Rightarrow> position \<Rightarrow> bool" where
  "canMove_line b t frm to s pos =
     (if isValidPosition pos then
        if pos = to then True
        else if isEmpty b pos \<or> pos = frm then
          (if null_step s then True else canMove_line b t frm to s (step_from pos s))
        else
          let firstPieceType = getPieceTypeAtPosition b pos
          in if isSameColor t firstPieceType then True
             else \<not> canAttackLine firstPieceType s
      else True)"
  by pat_completeness auto
termination
proof (relation "measure (\<lambda>(b, t, frm, to, s, pos). if isValidPosition pos then Suc (line_room pos s) else 0)",
    goal_cases)
  case 1
  then show ?case by simp
next
  case (2 b t frm to s pos)
  then show ?case
    using line_room_decreases [of pos s] by auto
qed

declare canMove_line.simps [simp del]

text \<open>What \<open>canMove\<close> does while the move is on the scratch board.\<close>

definition lastMoved_attacks :: "board \<Rightarrow> position \<Rightarrow> position \<Rightarrow> bool result" where
  "lastMoved_attacks b to kingPos =
     (let lastToPos = to_pos (lastMove b)
      in if isValidPosition lastToPos \<and> lastToPos \<noteq> to then
           rbind (safePiece b lastToPos) (\<lambda>pp. Inr (case pp of
             None \<Rightarrow> False
           | Some p \<Rightarrow> canAttack p b kingPos))
         else Inr False)"

definition castledRook_attacks :: "board \<Rightarrow> position \<Rightarrow> bool result" where
  "castledRook_attacks b to =
     (if special (lastMove b) = KING_CASTLING then
        rbind (getCastlingRookPos (lastMove b)) (\<lambda>(_, rookPos).
          if rookPos \<noteq> to then
            rbind (safePiece b rookPos) (\<lambda>pp.
            rbind (deref pp) (\<lambda>oppRook. Inr (canAttack oppRook b to)))
          else Inr False)
      else Inr False)"

definition canMove_pinned :: "piece \<Rightarrow> position \<Rightarrow> position \<Rightarrow> board \<Rightarrow> bool" where
  "canMove_pinned p to kingPos b =
     (let dm = delta (row p - fst kingPos) (col p - snd kingPos)
      in if dr dm \<noteq> dc dm \<and> dr dm + dc dm \<noteq> 0 \<and> dr dm * dc dm \<noteq> 0 then True
         else
           let step = delta (if dr dm \<noteq> 0 then (if dr dm > 0 then 1 else - 1) else dr dm)
                            (if dc dm \<noteq> 0 then (if dc dm > 0 then 1 else - 1) else dc dm)
           in canMove_line b (type p) (position p) to step
                (mk_pos (fst kingPos + dr step) (snd kingPos + dc step)))"

definition canMove_tried :: "one_round \<Rightarrow> piece \<Rightarrow> move \<Rightarrow> bool \<Rightarrow> board \<Rightarrow> bool result" where
  "canMove_tried r p m checked b =
     (let to = to_pos m;
          kingPos = (if isBlack (type p) then blackKingPosition b else whiteKingPosition b)
      in rbind (lastMoved_attacks b to kingPos) (\<lambda>hit. if hit then Inr False
         else rbind (castledRook_attacks b to) (\<lambda>hit. if hit then Inr False
         else if checked \<or> isKing (type p)
         then Inr (\<not> checkChecked r b (isBlack (type p) = blackFirst r))
         else Inr (canMove_pinned p to kingPos b))))"

definition canMove :: "one_round \<Rightarrow> piece \<Rightarrow> move \<Rightarrow> bool \<Rightarrow> board \<Rightarrow> (bool \<times> board) result" where
  "canMove r p m checked aux =
     (if checked \<and> special m = KING_CASTLING then Inr (False, aux)
      else
        rbind (Move_apply m aux) (\<lambda>b.
        rbind (canMove_tried r p m checked b) (\<lambda>res.
        rbind (Move_undo m b) (\<lambda>aux'. Inr (res, aux')))))"

section \<open>Max moves\<close>

definition calcMoveHeuristics ::
  "platform \<Rightarrow> one_round \<Rightarrow> board \<Rightarrow> piece \<Rightarrow> move \<Rightarrow> (rat \<times> board) result" where
  "calcMoveHeuristics pl r aux p m =
     rbind (Move_apply m aux) (\<lambda>b.
     rbind (Move_heuristicScore pl m b) (\<lambda>h0.
       let h = foldl (\<lambda>h q.
             if position q = position p then h
             else if canAttackLine (type q) (deltaMove (position p) (position q))
             then max h (Piece_heuristicScore pl q b)
             else h) h0 (sameSidePieces r (type p))
       in rbind (Move_undo m b) (\<lambda>aux'. Inr (h, aux'))))"

type_synonym candidates = "board \<times> move list \<times> rat list"

definition gen_move :: "platform \<Rightarrow> one_round \<Rightarrow> piece \<Rightarrow> move \<Rightarrow> candidates \<Rightarrow> candidates result" where
  "gen_move pl r p m = (\<lambda>(aux, moves, estimates).
     rbind (canMove r p m (isMaxChecked r) aux) (\<lambda>(ok, aux).
       if \<not> ok then Inr (aux, moves, estimates)
       else rbind (calcMoveHeuristics pl r aux p m) (\<lambda>(est, aux).
         Inr (aux, moves @ [m], estimates @ [est]))))"

definition gen_piece :: "platform \<Rightarrow> flags \<Rightarrow> one_round \<Rightarrow> piece \<Rightarrow> candidates \<Rightarrow> candidates result" where
  "gen_piece pl fg r p = rfold (gen_move pl r p) (getMoves fg p (curBoard r))"

definition generateAndSortMaxMoves :: "platform \<Rightarrow> flags \<Rightarrow> one_round \<Rightarrow> move list result" where
  "generateAndSortMaxMoves pl fg r =
     rbind (rfold (gen_piece pl fg r) (maxStepPieces r) (curBoard r, [], []))
       (\<lambda>(aux, moves, estimates).
          let index = std_sort pl (\<lambda>x y. estimates ! x > estimates ! y) [0..<length moves]
          in Inr (map (\<lambda>i. moves ! i) index))"

definition isCircularMove :: "one_round \<Rightarrow> move \<Rightarrow> bool result" where
  "isCircularMove r m =
     (case ancestors r of
        [] \<Rightarrow> Inr False
      | (parBoard, parState) # _ \<Rightarrow>
          rbind (deref parState) (\<lambda>s.
            Inr (from_pos (lastMove s) = to_pos m \<and> to_pos (lastMove s) = from_pos m
               \<and> toType m = EMPTY \<and> isEmpty parBoard (to_pos (lastMove s))
               \<and> fromType (lastMove (curBoard r)) \<noteq> B_PAWN
               \<and> fromType (lastMove (curBoard r)) \<noteq> W_PAWN)))"

section \<open>Solutions\<close>

fun store_states :: "index \<Rightarrow> board list \<Rightarrow> index list \<Rightarrow> cache \<Rightarrow> cache result" where
  "store_states par [] trees c = Inr c"
| "store_states par (s # ss) trees c =
     (let (idx, c) = addSolutionNode s c
      in rbind (addSolutionChild par idx c) (\<lambda>c.
         rbind (case trees of
                  [] \<Rightarrow> Inr c
                | subTree # _ \<Rightarrow>
                    if subTree \<noteq> NULL_INDEX then addSolutionChild idx subTree c else Inr c)
           (\<lambda>c. store_states par ss (drop 1 trees) c)))"

definition storeSolution :: "one_round \<Rightarrow> sig \<Rightarrow> cache \<Rightarrow> (index \<times> cache) result" where
  "storeSolution r key c =
     rbind (deref (maxStepState r)) (\<lambda>s.
       let (par, c) = addSolutionNode_key key s c
       in rbind (store_states par (minStepStates r) (minStepSolutionTrees r) c)
            (\<lambda>c. Inr (par, c)))"

section \<open>The search\<close>

text \<open>
  What a run is given: the platform, the command line flags and the contents of the members
  the constructor leaves uninitialised. \<open>search\<close> is a call of \<open>expand\<close> on a child.
\<close>

record config =
  plat :: platform
  flag :: flags
  garbage_piece :: "piece option"
  garbage_flags :: "bool \<times> bool"
  garbage_count :: int

type_synonym search = "one_round \<Rightarrow> cache \<Rightarrow> (int \<times> one_round \<times> cache) result"

definition child_round :: "config \<Rightarrow> one_round \<Rightarrow> board \<Rightarrow> one_round result" where
  "child_round cf r b = new_OneRound (garbage_piece cf) (garbage_flags cf) (garbage_count cf) b
     (blackFirst r) (level r + 1) ((curBoard r, maxStepState r) # ancestors r)"

text \<open>
  The score of a min board and its solution index: from the cache, or from a child round
  whose solution is then stored.
\<close>

definition minBoard_score ::
  "config \<Rightarrow> search \<Rightarrow> int \<Rightarrow> board \<Rightarrow> one_round \<Rightarrow> cache \<Rightarrow> (int \<times> index \<times> cache) result" where
  "minBoard_score cf rec levelsLeft nxt r c =
     (let s = Board_hash (plat cf) nxt
      in case getScoreFromMinCache c s levelsLeft of
           None \<Rightarrow>
             rbind (child_round cf r nxt) (\<lambda>child.
             rbind (rec child c) (\<lambda>(sc, child, c).
               let c = (if levelsLeft \<ge> min_store_level (flag cf)
                        then updateMinCache (min_store_level (flag cf)) s levelsLeft sc c else c)
               in if sc = CHECKMATE then
                    rbind (CHECK (maxStepState child \<noteq> None) NoMaxState) (\<lambda>_.
                    rbind (storeSolution child s c) (\<lambda>(sol, c). Inr (sc, sol, c)))
                  else Inr (sc, NULL_INDEX, c)))
         | Some sc \<Rightarrow>
             if sc = CHECKMATE then
               (let (sol, c) = getSolution s c in Inr (sc, sol, c))
             else Inr (sc, NULL_INDEX, c))"

definition handleMinStepBoard ::
  "config \<Rightarrow> search \<Rightarrow> int \<Rightarrow> board \<Rightarrow> one_round \<Rightarrow> cache \<Rightarrow> (int \<times> one_round \<times> cache) result" where
  "handleMinStepBoard cf rec levelsLeft nxt r c =
     rbind (if levelsLeft > 1 then
              rbind (minBoard_score cf rec levelsLeft nxt r c) (\<lambda>(sc, sol, c).
                let c = c\<lparr>gNumMinStatesExpanded := gNumMinStatesExpanded c + 1\<rparr>
                in if sc = CHECKMATE then
                     rbind (CHECK (sol \<noteq> NULL_INDEX) NoSolution) (\<lambda>_.
                       Inr (sc, r\<lparr>minStepSolutionTrees := minStepSolutionTrees r @ [sol]\<rparr>, c))
                   else Inr (sc, r, c))
            else Inr (NONE, r, c))
       (\<lambda>(sc, r, c). Inr (sc, r\<lparr>minStepStates := minStepStates r @ [nxt]\<rparr>, c))"

definition makeOneMinMove ::
  "config \<Rightarrow> search \<Rightarrow> int \<Rightarrow> move \<Rightarrow> one_round \<Rightarrow> cache \<Rightarrow> (int \<times> one_round \<times> cache) result" where
  "makeOneMinMove cf rec levelsLeft m r c =
     rbind (deref (maxStepState r)) (\<lambda>s.
     rbind (makeMove s m) (\<lambda>nxt. handleMinStepBoard cf rec levelsLeft nxt r c))"

text \<open>
  The two nested loops of \<open>expandMinStep\<close>. Their state is the scratch board, \<open>hasNextMove\<close>,
  the object and the cache; \<open>Some res\<close> in front of it is the \<open>return\<close> out of the loops.
\<close>

type_synonym min_state = "board \<times> bool \<times> one_round \<times> cache"

fun min_moves ::
  "config \<Rightarrow> search \<Rightarrow> int \<Rightarrow> piece \<Rightarrow> move list \<Rightarrow> min_state \<Rightarrow> (int option \<times> min_state) result" where
  "min_moves cf rec levelsLeft p [] st = Inr (None, st)"
| "min_moves cf rec levelsLeft p (m # ms) (aux, hasNext, r, c) =
     rbind (canMove r p m (isMinChecked r) aux) (\<lambda>(ok, aux).
       if \<not> ok then min_moves cf rec levelsLeft p ms (aux, hasNext, r, c)
       else rbind (makeOneMinMove cf rec levelsLeft m r c) (\<lambda>(res, r, c).
         if res < CHECKMATE then Inr (Some res, aux, True, r, c)
         else min_moves cf rec levelsLeft p ms (aux, True, r, c)))"

fun min_pieces ::
  "config \<Rightarrow> search \<Rightarrow> int \<Rightarrow> board \<Rightarrow> piece list \<Rightarrow> min_state \<Rightarrow> (int option \<times> min_state) result" where
  "min_pieces cf rec levelsLeft s [] st = Inr (None, st)"
| "min_pieces cf rec levelsLeft s (p # ps) st =
     (if getPieceTypeAtPosition s (position p) \<noteq> type p
      then min_pieces cf rec levelsLeft s ps st
      else rbind (min_moves cf rec levelsLeft p (getMoves (flag cf) p s) st) (\<lambda>(ret, st).
        case ret of Some res \<Rightarrow> Inr (Some res, st)
        | None \<Rightarrow> min_pieces cf rec levelsLeft s ps st))"

definition expandMinStep ::
  "config \<Rightarrow> search \<Rightarrow> int \<Rightarrow> one_round \<Rightarrow> cache \<Rightarrow> (int \<times> one_round \<times> cache) result" where
  "expandMinStep cf rec levelsLeft r c =
     rbind (isChecking r) (\<lambda>chk.
     rbind (deref (maxStepState r)) (\<lambda>s.
     rbind (min_pieces cf rec levelsLeft s (minStepPieces r) (s, False, r\<lparr>isMinChecked := chk\<rparr>, c))
       (\<lambda>(ret, aux, hasNext, r, c).
          case ret of
            Some res \<Rightarrow> Inr (res, r, c)
          | None \<Rightarrow> Inr (if isMinChecked r \<or> hasNext then CHECKMATE else STALLMATE, r, c))))"

text \<open>One turn of the loop of \<open>expandMaxStep\<close>, after the test for a circular move.\<close>

definition maxMove_score ::
  "config \<Rightarrow> search \<Rightarrow> int \<Rightarrow> move \<Rightarrow> one_round \<Rightarrow> cache \<Rightarrow> (int \<times> one_round \<times> cache) result" where
  "maxMove_score cf rec levelsLeft m r c =
     rbind (makeMove (curBoard r) m) (\<lambda>s.
     rbind (safePiece s (to_pos m)) (\<lambda>mp.
       let r = r\<lparr>maxStepState := Some s, maxMovePiece := mp\<rparr>;
           c = c\<lparr>gNumMaxStatesExpanded := gNumMaxStatesExpanded c + 1\<rparr>;
           sg = Board_hash (plat cf) s;
           r = cleanUpForMinStep r
       in case getScoreFromMaxCache c sg levelsLeft of
            None \<Rightarrow>
              rbind (expandMinStep cf rec levelsLeft r c) (\<lambda>(sc, r, c).
                Inr (sc, r, updateMaxCache (min_store_level (flag cf)) sg levelsLeft sc c))
          | Some sc \<Rightarrow>
              if sc = CHECKMATE then expandMinStep cf rec levelsLeft r c
              else Inr (sc, r, c)))"

fun max_moves ::
  "config \<Rightarrow> search \<Rightarrow> int \<Rightarrow> move list \<Rightarrow> one_round \<Rightarrow> cache \<Rightarrow> (int \<times> one_round \<times> cache) result" where
  "max_moves cf rec levelsLeft [] r c = Inr (NONE, r, c)"
| "max_moves cf rec levelsLeft (m # ms) r c =
     rbind (isCircularMove r m) (\<lambda>circular.
       if circular then max_moves cf rec levelsLeft ms r c
       else rbind (maxMove_score cf rec levelsLeft m r c) (\<lambda>(sc, r, c).
         if sc = CHECKMATE then Inr (CHECKMATE, r, c)
         else max_moves cf rec levelsLeft ms r c))"

definition expandMaxStep ::
  "config \<Rightarrow> search \<Rightarrow> int \<Rightarrow> move list \<Rightarrow> one_round \<Rightarrow> cache \<Rightarrow> (int \<times> one_round \<times> cache) result" where
  "expandMaxStep cf rec levelsLeft maxMoves r c =
     rbind (CHECK (levelsLeft > 0) LevelsNotPositive)
       (\<lambda>_. max_moves cf rec levelsLeft maxMoves r c)"

definition expand_with :: "config \<Rightarrow> search \<Rightarrow> int \<Rightarrow> search" where
  "expand_with cf rec levelsLeft r c =
     rbind (CHECK (levelsLeft > 0) LevelsNotPositive) (\<lambda>_.
       let r = r\<lparr>isMaxChecked := OneRound_isChecked r\<rparr>
       in rbind (generateAndSortMaxMoves (plat cf) (flag cf) r) (\<lambda>maxMoves.
            let r = r\<lparr>numMaxMoves := int (length maxMoves)\<rparr>
            in if maxMoves = [] then
                 Inr (if isMaxChecked r then - CHECKMATE else - STALLMATE, r, c)
               else
                 rbind (expandMaxStep cf rec levelsLeft maxMoves r c) (\<lambda>(sc, r, c).
                   Inr (sc, cleanUp r, c))))"

text \<open>
  \<open>OneRound::expand\<close>. A round calls \<open>expand\<close> of its children with one level less, so the
  recursion is on the number of levels; a call with no level left fails the check.
\<close>

primrec expand_levels :: "config \<Rightarrow> nat \<Rightarrow> search" where
  "expand_levels cf 0 = (\<lambda>r c. expand_with cf (\<lambda>_ _. Inl LevelsNotPositive) 0 r c)"
| "expand_levels cf (Suc n) = expand_with cf (expand_levels cf n) (int (Suc n))"

definition OneRound_expand :: "config \<Rightarrow> int \<Rightarrow> search" where
  "OneRound_expand cf levelsLeft = expand_levels cf (nat levelsLeft)"

section \<open>Printing\<close>

text \<open>
  \<open>printSolution\<close> follows the children of a forest node. The forest may be cyclic, in which
  case the source does not return; \<open>None\<close> is the answer of a run cut off after \<open>fuel\<close> levels.
\<close>

fun printSolution :: "nat \<Rightarrow> move forest \<Rightarrow> index \<Rightarrow> string \<Rightarrow> string result option" where
  "printSolution 0 f rt lead = None"
| "printSolution (Suc fuel) f rt lead =
     (case forest_node f rt of
        Inl e \<Rightarrow> Some (Inl e)
      | Inr nd \<Rightarrow>
          (case Move_notation (data nd) of
             Inl e \<Rightarrow> Some (Inl e)
           | Inr txt \<Rightarrow>
               let outp = txt @ ''  '' @ (if children nd = [] then ''#'' @ [CHR 0x0A] else [])
               in foldl (\<lambda>acc (i, ch). case acc of
                       Some (Inr outp) \<Rightarrow>
                         (case printSolution fuel f ch (lead @ ''      '') of
                            Some (Inr sub) \<Rightarrow>
                              Some (Inr (outp @ (if i > 0 then lead @ ''      '' else []) @ sub))
                          | r \<Rightarrow> r)
                     | r \<Rightarrow> r) (Some (Inr outp)) (enumerate 0 (children nd))))"

definition print_min_state ::
  "nat \<Rightarrow> move forest \<Rightarrow> string \<Rightarrow> index list \<Rightarrow> nat \<times> board \<Rightarrow> string \<Rightarrow> string result option" where
  "print_min_state fuel f lead trees = (\<lambda>(i, s) outp.
     case Move_notation (lastMove s) of
       Inl e \<Rightarrow> Some (Inl e)
     | Inr txt \<Rightarrow>
         let outp = outp @ (if i > 0 then lead else []) @ txt @ ''  ''
         in if i < length trees then
              (case printSolution fuel f (trees ! i) (lead @ ''      '') of
                 Some (Inr sub) \<Rightarrow> Some (Inr (outp @ sub))
               | r \<Rightarrow> r)
            else Some (Inr outp))"

definition printPath :: "nat \<Rightarrow> cache \<Rightarrow> one_round \<Rightarrow> string result option" where
  "printPath fuel c r =
     (let lead = concat (replicate (nat (2 * level r + 1)) ''      '')
      in case rbind (deref (maxStepState r)) (\<lambda>s. Move_notation (lastMove s)) of
           Inl e \<Rightarrow> Some (Inl e)
         | Inr txt \<Rightarrow>
             foldl (\<lambda>acc st. case acc of
                 Some (Inr outp) \<Rightarrow>
                   print_min_state fuel (solutions c) lead (minStepSolutionTrees r) st outp
               | r \<Rightarrow> r) (Some (Inr (txt @ ''  ''))) (enumerate 0 (minStepStates r)))"

definition OneRound_printMove :: "one_round \<Rightarrow> position \<Rightarrow> position \<Rightarrow> string" where
  "OneRound_printMove r frm to = printPiece (getPieceTypeAtPosition (curBoard r) frm) to"

fun backward_path :: "board \<Rightarrow> (board \<times> board option) list \<Rightarrow> string result" where
  "backward_path b [] = printLastMove b"
| "backward_path b ((pb, ps) # anc) =
     rbind (printLastMove b) (\<lambda>out1.
     rbind (deref ps) (\<lambda>s.
     rbind (printLastMove s) (\<lambda>out2.
     rbind (backward_path pb anc) (\<lambda>rest.
       Inr (out1 @ '' <= '' @ out2 @ [CHR 0x0A] @ rest)))))"

definition backwardPrintPath :: "one_round \<Rightarrow> string result" where
  "backwardPrintPath r = backward_path (curBoard r) (ancestors r)"

end
