(* ===== verification/Move_Legality.thy ===== *)
theory Move_Legality
  imports One_Round
begin

text \<open>
  The search tests a move with \<open>canMove\<close>, which looks only where a check can come from: the
  piece that moved last, the pieces listed when the round began, or the line from the king
  through the square the moved piece leaves. This theory states what a legal move is, the
  invariant of the boards of a search, and shows that the test decides legality and leaves
  the scratch board as it was.
\<close>

section \<open>Legal moves\<close>

definition after :: "move \<Rightarrow> board \<Rightarrow> board" where
  "after m b = (moved m b)\<lparr>lastMove := m\<rparr>"

definition pseudo :: "flags \<Rightarrow> bool \<Rightarrow> board \<Rightarrow> move \<Rightarrow> bool" where
  "pseudo fg c b m \<longleftrightarrow> (\<exists>p. on_board b p \<and> isBlack (type p) = c \<and> m \<in> set (getMoves fg p b))"

definition legal :: "flags \<Rightarrow> bool \<Rightarrow> board \<Rightarrow> move \<Rightarrow> bool" where
  "legal fg c b m \<longleftrightarrow> pseudo fg c b m \<and> \<not> isChecked (after m b) c"

text \<open>
  \<open>search_ok c b\<close>: side \<open>c\<close> (black if true) is to move on \<open>b\<close>. The other side's king is not in
  check, what stands where the last move ended is not a piece of \<open>c\<close>, and if the last move
  was a pawn's double step, the king of \<open>c\<close> was not in check before it.
\<close>

definition is_double :: "move \<Rightarrow> bool" where
  "is_double m \<longleftrightarrow>
     fromType m = W_PAWN \<and> fst (from_pos m) = 1 \<and> fst (to_pos m) = 3 \<or>
     fromType m = B_PAWN \<and> fst (from_pos m) = 6 \<and> fst (to_pos m) = 4"

definition before_double :: "board \<Rightarrow> board" where
  "before_double b =
     (let m = lastMove b
      in Board_set (fromType m) (from_pos m)
           (Board_set EMPTY (fst (to_pos m), snd (from_pos m)) b))"

definition turn_ok :: "bool \<Rightarrow> board \<Rightarrow> bool" where
  "turn_ok c b \<longleftrightarrow>
     special (lastMove b) \<noteq> KING_CASTLING \<and>
     (isValidPosition (to_pos (lastMove b)) \<longrightarrow>
        getPieceTypeAtPosition b (to_pos (lastMove b)) = EMPTY \<or>
        isBlack (getPieceTypeAtPosition b (to_pos (lastMove b))) \<noteq> c) \<and>
     (is_double (lastMove b) \<longrightarrow> \<not> isChecked (before_double b) c)"

definition search_ok :: "bool \<Rightarrow> board \<Rightarrow> bool" where
  "search_ok c b \<longleftrightarrow> game_ok b \<and> \<not> isChecked b (\<not> c) \<and> turn_ok c b"

section \<open>The invariant is kept\<close>

lemma move_fitsD:
  assumes "move_fits b m"
  shows "isValidPosition (from_pos m)" "isValidPosition (to_pos m)" "from_pos m \<noteq> to_pos m"
    "fromType m = getPieceTypeAtPosition b (from_pos m)" "toType m = getPieceTypeAtPosition b (to_pos m)"
    "fromType m \<noteq> EMPTY" "newType m \<noteq> EMPTY" "\<not> isSameColor (fromType m) (toType m)"
    "special m \<noteq> KING_CASTLING"
  using assms newType_not_EMPTY [of m] unfolding move_fits_def by blast+

lemma king_of_valid: "board_ok b \<Longrightarrow> isValidPosition (king_of b c)"
  using board_okD(3,4) by (simp add: king_of_def)

lemma pseudoD:
  assumes "search_ok c b" "pseudo fg c b m"
  shows "move_fits b m" "double_shape b m" "toType m \<notin> {W_KING, B_KING}" "isBlack (fromType m) = c"
    "game_ok (after m b)" "makeMove b m = Inr (after m b)"
proof -
  from assms(2) obtain p where p: "on_board b p" "isBlack (type p) = c" "m \<in> set (getMoves fg p b)"
    by (auto simp: pseudo_def)
  have ok: "game_ok b" "board_ok b" "last_ok b" "wf_board b"
    using assms(1) by (auto simp: search_ok_def game_ok_def board_ok_def)
  show fits: "move_fits b m" using getMoves_fits(1) [OF p(1) ok(3) p(3)] .
  show dbl: "double_shape b m" using getMoves_double_shape [OF p(1) ok(3) p(3)] .
  show king: "toType m \<notin> {W_KING, B_KING}"
    using no_king_capture [OF ok(2,3) p(1,3)] p(2) assms(1) by (simp add: search_ok_def)
  show "isBlack (fromType m) = c" using getMoves_fromType [OF p(1) ok(3) p(3)] p(2) by simp
  show "game_ok (after m b)"
    unfolding after_def using ok(1) fits dbl king by (rule moved_game_ok)
  show "makeMove b m = Inr (after m b)"
    unfolding after_def using ok(4) fits by (rule makeMove_eq)
qed

lemma get_after [simp]: "getPieceTypeAtPosition (after m b) q = getPieceTypeAtPosition (moved m b) q"
  by (simp add: after_def)

lemma after_frame [simp]:
  "lastMove (after m b) = m" "isChecked (after m b) c = isChecked (moved m b) c"
  "blackKingPosition (after m b) = blackKingPosition (moved m b)"
  "whiteKingPosition (after m b) = whiteKingPosition (moved m b)"
  "king_of (after m b) c = king_of (moved m b) c"
  by (simp_all add: after_def king_of_def)

lemma king_of_moved:
  assumes "board_ok b" "move_fits b m"
  shows "king_of (moved m b) c =
    (if fromType m = (if c then B_KING else W_KING) then to_pos m else king_of b c)"
  using assms by (auto simp: king_of_def moved_def board_simps newType_king [of _ b])

lemma double_shapeD:
  assumes "double_shape b m" "is_double m"
  shows "special m = NORMAL_MOVE" "(fst (to_pos m), snd (from_pos m)) = to_pos m" "toType m = EMPTY"
  using assms by (cases "to_pos m"; auto simp: double_shape_def is_double_def)+

lemma before_double_after:
  assumes "wf_board b" "move_fits b m" "double_shape b m" "is_double m" "isValidPosition q"
  shows "getPieceTypeAtPosition (before_double (after m b)) q = getPieceTypeAtPosition b q"
  using assms(1,2,5) double_shapeD [OF assms(3,4)]
  by (auto simp: before_double_def Let_def after_def board_simps get_moved move_fits_def)

lemma before_double_kings:
  assumes "is_double (lastMove b)"
  shows "king_of (before_double b) c = king_of b c"
  using assms by (auto simp: before_double_def Let_def king_of_def board_simps is_double_def)

lemma after_search_ok:
  assumes ok: "search_ok c b" and leg: "legal fg c b m"
  shows "search_ok (\<not> c) (after m b)"
proof -
  have ps: "pseudo fg c b m" and safe: "\<not> isChecked (after m b) c"
    using leg by (auto simp: legal_def)
  note m = pseudoD [OF ok ps]
  have wf: "wf_board b" and bok: "board_ok b"
    using ok by (auto simp: search_ok_def game_ok_def board_ok_def)
  have to: "getPieceTypeAtPosition (moved m b) (to_pos m) = newType m"
    using m(1) get_moved [OF wf m(1), of "to_pos m"] by (simp add: move_fits_def)
  have "\<not> isChecked (before_double (after m b)) (\<not> c)" if dbl: "is_double m"
  proof -
    have k: "king_of (before_double (after m b)) (\<not> c) = king_of b (\<not> c)"
      using before_double_kings [of "after m b" "\<not> c"] king_of_moved [OF bok m(1), of "\<not> c"] dbl
      by (auto simp: is_double_def split: if_splits)
    have "isChecked (before_double (after m b)) (\<not> c) = isChecked b (\<not> c)"
    proof (rule isChecked_cong)
      show "getPieceTypeAtPosition (before_double (after m b)) q = getPieceTypeAtPosition b q"
        if "isValidPosition q" for q
        using before_double_after [OF wf m(1,2) dbl that] .
    qed (use k king_of_valid [OF bok] in auto)
    then show ?thesis using ok by (simp add: search_ok_def)
  qed
  moreover have "special m \<noteq> KING_CASTLING" using m(1) by (simp add: move_fits_def)
  ultimately show ?thesis
    using m(4,5) safe to newType_colour [of m] by (auto simp: search_ok_def turn_ok_def)
qed

section \<open>Where a check comes from\<close>

definition slider_hit :: "board \<Rightarrow> bool \<Rightarrow> DeltaMove \<Rightarrow> position \<Rightarrow> bool" where
  "slider_hit b c s q \<longleftrightarrow>
     line_reach b (king_of b c) q s \<and> getPieceTypeAtPosition b q \<noteq> EMPTY \<and>
     isBlack (getPieceTypeAtPosition b q) \<noteq> c \<and> canAttackLine (getPieceTypeAtPosition b q) s"

lemma slider_hit_checks:
  assumes "isValidPosition (king_of b c)" "unit_step s" "slider_hit b c s q"
  shows "isChecked b c"
proof -
  define p where "p = \<lparr>type = getPieceTypeAtPosition b q, row = fst q, col = snd q\<rparr>"
  have q: "isValidPosition q" "position p = q" "is_slider (type p)"
    using assms(3) canAttackLine_slider by (auto simp: slider_hit_def line_reach_def p_def)
  have "canAttack p b (king_of b c)"
    unfolding canAttack_slider [OF q(3) q(1) [folded q(2)] assms(1)]
    using assms line_reach_sym [OF q(1) assms(1), of b "neg_step s"]
    by (intro exI [of _ "neg_step s"]) (simp add: slider_hit_def q(2), simp add: p_def)
  moreover have "on_board b p" "isBlack (type p) \<noteq> c"
    using assms(3) q by (auto simp: on_board_def slider_hit_def p_def)
  ultimately show ?thesis by (auto simp: isChecked_iff)
qed

lemma checkE:
  assumes "isChecked b c" "isValidPosition (king_of b c)"
  obtains (leaper) p where "on_board b p" "isBlack (type p) \<noteq> c" "\<not> is_slider (type p)"
      "canAttack p b (king_of b c)"
    | (slider) s q where "unit_step s" "slider_hit b c s q"
proof -
  from assms(1) obtain p where p: "on_board b p" "isBlack (type p) \<noteq> c" "canAttack p b (king_of b c)"
    by (auto simp: isChecked_iff)
  show thesis
  proof (cases "is_slider (type p)")
    case True
    have v: "isValidPosition (position p)" using p(1) by (simp add: on_board_def)
    from p(3) obtain s where s: "unit_step s" "canAttackLine (type p) s"
      "line_reach b (position p) (king_of b c) s"
      using canAttack_slider [OF True v assms(2)] by auto
    have "slider_hit b c (neg_step s) (position p)"
      using p(1,2) s line_reach_reverse [OF v assms(2) s(3)] by (simp add: slider_hit_def on_board_def)
    with s(1) show thesis by (intro slider) auto
  next
    case False
    with p show thesis by (intro leaper)
  qed
qed

text \<open>The scan of \<open>canMove\<close> finds exactly the hits along its line.\<close>

lemma canMove_line_iff:
  assumes "unit_step s" "isValidPosition src" "pos = along src s 1"
    and "isEmpty b frm" "isSameColor t (getPieceTypeAtPosition b to)"
  shows "canMove_line b t frm to s pos \<longleftrightarrow>
    \<not> (\<exists>q. line_reach b src q s \<and> getPieceTypeAtPosition b q \<noteq> EMPTY \<and>
        \<not> isSameColor t (getPieceTypeAtPosition b q) \<and> canAttackLine (getPieceTypeAtPosition b q) s)"
  using assms
proof (induction b t frm to s pos arbitrary: src rule: canMove_line.induct)
  case (1 b t frm to s pos)
  let ?bad = "\<lambda>q. getPieceTypeAtPosition b q \<noteq> EMPTY \<and> \<not> isSameColor t (getPieceTypeAtPosition b q) \<and>
      canAttackLine (getPieceTypeAtPosition b q) s"
  note unf = line_reach_unfold [OF "1.prems"(1,2), of b, folded "1.prems"(3)]
  note nn = unit_stepD(5) [OF "1.prems"(1)]
  consider "\<not> isValidPosition pos" | "isValidPosition pos" "isEmpty b pos"
    | "isValidPosition pos" "\<not> isEmpty b pos"
    by blast
  then show ?case
  proof cases
    case 1
    then show ?thesis by (subst canMove_line.simps) (simp add: unf)
  next
    case 2
    then have ne: "pos \<noteq> to" using "1.prems"(5) by (auto simp: isEmpty_def)
    have IH: "canMove_line b t frm to s (step_from pos s) \<longleftrightarrow> \<not> (\<exists>q. line_reach b pos q s \<and> ?bad q)"
      using "1.IH" [OF 2(1) ne _ nn, of pos] 2 "1.prems"(1,4,5) by (simp add: step_from_along)
    have "\<not> ?bad pos" using 2(2) by (simp add: isEmpty_def)
    then have "(\<exists>q. line_reach b src q s \<and> ?bad q) \<longleftrightarrow> (\<exists>q. line_reach b pos q s \<and> ?bad q)"
      using 2 unfolding unf by blast
    moreover have "canMove_line b t frm to s pos = canMove_line b t frm to s (step_from pos s)"
      using 2 ne nn by (subst canMove_line.simps) simp
    ultimately show ?thesis using IH by simp
  next
    case 3
    have "(\<exists>q. line_reach b src q s \<and> ?bad q) \<longleftrightarrow> ?bad pos"
      using 3 unfolding unf by blast
    moreover have "canMove_line b t frm to s pos \<longleftrightarrow> \<not> ?bad pos"
      using 3 "1.prems"(4,5) by (subst canMove_line.simps) (auto simp: isEmpty_def)
    ultimately show ?thesis by simp
  qed
qed

section \<open>The line through the vacated square\<close>

definition on_line :: "position \<Rightarrow> position \<Rightarrow> DeltaMove \<Rightarrow> bool" where
  "on_line k x s \<longleftrightarrow> unit_step s \<and> (\<exists>j \<ge> 1. x = along k s j)"

lemma on_line_direction: "on_line k x s \<Longrightarrow> s = sign_step k x"
  by (cases s) (auto simp: on_line_def unit_step_def along_def sign_step_def)

lemma on_line_aligned:
  assumes "k \<noteq> x"
  shows "(\<exists>s. on_line k x s) \<longleftrightarrow>
    fst x = fst k \<or> snd x = snd k \<or> \<bar>fst x - fst k\<bar> = \<bar>snd x - snd k\<bar>"
proof
  assume "\<exists>s. on_line k x s"
  then show "fst x = fst k \<or> snd x = snd k \<or> \<bar>fst x - fst k\<bar> = \<bar>snd x - snd k\<bar>"
    by (auto simp: on_line_def unit_step_def along_def)
next
  assume al: "fst x = fst k \<or> snd x = snd k \<or> \<bar>fst x - fst k\<bar> = \<bar>snd x - snd k\<bar>"
  define j where "j = max \<bar>fst x - fst k\<bar> \<bar>snd x - snd k\<bar>"
  have sgns: "\<bar>fst x - fst k\<bar> * sgn (fst x - fst k) = fst x - fst k"
    "\<bar>snd x - snd k\<bar> * sgn (snd x - snd k) = snd x - snd k"
    by (simp_all add: abs_mult_sgn)
  have "x = along k (sign_step k x) j"
    using al sgns unfolding j_def by (intro prod_eqI) (auto simp: along_def sign_step_def max_def)
  moreover have "1 \<le> j"
    using assms unfolding j_def by (cases k; cases x) auto
  ultimately have "x = along k (sign_step k x) j" "1 \<le> j" .
  then have "on_line k x (sign_step k x)"
    using assms by (auto simp: on_line_def)
  then show "\<exists>s. on_line k x s" by blast
qed

lemma canMove_pinned_iff:
  assumes "isValidPosition k" "isValidPosition (position p)" "position p \<noteq> k"
    and "isEmpty b (position p)" "isSameColor (type p) (getPieceTypeAtPosition b to)"
  shows "canMove_pinned p to k b \<longleftrightarrow>
    \<not> (\<exists>s q. on_line k (position p) s \<and> line_reach b k q s \<and> getPieceTypeAtPosition b q \<noteq> EMPTY \<and>
        \<not> isSameColor (type p) (getPieceTypeAtPosition b q) \<and> canAttackLine (getPieceTypeAtPosition b q) s)"
proof -
  define x where "x = position p"
  have x: "row p = fst x" "col p = snd x" "x \<noteq> k" using assms(3) by (auto simp: x_def position_def)
  have al: "(row p - fst k \<noteq> col p - snd k \<and> row p - fst k + (col p - snd k) \<noteq> 0 \<and>
      (row p - fst k) * (col p - snd k) \<noteq> 0) \<longleftrightarrow> \<not> (\<exists>s. on_line k x s)"
    unfolding on_line_aligned [OF x(3) [symmetric]] x by (cases x; cases k) (auto simp: abs_if)
  show ?thesis
  proof (cases "\<exists>s. on_line k x s")
    case False
    with al show ?thesis by (simp add: canMove_pinned_def Let_def x_def)
  next
    case True
    then obtain s where s: "on_line k x s" by blast
    have dir: "s' = s" if "on_line k x s'" for s'
      using on_line_direction [OF that] on_line_direction [OF s] by simp
    have us: "unit_step s" using s by (simp add: on_line_def)
    define st where "st = delta (if row p - fst k \<noteq> 0 then (if row p - fst k > 0 then 1 else - 1) else row p - fst k)
        (if col p - snd k \<noteq> 0 then (if col p - snd k > 0 then 1 else - 1) else col p - snd k)"
    have "canMove_pinned p to k b = (if \<not> (\<exists>s. on_line k x s) then True
        else canMove_line b (type p) (position p) to st (mk_pos (fst k + dr st) (snd k + dc st)))"
      unfolding al [symmetric] by (simp only: canMove_pinned_def Let_def st_def DeltaMove.simps)
    moreover have "st = s"
      unfolding on_line_direction [OF s] x sign_step_def st_def by (simp add: sgn_if)
    moreover have "mk_pos (fst k + dr s) (snd k + dc s) = along k s 1"
      using us assms(1) by (cases k) (auto simp: along_def unit_step_def)
    ultimately have "canMove_pinned p to k b = canMove_line b (type p) (position p) to s (along k s 1)"
      using True by simp
    also have "\<dots> \<longleftrightarrow> \<not> (\<exists>q. line_reach b k q s \<and> getPieceTypeAtPosition b q \<noteq> EMPTY \<and>
        \<not> isSameColor (type p) (getPieceTypeAtPosition b q) \<and> canAttackLine (getPieceTypeAtPosition b q) s)"
      using us assms by (intro canMove_line_iff) auto
    finally show ?thesis
      using s dir unfolding x_def by blast
  qed
qed

text \<open>
  An en passant capture: the victim stands where the last move, a double step, ended; the
  capturing pawn lands on the square passed over.
\<close>

definition ep_column :: "board \<Rightarrow> move \<Rightarrow> int \<Rightarrow> bool" where
  "ep_column b m d \<longleftrightarrow>
     is_double (lastMove b) \<and> \<bar>d\<bar> = 1 \<and>
     ep_victim m = (fst (to_pos (lastMove b)), snd (from_pos (lastMove b))) \<and>
     to_pos m = (fst (ep_victim m) + d, snd (ep_victim m)) \<and>
     from_pos (lastMove b) = (fst (ep_victim m) + 2 * d, snd (ep_victim m))"

lemma ep_generated:
  assumes "on_board b p" "last_ok b" "m \<in> set (getMoves fg p b)" "special m = PAWN_EN_PASSANT"
  shows "\<exists>d. ep_column b m d"
proof (cases "type p \<in> {W_PAWN, B_PAWN}")
  case False
  then show ?thesis using assms by (auto simp: getMoves_non_pawn)
next
  case True
  have ft: "fromType m = type p" using getMoves_fromType [OF assms(1-3)] .
  have addW: "m \<notin> set (WPawn_addMove p b q)" and addB: "m \<notin> set (BPawn_addMove p b q)" for q
    using assms(4) by (auto simp: WPawn_addMove_def BPawn_addMove_def split: if_splits)
  let ?lm = "lastMove b"
  consider "type p = W_PAWN" "row p = 4" "fromType ?lm = B_PAWN" "fst (from_pos ?lm) = 6" "fst (to_pos ?lm) = 4"
      "m = new_Move b PAWN_EN_PASSANT (position p) (mk_pos (row p + 1) (snd (from_pos ?lm)))"
    | "type p = B_PAWN" "row p = 3" "fromType ?lm = W_PAWN" "fst (from_pos ?lm) = 1" "fst (to_pos ?lm) = 3"
      "m = new_Move b PAWN_EN_PASSANT (position p) (mk_pos (row p - 1) (snd (from_pos ?lm)))"
    using assms(3,4) True
    by (auto simp: addW addB getMoves_def WPawn_getMoves_def BPawn_getMoves_def Let_def split: if_splits)
  then show ?thesis
  proof cases
    case 1
    then have "0 \<le> snd (from_pos ?lm)" "snd (from_pos ?lm) < 8"
      using assms(2) by (auto simp: last_ok_def double_step_ok_def Let_def)
    with 1 ft have "ep_column b m 1"
      by (cases "from_pos ?lm") (simp add: ep_column_def is_double_def ep_victim_def)
    then show ?thesis ..
  next
    case 2
    then have "0 \<le> snd (from_pos ?lm)" "snd (from_pos ?lm) < 8"
      using assms(2) by (auto simp: last_ok_def double_step_ok_def Let_def)
    with 2 ft have "ep_column b m (- 1)"
      by (cases "from_pos ?lm") (simp add: ep_column_def is_double_def ep_victim_def)
    then show ?thesis ..
  qed
qed

text \<open>
  If a capture en passant opens a line to the king that does not run through the square the
  capturing pawn left, the line was open before the double step.
\<close>

lemma between_in_column:
  assumes "unit_step s" "along k s i = (v, c)" "along k s j = (v + 2 * e, c)" "\<bar>e\<bar> = (1 :: int)"
  shows "\<exists>t. along k s t = (v + e, c) \<and> min i j < t \<and> t < max i j"
proof -
  have eqs: "(j - i) * dr s = 2 * e" "(j - i) * dc s = 0"
    using assms(2,3) by (auto simp: along_def algebra_simps)
  then have "dc s = 0" "dr s = 1 \<or> dr s = - 1"
    using assms(1,4) by (auto simp: unit_step_def)
  with eqs have "along k s (i + e * dr s) = (v + e, c) \<and> min i j < i + e * dr s \<and> i + e * dr s < max i j"
    using assms(2,4) by (auto simp: along_def)
  then show ?thesis by blast
qed

lemma get_before_double:
  assumes "wf_board b" "isValidPosition q" "is_double (lastMove b)"
    and "v = (fst (to_pos (lastMove b)), snd (from_pos (lastMove b)))" "isValidPosition v"
  shows "getPieceTypeAtPosition (before_double b) q =
    (if q = from_pos (lastMove b) then fromType (lastMove b)
     else if q = v then EMPTY else getPieceTypeAtPosition b q)"
proof -
  have "isValidPosition (from_pos (lastMove b))"
    using assms(3-5) by (cases "from_pos (lastMove b)") (auto simp: is_double_def)
  with assms show ?thesis
    by (auto simp: before_double_def Let_def board_simps)
qed

lemma ep_line_was_open:
  assumes wf: "wf_board b" and fits: "move_fits b m" and ep: "special m = PAWN_EN_PASSANT" "ep_column b m e"
    and u: "unit_step s" and k: "isValidPosition k" and q: "1 \<le> n" "isValidPosition (along k s n)"
    and free: "\<And>j. 1 \<le> j \<Longrightarrow> j < n \<Longrightarrow> isEmpty (moved m b) (along k s j) \<and> along k s j \<noteq> from_pos m"
    and hit: "getPieceTypeAtPosition (moved m b) (along k s n) \<noteq> EMPTY" "along k s n \<noteq> to_pos m"
    and vic: "1 \<le> i" "i < n" "along k s i = ep_victim m"
  shows "line_reach (before_double b) k (along k s n) s \<and>
    getPieceTypeAtPosition (before_double b) (along k s n) = getPieceTypeAtPosition (moved m b) (along k s n)"
proof -
  define v where "v = ep_victim m"
  define org where "org = from_pos (lastMove b)"
  have dbl: "is_double (lastMove b)" "v = (fst (to_pos (lastMove b)), snd (from_pos (lastMove b)))"
    "\<bar>e\<bar> = 1" "to_pos m = (fst v + e, snd v)" "org = (fst v + 2 * e, snd v)"
    using ep(2) unfolding ep_column_def v_def org_def by blast+
  have v: "isValidPosition v" "isValidPosition (to_pos m)" "isValidPosition (from_pos m)"
    using fits ep(1) by (auto simp: v_def move_fits_def ep_shape_def)
  have to: "getPieceTypeAtPosition (moved m b) (to_pos m) \<noteq> EMPTY"
    using move_fitsD(7) [OF fits] get_moved [OF wf fits v(2)] by simp
  have off: "along k s j \<noteq> org" if "1 \<le> j" "j \<le> n" for j
  proof
    assume "along k s j = org"
    then obtain t where t: "along k s t = to_pos m" "min i j < t" "t < max i j"
      using between_in_column [OF u, of k i "fst v" "snd v" j e] vic(3) dbl(3-5) by (auto simp: v_def)
    then have "1 \<le> t" "t < n" using vic(1,2) that by auto
    with free [of t] t(1) to show False by (simp add: isEmpty_def)
  qed
  have cell: "getPieceTypeAtPosition (before_double b) x =
      (if x = org then fromType (lastMove b) else if x = v then EMPTY else getPieceTypeAtPosition b x)"
    if "isValidPosition x" for x
    using get_before_double [OF wf that dbl(1,2) v(1)] by (simp add: org_def)
  have mcell: "getPieceTypeAtPosition (moved m b) x = (if x = to_pos m then newType m
      else if x = from_pos m \<or> x = v then EMPTY else getPieceTypeAtPosition b x)"
    if "isValidPosition x" for x
    using get_moved [OF wf fits that] ep(1) by (simp add: v_def)
  have "isEmpty (before_double b) (along k s j)" if "1 \<le> j" "j < n" for j
  proof -
    have val: "isValidPosition (along k s j)"
      using valid_between [OF u k q(2), of j] that by simp
    show ?thesis
      using off [of j] free [OF that] that to cell [OF val] mcell [OF val]
      by (auto simp: isEmpty_def split: if_splits)
  qed
  moreover have "getPieceTypeAtPosition (before_double b) (along k s n) =
      getPieceTypeAtPosition (moved m b) (along k s n)"
    using off [of n] q(1) hit cell [OF q(2)] mcell [OF q(2)] by (auto split: if_splits)
  ultimately show ?thesis
    using q by (auto simp: line_reach_def)
qed

lemma opponent_stays:
  assumes "wf_board b" "move_fits b m" "on_board (moved m b) a" "isBlack (type a) \<noteq> isBlack (fromType m)"
  shows "on_board b a" "position a \<noteq> to_pos m"
  using assms get_moved [OF assms(1,2), of "position a"] newType_colour [of m]
  by (auto simp: on_board_def split: if_splits)

text \<open>The test of \<open>canMove\<close> for a piece that is not the king, when the king is not in check.\<close>

lemma pinned_facts:
  assumes ok: "search_ok c b" and p: "on_board b p" "isBlack (type p) = c" "m \<in> set (getMoves fg p b)"
    and nk: "\<not> isKing (type p)"
  shows "move_fits b m" "from_pos m = position p" "isValidPosition (from_pos m)"
    and "isValidPosition (to_pos m)" "isValidPosition (king_of b c)"
    and "king_of (moved m b) c = king_of b c" "position p \<noteq> king_of b c"
    and "isSameColor (type p) (getPieceTypeAtPosition (moved m b) (to_pos m))"
    and "isEmpty (moved m b) (position p)"
    and "\<And>t. isSameColor (type p) t \<longleftrightarrow> t \<noteq> EMPTY \<and> isBlack t = c"
proof -
  let ?b = "moved m b" and ?k = "king_of b c"
  have bok: "board_ok b" "last_ok b" "wf_board b"
    using ok by (auto simp: search_ok_def game_ok_def board_ok_def)
  have ps: "pseudo fg c b m" using p by (auto simp: pseudo_def)
  note m = pseudoD [OF ok ps]
  show "move_fits b m" by (rule m(1))
  have frm: "from_pos m = position p" "fromType m = type p"
    using getMoves_fits(2) [OF p(1) bok(2) p(3)] getMoves_fromType [OF p(1) bok(2) p(3)] by auto
  have val: "isValidPosition (from_pos m)" "isValidPosition (to_pos m)" "isValidPosition ?k"
    using m(1) king_of_valid [OF bok(1)] by (auto simp: move_fits_def)
  show "from_pos m = position p" by (rule frm(1))
  show "isValidPosition (from_pos m)" "isValidPosition (to_pos m)" "isValidPosition ?k" by (fact val)+
  show "king_of ?b c = ?k"
    using king_of_moved [OF bok(1) m(1), of c] nk frm by (auto simp: isKing_def split: if_splits)
  have "getPieceTypeAtPosition b ?k = (if c then B_KING else W_KING)"
    using board_okD(5,6) [OF bok(1) val(3)] by (auto simp: king_of_def)
  then show "position p \<noteq> ?k" using p(1) nk by (auto simp: on_board_def isKing_def split: if_splits)
  note cell = get_moved [OF bok(3) m(1)]
  show "isSameColor (type p) (getPieceTypeAtPosition ?b (to_pos m))"
    using cell [OF val(2)] newType_colour [of m] newType_not_EMPTY [of m] frm p m(1)
    by (simp add: isSameColor_iff on_board_def)
  show "isEmpty ?b (position p)"
    using cell [OF val(1)] m(1) frm by (simp add: isEmpty_def move_fits_def)
  show "isSameColor (type p) t \<longleftrightarrow> t \<noteq> EMPTY \<and> isBlack t = c" for t
    using p by (auto simp: isSameColor_iff on_board_def)
qed

text \<open>A slider that gives check after the move stands on the line the moved piece has left.\<close>

lemma pinned_slider:
  assumes ok: "search_ok c b" and p: "on_board b p" "isBlack (type p) = c" "m \<in> set (getMoves fg p b)"
    and nk: "\<not> isKing (type p)" and safe: "\<not> isChecked b c"
    and hit: "unit_step s" "slider_hit (moved m b) c s q"
  shows "on_line (king_of b c) (position p) s"
proof (rule ccontr)
  let ?b = "moved m b" and ?k = "king_of b c"
  assume off: "\<not> on_line ?k (position p) s"
  note f = pinned_facts [OF ok p nk]
  have wf: "wf_board b" and lok: "last_ok b" using ok by (auto simp: search_ok_def game_ok_def board_ok_def)
  note cell = get_moved [OF wf f(1)]
  obtain n where n: "1 \<le> n" "q = along ?k s n" "isValidPosition q"
    and free: "\<And>j. 1 \<le> j \<Longrightarrow> j < n \<Longrightarrow> isEmpty ?b (along ?k s j)"
    using hit(2) by (auto simp: slider_hit_def line_reach_def f(6))
  have apart: "\<not> (\<exists>j. 1 \<le> j \<and> j < n \<and> along ?k s j = from_pos m)"
    using off hit(1) f(2) by (auto simp: on_line_def)
  have vb: "isValidPosition (along ?k s j)" if "1 \<le> j" "j < n" for j
    using valid_between [OF hit(1) f(5), of n j] n that by simp
  have qt: "q \<noteq> to_pos m" "getPieceTypeAtPosition b q = getPieceTypeAtPosition ?b q"
    using hit(2) cell [OF n(3)] f(8) by (auto simp: slider_hit_def f(10) split: if_splits)
  show False
  proof (cases "special m = PAWN_EN_PASSANT \<and> (\<exists>i. 1 \<le> i \<and> i < n \<and> along ?k s i = ep_victim m)")
    case True
    then obtain i e where i: "1 \<le> i" "i < n" "along ?k s i = ep_victim m" "special m = PAWN_EN_PASSANT"
      and e: "ep_column b m e"
      using ep_generated [OF p(1) lok p(3)] by blast
    have "line_reach (before_double b) ?k q s \<and>
        getPieceTypeAtPosition (before_double b) q = getPieceTypeAtPosition ?b q"
      unfolding n(2) using n free apart hit(2) qt i
      by (intro ep_line_was_open [OF wf f(1) i(4) e hit(1) f(5)]) (auto simp: slider_hit_def)
    moreover have dbl: "is_double (lastMove b)" using e by (simp add: ep_column_def)
    ultimately have "slider_hit (before_double b) c s q"
      using hit(2) before_double_kings [OF dbl, of c] by (simp add: slider_hit_def)
    then have "isChecked (before_double b) c"
      using slider_hit_checks [OF _ hit(1)] before_double_kings [OF dbl, of c] f(5) by metis
    with ok dbl show False by (simp add: search_ok_def turn_ok_def)
  next
    case False
    have "isEmpty b (along ?k s j)" if "1 \<le> j" "j < n" for j
      using free [OF that] cell [OF vb [OF that]] apart False that f(8)
      by (auto simp: isEmpty_def split: if_splits)
    then have "slider_hit b c s q"
      using hit(2) n qt(2) by (auto simp: slider_hit_def line_reach_def)
    then show False using slider_hit_checks [OF f(5) hit(1)] safe by blast
  qed
qed

lemma pinned_iff:
  assumes ok: "search_ok c b" and p: "on_board b p" "isBlack (type p) = c" "m \<in> set (getMoves fg p b)"
    and nk: "\<not> isKing (type p)" and safe: "\<not> isChecked b c"
  shows "canMove_pinned p (to_pos m) (king_of b c) (moved m b) \<longleftrightarrow> \<not> isChecked (moved m b) c"
proof -
  let ?b = "moved m b" and ?k = "king_of b c"
  note f = pinned_facts [OF ok p nk]
  have wf: "wf_board b" and ps: "pseudo fg c b m"
    using ok p by (auto simp: search_ok_def game_ok_def board_ok_def pseudo_def)
  have iff: "canMove_pinned p (to_pos m) ?k ?b \<longleftrightarrow>
      \<not> (\<exists>s q. on_line ?k (position p) s \<and> slider_hit ?b c s q)"
    using canMove_pinned_iff [OF f(5) f(3) [unfolded f(2)] f(7,9,8)]
    by (auto simp: slider_hit_def f(6,10))
  have "\<exists>s q. on_line ?k (position p) s \<and> slider_hit ?b c s q" if chk: "isChecked ?b c"
    using chk f(5) [folded f(6)]
  proof (cases rule: checkE)
    case (leaper a)
    have "on_board b a"
      using opponent_stays [OF wf f(1) leaper(1)] leaper(2) pseudoD(4) [OF ok ps] by simp
    moreover have "canAttack a b ?k"
      using leaper(4) canAttack_leaper [OF leaper(3), of ?b ?k b] f(6) by simp
    ultimately show ?thesis using safe leaper(2) by (auto simp: isChecked_iff)
  next
    case (slider s q)
    then show ?thesis using pinned_slider [OF ok p nk safe] by blast
  qed
  moreover have "isChecked ?b c" if "on_line ?k (position p) s" "slider_hit ?b c s q" for s q
    using slider_hit_checks [of ?b c s q] that f(5,6) by (auto simp: on_line_def)
  ultimately show ?thesis using iff by blast
qed

section \<open>canMove decides legality\<close>

text \<open>
  \<open>view_ok r c b\<close>: the list of the round that \<open>canMove\<close> consults for a move of side \<open>c\<close> has every
  opponent piece of \<open>b\<close>, except perhaps the one that moved last.
\<close>

definition opp_list :: "one_round \<Rightarrow> bool \<Rightarrow> piece list" where
  "opp_list r c = (if c = blackFirst r then minStepPieces r else maxStepPieces r)"

definition view_ok :: "one_round \<Rightarrow> bool \<Rightarrow> board \<Rightarrow> bool" where
  "view_ok r c b \<longleftrightarrow>
     (\<forall>p \<in> set (opp_list r c). isValidPosition (position p) \<and> type p \<noteq> EMPTY \<and> isBlack (type p) \<noteq> c) \<and>
     (\<forall>p. on_board b p \<and> isBlack (type p) \<noteq> c \<longrightarrow>
        p \<in> set (opp_list r c) \<or> position p = to_pos (lastMove b))"

lemma checkChecked_iff:
  assumes "\<forall>p \<in> set (opp_list r c). isValidPosition (position p) \<and> type p \<noteq> EMPTY \<and> isBlack (type p) \<noteq> c"
  shows "checkChecked r b (c = blackFirst r) \<longleftrightarrow>
    (\<exists>p \<in> set (opp_list r c). on_board b p \<and> canAttack p b (king_of b c))"
proof -
  have "(if (c = blackFirst r) = blackFirst r then blackKingPosition b else whiteKingPosition b) = king_of b c"
    by (auto simp: king_of_def)
  then have "checkChecked r b (c = blackFirst r) \<longleftrightarrow>
      (\<exists>p \<in> set (opp_list r c). type p = getPieceTypeAtPosition b (position p) \<and> canAttack p b (king_of b c))"
    by (simp add: checkChecked_def Let_def list_ex_iff opp_list_def)
  moreover have "type p = getPieceTypeAtPosition b (position p) \<longleftrightarrow> on_board b p" if "p \<in> set (opp_list r c)" for p
    using assms that by (auto simp: on_board_def)
  ultimately show ?thesis by blast
qed

lemma lastMoved_attacks_iff:
  assumes "wf_board b" "move_fits b m" "isBlack (fromType m) = c" "turn_ok c b"
  shows "\<exists>hit. lastMoved_attacks (moved m b) (to_pos m) k = Inr hit \<and>
    (hit \<longleftrightarrow> (\<exists>p. on_board (moved m b) p \<and> isBlack (type p) \<noteq> c \<and>
        position p = to_pos (lastMove b) \<and> canAttack p (moved m b) k))"
proof -
  let ?b = "moved m b" and ?q = "to_pos (lastMove b)"
  have lm: "lastMove ?b = lastMove b" by (simp add: board_simps)
  have uniq: "p = \<lparr>type = getPieceTypeAtPosition ?b ?q, row = fst ?q, col = snd ?q\<rparr>"
    if "on_board ?b p" "position p = ?q" for p
    using that by (cases p; cases ?q) (auto simp: on_board_def position_def)
  show ?thesis
  proof (cases "isValidPosition ?q \<and> ?q \<noteq> to_pos m")
    case True
    then have col: "getPieceTypeAtPosition ?b ?q = EMPTY \<or> isBlack (getPieceTypeAtPosition ?b ?q) \<noteq> c"
      using assms(4) get_moved [OF assms(1,2), of ?q] by (auto simp: turn_ok_def)
    have run: "lastMoved_attacks ?b (to_pos m) k =
        Inr (case Board_piece ?b ?q of None \<Rightarrow> False | Some p \<Rightarrow> canAttack p ?b k)"
      using True lm by (simp add: lastMoved_attacks_def safePiece_eq)
    show ?thesis
    proof (cases "getPieceTypeAtPosition ?b ?q = EMPTY")
      case True
      then show ?thesis using run by (auto simp: Board_piece_def create_eq on_board_def)
    next
      case False
      define a where "a = \<lparr>type = getPieceTypeAtPosition ?b ?q, row = fst ?q, col = snd ?q\<rparr>"
      have "on_board ?b a" "position a = ?q" "isBlack (type a) \<noteq> c"
        using False True col by (auto simp: a_def on_board_def)
      moreover have "lastMoved_attacks ?b (to_pos m) k = Inr (canAttack a ?b k)"
        using False run by (simp add: Board_piece_def create_eq a_def)
      ultimately show ?thesis
        using uniq [folded a_def] by (intro exI [of _ "canAttack a ?b k"]) blast
    qed
  next
    case False
    have "position p \<noteq> to_pos m" if "on_board ?b p" "isBlack (type p) \<noteq> c" for p
      using opponent_stays [OF assms(1,2) that(1)] that(2) assms(3) by simp
    moreover have "isValidPosition (position p)" if "on_board ?b p" for p
      using that by (simp add: on_board_def)
    ultimately have "\<not> (\<exists>p. on_board ?b p \<and> isBlack (type p) \<noteq> c \<and> position p = ?q \<and> canAttack p ?b k)"
      using False by metis
    with False lm show ?thesis by (auto simp: lastMoved_attacks_def)
  qed
qed

lemma canMove_tried_iff:
  assumes ok: "search_ok c b" and p: "on_board b p" "isBlack (type p) = c" "m \<in> set (getMoves fg p b)"
    and view: "view_ok r c b"
  shows "canMove_tried r p m (isChecked b c) (moved m b) = Inr (\<not> isChecked (moved m b) c)"
proof -
  let ?b = "moved m b"
  have bok: "board_ok b" "last_ok b" "wf_board b" "turn_ok c b"
    using ok by (auto simp: search_ok_def game_ok_def board_ok_def)
  have ps: "pseudo fg c b m" using p by (auto simp: pseudo_def)
  note m = pseudoD [OF ok ps]
  have king: "(if isBlack (type p) then blackKingPosition ?b else whiteKingPosition ?b) = king_of ?b c"
    using p(2) by (simp add: king_of_def)
  obtain hit where hit: "lastMoved_attacks ?b (to_pos m) (king_of ?b c) = Inr hit"
    "hit \<longleftrightarrow> (\<exists>a. on_board ?b a \<and> isBlack (type a) \<noteq> c \<and> position a = to_pos (lastMove b) \<and>
        canAttack a ?b (king_of ?b c))"
    using lastMoved_attacks_iff [OF bok(3) m(1,4) bok(4)] by blast
  have castle: "castledRook_attacks ?b (to_pos m) = Inr False"
    using bok(4) by (simp add: castledRook_attacks_def turn_ok_def board_simps)
  have chk: "isChecked ?b c \<longleftrightarrow> hit \<or> checkChecked r ?b (isBlack (type p) = blackFirst r)"
  proof -
    have L: "\<forall>p \<in> set (opp_list r c). isValidPosition (position p) \<and> type p \<noteq> EMPTY \<and> isBlack (type p) \<noteq> c"
      using view by (simp add: view_ok_def)
    have "a \<in> set (opp_list r c) \<or> position a = to_pos (lastMove b)"
      if "on_board ?b a" "isBlack (type a) \<noteq> c" for a
      using view opponent_stays(1) [OF bok(3) m(1) that(1)] that(2) m(4) by (simp add: view_ok_def)
    then show ?thesis
      unfolding p(2) checkChecked_iff [OF L] hit(2) isChecked_iff using L by blast
  qed
  show ?thesis
  proof (cases hit)
    case True
    then show ?thesis using hit(1) chk by (simp add: canMove_tried_def king Let_def)
  next
    case False
    have "canMove_pinned p (to_pos m) (king_of ?b c) ?b \<longleftrightarrow> \<not> isChecked ?b c"
      if "\<not> isKing (type p)" "\<not> isChecked b c"
    proof -
      have "fromType m = type p" using getMoves_fromType [OF p(1) bok(2) p(3)] .
      then have "king_of ?b c = king_of b c"
        using king_of_moved [OF bok(1) m(1), of c] that(1) by (auto simp: isKing_def split: if_splits)
      with pinned_iff [OF ok p that] show ?thesis by simp
    qed
    with False hit(1) castle chk show ?thesis
      by (auto simp: canMove_tried_def king Let_def)
  qed
qed

lemma canMove_iff:
  assumes ok: "search_ok c b" and p: "on_board b p" "isBlack (type p) = c" "m \<in> set (getMoves fg p b)"
    and view: "view_ok r c b"
  shows "canMove r p m (isChecked b c) b = Inr (\<not> isChecked (after m b) c, b)"
proof -
  have bok: "board_ok b" "wf_board b"
    using ok by (auto simp: search_ok_def game_ok_def board_ok_def)
  have "pseudo fg c b m" using p by (auto simp: pseudo_def)
  then have fits: "move_fits b m" by (rule pseudoD(1) [OF ok])
  show ?thesis
    using canMove_tried_iff [OF ok p view] Move_apply_moved [OF bok(2) fits] undo_moved [OF bok(1) fits]
      move_fitsD(9) [OF fits]
    by (simp add: canMove_def)
qed

end
