(* ===== verification/Search_Round.thy ===== *)
theory Search_Round
  imports Move_Legality "HOL-Library.Multiset"
begin

text \<open>
  What a round of the search computes before it recurses: the piece lists, the two check
  flags and the ordered list of max moves.
\<close>

section \<open>The piece lists\<close>

definition piece_at :: "board \<Rightarrow> position \<Rightarrow> piece" where
  "piece_at b pos = \<lparr>type = getPieceTypeAtPosition b pos, row = fst pos, col = snd pos\<rparr>"

definition pieces_of :: "board \<Rightarrow> bool \<Rightarrow> piece list" where
  "pieces_of b c = map (piece_at b)
     (filter (\<lambda>pos. \<not> isEmpty b pos \<and> isBlack (getPieceTypeAtPosition b pos) = c) all_positions)"

definition fresh :: "one_round \<Rightarrow> bool" where
  "fresh r \<longleftrightarrow> maxStepPieces r = pieces_of (curBoard r) (blackFirst r) \<and>
     minStepPieces r = pieces_of (curBoard r) (\<not> blackFirst r)"

lemma set_pieces_of: "p \<in> set (pieces_of b c) \<longleftrightarrow> on_board b p \<and> isBlack (type p) = c"
proof
  assume "p \<in> set (pieces_of b c)"
  then show "on_board b p \<and> isBlack (type p) = c"
    by (auto simp: pieces_of_def piece_at_def on_board_def isEmpty_def)
next
  assume p: "on_board b p \<and> isBlack (type p) = c"
  then have "p = piece_at b (position p)"
    by (cases p) (simp add: piece_at_def on_board_def)
  with p show "p \<in> set (pieces_of b c)"
    unfolding pieces_of_def by (auto simp: on_board_def isEmpty_def intro: image_eqI [of _ _ "position p"])
qed

lemma init_loop:
  assumes "\<forall>pos \<in> set ps. isValidPosition pos"
  shows "rfold init_step ps r = Inr (r\<lparr>
    maxStepPieces := maxStepPieces r @ map (piece_at (curBoard r)) (filter (\<lambda>pos. \<not> isEmpty (curBoard r) pos \<and>
      isBlack (getPieceTypeAtPosition (curBoard r) pos) = blackFirst r) ps),
    minStepPieces := minStepPieces r @ map (piece_at (curBoard r)) (filter (\<lambda>pos. \<not> isEmpty (curBoard r) pos \<and>
      isBlack (getPieceTypeAtPosition (curBoard r) pos) = (\<not> blackFirst r)) ps)\<rparr>)"
  using assms
proof (induction ps arbitrary: r)
  case Nil
  then show ?case by simp
next
  case (Cons pos ps)
  define b where "b = curBoard r"
  have "init_step pos r = Inr (if isEmpty b pos then r
      else if isBlack (getPieceTypeAtPosition b pos) = blackFirst r
      then r\<lparr>maxStepPieces := maxStepPieces r @ [piece_at b pos]\<rparr>
      else r\<lparr>minStepPieces := minStepPieces r @ [piece_at b pos]\<rparr>)"
    using Cons.prems
    by (simp add: init_step_def safePiece_eq Board_piece_def create_eq deref_def piece_at_def b_def
        isEmpty_def isSameColor_iff)
  then show ?case
    using Cons by (auto simp: b_def)
qed

lemma new_OneRound_eq:
  "\<exists>r. new_OneRound mp fs ns b black lvl par = Inr r \<and> fresh r \<and> curBoard r = b \<and>
    blackFirst r = black \<and> level r = lvl \<and> ancestors r = par \<and> maxStepState r = None"
  by (simp add: new_OneRound_def OneRound_init_def init_loop fresh_def pieces_of_def)

section \<open>The check flags\<close>

lemma view_max:
  assumes "fresh r"
  shows "view_ok r (blackFirst r) (curBoard r)"
  using assms by (auto simp: view_ok_def opp_list_def fresh_def set_pieces_of on_board_def)

lemma view_min:
  assumes "fresh r" "search_ok (blackFirst r) (curBoard r)" "pseudo fg (blackFirst r) (curBoard r) m"
  shows "view_ok r (\<not> blackFirst r) (after m (curBoard r))"
proof -
  let ?b = "curBoard r"
  have wf: "wf_board ?b" using assms(2) by (simp add: search_ok_def game_ok_def board_ok_def)
  note m = pseudoD [OF assms(2,3)]
  have "on_board ?b p" if "on_board (moved m ?b) p" "position p \<noteq> to_pos m" for p
    using that get_moved [OF wf m(1), of "position p"] by (auto simp: on_board_def split: if_splits)
  moreover have "on_board (after m ?b) p = on_board (moved m ?b) p" for p
    by (simp add: on_board_def)
  ultimately show ?thesis
    using assms(1) unfolding view_ok_def opp_list_def fresh_def
    by (auto simp: set_pieces_of) (auto simp: on_board_def)
qed

lemma OneRound_isChecked_eq:
  assumes "fresh r"
  shows "OneRound_isChecked r = isChecked (curBoard r) (blackFirst r)"
proof -
  have L: "\<forall>p \<in> set (opp_list r (blackFirst r)).
      isValidPosition (position p) \<and> type p \<noteq> EMPTY \<and> isBlack (type p) \<noteq> blackFirst r"
    using assms by (auto simp: opp_list_def fresh_def set_pieces_of on_board_def)
  show ?thesis
    using checkChecked_iff [OF L, of "curBoard r"] assms
    by (auto simp: OneRound_isChecked_def isChecked_iff opp_list_def fresh_def set_pieces_of)
qed

lemma isChecking_eq:
  assumes "fresh r" "search_ok (blackFirst r) (curBoard r)" "pseudo fg (blackFirst r) (curBoard r) m"
    and "maxStepState r = Some (after m (curBoard r))"
    and "maxMovePiece r = Board_piece (after m (curBoard r)) (to_pos m)"
  shows "isChecking r = Inr (isChecked (after m (curBoard r)) (\<not> blackFirst r))"
proof -
  let ?b = "curBoard r" and ?c = "blackFirst r"
  let ?s = "after m ?b"
  have ok: "wf_board ?b" "board_ok ?b" using assms(2) by (auto simp: search_ok_def game_ok_def board_ok_def)
  note m = pseudoD [OF assms(2,3)]
  have "fromType m \<noteq> (if \<not> ?c then B_KING else W_KING)"
    using m(4) by auto
  then have king: "king_of ?s (\<not> ?c) = king_of ?b (\<not> ?c)"
    using king_of_moved [OF ok(2) m(1), of "\<not> ?c"] by simp
  have to: "getPieceTypeAtPosition ?s (to_pos m) = newType m" "isValidPosition (to_pos m)"
    using get_moved [OF ok(1) m(1), of "to_pos m"] move_fitsD(2) [OF m(1)] by simp_all
  define a where "a = \<lparr>type = newType m, row = fst (to_pos m), col = snd (to_pos m)\<rparr>"
  have a: "maxMovePiece r = Some a" "on_board ?s a" "isBlack (type a) = ?c"
    using assms(5) to move_fitsD(7) [OF m(1)] newType_colour [of m] m(4)
    by (simp_all add: Board_piece_def create_eq a_def on_board_def)
  note v = view_min [OF assms(1-3)]
  have L: "\<forall>p \<in> set (opp_list r (\<not> ?c)). isValidPosition (position p) \<and> type p \<noteq> EMPTY \<and> isBlack (type p) \<noteq> (\<not> ?c)"
    using v by (simp add: view_ok_def)
  have "p = a" if "on_board ?s p" "position p = to_pos m" for p
    using that to(1) by (cases p; cases "to_pos m") (auto simp: on_board_def position_def a_def)
  then have "isChecked ?s (\<not> ?c) \<longleftrightarrow> canAttack a ?s (king_of ?s (\<not> ?c)) \<or>
      (\<exists>p \<in> set (opp_list r (\<not> ?c)). on_board ?s p \<and> canAttack p ?s (king_of ?s (\<not> ?c)))"
    using v a L unfolding isChecked_iff view_ok_def after_frame(1) by blast
  moreover have "checkChecked r ?s False \<longleftrightarrow>
      (\<exists>p \<in> set (opp_list r (\<not> ?c)). on_board ?s p \<and> canAttack p ?s (king_of ?s (\<not> ?c)))"
    using checkChecked_iff [OF L, of ?s] by simp
  moreover have "(if ?c then whiteKingPosition ?b else blackKingPosition ?b) = king_of ?s (\<not> ?c)"
    unfolding king by (simp add: king_of_def)
  ultimately show ?thesis
    using assms(4) a(1) by (simp add: isChecking_def deref_def Let_def)
qed

section \<open>The max moves\<close>

definition legal_from :: "flags \<Rightarrow> bool \<Rightarrow> board \<Rightarrow> piece \<Rightarrow> move list" where
  "legal_from fg c b p = filter (\<lambda>m. \<not> isChecked (after m b) c) (getMoves fg p b)"

definition legal_list :: "flags \<Rightarrow> bool \<Rightarrow> board \<Rightarrow> move list" where
  "legal_list fg c b = concat (map (legal_from fg c b) (pieces_of b c))"

lemma set_legal_list: "m \<in> set (legal_list fg c b) \<longleftrightarrow> legal fg c b m"
  by (auto simp: legal_list_def legal_from_def legal_def pseudo_def set_pieces_of)

text \<open>The estimate \<open>calcMoveHeuristics\<close> gives a move of a piece.\<close>

definition estimate :: "platform \<Rightarrow> one_round \<Rightarrow> piece \<Rightarrow> move \<Rightarrow> rat" where
  "estimate pl r p m =
     (let b = moved m (curBoard r)
      in foldl (\<lambda>h q.
             if position q = position p then h
             else if canAttackLine (type q) (deltaMove (position p) (position q))
             then max h (Piece_heuristicScore pl q b)
             else h)
           (Piece_heuristicScore pl \<lparr>type = newType m, row = fst (to_pos m), col = snd (to_pos m)\<rparr> b)
           (sameSidePieces r (type p)))"

lemma calcMoveHeuristics_eq:
  assumes "board_ok (curBoard r)" "move_fits (curBoard r) m"
  shows "calcMoveHeuristics pl r (curBoard r) p m = Inr (estimate pl r p m, curBoard r)"
proof -
  have "wf_board (curBoard r)" using assms(1) by (simp add: board_ok_def)
  then show ?thesis
    using Move_apply_moved [OF _ assms(2)] undo_moved [OF assms] move_fitsD(2,7) [OF assms(2)]
    by (simp add: calcMoveHeuristics_def Move_heuristicScore_def PieceBank_get_eq create_eq deref_def
        estimate_def Let_def)
qed

lemma gen_moves_eq:
  assumes "fresh r" "search_ok (blackFirst r) (curBoard r)" "p \<in> set (maxStepPieces r)"
    and "isMaxChecked r = isChecked (curBoard r) (blackFirst r)"
    and "set ms \<subseteq> set (getMoves fg p (curBoard r))"
  shows "rfold (gen_move pl r p) ms (curBoard r, moves, ests) = Inr (curBoard r,
    moves @ filter (\<lambda>m. \<not> isChecked (after m (curBoard r)) (blackFirst r)) ms,
    ests @ map (estimate pl r p) (filter (\<lambda>m. \<not> isChecked (after m (curBoard r)) (blackFirst r)) ms))"
  using assms(5)
proof (induction ms arbitrary: moves ests)
  case Nil
  then show ?case by simp
next
  case (Cons m ms)
  let ?b = "curBoard r" and ?c = "blackFirst r"
  have p: "on_board ?b p" "isBlack (type p) = ?c" and m: "m \<in> set (getMoves fg p ?b)"
    using assms(1,3) Cons.prems by (auto simp: fresh_def set_pieces_of)
  have ok: "board_ok ?b" "last_ok ?b" using assms(2) by (auto simp: search_ok_def game_ok_def)
  have can: "canMove r p m (isMaxChecked r) ?b = Inr (\<not> isChecked (after m ?b) ?c, ?b)"
    unfolding assms(4) by (rule canMove_iff [OF assms(2) p m view_max [OF assms(1)]])
  have "gen_move pl r p m (?b, moves, ests) = Inr (?b,
      moves @ filter (\<lambda>m. \<not> isChecked (after m ?b) ?c) [m],
      ests @ map (estimate pl r p) (filter (\<lambda>m. \<not> isChecked (after m ?b) ?c) [m]))"
    using can calcMoveHeuristics_eq [OF ok(1) getMoves_fits(1) [OF p(1) ok(2) m]]
    by (simp add: gen_move_def)
  with Cons show ?case by simp
qed

definition estimates_of :: "platform \<Rightarrow> flags \<Rightarrow> one_round \<Rightarrow> rat list" where
  "estimates_of pl fg r = concat (map (\<lambda>p. map (estimate pl r p)
     (legal_from fg (blackFirst r) (curBoard r) p)) (maxStepPieces r))"

lemma gen_pieces_eq:
  assumes "fresh r" "search_ok (blackFirst r) (curBoard r)"
    and "isMaxChecked r = isChecked (curBoard r) (blackFirst r)"
    and "set ps \<subseteq> set (maxStepPieces r)"
  shows "rfold (gen_piece pl fg r) ps (curBoard r, moves, ests) = Inr (curBoard r,
    moves @ concat (map (legal_from fg (blackFirst r) (curBoard r)) ps),
    ests @ concat (map (\<lambda>p. map (estimate pl r p) (legal_from fg (blackFirst r) (curBoard r) p)) ps))"
  using assms(4)
proof (induction ps arbitrary: moves ests)
  case Nil
  then show ?case by simp
next
  case (Cons p ps)
  have "gen_piece pl fg r p (curBoard r, moves, ests) = Inr (curBoard r,
      moves @ legal_from fg (blackFirst r) (curBoard r) p,
      ests @ map (estimate pl r p) (legal_from fg (blackFirst r) (curBoard r) p))"
    unfolding gen_piece_def legal_from_def
    using Cons.prems by (intro gen_moves_eq [OF assms(1,2) _ assms(3)]) auto
  with Cons show ?case by simp
qed

lemma generate_eq:
  assumes "fresh r" "search_ok (blackFirst r) (curBoard r)"
    and "isMaxChecked r = isChecked (curBoard r) (blackFirst r)"
  shows "generateAndSortMaxMoves pl fg r =
    Inr (map (\<lambda>i. legal_list fg (blackFirst r) (curBoard r) ! i)
      (std_sort pl (\<lambda>x y. estimates_of pl fg r ! x > estimates_of pl fg r ! y)
        [0..<length (legal_list fg (blackFirst r) (curBoard r))]))"
  using gen_pieces_eq [OF assms, of "maxStepPieces r" pl fg "[]" "[]"] assms(1)
  by (simp add: generateAndSortMaxMoves_def legal_list_def estimates_of_def fresh_def)

lemma generate_permutation:
  assumes "fresh r" "search_ok (blackFirst r) (curBoard r)"
    and "isMaxChecked r = isChecked (curBoard r) (blackFirst r)" and "sort_ok pl"
  shows "\<exists>ms. generateAndSortMaxMoves pl fg r = Inr ms \<and>
    mset ms = mset (legal_list fg (blackFirst r) (curBoard r))"
proof -
  let ?L = "legal_list fg (blackFirst r) (curBoard r)"
  define idx where "idx = std_sort pl (\<lambda>x y. estimates_of pl fg r ! x > estimates_of pl fg r ! y) [0..<length ?L]"
  have "mset idx = mset [0..<length ?L]"
    using assms(4) by (simp add: sort_ok_def idx_def)
  then have "mset (map (\<lambda>i. ?L ! i) idx) = mset (map (\<lambda>i. ?L ! i) [0..<length ?L])"
    by (simp only: mset_map)
  then show ?thesis
    using generate_eq [OF assms(1-3), of pl fg] by (simp add: map_nth flip: idx_def)
qed

end
