(* ===== verification/Search_Sound.thy ===== *)
theory Search_Sound
  imports Search_Round
begin

text \<open>
  The search against the rules of the game. \<open>mate\<close> is the specification: side \<open>c\<close> can force
  mate within \<open>n\<close> of its moves. \<open>rmate\<close> is the part of it the search explores: it does not try
  a move that takes the max side's previous move back. The search is shown to report a
  checkmate only where there is a forced mate, to compute \<open>rmate\<close> when nothing is cached, and
  to run into none of its fatal checks but those of a full solution forest.
\<close>

section \<open>Forced mates\<close>

primrec mate :: "flags \<Rightarrow> bool \<Rightarrow> nat \<Rightarrow> board \<Rightarrow> bool" where
  "mate fg c 0 b = False"
| "mate fg c (Suc n) b =
     (\<exists>m. legal fg c b m \<and>
        (isChecked (after m b) (\<not> c) \<or> (\<exists>m'. legal fg (\<not> c) (after m b) m')) \<and>
        (\<forall>m'. legal fg (\<not> c) (after m b) m' \<longrightarrow> mate fg c n (after m' (after m b))))"

definition circular :: "(board \<times> board) option \<Rightarrow> board \<Rightarrow> move \<Rightarrow> bool" where
  "circular prev b m =
     (case prev of
        None \<Rightarrow> False
      | Some (pb, s) \<Rightarrow>
          from_pos (lastMove s) = to_pos m \<and> to_pos (lastMove s) = from_pos m
          \<and> toType m = EMPTY \<and> isEmpty pb (to_pos (lastMove s))
          \<and> fromType (lastMove b) \<noteq> B_PAWN \<and> fromType (lastMove b) \<noteq> W_PAWN)"

primrec rmate :: "flags \<Rightarrow> bool \<Rightarrow> nat \<Rightarrow> (board \<times> board) option \<Rightarrow> board \<Rightarrow> bool" where
  "rmate fg c 0 prev b = False"
| "rmate fg c (Suc n) prev b =
     (\<exists>m. legal fg c b m \<and> \<not> circular prev b m \<and>
        (isChecked (after m b) (\<not> c) \<or> (\<exists>m'. legal fg (\<not> c) (after m b) m')) \<and>
        (\<forall>m'. legal fg (\<not> c) (after m b) m' \<longrightarrow>
           rmate fg c n (Some (b, after m b)) (after m' (after m b))))"

lemma mate_Suc: "mate fg c n b \<Longrightarrow> mate fg c (Suc n) b"
proof (induction n arbitrary: b)
  case 0
  then show ?case by simp
next
  case (Suc n)
  then obtain m where m: "legal fg c b m"
    "isChecked (after m b) (\<not> c) \<or> (\<exists>m'. legal fg (\<not> c) (after m b) m')"
    "\<And>m'. legal fg (\<not> c) (after m b) m' \<Longrightarrow> mate fg c n (after m' (after m b))"
    by auto
  then have "mate fg c (Suc n) (after m' (after m b))" if "legal fg (\<not> c) (after m b) m'" for m'
    using Suc.IH that by blast
  with m(1,2) show ?case unfolding mate.simps(2) [of fg c "Suc n"] by blast
qed

lemma mate_mono: "mate fg c n b \<Longrightarrow> n \<le> k \<Longrightarrow> mate fg c k b"
  by (induction k) (auto simp: le_Suc_eq simp del: mate.simps(2) intro: mate_Suc)

lemma rmate_mate: "rmate fg c n prev b \<Longrightarrow> mate fg c n b"
  by (induction n arbitrary: prev b) (simp, auto)

section \<open>Runs\<close>

text \<open>\<open>returns E Q x\<close>: the run \<open>x\<close> ends with \<open>Q\<close>, or it aborts for a reason in \<open>E\<close>.\<close>

definition returns :: "fatal set \<Rightarrow> ('a \<Rightarrow> bool) \<Rightarrow> 'a result \<Rightarrow> bool" where
  "returns E Q x \<longleftrightarrow> (case x of Inl e \<Rightarrow> e \<in> E | Inr y \<Rightarrow> Q y)"

text \<open>The two ways a full forest of solutions shows.\<close>

definition forest_full :: "fatal set" where
  "forest_full = {NoSolution, BadIndex}"

lemma returns_Inr [simp]: "returns E Q (Inr y) = Q y"
  by (simp add: returns_def)

lemma returns_rbind:
  "returns E Q x \<Longrightarrow> (\<And>y. Q y \<Longrightarrow> returns E Q' (f y)) \<Longrightarrow> returns E Q' (rbind x f)"
  by (cases x) (auto simp: returns_def)

lemma returns_mono: "returns E Q x \<Longrightarrow> (\<And>y. Q y \<Longrightarrow> Q' y) \<Longrightarrow> returns E Q' x"
  by (cases x) (auto simp: returns_def)

lemma returnsD: "returns E Q x \<Longrightarrow> x = Inr y \<Longrightarrow> Q y"
  by (simp add: returns_def)

section \<open>The cache during a run\<close>

definition sigs :: "cache \<Rightarrow> score_map \<times> score_map" where
  "sigs c = (maxSignatures c, minSignatures c)"

lemma sigs_simps [simp]:
  "sigs (c\<lparr>solutions := f\<rparr>) = sigs c" "sigs (c\<lparr>solutionMap := m\<rparr>) = sigs c"
  "sigs (c\<lparr>solutionHits := h\<rparr>) = sigs c"
  "sigs (c\<lparr>gNumMaxStatesExpanded := i\<rparr>) = sigs c" "sigs (c\<lparr>gNumMinStatesExpanded := i\<rparr>) = sigs c"
  by (simp_all add: sigs_def)

lemma addSolutionNode_sigs [simp]:
  "sigs (snd (addSolutionNode b c)) = sigs c" "sigs (snd (addSolutionNode_key k b c)) = sigs c"
  "sigs (snd (getSolution k c)) = sigs c"
  by (auto simp: addSolutionNode_def addSolutionNode_key_def getSolution_def split: prod.split option.split)

lemma addSolutionChild_returns: "forest_full \<subseteq> E \<Longrightarrow> returns E (\<lambda>c'. sigs c' = sigs c) (addSolutionChild p i c)"
  by (auto simp: addSolutionChild_def forest_addChild_def Let_def returns_def forest_full_def)

lemma store_states_returns:
  assumes E: "forest_full \<subseteq> E"
  shows "returns E (\<lambda>c'. sigs c' = sigs c) (store_states par ss trees c)"
proof (induction ss arbitrary: trees c)
  case Nil
  then show ?case by simp
next
  case (Cons s ss)
  obtain idx c0 where node: "addSolutionNode s c = (idx, c0)" by fastforce
  then have c0: "sigs c0 = sigs c" using addSolutionNode_sigs(1) [of s c] by simp
  have sub: "returns E (\<lambda>c'. sigs c' = sigs c1) (case trees of [] \<Rightarrow> Inr c1
      | subTree # _ \<Rightarrow> if subTree \<noteq> NULL_INDEX then addSolutionChild idx subTree c1 else Inr c1)" for c1
    by (cases trees) (auto intro: addSolutionChild_returns [OF E])
  show ?case
    unfolding store_states.simps node Let_def prod.case
  proof (rule returns_rbind [OF addSolutionChild_returns [OF E]], rule returns_rbind [OF sub])
    fix c1 c2
    assume "sigs c1 = sigs c0" "sigs c2 = sigs c1"
    then show "returns E (\<lambda>c'. sigs c' = sigs c) (store_states par ss (drop 1 trees) c2)"
      using Cons.IH [of c2] c0 by simp
  qed
qed

lemma storeSolution_returns:
  assumes E: "forest_full \<subseteq> E" and "maxStepState r \<noteq> None"
  shows "returns E (\<lambda>(i, c'). sigs c' = sigs c) (storeSolution r key c)"
proof -
  obtain s where s: "maxStepState r = Some s" using assms(2) by auto
  obtain par c0 where node: "addSolutionNode_key key s c = (par, c0)" by fastforce
  then have "sigs c0 = sigs c" using addSolutionNode_sigs(2) [of key s c] by simp
  then show ?thesis
    using s node by (auto simp: storeSolution_def deref_def intro!: returns_rbind [OF store_states_returns [OF E]])
qed

text \<open>
  The setting of a run for \<open>N\<close> levels by side \<open>bf\<close>. \<open>R\<close> holds of the boards of the run on which
  \<open>bf\<close> is to move. Where scores are stored, boards of the run with the same signature are
  forced mates together.
\<close>

definition hash_adequate :: "config \<Rightarrow> bool \<Rightarrow> (board \<Rightarrow> bool) \<Rightarrow> nat \<Rightarrow> bool" where
  "hash_adequate cf bf R N \<longleftrightarrow>
     (\<forall>k b b'. min_store_level (flag cf) \<le> int (Suc k) \<longrightarrow> Suc k \<le> N \<longrightarrow> R b \<longrightarrow> R b' \<longrightarrow>
        Board_hash (plat cf) b = Board_hash (plat cf) b' \<longrightarrow>
        mate (flag cf) bf k b \<longrightarrow> mate (flag cf) bf k b')"

definition search_env :: "config \<Rightarrow> bool \<Rightarrow> (board \<Rightarrow> bool) \<Rightarrow> nat \<Rightarrow> bool" where
  "search_env cf bf R N \<longleftrightarrow>
     sort_ok (plat cf) \<and> int N < INT_MAX \<and> hash_adequate cf bf R N \<and>
     (\<forall>b. R b \<longrightarrow> search_ok bf b) \<and>
     (\<forall>b m m'. R b \<longrightarrow> legal (flag cf) bf b m \<longrightarrow> legal (flag cf) (\<not> bf) (after m b) m' \<longrightarrow>
        R (after m' (after m b)))"

definition min_sound :: "config \<Rightarrow> bool \<Rightarrow> (board \<Rightarrow> bool) \<Rightarrow> nat \<Rightarrow> cache \<Rightarrow> bool" where
  "min_sound cf bf R N c \<longleftrightarrow>
     (\<forall>h b. 0 < h \<longrightarrow> h \<le> int N \<longrightarrow> R b \<longrightarrow>
        getScoreFromMinCache c (Board_hash (plat cf) b) h = Some CHECKMATE \<longrightarrow>
        mate (flag cf) bf (nat (h - 1)) b)"

lemma min_soundD:
  assumes "min_sound cf bf R N c" "Suc n \<le> N" "R b"
    and "getScoreFromMinCache c (Board_hash (plat cf) b) (int (Suc n)) = Some CHECKMATE"
  shows "mate (flag cf) bf n b"
proof -
  have "mate (flag cf) bf (nat (int (Suc n) - 1)) b"
    using assms unfolding min_sound_def by (metis of_nat_0_less_iff of_nat_le_iff zero_less_Suc)
  then show ?thesis by simp
qed

definition keeps :: "nat \<Rightarrow> cache \<Rightarrow> cache \<Rightarrow> bool" where
  "keeps k c c' \<longleftrightarrow>
     (\<forall>sg h. int k < h \<longrightarrow> getScoreFromMinCache c' sg h = Some NONE \<longrightarrow>
        getScoreFromMinCache c sg h = Some NONE)"

definition quiet :: "config \<Rightarrow> nat \<Rightarrow> cache \<Rightarrow> bool" where
  "quiet cf n c \<longleftrightarrow> sigs c = (Map.empty, Map.empty) \<and> int n < min_store_level (flag cf)"

lemma sigs_min: "sigs c = sigs c' \<Longrightarrow> getScoreFromMinCache c = getScoreFromMinCache c'"
  by (intro ext) (simp add: sigs_def getScoreFromMinCache_def getScoreFromCache_def signatures_def)

lemma sigs_cong:
  assumes "sigs c = sigs c'"
  shows "min_sound cf bf R N c = min_sound cf bf R N c'" "keeps k c0 c = keeps k c0 c'"
    "keeps k c c0 = keeps k c' c0" "quiet cf n c = quiet cf n c'"
  using assms sigs_min [OF assms] by (simp_all add: min_sound_def keeps_def quiet_def)

lemma keeps_refl [simp]: "keeps k c c"
  by (simp add: keeps_def)

lemma keeps_trans: "keeps k c c' \<Longrightarrow> keeps k c' c'' \<Longrightarrow> keeps k c c''"
  by (simp add: keeps_def)

lemma keeps_mono: "keeps n c c' \<Longrightarrow> n \<le> k \<Longrightarrow> keeps k c c'"
  by (simp add: keeps_def)

lemma quiet_get: "quiet cf n c \<Longrightarrow> getScoreFromMinCache c s h = None \<and> getScoreFromMaxCache c s h = None"
  by (simp add: quiet_def sigs_def getScoreFromMinCache_def getScoreFromMaxCache_def
      getScoreFromCache_def signatures_def)

lemma updateMax_min: "getScoreFromMinCache (updateMaxCache lvl s h x c) = getScoreFromMinCache c"
  by (intro ext) (simp add: getScoreFromMinCache_def updateMaxCache_def updateCache_def
      getScoreFromCache_def Let_def)

lemma updateMax_inv:
  "min_sound cf bf R N (updateMaxCache lvl s h x c) = min_sound cf bf R N c"
  "keeps k c0 (updateMaxCache lvl s h x c) = keeps k c0 c"
  by (simp_all add: min_sound_def keeps_def updateMax_min)

lemma updateMax_quiet:
  assumes "quiet cf n c"
  shows "quiet cf n (updateMaxCache (min_store_level (flag cf)) s (int n) x c)"
  using assms by (simp add: quiet_def updateMaxCache_def updateCache_def)

definition read_entry :: "(int \<times> int) option \<Rightarrow> int \<Rightarrow> int option" where
  "read_entry e h = (case e of None \<Rightarrow> None | Some (lo, hi) \<Rightarrow>
     if lo \<ge> h then Some NONE else if hi \<le> h then Some CHECKMATE else None)"

definition new_entry :: "(int \<times> int) option \<Rightarrow> int \<Rightarrow> int \<Rightarrow> int \<times> int" where
  "new_entry e h x = (case e of
       None \<Rightarrow> if x < CHECKMATE then (h, INT_MAX) else (- INT_MAX, h)
     | Some (lo, hi) \<Rightarrow> if x < CHECKMATE \<and> lo < h then (h, hi) else if hi > h then (lo, h) else (lo, hi))"

lemma getMin_read: "getScoreFromMinCache c s h = read_entry (minSignatures c s) h"
  by (simp add: getScoreFromMinCache_def getScoreFromCache_def read_entry_def signatures_def)

lemma updateMin_entry:
  assumes "lvl \<le> h"
  shows "minSignatures (updateMinCache lvl s h x c) =
    (minSignatures c)(s \<mapsto> new_entry (minSignatures c s) h x)"
  using assms
  by (cases "minSignatures c s") (auto simp: updateMinCache_def updateCache_def new_entry_def signatures_def
      set_signatures_def Let_def fun_upd_idem)

lemma read_new_entry:
  assumes "read_entry (Some (new_entry e h x)) i = Some CHECKMATE" "read_entry e h \<noteq> Some NONE"
    and "i < INT_MAX" "x \<le> CHECKMATE" "\<not> (x = CHECKMATE \<and> h \<le> i)"
  shows "read_entry e i = Some CHECKMATE"
proof (cases e)
  case None
  then show ?thesis using assms by (auto simp: read_entry_def new_entry_def split: if_splits)
next
  case (Some p)
  then show ?thesis using assms by (cases p) (auto simp: read_entry_def new_entry_def split: if_splits)
qed

lemma read_new_entry_none:
  assumes "read_entry (Some (new_entry e h x)) i = Some NONE" "h < i" "0 < i"
  shows "read_entry e i = Some NONE"
proof (cases e)
  case None
  then show ?thesis using assms by (auto simp: read_entry_def new_entry_def split: if_splits)
next
  case (Some p)
  then show ?thesis using assms by (cases p) (auto simp: read_entry_def new_entry_def split: if_splits)
qed

lemma updateMin_sound:
  assumes env: "search_env cf bf R N" and snd: "min_sound cf bf R N c"
    and h: "min_store_level (flag cf) \<le> int (Suc n)" "Suc n \<le> N"
    and b: "R b" "s = Board_hash (plat cf) b"
    and miss: "getScoreFromMinCache c s (int (Suc n)) \<noteq> Some NONE"
    and x: "x \<le> CHECKMATE" "x = CHECKMATE \<Longrightarrow> mate (flag cf) bf n b"
  shows "min_sound cf bf R N (updateMinCache (min_store_level (flag cf)) s (int (Suc n)) x c)"
  unfolding min_sound_def getMin_read updateMin_entry [OF h(1)]
proof (intro allI impI)
  fix i b'
  assume i: "0 < i" "i \<le> int N" and b': "R b'"
    and get: "read_entry (((minSignatures c)(s \<mapsto> new_entry (minSignatures c s) (int (Suc n)) x))
      (Board_hash (plat cf) b')) i = Some CHECKMATE"
  have N: "i < INT_MAX" using env i(2) by (simp add: search_env_def)
  show "mate (flag cf) bf (nat (i - 1)) b'"
  proof (cases "Board_hash (plat cf) b' = s \<and> x = CHECKMATE \<and> int (Suc n) \<le> i")
    case True
    have "hash_adequate cf bf R N" using env by (simp add: search_env_def)
    moreover have "Board_hash (plat cf) b = Board_hash (plat cf) b'" using True b(2) by simp
    ultimately have "mate (flag cf) bf n b'"
      using h b(1) b' x(2) True unfolding hash_adequate_def by blast
    then show ?thesis by (rule mate_mono) (use True in auto)
  next
    case False
    have "read_entry (minSignatures c (Board_hash (plat cf) b')) i = Some CHECKMATE"
      using get read_new_entry [OF _ miss [unfolded getMin_read] N x(1)] False
      by (cases "Board_hash (plat cf) b' = s") auto
    with snd i b' show ?thesis by (simp add: min_sound_def getMin_read)
  qed
qed

lemma updateMin_keeps:
  assumes "lvl \<le> int (Suc n)"
  shows "keeps (Suc n) c (updateMinCache lvl s (int (Suc n)) x c)"
  unfolding keeps_def getMin_read updateMin_entry [OF assms]
  using read_new_entry_none [of "minSignatures c s" "int (Suc n)" x] by auto

section \<open>The contract of a search\<close>

definition prev_of :: "one_round \<Rightarrow> (board \<times> board) option" where
  "prev_of r = (case ancestors r of [] \<Rightarrow> None | (pb, ps) # _ \<Rightarrow> map_option (Pair pb) ps)"

definition search_pre :: "config \<Rightarrow> bool \<Rightarrow> (board \<Rightarrow> bool) \<Rightarrow> nat \<Rightarrow> one_round \<Rightarrow> cache \<Rightarrow> bool" where
  "search_pre cf bf R N r c \<longleftrightarrow>
     fresh r \<and> blackFirst r = bf \<and> R (curBoard r) \<and> min_sound cf bf R N c \<and>
     (\<forall>pb ps rest. ancestors r = (pb, ps) # rest \<longrightarrow> ps \<noteq> None)"

text \<open>
  \<open>verdict\<close>: a run that may store scores for heights up to \<open>k\<close> turned the cache \<open>c\<close> into \<open>c'\<close>
  and scored the board \<open>b\<close>, with \<open>bf\<close> to move and \<open>n\<close> levels to go.
\<close>

definition verdict :: "config \<Rightarrow> bool \<Rightarrow> (board \<Rightarrow> bool) \<Rightarrow> nat \<Rightarrow> nat \<Rightarrow> cache \<Rightarrow> cache \<Rightarrow> bool \<Rightarrow> bool \<Rightarrow> int \<Rightarrow> bool" where
  "verdict cf bf R N k c c' forced explored sc \<longleftrightarrow>
     min_sound cf bf R N c' \<and> keeps k c c' \<and> sc \<le> CHECKMATE \<and> (sc = CHECKMATE \<longrightarrow> forced) \<and>
     (quiet cf k c \<longrightarrow> quiet cf k c' \<and> (sc = CHECKMATE \<longleftrightarrow> explored))"

lemma verdict_sigs:
  assumes "sigs c1 = sigs c2" "verdict cf bf R N k c c2 forced explored sc"
  shows "verdict cf bf R N k c c1 forced explored sc"
  using assms(2) unfolding verdict_def sigs_cong [OF assms(1)] .

definition search_post ::
  "config \<Rightarrow> bool \<Rightarrow> (board \<Rightarrow> bool) \<Rightarrow> nat \<Rightarrow> nat \<Rightarrow> one_round \<Rightarrow> cache \<Rightarrow> int \<times> one_round \<times> cache \<Rightarrow> bool" where
  "search_post cf bf R N n r c = (\<lambda>(sc, r', c').
     verdict cf bf R N n c c' (mate (flag cf) bf n (curBoard r))
       (rmate (flag cf) bf n (prev_of r) (curBoard r)) sc \<and>
     (sc = CHECKMATE \<longrightarrow> maxStepState r' \<noteq> None))"

definition same_round :: "one_round \<Rightarrow> one_round \<Rightarrow> bool" where
  "same_round r r' \<longleftrightarrow>
     curBoard r' = curBoard r \<and> blackFirst r' = blackFirst r \<and> maxStepPieces r' = maxStepPieces r \<and>
     minStepPieces r' = minStepPieces r \<and> ancestors r' = ancestors r \<and>
     maxStepState r' = maxStepState r \<and> isMinChecked r' = isMinChecked r"

lemma same_round_refl [simp]: "same_round r r"
  by (simp add: same_round_def)

lemma same_round_trans: "same_round r r' \<Longrightarrow> same_round r' r'' \<Longrightarrow> same_round r r''"
  by (simp add: same_round_def)

text \<open>
  What the loops of \<open>expandMinStep\<close> have established when they have gone through the legal
  replies \<open>L\<close>: all of them lead to a mate, or one does not and its score is returned.
\<close>

definition replies_done ::
  "config \<Rightarrow> bool \<Rightarrow> (board \<Rightarrow> bool) \<Rightarrow> nat \<Rightarrow> nat \<Rightarrow> board \<Rightarrow> one_round \<Rightarrow> cache \<Rightarrow> bool \<Rightarrow> move set \<Rightarrow>
    int option \<times> min_state \<Rightarrow> bool" where
  "replies_done cf bf R N n s r c hasNext L = (\<lambda>(ret, aux, hn, r', c').
     aux = s \<and> same_round r r' \<and> min_sound cf bf R N c' \<and> keeps (Suc n) c c' \<and>
     (quiet cf (Suc n) c \<longrightarrow> quiet cf (Suc n) c') \<and>
     (case ret of
        None \<Rightarrow> hn = (hasNext \<or> L \<noteq> {}) \<and> (\<forall>m \<in> L. mate (flag cf) bf n (after m s)) \<and>
          (quiet cf (Suc n) c \<longrightarrow> (\<forall>m \<in> L. rmate (flag cf) bf n (Some (curBoard r, s)) (after m s)))
      | Some res \<Rightarrow> res < CHECKMATE \<and>
          (quiet cf (Suc n) c \<longrightarrow> (\<exists>m \<in> L. \<not> rmate (flag cf) bf n (Some (curBoard r, s)) (after m s)))))"

lemma replies_none:
  assumes "min_sound cf bf R N c"
  shows "replies_done cf bf R N n s r c hasNext {} (None, s, hasNext, r, c)"
  using assms by (simp add: replies_done_def)

lemma replies_return:
  assumes "replies_done cf bf R N n s r c hasNext L (Some res, st)" "L \<subseteq> L'"
  shows "replies_done cf bf R N n s r c hasNext L' (Some res, st)"
  using assms by (cases st) (auto simp: replies_done_def)

lemma replies_seq:
  assumes "replies_done cf bf R N n s r c hasNext L (None, aux, hn, r1, c1)"
    and "replies_done cf bf R N n s r1 c1 hn L' (ret, st)"
  shows "replies_done cf bf R N n s r c hasNext (L \<union> L') (ret, st)"
proof -
  have r1: "same_round r r1" "curBoard r1 = curBoard r"
    using assms(1) by (auto simp: replies_done_def same_round_def)
  obtain aux' hn' r2 c2 where st: "st = (aux', hn', r2, c2)" by (cases st)
  have "same_round r r2" "keeps (Suc n) c c2"
    using assms same_round_trans keeps_trans unfolding replies_done_def st by blast+
  then show ?thesis
    using assms r1(2) unfolding replies_done_def st by (cases ret) auto
qed

definition base_same :: "one_round \<Rightarrow> one_round \<Rightarrow> bool" where
  "base_same r r' \<longleftrightarrow>
     curBoard r' = curBoard r \<and> blackFirst r' = blackFirst r \<and> maxStepPieces r' = maxStepPieces r \<and>
     minStepPieces r' = minStepPieces r \<and> ancestors r' = ancestors r"

text \<open>After the max move \<open>m\<close> the other side is lost within \<open>n\<close> more levels.\<close>

definition winning :: "flags \<Rightarrow> bool \<Rightarrow> nat \<Rightarrow> board \<Rightarrow> move \<Rightarrow> bool" where
  "winning fg c n b m \<longleftrightarrow>
     (isChecked (after m b) (\<not> c) \<or> (\<exists>m'. legal fg (\<not> c) (after m b) m')) \<and>
     (\<forall>m'. legal fg (\<not> c) (after m b) m' \<longrightarrow> mate fg c n (after m' (after m b)))"

definition rwinning :: "flags \<Rightarrow> bool \<Rightarrow> nat \<Rightarrow> board \<Rightarrow> move \<Rightarrow> bool" where
  "rwinning fg c n b m \<longleftrightarrow>
     (isChecked (after m b) (\<not> c) \<or> (\<exists>m'. legal fg (\<not> c) (after m b) m')) \<and>
     (\<forall>m'. legal fg (\<not> c) (after m b) m' \<longrightarrow>
        rmate fg c n (Some (b, after m b)) (after m' (after m b)))"

lemma mate_winning:
  "mate fg c (Suc n) b \<longleftrightarrow> (\<exists>m. legal fg c b m \<and> winning fg c n b m)"
  "rmate fg c (Suc n) prev b \<longleftrightarrow> (\<exists>m. legal fg c b m \<and> \<not> circular prev b m \<and> rwinning fg c n b m)"
  by (auto simp: winning_def rwinning_def)

lemma verdict_seq:
  assumes "verdict cf bf R N k c c1 F E sc" "sc \<noteq> CHECKMATE" "verdict cf bf R N k c1 c2 F' E' sc'"
    and "F' \<Longrightarrow> F''" "quiet cf k c \<Longrightarrow> E'' \<longleftrightarrow> E \<or> E'"
  shows "verdict cf bf R N k c c2 F'' E'' sc'"
  using assms keeps_trans by (auto simp: verdict_def)

subsection \<open>Steps of the loops\<close>

text \<open>What the loops over the replies know of the round, which every reply keeps.\<close>

definition reply_ready :: "bool \<Rightarrow> board \<Rightarrow> one_round \<Rightarrow> bool" where
  "reply_ready bf s r \<longleftrightarrow> blackFirst r = bf \<and> maxStepState r = Some s \<and> view_ok r (\<not> bf) s \<and>
     isMinChecked r = isChecked s (\<not> bf)"

lemma reply_ready_same: "same_round r r1 \<Longrightarrow> reply_ready bf s r \<Longrightarrow> reply_ready bf s r1"
  by (auto simp: reply_ready_def same_round_def view_ok_def opp_list_def)

lemma replies_continue:
  assumes "replies_done cf bf R N n s r c hasNext H (None, aux, hn, r1, c1)"
    and "returns E (replies_done cf bf R N n s r1 c1 hn L) x"
  shows "returns E (replies_done cf bf R N n s r c hasNext (H \<union> L)) x"
  by (rule returns_mono [OF assms(2)]) (use replies_seq [OF assms(1)] in auto)

lemma one_reply_then:
  assumes one: "returns E (\<lambda>(sc, r', c'). same_round r r' \<and> verdict cf bf R N (Suc n) c c'
      (mate (flag cf) bf n (after m s)) (rmate (flag cf) bf n (Some (curBoard r, s)) (after m s)) sc) x"
    and cont: "\<And>r1 c1. same_round r r1 \<Longrightarrow> min_sound cf bf R N c1 \<Longrightarrow>
      returns E (replies_done cf bf R N n s r1 c1 True L) (k r1 c1)"
  shows "returns E (replies_done cf bf R N n s r c hasNext ({m} \<union> L)) (rbind x (\<lambda>(res, r, c).
      if res < CHECKMATE then Inr (Some res, s, True, r, c) else k r c))"
proof (rule returns_rbind [OF one])
  fix y :: "int \<times> one_round \<times> cache"
  assume y: "case y of (sc, r', c') \<Rightarrow> same_round r r' \<and> verdict cf bf R N (Suc n) c c'
    (mate (flag cf) bf n (after m s)) (rmate (flag cf) bf n (Some (curBoard r, s)) (after m s)) sc"
  obtain sc r1 c1 where yy: "y = (sc, r1, c1)" by (cases y)
  have v: "same_round r r1" "min_sound cf bf R N c1" "keeps (Suc n) c c1" "sc \<le> CHECKMATE"
    "sc = CHECKMATE \<Longrightarrow> mate (flag cf) bf n (after m s)"
    "quiet cf (Suc n) c \<Longrightarrow> quiet cf (Suc n) c1 \<and>
      (sc = CHECKMATE \<longleftrightarrow> rmate (flag cf) bf n (Some (curBoard r, s)) (after m s))"
    using y by (auto simp: yy verdict_def)
  show "returns E (replies_done cf bf R N n s r c hasNext ({m} \<union> L))
    (case y of (res, r, c) \<Rightarrow> if res < CHECKMATE then Inr (Some res, s, True, r, c) else k r c)"
  proof (cases "sc < CHECKMATE")
    case True
    then show ?thesis using v by (auto simp: yy replies_done_def)
  next
    case False
    then have sc: "sc = CHECKMATE" using v(4) by simp
    then have "replies_done cf bf R N n s r c hasNext {m} (None, s, True, r1, c1)"
      using v by (auto simp: replies_done_def)
    from replies_continue [OF this cont [OF v(1,2)]] show ?thesis using sc by (simp add: yy)
  qed
qed

lemma replies_then:
  assumes head: "returns E (replies_done cf bf R N n s r c hasNext H) x"
    and cont: "\<And>hn r1 c1. same_round r r1 \<Longrightarrow> min_sound cf bf R N c1 \<Longrightarrow>
      returns E (replies_done cf bf R N n s r1 c1 hn L) (k (s, hn, r1, c1))"
  shows "returns E (replies_done cf bf R N n s r c hasNext (H \<union> L)) (rbind x (\<lambda>(ret, st).
      case ret of Some res \<Rightarrow> Inr (Some res, st) | None \<Rightarrow> k st))"
proof (rule returns_rbind [OF head])
  fix y :: "int option \<times> min_state"
  assume y: "replies_done cf bf R N n s r c hasNext H y"
  obtain ret aux hn r1 c1 where yy: "y = (ret, aux, hn, r1, c1)" by (cases y)
  show "returns E (replies_done cf bf R N n s r c hasNext (H \<union> L))
    (case y of (ret, st) \<Rightarrow> case ret of Some res \<Rightarrow> Inr (Some res, st) | None \<Rightarrow> k st)"
  proof (cases ret)
    case (Some res)
    then show ?thesis using y replies_return [of cf bf R N n s r c hasNext H res] by (simp add: yy)
  next
    case None
    have v: "aux = s" "same_round r r1" "min_sound cf bf R N c1"
      using y by (auto simp: yy None replies_done_def)
    from replies_continue [OF y [unfolded yy None] cont [OF v(2,3)]] show ?thesis
      by (simp add: yy None v(1))
  qed
qed

text \<open>The verdict on the max move once its replies are done.\<close>

lemma replies_verdict:
  assumes y: "replies_done cf bf R N n (after m b) r c False {m'. legal (flag cf) (\<not> bf) (after m b) m'} y"
    and r: "curBoard r = b" "isMinChecked r = isChecked (after m b) (\<not> bf)"
  shows "returns E (\<lambda>(sc, r', c'). same_round r r' \<and>
      verdict cf bf R N (Suc n) c c' (winning (flag cf) bf n b m) (rwinning (flag cf) bf n b m) sc)
    (case y of (ret, aux, hasNext, r, c) \<Rightarrow> case ret of Some res \<Rightarrow> Inr (res, r, c)
     | None \<Rightarrow> Inr (if isMinChecked r \<or> hasNext then CHECKMATE else STALLMATE, r, c))"
proof -
  let ?L = "{m'. legal (flag cf) (\<not> bf) (after m b) m'}"
  obtain ret aux hn r1 c1 where yy: "y = (ret, aux, hn, r1, c1)" by (cases y)
  have v: "same_round r r1" "min_sound cf bf R N c1" "keeps (Suc n) c c1"
    "quiet cf (Suc n) c \<Longrightarrow> quiet cf (Suc n) c1"
    using y by (auto simp: yy replies_done_def)
  have r1: "isMinChecked r1 = isChecked (after m b) (\<not> bf)" using v(1) r by (simp add: same_round_def)
  show ?thesis
  proof (cases ret)
    case (Some res)
    then have "res < CHECKMATE" "quiet cf (Suc n) c \<Longrightarrow> \<not> rwinning (flag cf) bf n b m"
      using y by (auto simp: yy replies_done_def rwinning_def r)
    then show ?thesis using v r1 by (auto simp: yy Some verdict_def)
  next
    case None
    then have "hn = (?L \<noteq> {})" "\<forall>m' \<in> ?L. mate (flag cf) bf n (after m' (after m b))"
      "quiet cf (Suc n) c \<Longrightarrow> \<forall>m' \<in> ?L. rmate (flag cf) bf n (Some (b, after m b)) (after m' (after m b))"
      using y by (simp_all add: yy replies_done_def r)
    then show ?thesis using v r1 unfolding yy None verdict_def winning_def rwinning_def by auto
  qed
qed

text \<open>One move of the max step, and the loop after it.\<close>

lemma one_move_then:
  assumes one: "returns E (\<lambda>(sc, r', c'). base_same r r' \<and> maxStepState r' \<noteq> None \<and>
      verdict cf bf R N k c c' F X sc) x"
    and cont: "\<And>r1 c1. base_same r r1 \<Longrightarrow> min_sound cf bf R N c1 \<Longrightarrow>
      returns E (\<lambda>(sc, r', c'). (sc = CHECKMATE \<longrightarrow> maxStepState r' \<noteq> None) \<and>
        verdict cf bf R N k c1 c' F' X' sc) (loop r1 c1)"
  shows "returns E (\<lambda>(sc, r', c'). (sc = CHECKMATE \<longrightarrow> maxStepState r' \<noteq> None) \<and>
      verdict cf bf R N k c c' (F \<or> F') (X \<or> X') sc)
    (rbind x (\<lambda>(sc, r, c). if sc = CHECKMATE then Inr (CHECKMATE, r, c) else loop r c))"
proof (rule returns_rbind [OF one])
  fix y :: "int \<times> one_round \<times> cache"
  let ?Q = "\<lambda>(sc, r', c'). (sc = CHECKMATE \<longrightarrow> maxStepState r' \<noteq> None) \<and>
      verdict cf bf R N k c c' (F \<or> F') (X \<or> X') sc"
  assume y: "case y of (sc, r', c') \<Rightarrow> base_same r r' \<and> maxStepState r' \<noteq> None \<and> verdict cf bf R N k c c' F X sc"
  obtain sc r1 c1 where yy: "y = (sc, r1, c1)" by (cases y)
  have v: "base_same r r1" "maxStepState r1 \<noteq> None" "min_sound cf bf R N c1" "verdict cf bf R N k c c1 F X sc"
    using y by (auto simp: yy verdict_def)
  show "returns E ?Q (case y of (sc, r, c) \<Rightarrow> if sc = CHECKMATE then Inr (CHECKMATE, r, c) else loop r c)"
  proof (cases "sc = CHECKMATE")
    case True
    then show ?thesis using v by (auto simp: yy verdict_def)
  next
    case False
    have "returns E ?Q (loop r1 c1)"
      by (rule returns_mono [OF cont [OF v(1,3)]]) (use verdict_seq [OF v(4) False] in auto)
    then show ?thesis using False by (simp add: yy)
  qed
qed

text \<open>The score of a reply's board goes into the cache.\<close>

definition store_min :: "config \<Rightarrow> nat \<Rightarrow> sig \<Rightarrow> int \<Rightarrow> cache \<Rightarrow> cache" where
  "store_min cf n sg sc c =
     (if int (Suc n) \<ge> min_store_level (flag cf)
      then updateMinCache (min_store_level (flag cf)) sg (int (Suc n)) sc c else c)"

lemma stored_verdict:
  assumes env: "search_env cf bf R N" "Suc n \<le> N" "R nxt" and sg: "sg = Board_hash (plat cf) nxt"
    and miss: "getScoreFromMinCache c sg (int (Suc n)) = None"
    and post: "verdict cf bf R N n c c1 (mate (flag cf) bf n nxt) ex sc"
  shows "verdict cf bf R N (Suc n) c (store_min cf n sg sc c1) (mate (flag cf) bf n nxt) ex sc"
proof -
  have v: "min_sound cf bf R N c1" "keeps n c c1" "sc \<le> CHECKMATE" "sc = CHECKMATE \<Longrightarrow> mate (flag cf) bf n nxt"
    "quiet cf n c \<Longrightarrow> quiet cf n c1 \<and> (sc = CHECKMATE \<longleftrightarrow> ex)"
    using post by (auto simp: verdict_def)
  have "getScoreFromMinCache c1 sg (int (Suc n)) \<noteq> Some NONE"
    using v(2) miss by (auto simp: keeps_def)
  then have "min_sound cf bf R N (store_min cf n sg sc c1)"
    using updateMin_sound [OF env(1) v(1) _ env(2,3) sg _ v(3,4)] v(1) by (simp add: store_min_def)
  moreover have "keeps (Suc n) c (store_min cf n sg sc c1)"
    using keeps_mono [OF v(2), of "Suc n"]
      keeps_trans [of "Suc n" c c1, OF _ updateMin_keeps [of "min_store_level (flag cf)" n c1 sg sc]]
    by (simp add: store_min_def)
  moreover have "quiet cf (Suc n) (store_min cf n sg sc c1) \<and> quiet cf n c" if "quiet cf (Suc n) c"
    using that v(5) by (auto simp: quiet_def store_min_def)
  ultimately show ?thesis using v(3-5) by (auto simp: verdict_def)
qed

lemma cached_verdict:
  assumes n: "Suc n \<le> N" and nxt: "R nxt" and snd: "min_sound cf bf R N c"
    and hit: "getScoreFromMinCache c (Board_hash (plat cf) nxt) (int (Suc n)) = Some sc"
  shows "returns E (\<lambda>(sc, sol, c'). verdict cf bf R N (Suc n) c c' (mate (flag cf) bf n nxt) ex sc)
    (minBoard_score cf rec (int (Suc n)) nxt r c)"
proof -
  let ?sg = "Board_hash (plat cf) nxt"
  have sc: "sc = CHECKMATE \<or> sc = NONE"
    using hit by (auto simp: getMin_read read_entry_def split: option.splits if_splits)
  have quiet: "\<not> quiet cf (Suc n) c"
    using hit quiet_get [of cf "Suc n" c ?sg "int (Suc n)"] by auto
  have mate: "mate (flag cf) bf n nxt" if "sc = CHECKMATE"
    using min_soundD [OF snd n nxt] hit that by simp
  obtain sol c1 where sol: "getSolution ?sg c = (sol, c1)" by fastforce
  then have "sigs c1 = sigs c" using addSolutionNode_sigs(3) [of ?sg c] by simp
  then show ?thesis
    using hit sc quiet mate snd sol sigs_cong [of c1 c]
    by (auto simp: minBoard_score_def verdict_def Let_def)
qed

lemma child_round_fresh:
  assumes "blackFirst r = bf" "maxStepState r = Some s"
  obtains child where "child_round cf r nxt = Inr child" "fresh child" "curBoard child = nxt"
    "blackFirst child = bf" "ancestors child = (curBoard r, Some s) # ancestors r"
  using new_OneRound_eq [of "garbage_piece cf" "garbage_flags cf" "garbage_count cf" nxt bf "level r + 1"
      "(curBoard r, Some s) # ancestors r"] assms
  by (auto simp: child_round_def)

lemma opponent_was_there:
  assumes ok: "search_ok bf b" and ps: "pseudo fg bf b m"
    and p: "on_board (after m b) p" "isBlack (type p) = (\<not> bf)"
  shows "on_board b p"
proof -
  have wf: "wf_board b" using ok by (simp add: search_ok_def game_ok_def board_ok_def)
  show ?thesis
    using opponent_stays(1) [OF wf pseudoD(1) [OF ok ps], of p] pseudoD(4) [OF ok ps] p
    by (simp add: on_board_def)
qed

section \<open>One level over the next\<close>

locale child_search =
  fixes cf :: config and bf :: bool and R :: "board \<Rightarrow> bool" and N n :: nat and E :: "fatal set" and rec :: search
  assumes errors: "0 < n \<Longrightarrow> forest_full \<subseteq> E"
    and contract: "search_env cf bf R N \<Longrightarrow> 0 < n \<Longrightarrow> n \<le> N \<Longrightarrow> search_pre cf bf R N r c \<Longrightarrow>
    returns E (search_post cf bf R N n r c) (rec r c)"
begin

text \<open>A reply's board, scored from the cache or by a child round.\<close>

lemma minBoard_score_ok:
  assumes env: "search_env cf bf R N" and n: "0 < n" "Suc n \<le> N"
    and r: "blackFirst r = bf" "maxStepState r = Some s" and nxt: "R nxt" and snd: "min_sound cf bf R N c"
  shows "returns E (\<lambda>(sc, sol, c'). verdict cf bf R N (Suc n) c c' (mate (flag cf) bf n nxt)
      (rmate (flag cf) bf n (Some (curBoard r, s)) nxt) sc)
    (minBoard_score cf rec (int (Suc n)) nxt r c)"
proof (cases "getScoreFromMinCache c (Board_hash (plat cf) nxt) (int (Suc n))")
  case (Some sc)
  then show ?thesis by (rule cached_verdict [OF n(2) nxt snd])
next
  case None
  define sg where "sg = Board_hash (plat cf) nxt"
  let ?Q = "\<lambda>(sc, sol, c'). verdict cf bf R N (Suc n) c c' (mate (flag cf) bf n nxt)
      (rmate (flag cf) bf n (Some (curBoard r, s)) nxt) sc"
  obtain child where child: "child_round cf r nxt = Inr child" and ch: "fresh child" "curBoard child = nxt"
    "blackFirst child = bf" "ancestors child = (curBoard r, Some s) # ancestors r"
    by (rule child_round_fresh [OF r])
  have pre: "search_pre cf bf R N child c" using ch nxt snd by (auto simp: search_pre_def)
  have prev: "prev_of child = Some (curBoard r, s)" by (simp add: prev_of_def ch)
  show ?thesis
    unfolding minBoard_score_def sg_def [symmetric] Let_def None [folded sg_def] option.case child rbind.simps
  proof (rule returns_rbind [OF contract [OF env n(1) _ pre]])
    show "n \<le> N" using n by simp
    fix y assume y: "search_post cf bf R N n child c y"
    obtain sc child' c1 where yy: "y = (sc, child', c1)" by (cases y)
    have st: "maxStepState child' \<noteq> None" if "sc = CHECKMATE"
      using y that by (simp add: yy search_post_def)
    have v: "?Q (sc, sol, store_min cf n sg sc c1)" for sol
      using stored_verdict [OF env n(2) nxt sg_def None [folded sg_def]] y
      by (simp add: yy search_post_def ch(2) prev)
    have "returns E ?Q (rbind (storeSolution child' sg (store_min cf n sg sc c1)) (\<lambda>(sol, c). Inr (sc, sol, c)))"
      if "sc = CHECKMATE"
      by (rule returns_rbind [OF storeSolution_returns [OF errors [OF n(1)] st [OF that]]])
        (use verdict_sigs [OF _ v [unfolded prod.case]] in \<open>auto split: prod.splits\<close>)
    with v st show "returns E ?Q (case y of (sc, child, c) \<Rightarrow> if sc = CHECKMATE
        then rbind (CHECK (maxStepState child \<noteq> None) NoMaxState) (\<lambda>_.
          rbind (storeSolution child sg (if int (Suc n) \<ge> min_store_level (flag cf)
            then updateMinCache (min_store_level (flag cf)) sg (int (Suc n)) sc c else c))
            (\<lambda>(sol, c). Inr (sc, sol, c)))
        else Inr (sc, NULL_INDEX, if int (Suc n) \<ge> min_store_level (flag cf)
          then updateMinCache (min_store_level (flag cf)) sg (int (Suc n)) sc c else c))"
      by (auto simp: yy store_min_def)
  qed
qed

lemma handle_ok:
  assumes env: "search_env cf bf R N" and n: "Suc n \<le> N"
    and r: "blackFirst r = bf" "maxStepState r = Some s" and nxt: "R nxt" and snd: "min_sound cf bf R N c"
  shows "returns E (\<lambda>(sc, r', c'). same_round r r' \<and> verdict cf bf R N (Suc n) c c'
      (mate (flag cf) bf n nxt) (rmate (flag cf) bf n (Some (curBoard r, s)) nxt) sc)
    (handleMinStepBoard cf rec (int (Suc n)) nxt r c)"
proof (cases "n = 0")
  case True
  then show ?thesis using snd by (simp add: handleMinStepBoard_def verdict_def same_round_def)
next
  case False
  then have pos: "0 < n" and gt: "int (Suc n) > 1" by auto
  let ?Q = "\<lambda>(sc, r', c'). same_round r r' \<and> verdict cf bf R N (Suc n) c c'
      (mate (flag cf) bf n nxt) (rmate (flag cf) bf n (Some (curBoard r, s)) nxt) sc"
  have inner: "returns E ?Q (rbind (minBoard_score cf rec (int (Suc n)) nxt r c) (\<lambda>(sc, sol, c).
      let c = c\<lparr>gNumMinStatesExpanded := gNumMinStatesExpanded c + 1\<rparr>
      in if sc = CHECKMATE then
           rbind (CHECK (sol \<noteq> NULL_INDEX) NoSolution) (\<lambda>_.
             Inr (sc, r\<lparr>minStepSolutionTrees := minStepSolutionTrees r @ [sol]\<rparr>, c))
         else Inr (sc, r, c)))"
  proof (rule returns_rbind [OF minBoard_score_ok [OF env pos n r nxt snd]])
    fix y :: "int \<times> index \<times> cache"
    assume y: "case y of (sc, sol, c') \<Rightarrow> verdict cf bf R N (Suc n) c c' (mate (flag cf) bf n nxt)
      (rmate (flag cf) bf n (Some (curBoard r, s)) nxt) sc"
    obtain sc sol c1 where yy: "y = (sc, sol, c1)" by (cases y)
    define c2 where "c2 = c1\<lparr>gNumMinStatesExpanded := gNumMinStatesExpanded c1 + 1\<rparr>"
    have "sigs c2 = sigs c1" by (simp add: c2_def)
    then have v: "verdict cf bf R N (Suc n) c c2 (mate (flag cf) bf n nxt)
      (rmate (flag cf) bf n (Some (curBoard r, s)) nxt) sc"
      using y verdict_sigs unfolding yy by auto
    show "returns E ?Q (case y of (sc, sol, c) \<Rightarrow>
        let c = c\<lparr>gNumMinStatesExpanded := gNumMinStatesExpanded c + 1\<rparr>
        in if sc = CHECKMATE then
             rbind (CHECK (sol \<noteq> NULL_INDEX) NoSolution) (\<lambda>_.
               Inr (sc, r\<lparr>minStepSolutionTrees := minStepSolutionTrees r @ [sol]\<rparr>, c))
           else Inr (sc, r, c))"
      using v unfolding yy Let_def prod.case c2_def [symmetric]
      using errors [OF pos] by (cases "sol = NULL_INDEX") (auto simp: returns_def same_round_def forest_full_def)
  qed
  show ?thesis
    unfolding handleMinStepBoard_def if_P [OF gt]
    by (rule returns_rbind [OF inner]) (auto simp: same_round_def)
qed

lemma makeOneMinMove_ok:
  assumes env: "search_env cf bf R N" and n: "Suc n \<le> N"
    and r: "blackFirst r = bf" "maxStepState r = Some s" and snd: "min_sound cf bf R N c"
    and m: "search_ok (\<not> bf) s" "legal (flag cf) (\<not> bf) s m" "R (after m s)"
  shows "returns E (\<lambda>(sc, r', c'). same_round r r' \<and> verdict cf bf R N (Suc n) c c'
      (mate (flag cf) bf n (after m s)) (rmate (flag cf) bf n (Some (curBoard r, s)) (after m s)) sc)
    (makeOneMinMove cf rec (int (Suc n)) m r c)"
proof -
  have "makeMove s m = Inr (after m s)"
    using pseudoD(6) [OF m(1)] m(2) by (auto simp: legal_def)
  then show ?thesis
    using handle_ok [OF env n r m(3) snd] r(2) by (simp add: makeOneMinMove_def deref_def)
qed

lemma min_moves_ok:
  assumes env: "search_env cf bf R N" and n: "Suc n \<le> N"
    and s: "search_ok (\<not> bf) s" "\<And>m. legal (flag cf) (\<not> bf) s m \<Longrightarrow> R (after m s)"
    and p: "on_board s p" "isBlack (type p) = (\<not> bf)" "set ms \<subseteq> set (getMoves (flag cf) p s)"
    and r: "reply_ready bf s r" and snd: "min_sound cf bf R N c"
  shows "returns E (replies_done cf bf R N n s r c hasNext {m \<in> set ms. \<not> isChecked (after m s) (\<not> bf)})
    (min_moves cf rec (int (Suc n)) p ms (s, hasNext, r, c))"
  using p(3) r snd
proof (induction ms arbitrary: r c hasNext)
  case Nil
  then show ?case using replies_none by simp
next
  case (Cons m ms)
  let ?L = "\<lambda>ms. {m \<in> set ms. \<not> isChecked (after m s) (\<not> bf)}"
  have m: "m \<in> set (getMoves (flag cf) p s)" and ms: "set ms \<subseteq> set (getMoves (flag cf) p s)"
    using Cons.prems(1) by auto
  have ready: "blackFirst r = bf" "maxStepState r = Some s" "view_ok r (\<not> bf) s"
    "isMinChecked r = isChecked s (\<not> bf)"
    using Cons.prems(2) by (simp_all add: reply_ready_def)
  have can: "canMove r p m (isMinChecked r) s = Inr (\<not> isChecked (after m s) (\<not> bf), s)"
    unfolding ready(4) by (rule canMove_iff [OF s(1) p(1,2) m ready(3)])
  show ?case
  proof (cases "isChecked (after m s) (\<not> bf)")
    case True
    then have "?L (m # ms) = ?L ms" by auto
    with Cons.IH [OF ms Cons.prems(2,3)] can True show ?thesis by simp
  next
    case False
    then have L: "?L (m # ms) = {m} \<union> ?L ms" by auto
    have leg: "legal (flag cf) (\<not> bf) s m"
      using False p(1,2) m by (auto simp: legal_def pseudo_def)
    have eq: "min_moves cf rec (int (Suc n)) p (m # ms) (s, hasNext, r, c) =
        rbind (makeOneMinMove cf rec (int (Suc n)) m r c) (\<lambda>(res, r, c).
          if res < CHECKMATE then Inr (Some res, s, True, r, c)
          else min_moves cf rec (int (Suc n)) p ms (s, True, r, c))"
      using can False by (simp del: of_nat_Suc)
    show ?thesis
      unfolding L eq
      by (rule one_reply_then [OF makeOneMinMove_ok [OF env n ready(1,2) Cons.prems(3) s(1) leg s(2) [OF leg]]])
         (rule Cons.IH [OF ms reply_ready_same [OF _ Cons.prems(2)]])
  qed
qed

lemma min_pieces_ok:
  assumes env: "search_env cf bf R N" and n: "Suc n \<le> N"
    and s: "search_ok (\<not> bf) s" "\<And>m. legal (flag cf) (\<not> bf) s m \<Longrightarrow> R (after m s)"
    and ps: "\<And>p. p \<in> set ps \<Longrightarrow> isValidPosition (position p) \<and> type p \<noteq> EMPTY \<and> isBlack (type p) = (\<not> bf)"
    and r: "reply_ready bf s r" and snd: "min_sound cf bf R N c"
  shows "returns E (replies_done cf bf R N n s r c hasNext
      {m. \<exists>p \<in> set ps. on_board s p \<and> m \<in> set (getMoves (flag cf) p s) \<and> \<not> isChecked (after m s) (\<not> bf)})
    (min_pieces cf rec (int (Suc n)) s ps (s, hasNext, r, c))"
  using ps r snd
proof (induction ps arbitrary: r c hasNext)
  case Nil
  then show ?case using replies_none by simp
next
  case (Cons p ps)
  let ?L = "\<lambda>ps. {m. \<exists>p \<in> set ps. on_board s p \<and> m \<in> set (getMoves (flag cf) p s) \<and> \<not> isChecked (after m s) (\<not> bf)}"
  have p: "isValidPosition (position p)" "type p \<noteq> EMPTY" "isBlack (type p) = (\<not> bf)"
    using Cons.prems(1) [of p] by auto
  have tl: "\<And>p. p \<in> set ps \<Longrightarrow> isValidPosition (position p) \<and> type p \<noteq> EMPTY \<and> isBlack (type p) = (\<not> bf)"
    using Cons.prems(1) by auto
  show ?case
  proof (cases "getPieceTypeAtPosition s (position p) = type p")
    case False
    then have "?L (p # ps) = ?L ps" by (auto simp: on_board_def)
    with Cons.IH [OF tl Cons.prems(2,3)] False show ?thesis by (simp del: of_nat_Suc)
  next
    case True
    then have onb: "on_board s p" using p by (simp add: on_board_def)
    then have L: "?L (p # ps) =
        {m \<in> set (getMoves (flag cf) p s). \<not> isChecked (after m s) (\<not> bf)} \<union> ?L ps" by auto
    have eq: "min_pieces cf rec (int (Suc n)) s (p # ps) (s, hasNext, r, c) =
        rbind (min_moves cf rec (int (Suc n)) p (getMoves (flag cf) p s) (s, hasNext, r, c)) (\<lambda>(ret, st).
          case ret of Some res \<Rightarrow> Inr (Some res, st)
          | None \<Rightarrow> min_pieces cf rec (int (Suc n)) s ps st)"
      using True by (simp del: of_nat_Suc)
    show ?thesis
      unfolding L eq
      by (rule replies_then [OF min_moves_ok [OF env n s onb p(3) subset_refl Cons.prems(2,3)]])
         (assumption | rule Cons.IH [OF tl reply_ready_same [OF _ Cons.prems(2)]])+
  qed
qed

lemma expandMinStep_ok:
  assumes env: "search_env cf bf R N" and n: "Suc n \<le> N"
    and r: "fresh r" "blackFirst r = bf" "R (curBoard r)"
    and m: "legal (flag cf) bf (curBoard r) m" "maxStepState r = Some (after m (curBoard r))"
      "maxMovePiece r = Board_piece (after m (curBoard r)) (to_pos m)"
    and snd: "min_sound cf bf R N c"
  shows "returns E (\<lambda>(sc, r', c'). base_same r r' \<and> maxStepState r' = maxStepState r \<and>
      verdict cf bf R N (Suc n) c c' (winning (flag cf) bf n (curBoard r) m)
        (rwinning (flag cf) bf n (curBoard r) m) sc)
    (expandMinStep cf rec (int (Suc n)) r c)"
proof -
  let ?b = "curBoard r"
  let ?s = "after m ?b"
  let ?L = "{m'. legal (flag cf) (\<not> bf) ?s m'}"
  have ok: "search_ok bf ?b" using env r(3) by (simp add: search_env_def)
  have ps: "pseudo (flag cf) bf ?b m" using m(1) by (simp add: legal_def)
  have sok: "search_ok (\<not> bf) ?s" using after_search_ok [OF ok m(1)] .
  have Rs: "R (after m' ?s)" if "legal (flag cf) (\<not> bf) ?s m'" for m'
    using env r(3) m(1) that unfolding search_env_def by blast
  have chk: "isChecking r = Inr (isChecked ?s (\<not> bf))"
    using isChecking_eq [OF r(1) _ _ m(2,3)] ok ps r(2) by blast
  define r0 where "r0 = r\<lparr>isMinChecked := isChecked ?s (\<not> bf)\<rparr>"
  have ready: "reply_ready bf ?s r0"
    using view_min [OF r(1)] ok ps r(2) m(2) by (simp add: reply_ready_def r0_def view_ok_def opp_list_def)
  have lst: "p \<in> set (minStepPieces r) \<longleftrightarrow> on_board ?b p \<and> isBlack (type p) = (\<not> bf)" for p
    using r by (simp add: fresh_def set_pieces_of)
  have L: "{m'. \<exists>p \<in> set (minStepPieces r). on_board ?s p \<and> m' \<in> set (getMoves (flag cf) p ?s) \<and>
      \<not> isChecked (after m' ?s) (\<not> bf)} = ?L"
    using opponent_was_there [OF ok ps] by (auto simp: legal_def pseudo_def lst)
  have "returns E (replies_done cf bf R N n ?s r0 c False ?L)
      (min_pieces cf rec (int (Suc n)) ?s (minStepPieces r) (?s, False, r0, c))"
    unfolding L [symmetric]
    by (rule min_pieces_ok [OF env n sok Rs _ ready snd]) (use lst in \<open>auto simp: on_board_def\<close>)
  then have "returns E (\<lambda>(sc, r', c'). same_round r0 r' \<and>
      verdict cf bf R N (Suc n) c c' (winning (flag cf) bf n ?b m) (rwinning (flag cf) bf n ?b m) sc)
    (rbind (min_pieces cf rec (int (Suc n)) ?s (minStepPieces r) (?s, False, r0, c))
      (\<lambda>(ret, aux, hasNext, r, c). case ret of Some res \<Rightarrow> Inr (res, r, c)
       | None \<Rightarrow> Inr (if isMinChecked r \<or> hasNext then CHECKMATE else STALLMATE, r, c)))"
    by (rule returns_rbind) (rule replies_verdict, auto simp: r0_def)
  moreover have "expandMinStep cf rec (int (Suc n)) r c =
      rbind (min_pieces cf rec (int (Suc n)) ?s (minStepPieces r) (?s, False, r0, c))
        (\<lambda>(ret, aux, hasNext, r, c). case ret of Some res \<Rightarrow> Inr (res, r, c)
         | None \<Rightarrow> Inr (if isMinChecked r \<or> hasNext then CHECKMATE else STALLMATE, r, c))"
    unfolding expandMinStep_def chk m(2) deref_def r0_def by simp
  ultimately show ?thesis
    by (auto simp: base_same_def same_round_def r0_def elim!: returns_mono)
qed

lemma maxMove_ok:
  assumes env: "search_env cf bf R N" and n: "Suc n \<le> N"
    and r: "fresh r" "blackFirst r = bf" "R (curBoard r)"
    and m: "legal (flag cf) bf (curBoard r) m" and snd: "min_sound cf bf R N c"
  shows "returns E (\<lambda>(sc, r', c'). base_same r r' \<and> maxStepState r' \<noteq> None \<and>
      verdict cf bf R N (Suc n) c c' (winning (flag cf) bf n (curBoard r) m)
        (rwinning (flag cf) bf n (curBoard r) m) sc)
    (maxMove_score cf rec (int (Suc n)) m r c)"
proof -
  let ?b = "curBoard r" and ?lv = "min_store_level (flag cf)"
  let ?s = "after m ?b"
  let ?Q = "\<lambda>c (sc, r', c'). base_same r r' \<and> maxStepState r' \<noteq> None \<and>
      verdict cf bf R N (Suc n) c c' (winning (flag cf) bf n ?b m) (rwinning (flag cf) bf n ?b m) sc"
  have ok: "search_ok bf ?b" using env r(3) by (simp add: search_env_def)
  have ps: "pseudo (flag cf) bf ?b m" using m by (simp add: legal_def)
  note mm = pseudoD [OF ok ps]
  define sg where "sg = Board_hash (plat cf) ?s"
  define r0 where "r0 = cleanUpForMinStep (r\<lparr>maxStepState := Some ?s, maxMovePiece := Board_piece ?s (to_pos m)\<rparr>)"
  define c0 where "c0 = c\<lparr>gNumMaxStatesExpanded := gNumMaxStatesExpanded c + 1\<rparr>"
  have c0: "sigs c0 = sigs c" by (simp add: c0_def)
  note cg = sigs_cong [OF c0]
  have r0: "base_same r r0" "fresh r0" "blackFirst r0 = bf" "R (curBoard r0)" "curBoard r0 = ?b"
    "maxStepState r0 = Some ?s" "maxMovePiece r0 = Board_piece ?s (to_pos m)"
    using r by (simp_all add: r0_def cleanUpForMinStep_def base_same_def fresh_def)
  have run: "maxMove_score cf rec (int (Suc n)) m r c =
      (case getScoreFromMaxCache c0 sg (int (Suc n)) of
         None \<Rightarrow> rbind (expandMinStep cf rec (int (Suc n)) r0 c0)
           (\<lambda>(sc, r, c). Inr (sc, r, updateMaxCache ?lv sg (int (Suc n)) sc c))
       | Some sc \<Rightarrow> if sc = CHECKMATE then expandMinStep cf rec (int (Suc n)) r0 c0 else Inr (sc, r0, c0))"
    unfolding maxMove_score_def mm(6) safePiece_eq [OF move_fitsD(2) [OF mm(1)], of ?s] rbind.simps
      Let_def r0_def c0_def sg_def by (rule refl)
  have exp: "returns E (?Q c) (expandMinStep cf rec (int (Suc n)) r0 c0)"
    using expandMinStep_ok [OF env n r0(2-4), of m c0] m r0 snd cg
    by (auto simp: verdict_def base_same_def elim!: returns_mono)
  show ?thesis
  proof (cases "getScoreFromMaxCache c0 sg (int (Suc n))")
    case None
    have "returns E (?Q c) (rbind (expandMinStep cf rec (int (Suc n)) r0 c0)
        (\<lambda>(sc, r, c). Inr (sc, r, updateMaxCache ?lv sg (int (Suc n)) sc c)))"
      by (rule returns_rbind [OF exp])
        (auto simp: verdict_def updateMax_inv updateMax_quiet simp del: of_nat_Suc)
    then show ?thesis unfolding run None option.case .
  next
    case (Some sc)
    have sc: "sc = CHECKMATE \<or> sc = NONE" and quiet: "\<not> quiet cf (Suc n) c"
      using Some cg(4) [of cf "Suc n"] quiet_get [of cf "Suc n" c0 sg "int (Suc n)"]
      by (auto simp: getScoreFromMaxCache_def getScoreFromCache_def split: option.splits if_splits)
    have "?Q c (NONE, r0, c0)"
      using r0 snd cg(1) cg(2) [of "Suc n" c] quiet by (simp add: verdict_def)
    with sc exp show ?thesis unfolding run Some option.case by auto
  qed
qed

lemma isCircularMove_eq:
  assumes "\<And>pb ps rest. ancestors r = (pb, ps) # rest \<Longrightarrow> ps \<noteq> None"
  shows "isCircularMove r m = Inr (circular (prev_of r) (curBoard r) m)"
  using assms by (auto simp: isCircularMove_def circular_def prev_of_def deref_def split: list.split option.split)

lemma max_moves_ok:
  assumes env: "search_env cf bf R N" and n: "Suc n \<le> N"
    and r: "fresh r" "blackFirst r = bf" "R (curBoard r)"
      "\<And>pb ps rest. ancestors r = (pb, ps) # rest \<Longrightarrow> ps \<noteq> None"
    and ms: "\<And>m. m \<in> set ms \<Longrightarrow> legal (flag cf) bf (curBoard r) m" and snd: "min_sound cf bf R N c"
  shows "returns E (\<lambda>(sc, r', c'). (sc = CHECKMATE \<longrightarrow> maxStepState r' \<noteq> None) \<and>
      verdict cf bf R N (Suc n) c c' (\<exists>m \<in> set ms. winning (flag cf) bf n (curBoard r) m)
        (\<exists>m \<in> set ms. \<not> circular (prev_of r) (curBoard r) m \<and> rwinning (flag cf) bf n (curBoard r) m) sc)
    (max_moves cf rec (int (Suc n)) ms r c)"
  using r ms snd
proof (induction ms arbitrary: r c)
  case Nil
  then show ?case by (simp add: verdict_def)
next
  case (Cons m ms)
  let ?b = "curBoard r"
  let ?F = "\<lambda>ms. \<exists>m \<in> set ms. winning (flag cf) bf n ?b m"
  let ?E = "\<lambda>ms. \<exists>m \<in> set ms. \<not> circular (prev_of r) ?b m \<and> rwinning (flag cf) bf n ?b m"
  let ?Q = "\<lambda>c ms (sc, r', c'). (sc = CHECKMATE \<longrightarrow> maxStepState r' \<noteq> None) \<and>
      verdict cf bf R N (Suc n) c c' (?F ms) (?E ms) sc"
  note circ = isCircularMove_eq [of r m, OF Cons.prems(4)]
  have IH: "returns E (?Q c1 ms) (max_moves cf rec (int (Suc n)) ms r1 c1)"
    if "base_same r r1" "min_sound cf bf R N c1" for r1 c1
  proof -
    have "fresh r1" "blackFirst r1 = bf" "R (curBoard r1)" "curBoard r1 = ?b" "prev_of r1 = prev_of r"
      and anc: "ancestors r1 = ancestors r"
      using that(1) Cons.prems(1-3) by (auto simp: base_same_def fresh_def prev_of_def)
    moreover have "\<And>pb ps rest. ancestors r1 = (pb, ps) # rest \<Longrightarrow> ps \<noteq> None"
      unfolding anc by (rule Cons.prems(4))
    ultimately show ?thesis using Cons.IH [of r1 c1] Cons.prems(5) that(2) by simp
  qed
  show ?case
  proof (cases "circular (prev_of r) ?b m")
    case True
    have "returns E (?Q c (m # ms)) (max_moves cf rec (int (Suc n)) ms r c)"
      by (rule returns_mono [OF IH [of r c]])
        (use Cons.prems(6) True in \<open>auto simp: verdict_def base_same_def\<close>)
    then show ?thesis using circ True by (simp del: of_nat_Suc)
  next
    case False
    have eq: "max_moves cf rec (int (Suc n)) (m # ms) r c =
        rbind (maxMove_score cf rec (int (Suc n)) m r c) (\<lambda>(sc, r, c).
          if sc = CHECKMATE then Inr (CHECKMATE, r, c) else max_moves cf rec (int (Suc n)) ms r c)"
      using circ False by (simp del: of_nat_Suc)
    have leg: "legal (flag cf) bf ?b m" using Cons.prems(5) by simp
    have F: "?F (m # ms) \<longleftrightarrow> winning (flag cf) bf n ?b m \<or> ?F ms" by simp
    have X: "?E (m # ms) \<longleftrightarrow> rwinning (flag cf) bf n ?b m \<or> ?E ms" using False by simp
    show ?thesis
      unfolding eq F X
      by (rule one_move_then [OF maxMove_ok [OF env n Cons.prems(1-3) leg Cons.prems(6)] IH])
  qed
qed

lemma expand_ok:
  assumes env: "search_env cf bf R N" and n: "Suc n \<le> N" and pre: "search_pre cf bf R N r c"
  shows "returns E (search_post cf bf R N (Suc n) r c) (expand_with cf rec (int (Suc n)) r c)"
proof -
  let ?b = "curBoard r"
  define r0 where "r0 = r\<lparr>isMaxChecked := isChecked ?b bf\<rparr>"
  have r: "fresh r" "blackFirst r = bf" "R ?b" "min_sound cf bf R N c"
    "\<And>pb ps rest. ancestors r = (pb, ps) # rest \<Longrightarrow> ps \<noteq> None"
    using pre by (auto simp: search_pre_def)
  have ok: "search_ok bf ?b" and sort: "sort_ok (plat cf)" using env r(3) by (auto simp: search_env_def)
  have r0: "fresh r0" "curBoard r0 = ?b" "blackFirst r0 = bf"
    using r by (simp_all add: r0_def fresh_def)
  obtain ms where ms: "generateAndSortMaxMoves (plat cf) (flag cf) r0 = Inr ms"
    "mset ms = mset (legal_list (flag cf) bf ?b)"
    using generate_permutation [OF r0(1) _ _ sort, of "flag cf"] ok r0 by (auto simp: r0_def)
  have leg: "m \<in> set ms \<longleftrightarrow> legal (flag cf) bf ?b m" for m
    using mset_eq_set [OF ms(2)] by (simp add: set_legal_list)
  define r1 where "r1 = r0\<lparr>numMaxMoves := int (length ms)\<rparr>"
  have r1: "fresh r1" "blackFirst r1 = bf" "R (curBoard r1)" "curBoard r1 = ?b" "prev_of r1 = prev_of r"
    and anc: "ancestors r1 = ancestors r"
    using r(1-3) r0 by (auto simp: r1_def r0_def fresh_def prev_of_def)
  have forced: "(\<exists>m \<in> set ms. winning (flag cf) bf n ?b m) \<longleftrightarrow> mate (flag cf) bf (Suc n) ?b"
    "(\<exists>m \<in> set ms. \<not> circular (prev_of r) ?b m \<and> rwinning (flag cf) bf n ?b m) \<longleftrightarrow>
      rmate (flag cf) bf (Suc n) (prev_of r) ?b"
    unfolding mate_winning using leg by blast+
  have run: "expand_with cf rec (int (Suc n)) r c = (if ms = []
      then Inr (if isChecked ?b bf then - CHECKMATE else - STALLMATE, r1, c)
      else rbind (max_moves cf rec (int (Suc n)) ms r1 c) (\<lambda>(sc, r, c). Inr (sc, cleanUp r, c)))"
    using OneRound_isChecked_eq [OF r(1)] r(2) ms(1)
    by (simp add: expand_with_def expandMaxStep_def Let_def r0_def r1_def del: of_nat_Suc)
  show ?thesis
  proof (cases "ms = []")
    case True
    then have "\<not> rmate (flag cf) bf (Suc n) (prev_of r) ?b" using forced(2) by simp
    then show ?thesis
      using r(4) unfolding run by (auto simp: True search_post_def verdict_def simp del: rmate.simps mate.simps)
  next
    case False
    have "returns E (search_post cf bf R N (Suc n) r c)
        (rbind (max_moves cf rec (int (Suc n)) ms r1 c) (\<lambda>(sc, r, c). Inr (sc, cleanUp r, c)))"
      by (rule returns_rbind [OF max_moves_ok [OF env n r1(1-3) r(5) [folded anc] _ r(4)]])
        (use leg forced r1(4,5) in \<open>auto simp: search_post_def cleanUp_def simp del: rmate.simps mate.simps\<close>)
    then show ?thesis unfolding run by (simp add: False)
  qed
qed

end

section \<open>The search meets its contract\<close>

lemma expand_levels_contract:
  assumes "0 < n \<Longrightarrow> forest_full \<subseteq> E"
  shows "child_search cf bf R N n E (expand_levels cf n)"
  using assms
proof (induction n)
  case 0
  show ?case by unfold_locales simp_all
next
  case (Suc n)
  then have IH: "child_search cf bf R N n E (expand_levels cf n)" by simp
  show ?case
  proof
    show "forest_full \<subseteq> E" using Suc.prems by simp
    fix r c
    assume "search_env cf bf R N" "0 < Suc n" "Suc n \<le> N" "search_pre cf bf R N r c"
    then show "returns E (search_post cf bf R N (Suc n) r c) (expand_levels cf (Suc n) r c)"
      using child_search.expand_ok [OF IH, of r c] by simp
  qed
qed

interpretation levels: child_search cf bf R N n forest_full "expand_levels cf n" for cf bf R N n
  by (rule expand_levels_contract) simp

interpretation last_level: child_search cf bf R N 0 "{}" "expand_levels cf 0" for cf bf R N
  by (rule expand_levels_contract) simp

end
