(* ===== verification/Board_Load.thy ===== *)
theory Board_Load
  imports Game_Inv Piece_Bank
begin

text \<open>
  \<open>Board(const string& loadFromFile)\<close> (\<open>chess/board.cc\<close>): the loader of board files, with a
  value for each of its fatal checks. A file is the bytes read from it, or \<open>None\<close> if it could
  not be opened. A board that loads satisfies the invariant of a game, and every board with
  its kings in place is what the loader makes of the list of its pieces.
\<close>

section \<open>The loader\<close>

definition kNotationToPieceType :: "char \<rightharpoonup> ptype" where
  "kNotationToPieceType = map_of
     [(CHR ''p'', W_PAWN), (CHR ''P'', B_PAWN), (CHR ''r'', W_ROOK), (CHR ''R'', B_ROOK),
      (CHR ''n'', W_KNIGHT), (CHR ''N'', B_KNIGHT), (CHR ''k'', W_KING), (CHR ''K'', B_KING),
      (CHR ''q'', W_QUEEN), (CHR ''Q'', B_QUEEN), (CHR ''b'', W_BISHOP), (CHR ''B'', B_BISHOP)]"

text \<open>
  The lines \<open>std::getline\<close> delivers: what stands before each newline, and what follows the
  last one unless nothing does.
\<close>

abbreviation (input) newline :: char where
  "newline \<equiv> CHR 0x0A"

function getlines :: "string \<Rightarrow> string list" where
  "getlines s =
     (if s = [] then []
      else takeWhile (\<lambda>ch. ch \<noteq> newline) s # getlines (drop 1 (dropWhile (\<lambda>ch. ch \<noteq> newline) s)))"
  by pat_completeness auto
termination
proof (relation "measure length", goal_cases)
  case 1
  then show ?case by simp
next
  case (2 s)
  then show ?case
    using length_dropWhile_le [of "\<lambda>ch. ch \<noteq> newline" s] by (cases s) (auto simp: less_Suc_eq_le)
qed

declare getlines.simps [simp del]

text \<open>A \<open>char\<close> as the signed number the subtraction works on.\<close>

definition char_value :: "char \<Rightarrow> int" where
  "char_value ch = i8 (of_char ch)"

definition load_line :: "string \<Rightarrow> board \<Rightarrow> board result" where
  "load_line line b =
     (if line = [] \<or> hd line = CHR ''#'' then Inr b
      else
        rbind (CHECK (length line = 3) LineSize) (\<lambda>_.
        case kNotationToPieceType (line ! 0) of
          None \<Rightarrow> Inl UnknownNotation
        | Some t \<Rightarrow>
            let col = i8 (char_value (line ! 1) - char_value (CHR ''a''));
                row = i8 (char_value (line ! 2) - char_value (CHR ''1''))
            in rbind (CHECK (row \<ge> 0 \<and> row < BOARD_SIZE) RowRange) (\<lambda>_.
               rbind (CHECK (col \<ge> 0 \<and> col < BOARD_SIZE) ColRange) (\<lambda>_.
               rbind (CHECK (isEmpty b (row, col)) SquareTaken) (\<lambda>_.
               rbind (if t = B_KING then CHECK (blackKingPosition b = (- 1, - 1)) SecondBlackKing
                      else if t = W_KING then CHECK (whiteKingPosition b = (- 1, - 1)) SecondWhiteKing
                      else Inr ()) (\<lambda>_.
                 Board_add t (row, col) b))))))"

definition load_Board :: "(int \<Rightarrow> ptype) \<Rightarrow> string option \<Rightarrow> board result" where
  "load_Board out file =
     (case file of
        None \<Rightarrow> Inl LoadFailed
      | Some content \<Rightarrow>
          rbind (rfold load_line (getlines content) (empty_board out)) (\<lambda>b.
          rbind (CHECK (blackKingPosition b \<noteq> (- 1, - 1)) NoBlackKing) (\<lambda>_.
          rbind (CHECK (whiteKingPosition b \<noteq> (- 1, - 1)) NoWhiteKing) (\<lambda>_. Inr b))))"

section \<open>Loaded boards\<close>

definition load_inv :: "board \<Rightarrow> bool" where
  "load_inv b \<longleftrightarrow>
     wf_board b \<and> lastMove b = default_move \<and> score b = NONE \<and>
     (blackKingPosition b = (- 1, - 1) \<or> isValidPosition (blackKingPosition b)) \<and>
     (whiteKingPosition b = (- 1, - 1) \<or> isValidPosition (whiteKingPosition b)) \<and>
     (\<forall>p. isValidPosition p \<longrightarrow>
        (getPieceTypeAtPosition b p = B_KING \<longleftrightarrow> p = blackKingPosition b) \<and>
        (getPieceTypeAtPosition b p = W_KING \<longleftrightarrow> p = whiteKingPosition b))"

lemma empty_board_get: "isValidPosition p \<Longrightarrow> getPieceTypeAtPosition (empty_board out) p = EMPTY"
  using cell_index_range [of p] by (simp add: get_valid empty_board_def nat_less_iff)

lemma load_inv_empty: "load_inv (empty_board out)"
proof -
  have "p \<noteq> (- 1, - 1)" if "isValidPosition p" for p
    using that by (cases p) auto
  then show ?thesis
    using empty_board_get [of _ out] by (simp add: load_inv_def empty_board_def wf_board_def del: split_paired_All)
qed

lemma load_inv_set:
  assumes "load_inv b" "isValidPosition p" "getPieceTypeAtPosition b p = EMPTY"
    and "t = B_KING \<Longrightarrow> blackKingPosition b = (- 1, - 1)"
    and "t = W_KING \<Longrightarrow> whiteKingPosition b = (- 1, - 1)"
  shows "load_inv (Board_set t p b)"
proof -
  have not_p: "q \<noteq> (- 1, - 1)" if "isValidPosition q" for q
    using that by (cases q) auto
  have "(getPieceTypeAtPosition (Board_set t p b) q = B_KING \<longleftrightarrow> q = blackKingPosition (Board_set t p b)) \<and>
    (getPieceTypeAtPosition (Board_set t p b) q = W_KING \<longleftrightarrow> q = whiteKingPosition (Board_set t p b))"
    if q: "isValidPosition q" for q
  proof -
    have "(getPieceTypeAtPosition b x = B_KING \<longleftrightarrow> x = blackKingPosition b) \<and>
        (getPieceTypeAtPosition b x = W_KING \<longleftrightarrow> x = whiteKingPosition b)" if "isValidPosition x" for x
      using assms(1) that unfolding load_inv_def by blast
    from this [OF q] this [OF assms(2)] show ?thesis
      using assms q not_p [OF q] not_p [OF assms(2)]
      by (auto simp: board_simps load_inv_def simp del: split_paired_All)
  qed
  then show ?thesis
    using assms unfolding load_inv_def by (auto simp: board_simps simp del: split_paired_All)
qed

lemma load_line_inv:
  assumes "load_inv b" "load_line line b = Inr b'"
  shows "load_inv b'"
  using assms
  by (auto simp: load_line_def Let_def rbind_Inr_iff Board_add_def isEmpty_def intro!: load_inv_set
      split: if_splits option.splits)

lemma load_game_ok:
  assumes "load_Board out (Some content) = Inr b"
  shows "game_ok b"
proof -
  have inv: "load_inv b" and kings: "blackKingPosition b \<noteq> (- 1, - 1)" "whiteKingPosition b \<noteq> (- 1, - 1)"
    using assms rfold_invariant [of load_line "getlines content" "empty_board out" b load_inv]
      load_inv_empty load_line_inv
    by (auto simp: load_Board_def rbind_Inr_iff)
  then have "board_ok b"
    by (auto simp: board_ok_def load_inv_def kings_ok_iff simp del: split_paired_All)
  moreover have "last_ok b"
    using inv by (simp add: last_ok_def double_step_ok_def load_inv_def default_move_def)
  ultimately show ?thesis by (simp add: game_ok_def)
qed

section \<open>Round trip\<close>

text \<open>The file that lists the pieces of a board, one line each.\<close>

definition piece_squares :: "board \<Rightarrow> position list" where
  "piece_squares b = filter (\<lambda>p. \<not> isEmpty b p) all_positions"

definition board_file :: "board \<Rightarrow> string" where
  "board_file b =
     concat (map (\<lambda>p. printPiece (getPieceTypeAtPosition b p) p @ [newline]) (piece_squares b))"

lemma getlines_line: "newline \<notin> set l \<Longrightarrow> getlines (l @ newline # rest) = l # getlines rest"
proof -
  assume l: "newline \<notin> set l"
  then have "takeWhile (\<lambda>ch. ch \<noteq> newline) (l @ newline # rest) = l"
    "dropWhile (\<lambda>ch. ch \<noteq> newline) (l @ newline # rest) = newline # rest"
    by (auto simp: takeWhile_append dropWhile_append)
  then show ?thesis by (subst getlines.simps) simp
qed

lemma getlines_lines:
  "(\<And>x. x \<in> set xs \<Longrightarrow> newline \<notin> set (f x)) \<Longrightarrow>
    getlines (concat (map (\<lambda>x. f x @ [newline]) xs)) = map f xs"
  by (induction xs) (simp_all add: getlines_line getlines.simps [of "[]"])

lemma of_char_of_small: "0 \<le> x \<Longrightarrow> x < 256 \<Longrightarrow> of_char (char_of x :: char) = (x :: int)"
  by (simp add: of_char_of take_bit_eq_mod)

lemma char_value_of: "0 \<le> x \<Longrightarrow> x < 128 \<Longrightarrow> char_value (char_of x) = x"
  by (simp add: char_value_def of_char_of_small)

lemma char_value_literals: "char_value (CHR ''a'') = 97" "char_value (CHR ''1'') = 49"
  by (simp_all add: char_value_def)

lemma newline_not_printed:
  assumes "isValidPosition p"
  shows "newline \<notin> set (printPiece t p)"
proof -
  have "newline \<noteq> kPieceChar ! nat (type_value t)"
    unfolding kPieceChar_nth by (cases t) simp_all
  moreover have "newline = char_of (10 :: int)" by code_simp
  ultimately show ?thesis
    using assms char_of_inj [of 10 "97 + snd p"] char_of_inj [of 10 "49 + fst p"]
    by (cases p) (auto simp: printPiece_def)
qed

lemma notation_of_type:
  "t \<noteq> EMPTY \<Longrightarrow> kNotationToPieceType (kPieceChar ! nat (type_value t)) = Some t"
  unfolding kPieceChar_nth by (cases t) (simp_all add: kNotationToPieceType_def)

lemma load_line_print:
  assumes "t \<noteq> EMPTY" "isValidPosition p" "isEmpty b p"
    and "t = B_KING \<Longrightarrow> blackKingPosition b = (- 1, - 1)"
    and "t = W_KING \<Longrightarrow> whiteKingPosition b = (- 1, - 1)"
  shows "load_line (printPiece t p) b = Inr (Board_set t p b)"
proof -
  have hash: "kPieceChar ! nat (type_value t) \<noteq> CHR ''#''"
    unfolding kPieceChar_nth by (cases t) simp_all
  have "char_value (char_of (97 + snd p)) = 97 + snd p" "char_value (char_of (49 + fst p)) = 49 + fst p"
    "0 \<le> fst p" "fst p < 8" "0 \<le> snd p" "snd p < 8"
    using assms(2) by (cases p; simp add: char_value_of)+
  with assms hash show ?thesis
    by (simp add: load_line_def printPiece_def notation_of_type char_value_literals Board_add_Inr)
qed

lemma load_pieces:
  assumes "board_ok b" "distinct ps" "\<forall>p \<in> set ps. isValidPosition p \<and> \<not> isEmpty b p"
    and "load_inv b0" "\<forall>p \<in> set ps. isEmpty b0 p"
    and "blackKingPosition b \<in> set ps \<Longrightarrow> blackKingPosition b0 = (- 1, - 1)"
    and "whiteKingPosition b \<in> set ps \<Longrightarrow> whiteKingPosition b0 = (- 1, - 1)"
  shows "\<exists>b'. rfold load_line (map (\<lambda>p. printPiece (getPieceTypeAtPosition b p) p) ps) b0 = Inr b' \<and>
    load_inv b' \<and> (\<forall>q. isValidPosition q \<longrightarrow> getPieceTypeAtPosition b' q =
      (if q \<in> set ps then getPieceTypeAtPosition b q else getPieceTypeAtPosition b0 q))"
  using assms(2-)
proof (induction ps arbitrary: b0)
  case Nil
  then show ?case by simp
next
  case (Cons p ps)
  define t where "t = getPieceTypeAtPosition b p"
  define b1 where "b1 = Board_set t p b0"
  have p: "isValidPosition p" "t \<noteq> EMPTY" "isEmpty b0 p"
    using Cons.prems(2,4) by (auto simp: t_def isEmpty_def)
  have king: "t = B_KING \<longleftrightarrow> p = blackKingPosition b" "t = W_KING \<longleftrightarrow> p = whiteKingPosition b"
    using board_okD(5,6) [OF assms(1) p(1)] by (simp_all add: t_def)
  have line: "load_line (printPiece t p) b0 = Inr b1"
    unfolding b1_def using p king Cons.prems(5,6) by (intro load_line_print) auto
  have wf: "wf_board b0" using Cons.prems(3) by (simp add: load_inv_def)
  have inv: "load_inv b1"
    unfolding b1_def using p king Cons.prems by (intro load_inv_set) (auto simp: isEmpty_def)
  have cells: "getPieceTypeAtPosition b1 q = (if q = p then t else getPieceTypeAtPosition b0 q)"
    if "isValidPosition q" for q
    using that p wf by (simp add: b1_def board_simps)
  have "\<exists>b'. rfold load_line (map (\<lambda>p. printPiece (getPieceTypeAtPosition b p) p) ps) b1 = Inr b' \<and>
    load_inv b' \<and> (\<forall>q. isValidPosition q \<longrightarrow> getPieceTypeAtPosition b' q =
      (if q \<in> set ps then getPieceTypeAtPosition b q else getPieceTypeAtPosition b1 q))"
  proof (rule Cons.IH)
    show "\<forall>q \<in> set ps. isEmpty b1 q"
      using Cons.prems(1,2,4) cells by (auto simp: isEmpty_def)
    show "blackKingPosition b1 = (- 1, - 1)" if "blackKingPosition b \<in> set ps"
      using that Cons.prems(1,5) king by (auto simp: b1_def board_simps)
    show "whiteKingPosition b1 = (- 1, - 1)" if "whiteKingPosition b \<in> set ps"
      using that Cons.prems(1,6) king by (auto simp: b1_def board_simps)
  qed (use Cons.prems inv in auto)
  then obtain b' where b': "rfold load_line (map (\<lambda>p. printPiece (getPieceTypeAtPosition b p) p) ps) b1 = Inr b'"
    "load_inv b'" "\<And>q. isValidPosition q \<Longrightarrow> getPieceTypeAtPosition b' q =
      (if q \<in> set ps then getPieceTypeAtPosition b q else getPieceTypeAtPosition b1 q)"
    by blast
  have "getPieceTypeAtPosition b' q =
      (if q \<in> set (p # ps) then getPieceTypeAtPosition b q else getPieceTypeAtPosition b0 q)"
    if "isValidPosition q" for q
    using b'(3) [OF that] cells [OF that] by (auto simp: t_def)
  with b'(1,2) line show ?case
    unfolding t_def by (intro exI [of _ b']) simp
qed

lemma load_board_file:
  assumes "board_ok b"
  shows "\<exists>b'. load_Board out (Some (board_file b)) = Inr b' \<and> positions b' = positions b \<and>
    blackKingPosition b' = blackKingPosition b \<and> whiteKingPosition b' = whiteKingPosition b"
proof -
  let ?line = "\<lambda>p. printPiece (getPieceTypeAtPosition b p) p"
  have squares: "\<forall>p \<in> set (piece_squares b). isValidPosition p \<and> \<not> isEmpty b p" "distinct (piece_squares b)"
    by (auto simp: piece_squares_def distinct_all_positions)
  have lines: "getlines (board_file b) = map ?line (piece_squares b)"
    unfolding board_file_def using squares newline_not_printed by (intro getlines_lines) blast
  obtain b' where b': "rfold load_line (map ?line (piece_squares b)) (empty_board out) = Inr b'"
    "load_inv b'" "\<And>q. isValidPosition q \<Longrightarrow> getPieceTypeAtPosition b' q =
      (if q \<in> set (piece_squares b) then getPieceTypeAtPosition b q
       else getPieceTypeAtPosition (empty_board out) q)"
    using load_pieces [OF assms squares(2,1) load_inv_empty [of out]] squares(1) empty_board_get [of _ out]
    by (auto simp: isEmpty_def empty_board_def simp del: split_paired_All)
  have cells: "getPieceTypeAtPosition b' q = getPieceTypeAtPosition b q" if "isValidPosition q" for q
    using b'(3) [OF that] that empty_board_get [OF that] by (auto simp: piece_squares_def isEmpty_def)
  have inv: "wf_board b'" "\<And>p. isValidPosition p \<Longrightarrow> getPieceTypeAtPosition b' p = B_KING \<longleftrightarrow> p = blackKingPosition b'"
    "\<And>p. isValidPosition p \<Longrightarrow> getPieceTypeAtPosition b' p = W_KING \<longleftrightarrow> p = whiteKingPosition b'"
    using b'(2) unfolding load_inv_def by blast+
  note ok = board_okD [OF assms]
  have "positions b' = positions b"
    using inv(1) ok(1) cells by (rule positions_eqI)
  moreover have "blackKingPosition b' = blackKingPosition b"
    using inv(2) [OF ok(3)] ok(5) [OF ok(3)] cells [OF ok(3)] by simp
  moreover have "whiteKingPosition b' = whiteKingPosition b"
    using inv(3) [OF ok(4)] ok(6) [OF ok(4)] cells [OF ok(4)] by simp
  moreover have "blackKingPosition b \<noteq> (- 1, - 1)" "whiteKingPosition b \<noteq> (- 1, - 1)"
    using ok(3,4) by auto
  ultimately show ?thesis
    using b'(1) by (simp add: load_Board_def lines)
qed

section \<open>Errors\<close>

definition load_errors_of :: "fatal set" where
  "load_errors_of = {LoadFailed, LineSize, UnknownNotation, RowRange, ColRange, SquareTaken,
     SecondBlackKing, SecondWhiteKing, NoBlackKing, NoWhiteKing}"

lemma rfold_outcome:
  assumes "\<And>x u. P u \<Longrightarrow> case f x u of Inl e \<Rightarrow> Q e | Inr v \<Rightarrow> P v" and "P s"
  shows "case rfold f xs s of Inl e \<Rightarrow> Q e | Inr t \<Rightarrow> P t"
  using assms(2)
proof (induction xs arbitrary: s)
  case (Cons x xs)
  with assms(1) [of s x] show ?case by (cases "f x s") auto
qed simp

lemma notation_not_EMPTY: "kNotationToPieceType ch \<noteq> Some EMPTY"
  by (auto simp: kNotationToPieceType_def split: if_splits)

lemma load_line_outcome:
  assumes "beyond b = out"
  shows "case load_line line b of Inl e \<Rightarrow> e \<in> load_errors_of | Inr b' \<Rightarrow> beyond b' = out"
proof (cases "line = [] \<or> hd line = CHR ''#'' \<or> length line \<noteq> 3")
  case True
  then show ?thesis using assms by (auto simp: load_line_def load_errors_of_def)
next
  case False
  then show ?thesis
    using assms notation_not_EMPTY [of "line ! 0"]
    by (cases "kNotationToPieceType (line ! 0)")
      (auto simp: load_line_def load_errors_of_def CHECK_def Board_add_def board_simps Let_def)
qed

lemma load_outcome:
  "case load_Board out file of
     Inl e \<Rightarrow> e \<in> {LoadFailed, LineSize, UnknownNotation, RowRange, ColRange, SquareTaken,
                  SecondBlackKing, SecondWhiteKing, NoBlackKing, NoWhiteKing}
   | Inr b \<Rightarrow> beyond b = out"
proof (cases "file")
  case (Some content)
  have "case rfold load_line (getlines content) (empty_board out) of
      Inl e \<Rightarrow> e \<in> load_errors_of | Inr b \<Rightarrow> beyond b = out"
    by (rule rfold_outcome [OF load_line_outcome]) (simp_all add: empty_board_def)
  with Some show ?thesis
    by (cases "rfold load_line (getlines content) (empty_board out)")
      (auto simp: load_Board_def CHECK_def load_errors_of_def)
qed (simp add: load_Board_def)

end
