(* ===== verification/Solver.thy ===== *)
theory Solver
  imports Search_Sound Board_Load
begin

text \<open>
  \<open>chess/dfs.cc\<close>: the program that loads a board, searches it and prints the path, and what
  the search contract says of it.
\<close>

section \<open>The program\<close>

definition dfs_search :: "config \<Rightarrow> int \<Rightarrow> board \<Rightarrow> bool \<Rightarrow> (int \<times> one_round \<times> cache) result" where
  "dfs_search cf moves b black =
     rbind (new_OneRound (garbage_piece cf) (garbage_flags cf) (garbage_count cf) b black 0 [])
       (\<lambda>r. OneRound_expand cf moves r new_SolutionCache)"

text \<open>
  The program's answer: the score and the printed path, \<open>None\<close> if the printing was cut off
  after \<open>fuel\<close> levels of the solution tree.
\<close>

definition dfs_main ::
  "config \<Rightarrow> (int \<Rightarrow> ptype) \<Rightarrow> nat \<Rightarrow> string option \<Rightarrow> string \<Rightarrow> int \<Rightarrow> (int \<times> string result option) result" where
  "dfs_main cf out fuel file first moves =
     (let black = (first = ''black'')
      in rbind (load_Board out file) (\<lambda>b.
         rbind (dfs_search cf moves b black) (\<lambda>(sc, r, c).
           Inr (sc, printPath fuel c r))))"

section \<open>Boards of a search\<close>

inductive round_board :: "flags \<Rightarrow> bool \<Rightarrow> board \<Rightarrow> board \<Rightarrow> bool" for fg c b0 where
  start: "round_board fg c b0 b0"
| step: "round_board fg c b0 b \<Longrightarrow> legal fg c b m \<Longrightarrow> legal fg (\<not> c) (after m b) m' \<Longrightarrow>
    round_board fg c b0 (after m' (after m b))"

inductive_cases round_boardE: "round_board fg c b0 b"

lemma round_board_ok:
  assumes "round_board fg c b0 b" "search_ok c b0"
  shows "search_ok c b"
  using assms
proof (induction rule: round_board.induct)
  case start
  then show ?case by simp
next
  case (step b m m')
  then have "search_ok (\<not> c) (after m b)" using after_search_ok by blast
  with step.hyps(3) show ?case using after_search_ok [of "\<not> c" "after m b" fg m'] by simp
qed

lemma search_env_round:
  assumes "search_ok c b0" "sort_ok (plat cf)" "int N < INT_MAX"
    and "hash_adequate cf c (round_board (flag cf) c b0) N"
  shows "search_env cf c (round_board (flag cf) c b0) N"
  using assms round_board_ok [OF _ assms(1)] round_board.step
  by (simp add: search_env_def)

lemma hash_adequate_uncached:
  "int N < min_store_level (flag cf) \<Longrightarrow> hash_adequate cf c R N"
  by (simp add: hash_adequate_def)

lemma new_cache_sound: "min_sound cf c R N new_SolutionCache" "sigs new_SolutionCache = (Map.empty, Map.empty)"
  by (simp_all add: min_sound_def getMin_read new_SolutionCache_def read_entry_def sigs_def)

lemma dfs_search_contract:
  assumes env: "search_env cf c R (Suc n)" and R: "R b"
    and child: "child_search cf c R (Suc n) n E (expand_levels cf n)"
  shows "\<exists>r. curBoard r = b \<and> ancestors r = [] \<and>
    returns E (search_post cf c R (Suc n) (Suc n) r new_SolutionCache) (dfs_search cf (int (Suc n)) b c)"
proof -
  obtain r where r: "new_OneRound (garbage_piece cf) (garbage_flags cf) (garbage_count cf) b c 0 [] = Inr r"
    "fresh r" "curBoard r = b" "blackFirst r = c" "ancestors r = []"
    using new_OneRound_eq by blast
  then have pre: "search_pre cf c R (Suc n) r new_SolutionCache"
    using R new_cache_sound by (simp add: search_pre_def)
  have run: "dfs_search cf (int (Suc n)) b c = expand_with cf (expand_levels cf n) (int (Suc n)) r new_SolutionCache"
    unfolding dfs_search_def r(1) rbind.simps OneRound_expand_def nat_int expand_levels.simps ..
  show ?thesis
    unfolding run using child_search.expand_ok [OF child env order_refl pre] r(3,5) by blast
qed

lemma dfs_search_returns:
  assumes env: "search_env cf c R (Suc n)" and R: "R b"
    and child: "child_search cf c R (Suc n) n E (expand_levels cf n)"
  shows "returns E (\<lambda>(sc, r, ca).
      (sc = CHECKMATE \<longrightarrow> mate (flag cf) c (Suc n) b) \<and>
      (int (Suc n) < min_store_level (flag cf) \<longrightarrow> (sc = CHECKMATE \<longleftrightarrow> rmate (flag cf) c (Suc n) None b)))
    (dfs_search cf (int (Suc n)) b c)"
proof -
  obtain r where r: "curBoard r = b" "prev_of r = None"
    "returns E (search_post cf c R (Suc n) (Suc n) r new_SolutionCache) (dfs_search cf (int (Suc n)) b c)"
    using dfs_search_contract [OF assms] by (auto simp: prev_of_def)
  have "quiet cf (Suc n) new_SolutionCache" if "int (Suc n) < min_store_level (flag cf)"
    using that new_cache_sound(2) by (simp add: quiet_def)
  then show ?thesis
    by (intro returns_mono [OF r(3)])
      (auto simp: search_post_def verdict_def r(1,2) simp del: mate.simps rmate.simps of_nat_Suc)
qed

lemma levels_Suc:
  assumes "0 < moves"
  obtains n where "nat moves = Suc n" "moves = int (Suc n)"
  using assms by (metis gr0_conv_Suc nat_0_le order_less_imp_le zero_less_nat_eq)

lemma loaded_search_ok:
  assumes "load_Board out (Some content) = Inr b" "\<not> isChecked b (\<not> c)"
  shows "search_ok c b"
proof -
  have "load_inv b"
    using assms(1) rfold_invariant [of load_line "getlines content" "empty_board out" b load_inv]
      load_inv_empty load_line_inv by (auto simp: load_Board_def rbind_Inr_iff)
  then show ?thesis
    using load_game_ok [OF assms(1)] assms(2)
    by (simp add: search_ok_def turn_ok_def load_inv_def default_move_def is_double_def)
qed

section \<open>No move at the root\<close>

lemma sort_empty: "sort_ok pl \<Longrightarrow> std_sort pl (\<lambda>x y. f x > (f y :: rat)) [] = []"
  unfolding sort_ok_def by (metis mset_zero_iff mset.simps(1))

lemma dfs_search_no_moves:
  assumes "search_ok c b" "sort_ok (plat cf)" "0 < moves" "legal_list (flag cf) c b = []"
  shows "\<exists>r. dfs_search cf moves b c =
      Inr (if isChecked b c then - CHECKMATE else - STALLMATE, r, new_SolutionCache) \<and> maxStepState r = None"
proof -
  obtain n where n: "moves = int (Suc n)" using levels_Suc [OF assms(3)] by blast
  obtain r where r: "new_OneRound (garbage_piece cf) (garbage_flags cf) (garbage_count cf) b c 0 [] = Inr r"
    "fresh r" "curBoard r = b" "blackFirst r = c" "maxStepState r = None"
    using new_OneRound_eq by blast
  define r' where "r' = r\<lparr>isMaxChecked := isChecked b c\<rparr>"
  have chk: "OneRound_isChecked r = isChecked b c" using OneRound_isChecked_eq [OF r(2)] r(3,4) by simp
  have "fresh r'" using r(2) by (simp add: r'_def fresh_def sameSidePieces_def opponentPieces_def)
  then have gen: "generateAndSortMaxMoves (plat cf) (flag cf) r' = Inr []"
    using assms(1,4) r chk sort_empty [OF assms(2)] by (subst generate_eq) (simp_all add: r'_def)
  have "expand_with cf (expand_levels cf n) (int (Suc n)) r new_SolutionCache =
      Inr (if isChecked b c then - CHECKMATE else - STALLMATE, r'\<lparr>numMaxMoves := 0\<rparr>, new_SolutionCache)"
    unfolding expand_with_def chk r'_def [symmetric] Let_def gen by (simp add: r'_def)
  then show ?thesis
    using r(1,5) unfolding dfs_search_def OneRound_expand_def n nat_int expand_levels.simps
    by (simp add: r'_def)
qed

end
