(* ===== verification/Board_Eval.thy ===== *)
theory Board_Eval
  imports Search_Sound Board_Load
begin

text \<open>
  \<open>Board::expand\<close>, \<open>Board::evaluate\<close> (\<open>chess/board.cc\<close>): the breadth-first evaluation, which
  keeps the whole tree in layers and propagates scores back through it, and the printing of
  its result. A \<open>Board*\<close> that points to the state of a node is the node's index in its layer:
  a node refers to its parent by the index in the layer before.
\<close>

section \<open>Layers\<close>

record bfs_node =
  parent :: "nat option"
  nextState :: board

type_synonym layer = "bfs_node list"

definition expand_score :: "board \<Rightarrow> bool \<Rightarrow> nat \<Rightarrow> int" where
  "expand_score b blackMoveFirst layerNum =
     (let sc = (if layerNum mod 2 = 0 then 1 + CHECKMATE
                else if isChecked b blackMoveFirst then - CHECKMATE else NONE)
      in if isChecked b (\<not> blackMoveFirst) then CHECKMATE else sc)"

text \<open>
  \<open>Board::expand\<close>: the board with its new score and the states appended to the next layer. The
  states are made from the board with the new score, which they inherit.
\<close>

definition expand_cell :: "flags \<Rightarrow> board \<Rightarrow> ptype \<Rightarrow> position \<Rightarrow> board list \<Rightarrow> board list result" where
  "expand_cell fg b t frm acc =
     (let pieceType = getPieceTypeAtPosition b frm
      in if \<not> isSameColor t pieceType then Inr acc
         else
           rbind (deref (create pieceType frm)) (\<lambda>p.
           rbind (getNextStates fg p b) (\<lambda>states. Inr (acc @ states))))"

definition Board_expand :: "flags \<Rightarrow> bool \<Rightarrow> nat \<Rightarrow> board \<Rightarrow> (board \<times> board list) result" where
  "Board_expand fg blackMoveFirst layerNum b =
     (let b' = setScore (expand_score b blackMoveFirst layerNum) b;
          blackMoveCurrent = (if layerNum mod 2 \<noteq> 0 then blackMoveFirst else \<not> blackMoveFirst)
      in rbind (rfold (expand_cell fg b' (if blackMoveCurrent then B_KING else W_KING)) all_positions [])
           (\<lambda>states. Inr (b', states)))"

fun expand_nodes :: "flags \<Rightarrow> bool \<Rightarrow> nat \<Rightarrow> nat \<Rightarrow> layer \<Rightarrow> (layer \<times> layer) result" where
  "expand_nodes fg bf i j [] = Inr ([], [])"
| "expand_nodes fg bf i j (nd # nds) =
     rbind (Board_expand fg bf i (nextState nd)) (\<lambda>(b', states).
     rbind (expand_nodes fg bf i (Suc j) nds) (\<lambda>(upd, nxt).
       Inr (nd\<lparr>nextState := b'\<rparr> # upd, map (\<lambda>s. \<lparr>parent = Some j, nextState = s\<rparr>) states @ nxt)))"

text \<open>The forward loop from layer \<open>i\<close> on, with \<open>d\<close> layers still to make.\<close>

fun forward :: "flags \<Rightarrow> bool \<Rightarrow> nat \<Rightarrow> nat \<Rightarrow> layer \<Rightarrow> layer list result" where
  "forward fg bf 0 i L = Inr [L]"
| "forward fg bf (Suc d) i L =
     rbind (expand_nodes fg bf (Suc i) 0 L) (\<lambda>(L', nxt).
     rbind (forward fg bf d (Suc i) nxt) (\<lambda>rest. Inr (L' # rest)))"

section \<open>Propagation\<close>

definition fix_score :: "nat \<Rightarrow> bfs_node \<Rightarrow> bfs_node" where
  "fix_score i nd =
     (if i mod 2 = 0 \<and> score (nextState nd) > CHECKMATE
      then nd\<lparr>nextState := (nextState nd)\<lparr>score := STALLMATE\<rparr>\<rparr> else nd)"

definition score_op :: "nat \<Rightarrow> int \<Rightarrow> int \<Rightarrow> int" where
  "score_op i x y = (if i mod 2 = 1 then max x y else min x y)"

definition lift_score :: "nat \<Rightarrow> layer \<Rightarrow> bfs_node \<Rightarrow> layer" where
  "lift_score i ps nd =
     (case parent nd of
        None \<Rightarrow> ps
      | Some j \<Rightarrow> ps[j := (ps ! j)\<lparr>nextState := (nextState (ps ! j))
          \<lparr>score := score_op i (score (nextState (ps ! j))) (score (nextState nd))\<rparr>\<rparr>])"

text \<open>The backward loop over the layers from \<open>i\<close> on, the last one first.\<close>

fun backward :: "nat \<Rightarrow> layer list \<Rightarrow> layer list" where
  "backward i (L # L' # rest) =
     (case backward (Suc i) (L' # rest) of
        [] \<Rightarrow> []
      | M # rest' \<Rightarrow>
          let M' = map (fix_score (Suc i)) M
          in foldl (lift_score (Suc i)) L M' # M' # rest')"
| "backward i Ls = Ls"

section \<open>The min-max paths\<close>

text \<open>
  A node kept in the solution tree carries the index it had in its layer, by which its
  children know it. \<open>onPath\<close> is the part of \<open>nodesOnPath\<close> in the layer before.
\<close>

type_synonym kept = "nat \<times> bfs_node"

definition keep_layer :: "int \<Rightarrow> nat \<Rightarrow> nat list \<Rightarrow> layer \<Rightarrow> kept list" where
  "keep_layer sc i onPath L =
     filter (\<lambda>(j, nd). (case parent nd of None \<Rightarrow> False | Some k \<Rightarrow> k \<in> set onPath) \<and>
        (i mod 2 = 1 \<and> score (nextState nd) \<ge> sc \<or> i mod 2 \<noteq> 1 \<and> score (nextState nd) \<le> sc))
       (enumerate 0 L)"

fun keep_layers :: "int \<Rightarrow> nat \<Rightarrow> nat list \<Rightarrow> layer list \<Rightarrow> kept list list" where
  "keep_layers sc i onPath [] = []"
| "keep_layers sc i onPath (L # Ls) =
     (let K = keep_layer sc i onPath L in K # keep_layers sc (Suc i) (map fst K) Ls)"

definition evaluate :: "flags \<Rightarrow> bool \<Rightarrow> nat \<Rightarrow> board \<Rightarrow> (int \<times> kept list list) result" where
  "evaluate fg blackMoveFirst maxDepth b =
     (if isChecked b (\<not> blackMoveFirst) then Inr (CHECKMATE, [])
      else
        rbind (forward fg blackMoveFirst maxDepth 0 [\<lparr>parent = None, nextState = b\<rparr>]) (\<lambda>bfs.
          let bfs = backward 0 bfs;
              sc = score (nextState (bfs ! 0 ! 0))
          in Inr (sc, [(0, bfs ! 0 ! 0)] # keep_layers sc 1 [0] (tl bfs))))"

section \<open>Printing the tree\<close>

fun dec_digits :: "nat \<Rightarrow> string" where
  "dec_digits n = (if n < 10 then [char_of (48 + n)] else dec_digits (n div 10) @ [char_of (48 + n mod 10)])"

declare dec_digits.simps [simp del]

definition dec_int :: "int \<Rightarrow> string" where
  "dec_int x = (if x < 0 then CHR ''-'' # dec_digits (nat (- x)) else dec_digits (nat x))"

definition pad_left :: "nat \<Rightarrow> string \<Rightarrow> string" where
  "pad_left w s = replicate (w - length s) (CHR '' '') @ s"

definition Node_printMove :: "bfs_node \<Rightarrow> string result" where
  "Node_printMove nd = printLastMove (nextState nd)"

text \<open>
  \<open>startPos\<close> maps a board of layer \<open>l\<close>, given by its index there, to the first place of a child
  in the next layer of the tree.
\<close>

definition first_child :: "kept list list \<Rightarrow> nat \<Rightarrow> nat \<Rightarrow> nat option" where
  "first_child tree l k =
     (if Suc l < length tree then
        (case filter (\<lambda>(pos, j, nd). parent nd = Some k) (enumerate 0 (tree ! Suc l)) of
           [] \<Rightarrow> None | (pos, _) # _ \<Rightarrow> Some pos)
      else None)"

text \<open>
  \<open>dfsPrintTree\<close> below a node of layer \<open>l\<close>. The recursion goes down one layer each time; \<open>d\<close> is
  the number of layers below. The children of a node stand next to each other.
\<close>

fun dfsPrintTree :: "kept list list \<Rightarrow> nat \<Rightarrow> nat \<Rightarrow> kept \<Rightarrow> nat \<Rightarrow> string result" where
  "dfsPrintTree tree d l kn ind =
     rbind (Node_printMove (snd kn)) (\<lambda>mv.
       let start = first_child tree l (fst kn);
           head = concat (replicate ind (replicate 16 (CHR '' '')))
             @ ''['' @ dec_digits l @ '']'' @ pad_left 3 mv
             @ ''('' @ pad_left 5 (dec_int (score (nextState (snd kn)))) @ '')''
             @ (if start \<noteq> None then ''+'' else ''|'') @ ''  '';
           kids = (case start of None \<Rightarrow> []
             | Some st \<Rightarrow> takeWhile (\<lambda>(pos, j, nd). parent nd = Some (fst kn))
                 (drop st (enumerate 0 (tree ! Suc l))))
       in rbind (case d of
             0 \<Rightarrow> Inr []
           | Suc d' \<Rightarrow> rfold (\<lambda>(pos, kid) acc.
               rbind (dfsPrintTree tree d' (Suc l) kid (if Some pos = start then 0 else Suc l))
                 (\<lambda>out. Inr (acc @ out))) kids [])
            (\<lambda>below. Inr (head @ below @ [CHR 0x0A])))"

declare dfsPrintTree.simps [simp del]

definition printSolutionTree :: "kept list list \<Rightarrow> string result" where
  "printSolutionTree tree =
     (case tree of
        (kn # _) # rest \<Rightarrow> dfsPrintTree tree (length rest) 0 kn 0
      | _ \<Rightarrow> Inl BadIndex)"

section \<open>Next states keep the invariant\<close>

definition bfs_ok :: "bool \<Rightarrow> board \<Rightarrow> bool" where
  "bfs_ok c b \<longleftrightarrow> game_ok b \<and> \<not> isChecked b (\<not> c)"

text \<open>All next states of side \<open>c\<close>, in the order of the source.\<close>

definition kids :: "flags \<Rightarrow> bool \<Rightarrow> board \<Rightarrow> board list" where
  "kids fg c b = concat (map (\<lambda>p. concat (map (states_of b p) (getMoves fg p b))) (pieces_of b c))"

lemma rebuilt_sel:
  "from_pos (rebuilt b p m) = position p" "to_pos (rebuilt b p m) = to_pos m"
  "toType (rebuilt b p m) = getPieceTypeAtPosition b (to_pos m)"
  "special (rebuilt b p m) = special_of b (position p) (to_pos m)"
  "fromType (rebuilt b p m) = getPieceTypeAtPosition b (position p)"
  by (simp_all add: rebuilt_def)

lemma rebuilt_double_shape:
  assumes "on_board b p" "last_ok b" "m \<in> set (getMoves fg p b)"
  shows "double_shape b (rebuilt b p m)"
proof -
  have "double_shape b m" "fromType m = type p" "from_pos m = position p" "move_fits b m"
    using getMoves_double_shape [OF assms] getMoves_fromType [OF assms] getMoves_fits [OF assms] by auto
  then show ?thesis
    using on_boardD(6,7) [OF assms(1)] move_fitsD(5) [of b m]
    by (auto simp: double_shape_def rebuilt_sel special_of_def isEnpassantMove_def isCastlingMove_def Let_def)
qed

lemma isChecked_own_cell:
  assumes "board_ok b" "isValidPosition q" "t \<notin> {EMPTY, W_KING, B_KING}" "isBlack t = c"
    and "getPieceTypeAtPosition b q \<notin> {EMPTY, W_KING, B_KING}" "isBlack (getPieceTypeAtPosition b q) = c"
  shows "isChecked (Board_set t q b) c = isChecked b c" "board_ok (Board_set t q b)"
proof -
  let ?b = "Board_set t q b"
  note ok = board_okD [OF assms(1)]
  have cell: "getPieceTypeAtPosition ?b x = (if x = q then t else getPieceTypeAtPosition b x)"
    if "isValidPosition x" for x
    using that assms(2) ok(1) by (simp add: board_simps)
  have kings: "blackKingPosition ?b = blackKingPosition b" "whiteKingPosition ?b = whiteKingPosition b"
    using assms(3) by (simp_all add: board_simps)
  have "on_board ?b p \<and> isBlack (type p) \<noteq> c \<longleftrightarrow> on_board b p \<and> isBlack (type p) \<noteq> c" for p
    using cell [of "position p"] assms(4,6) by (auto simp: on_board_def)
  moreover have "canAttack p ?b (king_of b c) = canAttack p b (king_of b c)" if "on_board b p" for p
    using that cell assms(3,5) king_of_valid [OF assms(1)]
    by (intro canAttack_cong) (auto simp: on_board_def isEmpty_def)
  moreover have "king_of ?b c = king_of b c" by (simp add: king_of_def kings)
  ultimately show "isChecked ?b c = isChecked b c"
    by (auto simp: isChecked_iff)
  have "x \<noteq> q \<or> (t \<noteq> B_KING \<and> t \<noteq> W_KING \<and> x \<noteq> blackKingPosition b \<and> x \<noteq> whiteKingPosition b)" for x
    using ok(5,6) [OF assms(2)] assms(3,5) by auto
  then have "(getPieceTypeAtPosition ?b x = B_KING \<longleftrightarrow> x = blackKingPosition b) \<and>
      (getPieceTypeAtPosition ?b x = W_KING \<longleftrightarrow> x = whiteKingPosition b)" if "isValidPosition x" for x
    unfolding cell [OF that] using ok(5,6) [OF that] by metis
  then have "\<forall>x. isValidPosition x \<longrightarrow> (getPieceTypeAtPosition ?b x = B_KING \<longleftrightarrow> x = blackKingPosition b) \<and>
      (getPieceTypeAtPosition ?b x = W_KING \<longleftrightarrow> x = whiteKingPosition b)" by blast
  moreover have "wf_board ?b" using ok(1) by (simp add: board_simps)
  ultimately show "board_ok ?b"
    unfolding board_ok_def kings_ok_iff kings using ok(3,4) by blast
qed

lemma states_of_ok:
  assumes ok: "bfs_ok c b" and p: "on_board b p" "isBlack (type p) = c" and m: "m \<in> set (getMoves fg p b)"
    and s: "s \<in> set (states_of b p m)"
  shows "bfs_ok (\<not> c) s"
proof -
  define rm where "rm = rebuilt b p m"
  define nb where "nb = after rm b"
  have inv: "game_ok b" "board_ok b" "last_ok b" "wf_board b" "\<not> isChecked b (\<not> c)"
    using ok by (auto simp: bfs_ok_def game_ok_def board_ok_def)
  have fits: "move_fits b rm" unfolding rm_def using p(1) inv(3) m by (rule rebuilt_fits)
  have "toType m = toType rm" "toType m \<notin> {W_KING, B_KING}"
    using getMoves_fits(1) [OF p(1) inv(3) m] no_king_capture [OF inv(2,3) p(1) m] inv(5) p(2) move_fitsD(5)
    by (auto simp: rm_def rebuilt_sel)
  then have nb: "game_ok nb"
    unfolding nb_def after_def using inv(1) fits rebuilt_double_shape [OF p(1) inv(3) m]
    by (intro moved_game_ok) (auto simp: rm_def)
  have safe: "\<not> isChecked nb c"
    and st: "s = nb \<or> special rm = QUEEN_PROMOTION \<and>
      s \<in> {Board_set (if c then B_QUEEN else W_QUEEN) (to_pos rm) nb, Board_set (if c then B_KNIGHT else W_KNIGHT) (to_pos rm) nb}"
    using s p(2) by (auto simp: states_of_def nb_def after_def rm_def rebuilt_sel Let_def split: if_splits)
  show ?thesis
  proof (cases "s = nb")
    case True
    with nb safe show ?thesis by (simp add: bfs_ok_def)
  next
    case False
    then obtain t where "t \<in> {if c then B_QUEEN else W_QUEEN, if c then B_KNIGHT else W_KNIGHT}"
      and s: "s = Board_set t (to_pos rm) nb" and sp: "special rm = QUEEN_PROMOTION"
      using st by blast
    then have t: "t \<notin> {EMPTY, W_KING, B_KING}" "isBlack t = c" by (auto split: if_splits)
    have to: "isValidPosition (to_pos rm)" using move_fitsD(2) [OF fits] .
    have ft: "fromType rm = type p" using p(1) by (simp add: rm_def rebuilt_sel on_board_def)
    have "getPieceTypeAtPosition nb (to_pos rm) = getSameQueenType (type p)"
      using get_moved [OF inv(4) fits to] sp ft by (simp add: nb_def newType_def)
    then have cell: "getPieceTypeAtPosition nb (to_pos rm) \<notin> {EMPTY, W_KING, B_KING}"
      "isBlack (getPieceTypeAtPosition nb (to_pos rm)) = c"
      using p(2) by (auto simp: getSameQueenType_def)
    have bok: "board_ok nb" using nb by (simp add: game_ok_def)
    note set = isChecked_own_cell [OF bok to t(1,2) cell, folded s]
    have "lastMove s = rm" by (simp add: s nb_def board_simps)
    moreover have "\<not> is_double rm"
      using sp p(1) by (auto simp: is_double_def rm_def rebuilt_sel special_of_def on_board_def Let_def
          isEnpassantMove_def isCastlingMove_def split: if_splits)
    ultimately have "last_ok s"
      by (auto simp: last_ok_def double_step_ok_def is_double_def)
    with set safe show ?thesis by (simp add: bfs_ok_def game_ok_def)
  qed
qed

lemma kids_ok: "bfs_ok c b \<Longrightarrow> s \<in> set (kids fg c b) \<Longrightarrow> bfs_ok (\<not> c) s"
  using states_of_ok by (fastforce simp: kids_def set_pieces_of)

section \<open>Expansion\<close>

definition mover :: "bool \<Rightarrow> nat \<Rightarrow> bool" where
  "mover bf i \<longleftrightarrow> (if i mod 2 \<noteq> 0 then bf else \<not> bf)"

lemma mover_Suc [simp]: "mover bf (Suc i) = (\<not> mover bf i)"
  by (auto simp: mover_def mod_Suc)

definition scored :: "bool \<Rightarrow> nat \<Rightarrow> board \<Rightarrow> board" where
  "scored bf i b = setScore (expand_score b bf i) b"

lemma scored_ok [simp]: "bfs_ok c (scored bf i b) = bfs_ok c b"
  by (simp add: scored_def setScore_def bfs_ok_def game_ok_def last_ok_def double_step_ok_def
      board_simps Let_def)

lemma expand_score_range: "expand_score b bf i \<in> {- 100, 0, 100, 101}"
  by (simp add: expand_score_def Let_def)

lemma score_scored [simp]: "score (scored bf i b) = expand_score b bf i"
  using expand_score_range [of b bf i] by (auto simp: scored_def setScore_def)

lemma expand_cell_eq:
  assumes "bfs_ok c b" "isValidPosition pos"
  shows "expand_cell fg b (if c then B_KING else W_KING) pos acc =
    Inr (acc @ (if \<not> isEmpty b pos \<and> isBlack (getPieceTypeAtPosition b pos) = c
      then concat (map (states_of b (piece_at b pos)) (getMoves fg (piece_at b pos) b)) else []))"
proof -
  have "on_board b (piece_at b pos)" if "\<not> isEmpty b pos"
    using that assms(2) by (simp add: on_board_def piece_at_def position_def isEmpty_def)
  moreover have "create (getPieceTypeAtPosition b pos) pos = Some (piece_at b pos)" if "\<not> isEmpty b pos"
    using that by (simp add: create_eq isEmpty_def piece_at_def)
  moreover have "wf_board b" "last_ok b" using assms(1) by (auto simp: bfs_ok_def game_ok_def board_ok_def)
  ultimately show ?thesis
    by (auto simp: expand_cell_def Let_def isSameColor_iff deref_def isEmpty_def getNextStates_eq)
qed

lemma concat_filtered: "concat (map (\<lambda>x. if P x then f x else []) xs) = concat (map f (filter P xs))"
  by (induction xs) auto

lemma Board_expand_eq:
  assumes "bfs_ok (mover bf i) b"
  shows "Board_expand fg bf i b = Inr (scored bf i b, kids fg (mover bf i) (scored bf i b))"
proof -
  have "rfold (expand_cell fg (scored bf i b) (if mover bf i then B_KING else W_KING)) all_positions [] =
      Inr ([] @ kids fg (mover bf i) (scored bf i b))"
    unfolding kids_def pieces_of_def map_map comp_def concat_filtered [symmetric]
    using assms by (intro rfold_collect expand_cell_eq) auto
  then show ?thesis by (simp add: Board_expand_def scored_def mover_def Let_def)
qed

definition child_nodes :: "flags \<Rightarrow> bool \<Rightarrow> nat \<Rightarrow> nat \<times> bfs_node \<Rightarrow> layer" where
  "child_nodes fg bf i = (\<lambda>(k, nd). map (\<lambda>s. \<lparr>parent = Some k, nextState = s\<rparr>)
     (kids fg (mover bf i) (scored bf i (nextState nd))))"

definition rescored :: "bool \<Rightarrow> nat \<Rightarrow> bfs_node \<Rightarrow> bfs_node" where
  "rescored bf i nd = nd\<lparr>nextState := scored bf i (nextState nd)\<rparr>"

lemma expand_nodes_eq:
  assumes "\<forall>nd \<in> set nds. bfs_ok (mover bf i) (nextState nd)"
  shows "expand_nodes fg bf i j nds =
    Inr (map (rescored bf i) nds, concat (map (child_nodes fg bf i) (enumerate j nds)))"
  using assms by (induction nds arbitrary: j) (simp_all add: Board_expand_eq child_nodes_def rescored_def)

lemma child_nodes_ok:
  assumes "\<forall>nd \<in> set nds. bfs_ok (mover bf i) (nextState nd)"
    and "nd \<in> set (concat (map (child_nodes fg bf i) (enumerate j nds)))"
  shows "bfs_ok (mover bf (Suc i)) (nextState nd)"
proof -
  obtain k p where "(k, p) \<in> set (enumerate j nds)" and nd: "nd \<in> set (child_nodes fg bf i (k, p))"
    using assms(2) by auto
  then have "p \<in> set nds" by (auto simp: enumerate_eq_zip dest: set_zip_rightD)
  then have "bfs_ok (mover bf i) (scored bf i (nextState p))" using assms(1) by simp
  with nd show ?thesis using kids_ok [of "mover bf i" "scored bf i (nextState p)"] by (auto simp: child_nodes_def)
qed

lemma filter_children:
  "filter (\<lambda>nd. parent nd = Some k) (concat (map (child_nodes fg bf i) (enumerate j nds))) =
    (if j \<le> k \<and> k < j + length nds then child_nodes fg bf i (k, nds ! (k - j)) else [])"
proof (induction nds arbitrary: j)
  case (Cons nd nds)
  have "filter (\<lambda>nd. parent nd = Some k) (child_nodes fg bf i (j, nd)) =
      (if j = k then child_nodes fg bf i (j, nd) else [])"
    by (simp add: child_nodes_def filter_map comp_def)
  then show ?case using Cons.IH [of "Suc j"] by (auto simp: nth_Cons')
qed auto

section \<open>Min-max\<close>

definition settled :: "nat \<Rightarrow> int \<Rightarrow> int" where
  "settled i v = (if i mod 2 = 0 \<and> v > CHECKMATE then STALLMATE else v)"

text \<open>
  The min-max value of a position at ply \<open>i\<close> with \<open>d\<close> plies to look ahead: the best settled value
  of the positions one move later, starting from the score \<open>expand\<close> gives the position itself.
\<close>

fun minimax :: "flags \<Rightarrow> bool \<Rightarrow> nat \<Rightarrow> nat \<Rightarrow> board \<Rightarrow> int" where
  "minimax fg bf 0 i b = score b"
| "minimax fg bf (Suc d) i b =
     foldl (score_op (Suc i)) (expand_score b bf (Suc i))
       (map (\<lambda>s. settled (Suc i) (minimax fg bf d (Suc i) s))
         (kids fg (mover bf (Suc i)) (scored bf (Suc i) b)))"

lemma score_fix_score: "score (nextState (fix_score i nd)) = settled i (score (nextState nd))"
  "parent (fix_score i nd) = parent nd"
  by (simp_all add: fix_score_def settled_def)

lemma lift_score_parent: "map parent (lift_score i ps nd) = map parent ps"
proof (cases "parent nd")
  case (Some j)
  then show ?thesis by (cases "j < length ps") (simp_all add: lift_score_def map_update list_update_same_conv list_update_beyond)
qed (simp add: lift_score_def)

lemma fold_lift_parent: "map parent (foldl (lift_score i) ps ns) = map parent ps"
  by (induction ns arbitrary: ps) (simp_all add: lift_score_parent)

lemma fold_lift_score:
  "k < length ps \<Longrightarrow> score (nextState (foldl (lift_score i) ps ns ! k)) =
    foldl (score_op i) (score (nextState (ps ! k)))
      (map (\<lambda>nd. score (nextState nd)) (filter (\<lambda>nd. parent nd = Some k) ns))"
proof (induction ns arbitrary: ps)
  case (Cons nd ns)
  have "length (lift_score i ps nd) = length ps" by (auto simp: lift_score_def split: option.splits)
  moreover have "score (nextState (lift_score i ps nd ! k)) =
      (if parent nd = Some k then score_op i (score (nextState (ps ! k))) (score (nextState nd))
       else score (nextState (ps ! k)))"
    using Cons.prems by (auto simp: lift_score_def nth_list_update split: option.splits)
  ultimately show ?case using Cons by simp
qed simp

lemma map_filter_cong:
  "map f xs = map f' ys \<Longrightarrow> map g xs = map g' ys \<Longrightarrow>
    map g (filter (\<lambda>x. P (f x)) xs) = map g' (filter (\<lambda>y. P (f' y)) ys)"
proof (induction xs arbitrary: ys)
  case (Cons x xs)
  then show ?case by (cases ys) auto
qed simp

definition tree_values :: "flags \<Rightarrow> bool \<Rightarrow> nat \<Rightarrow> nat \<Rightarrow> layer \<Rightarrow> layer list \<Rightarrow> bool" where
  "tree_values fg bf d i L Ls \<longleftrightarrow> length Ls = Suc d \<and> map parent (hd Ls) = map parent L \<and>
     map (\<lambda>nd. score (nextState nd)) (hd Ls) = map (\<lambda>nd. minimax fg bf d i (nextState nd)) L"

lemma forward_length: "forward fg bf d i L = Inr Ls \<Longrightarrow> length Ls = Suc d"
  by (induction d arbitrary: i L Ls) (auto elim!: rbind_InrE)

lemma forward_backward:
  assumes "\<forall>nd \<in> set L. bfs_ok (mover bf (Suc i)) (nextState nd)"
  shows "\<exists>Ls. forward fg bf d i L = Inr Ls \<and> tree_values fg bf d i L (backward i Ls)"
  using assms
proof (induction d arbitrary: i L)
  case 0
  then show ?case by (simp add: tree_values_def)
next
  case (Suc d)
  define L' where "L' = map (rescored bf (Suc i)) L"
  define nxt where "nxt = concat (map (child_nodes fg bf (Suc i)) (enumerate 0 L))"
  have "\<forall>nd \<in> set nxt. bfs_ok (mover bf (Suc (Suc i))) (nextState nd)"
    using child_nodes_ok [OF Suc.prems] unfolding nxt_def by blast
  from Suc.IH [OF this] obtain Ls where fw: "forward fg bf d (Suc i) nxt = Inr Ls"
    and tv: "tree_values fg bf d (Suc i) nxt (backward (Suc i) Ls)" by blast
  have step: "expand_nodes fg bf (Suc i) 0 L = Inr (L', nxt)"
    unfolding L'_def nxt_def using Suc.prems by (rule expand_nodes_eq)
  obtain X Y where Ls: "Ls = X # Y" using forward_length [OF fw] by (cases Ls) auto
  obtain M R where bw: "backward (Suc i) Ls = M # R" and len: "length (M # R) = Suc d"
    using tv by (cases "backward (Suc i) Ls") (auto simp: tree_values_def)
  define M' where "M' = map (fix_score (Suc i)) M"
  let ?P = "foldl (lift_score (Suc i)) L' M'"
  have "map (settled (Suc i)) (map (\<lambda>nd. score (nextState nd)) M) =
      map (settled (Suc i)) (map (\<lambda>nd. minimax fg bf d (Suc i) (nextState nd)) nxt)"
    using tv by (simp add: tree_values_def bw)
  then have val: "map (\<lambda>nd. score (nextState nd)) M' =
      map (\<lambda>nd. settled (Suc i) (minimax fg bf d (Suc i) (nextState nd))) nxt"
    by (simp add: M'_def comp_def score_fix_score)
  have par: "map parent M' = map parent nxt"
    using tv by (simp add: tree_values_def bw M'_def comp_def score_fix_score)
  have pP: "map parent ?P = map parent L"
    unfolding fold_lift_parent by (simp add: L'_def rescored_def comp_def)
  have "score (nextState (?P ! k)) = minimax fg bf (Suc d) i (nextState (L ! k))" if "k < length L" for k
  proof -
    have "map (\<lambda>nd. score (nextState nd)) (filter (\<lambda>nd. parent nd = Some k) M') =
        map (\<lambda>nd. settled (Suc i) (minimax fg bf d (Suc i) (nextState nd))) (filter (\<lambda>nd. parent nd = Some k) nxt)"
      using par val by (rule map_filter_cong)
    also have "filter (\<lambda>nd. parent nd = Some k) nxt = child_nodes fg bf (Suc i) (k, L ! k)"
      using that by (simp add: nxt_def filter_children)
    finally show ?thesis
      using that by (simp add: fold_lift_score L'_def rescored_def child_nodes_def comp_def)
  qed
  moreover have "length ?P = length L" using pP by (rule map_eq_imp_length_eq)
  ultimately have "map (\<lambda>nd. score (nextState nd)) ?P = map (\<lambda>nd. minimax fg bf (Suc d) i (nextState nd)) L"
    by (simp add: list_eq_iff_nth_eq)
  then have "tree_values fg bf (Suc d) i L (backward i (L' # Ls))"
    using pP bw len by (simp add: tree_values_def Ls M'_def Let_def)
  then show ?case using step fw by auto
qed

lemma keep_layers_length: "length (keep_layers sc i onPath Ls) = length Ls"
  by (induction Ls arbitrary: i onPath) (simp_all add: Let_def)

text \<open>\<open>evaluate\<close> returns, and the score it returns is the min-max value of the position.\<close>

lemma evaluate_minimax:
  assumes "bfs_ok bf b"
  obtains tree where "evaluate fg bf d b = Inr (minimax fg bf d 0 b, tree)" and "length tree = Suc d"
proof -
  let ?L = "[\<lparr>parent = None, nextState = b\<rparr>]"
  have "\<forall>nd \<in> set ?L. bfs_ok (mover bf (Suc 0)) (nextState nd)" using assms by (simp add: mover_def)
  from forward_backward [OF this, of fg d] obtain Ls where
    fw: "forward fg bf d 0 ?L = Inr Ls" and tv: "tree_values fg bf d 0 ?L (backward 0 Ls)" by blast
  obtain nd R where bw: "backward 0 Ls = [nd] # R" and "score (nextState nd) = minimax fg bf d 0 b" "length R = d"
    using tv by (cases "backward 0 Ls") (auto simp: tree_values_def)
  then have "evaluate fg bf d b =
      Inr (minimax fg bf d 0 b, [(0, nd)] # keep_layers (minimax fg bf d 0 b) 1 [0] R)"
    using assms fw by (simp add: evaluate_def bfs_ok_def Let_def)
  then show ?thesis using that \<open>length R = d\<close> by (simp add: keep_layers_length)
qed

section \<open>Two plies\<close>

lemma states_of_score: "s \<in> set (states_of b p m) \<Longrightarrow> score s = score b"
  by (auto simp: states_of_def Let_def board_simps split: if_splits)

lemma kids_score: "s \<in> set (kids fg c b) \<Longrightarrow> score s = score b"
  using states_of_score by (fastforce simp: kids_def)

definition stalled :: "flags \<Rightarrow> bool \<Rightarrow> board \<Rightarrow> bool" where
  "stalled fg bf s \<longleftrightarrow> \<not> isChecked s (\<not> bf) \<and> kids fg (\<not> bf) (scored bf 2 s) = []"

lemma foldl_min_const: "(\<And>x. x \<in> set xs \<Longrightarrow> f x = c) \<Longrightarrow>
    foldl min a (map f xs) = (if xs = [] then a else min a (c :: int))"
  by (induction xs arbitrary: a) auto

lemma score_op_eq: "score_op (Suc 0) = max" "score_op 2 = min"
  by (simp_all add: score_op_def fun_eq_iff)

lemma minimax_reply:
  "minimax fg bf (Suc 0) (Suc 0) s =
    (if isChecked s (\<not> bf) then CHECKMATE else if stalled fg bf s then 1 + CHECKMATE else STALLMATE)"
proof -
  have "settled 2 (score t) = (if isChecked s (\<not> bf) then 100 else - 2)"
    if "t \<in> set (kids fg (mover bf 2) (scored bf 2 s))" for t
    using kids_score [OF that] by (simp add: settled_def expand_score_def)
  then have "foldl min a (map (\<lambda>t. settled 2 (score t)) (kids fg (mover bf 2) (scored bf 2 s))) =
      (if kids fg (mover bf 2) (scored bf 2 s) = [] then a else min a (if isChecked s (\<not> bf) then 100 else - 2))" for a
    by (rule foldl_min_const)
  then show ?thesis
    unfolding minimax.simps numeral_2_eq_2 [symmetric] score_op_eq
    by (simp add: expand_score_def stalled_def mover_def)
qed

lemma foldl_max_eq: "foldl max (a :: int) xs = Max (set (a # xs))"
proof -
  have "(\<lambda>x s. max s x) = (max :: int \<Rightarrow> int \<Rightarrow> int)" by (simp add: fun_eq_iff max.commute)
  then show ?thesis by (simp only: foldl_conv_fold Max.set_eq_fold)
qed

text \<open>
  A search of two plies answers \<open>1 + CHECKMATE\<close> when some move stalemates the opponent, and
  otherwise \<open>CHECKMATE\<close> when some move gives check, whether or not it is mate.
\<close>

lemma minimax_two:
  fixes fg :: flags
  assumes "bfs_ok bf b"
  defines "K \<equiv> set (kids fg bf (scored bf 1 b))"
  shows "minimax fg bf 2 0 b =
    (if \<exists>s \<in> K. stalled fg bf s then 1 + CHECKMATE
     else if \<exists>s \<in> K. isChecked s (\<not> bf) then CHECKMATE
     else max (if isChecked b bf then - CHECKMATE else NONE) (if K = {} then - CHECKMATE else STALLMATE))"
proof -
  let ?v = "\<lambda>s. if isChecked s (\<not> bf) then 100 else if stalled fg bf s then 101 else (- 2 :: int)"
  let ?a = "if isChecked b bf then - 100 else (0 :: int)"
  have fin: "finite K" by (simp add: K_def)
  have "minimax fg bf 2 0 b = foldl max ?a (map ?v (kids fg bf (scored bf 1 b)))"
  proof -
    have "minimax fg bf 2 0 b = minimax fg bf (Suc (Suc 0)) 0 b" by (simp only: numeral_2_eq_2)
    also have "\<dots> = foldl max (expand_score b bf 1)
        (map (\<lambda>s. minimax fg bf (Suc 0) (Suc 0) s) (kids fg bf (scored bf 1 b)))"
      unfolding minimax.simps(2) [of fg bf "Suc 0" 0] by (simp add: score_op_eq settled_def mover_def del: minimax.simps)
    also have "expand_score b bf 1 = ?a" using assms(1) by (simp add: expand_score_def bfs_ok_def)
    finally show ?thesis unfolding minimax_reply by (simp cong: if_cong)
  qed
  also have "\<dots> = Max (insert ?a (?v ` K))"
    unfolding foldl_max_eq by (simp add: K_def)
  also have "\<dots> = (if \<exists>s \<in> K. stalled fg bf s then 101 else if \<exists>s \<in> K. isChecked s (\<not> bf) then 100
      else max ?a (if K = {} then - 100 else - 2))"
  proof (cases "\<exists>s \<in> K. stalled fg bf s")
    case True
    then obtain s where "s \<in> K" "\<not> isChecked s (\<not> bf)" "stalled fg bf s" by (auto simp: stalled_def)
    then have "101 \<in> ?v ` K" by (intro rev_image_eqI [of s]) simp_all
    then have "Max (insert ?a (?v ` K)) = 101" using fin by (intro Max_eqI) auto
    with True show ?thesis by simp
  next
    case False
    then have v: "?v ` K = (\<lambda>s. if isChecked s (\<not> bf) then 100 else - 2) ` K" by (auto simp: image_iff)
    show ?thesis
    proof (cases "\<exists>s \<in> K. isChecked s (\<not> bf)")
      case True
      then have "100 \<in> ?v ` K" unfolding v by force
      then have "Max (insert ?a (?v ` K)) = 100" using fin unfolding v by (intro Max_eqI) auto
      with True False show ?thesis by simp
    next
      case none: False
      then have "?v ` K = (if K = {} then {} else {- 2})" unfolding v by auto
      with none False show ?thesis by auto
    qed
  qed
  finally show ?thesis by simp
qed

section \<open>The program\<close>

text \<open>\<open>checkmate.cc\<close>: the messages are those logged before the tree is printed.\<close>

datatype verdict_msg = Wins bool | Loses bool | NoSolutionWithin nat

definition checkmate_main ::
  "flags \<Rightarrow> (int \<Rightarrow> ptype) \<Rightarrow> string option \<Rightarrow> string \<Rightarrow> nat \<Rightarrow> (verdict_msg \<times> string result) result" where
  "checkmate_main fg out file first moves =
     (let black = (first = ''black'')
      in rbind (load_Board out file) (\<lambda>b.
         rbind (evaluate fg black (moves * 2) b) (\<lambda>(sc, solution).
           Inr (if sc = CHECKMATE then Wins black else if sc = - CHECKMATE then Loses black else NoSolutionWithin moves,
                printSolutionTree solution))))"

end
