(* ===== verification/Spooky_Stream.thy ===== *)
theory Spooky_Stream
  imports Checksum
begin

text \<open>
  What the two versions of \<open>folly::hash::SpookyHash\<close> share: the twelve hash variables, memory
  seen as bytes, the state object of a streamed hash, and the contract between the one-shot
  function and the \<open>Init\<close>/\<open>Update\<close>/\<open>Final\<close> interface, stated and used once as the locale
  \<open>spooky_stream\<close>. The machine is little-endian and allows unaligned reads
  (\<open>ALLOW_UNALIGNED_READS\<close> is 1). A message with its length is the list of its bytes.
\<close>

section \<open>Variables and memory\<close>

type_synonym bytes = "u8 list"
type_synonym vars = "u64 \<times> u64 \<times> u64 \<times> u64 \<times> u64 \<times> u64 \<times> u64 \<times> u64 \<times> u64 \<times> u64 \<times> u64 \<times> u64"
type_synonym quad = "u64 \<times> u64 \<times> u64 \<times> u64"

text \<open>\<open>u.p64[i]\<close>, \<open>u.p32[i]\<close> and \<open>u.p8[i]\<close>, widened to 64 bits.\<close>

definition p64 :: "bytes \<Rightarrow> nat \<Rightarrow> u64" where
  "p64 p i = le_bytes (take 8 (drop (8 * i) p))"

definition p32 :: "bytes \<Rightarrow> nat \<Rightarrow> u64" where
  "p32 p i = le_bytes (take 4 (drop (4 * i) p))"

definition p8 :: "bytes \<Rightarrow> nat \<Rightarrow> u64" where
  "p8 p i = le_bytes (take 1 (drop i p))"

definition memcpy :: "bytes \<Rightarrow> nat \<Rightarrow> bytes \<Rightarrow> bytes" where
  "memcpy dst off src = take off dst @ src @ drop (off + length src) dst"

definition memset0 :: "bytes \<Rightarrow> nat \<Rightarrow> nat \<Rightarrow> bytes" where
  "memset0 dst off n = memcpy dst off (replicate n 0)"

text \<open>The loop over \<open>n\<close> whole blocks from \<open>p\<close> on; it leaves the pointer at \<open>drop (96 * n) p\<close>.\<close>

fun blocks :: "(bytes \<Rightarrow> vars \<Rightarrow> vars) \<Rightarrow> nat \<Rightarrow> bytes \<Rightarrow> vars \<Rightarrow> vars" where
  "blocks mix 0 p v = v"
| "blocks mix (Suc n) p v = blocks mix n (drop 96 p) (mix p v)"

text \<open>The object: \<open>m_data\<close> as its 192 bytes.\<close>

record spooky =
  m_data :: bytes
  m_state :: vars
  m_length :: u64
  m_remainder :: u8

definition state01 :: "vars \<Rightarrow> u64 \<times> u64" where
  "state01 = (\<lambda>(h0, h1, _). (h0, h1))"

definition set_state01 :: "u64 \<Rightarrow> u64 \<Rightarrow> vars \<Rightarrow> vars" where
  "set_state01 seed1 seed2 = (\<lambda>(_, _, hs). (seed1, seed2, hs))"

lemma state01_set [simp]: "state01 (set_state01 a b v) = (a, b)"
  by (cases v) (simp add: state01_def set_state01_def)

lemma p64_take: "8 * i + 8 \<le> n \<Longrightarrow> p64 (take n p) i = p64 p i"
  by (simp add: p64_def drop_take min_def)

lemma length_memcpy [simp]:
  "off + length src \<le> length dst \<Longrightarrow> length (memcpy dst off src) = length dst"
  by (simp add: memcpy_def)

lemma take_memcpy: "off \<le> length dst \<Longrightarrow> take (off + length src) (memcpy dst off src) = take off dst @ src"
  by (simp add: memcpy_def)

lemma take_memcpy_before: "k \<le> off \<Longrightarrow> off \<le> length dst \<Longrightarrow> take k (memcpy dst off src) = take k dst"
  by (simp add: memcpy_def min_def)

lemma take_drop_whole: "96 * (length p div 96) \<le> length p"
  by simp

lemma unat_of_nat_small: "n < 2 ^ LENGTH('a) \<Longrightarrow> unat (of_nat n :: 'a :: len word) = n"
  by (simp add: unsigned_of_nat take_bit_nat_eq_self)

section \<open>Blocks of a concatenation\<close>

definition stash :: "spooky \<Rightarrow> bytes" where
  "stash s = take (unat (m_remainder s)) (m_data s)"

definition block_local :: "(bytes \<Rightarrow> vars \<Rightarrow> vars) \<Rightarrow> bool" where
  "block_local mix \<longleftrightarrow> (\<forall>p v. mix (take 96 p) v = mix p v)"

lemma block_localD: "block_local mix \<Longrightarrow> take 96 p = take 96 q \<Longrightarrow> mix p v = mix q v"
  unfolding block_local_def by metis

lemma block_localE: "block_local mix \<Longrightarrow> mix (take 96 p) v = mix p v"
  unfolding block_local_def by blast

lemma word_fits: "i < 12 \<Longrightarrow> 8 * i + 8 \<le> (96 :: nat)"
  by simp

lemma unat_stashed: "n < 192 \<Longrightarrow> unat (of_nat n :: u8) = n"
  by (rule unat_of_nat_small) simp

lemma blocks_cong:
  assumes "block_local mix" "take (96 * n) p = take (96 * n) q"
  shows "blocks mix n p v = blocks mix n q v"
  using assms(2)
proof (induction n arbitrary: p q v)
  case (Suc n)
  have "take 96 p = take 96 q"
    using arg_cong [OF Suc.prems, of "take 96"] by (simp add: min_def)
  moreover have "take (96 * n) (drop 96 p) = take (96 * n) (drop 96 q)"
    using arg_cong [OF Suc.prems, of "drop 96"] by (simp add: drop_take)
  ultimately show ?case using Suc.IH block_localD [OF assms(1)] by (metis blocks.simps(2))
qed simp

lemma blocks_add: "blocks mix (m + n) p v = blocks mix n (drop (96 * m) p) (blocks mix m p v)"
  by (induction m arbitrary: p v) (simp_all add: add.commute)

lemma blocks_two: "blocks mix 2 p v = mix (drop 96 p) (mix p v)"
  by (simp add: numeral_2_eq_2)

text \<open>Mixing a full buffer and then the rest of the message mixes their concatenation.\<close>

lemma blocks_append:
  assumes "block_local mix" "length xs = 96 * m"
  shows "blocks mix n ys (blocks mix m xs v) = blocks mix (m + n) (xs @ ys) v"
  using assms blocks_cong [OF assms(1), of m xs "xs @ ys"] by (simp add: blocks_add)

section \<open>The buffer\<close>

text \<open>The last partial block, padded with zeros and its length in the last byte.\<close>

definition last_block :: "bytes \<Rightarrow> bytes" where
  "last_block rest = (rest @ replicate (96 - length rest) 0)[95 := of_nat (length rest)]"

text \<open>What \<open>Update\<close> mixes when it fills up a buffer that holds \<open>r > 0\<close> bytes.\<close>

lemma refill:
  assumes "length data = 192" "r < 192" "192 \<le> length m + r"
    and full: "full = memcpy data r (take (192 - r) m)" and p: "p = drop (192 - r) m"
  shows "length full = 192" "length (take r data @ m) div 96 = 2 + length p div 96"
    "block_local mix \<Longrightarrow> blocks mix (length p div 96) p (mix (drop 96 full) (mix full v)) =
       blocks mix (length (take r data @ m) div 96) (take r data @ m) v"
    "drop (96 * (length (take r data @ m) div 96)) (take r data @ m) = drop (96 * (length p div 96)) p"
proof -
  have f: "full = take r data @ take (192 - r) m" and len: "length full = 192"
    using assms by (simp_all add: memcpy_def)
  then have all: "take r data @ m = full @ p" using p by simp
  show "length full = 192" by (rule len)
  show d: "length (take r data @ m) div 96 = 2 + length p div 96" unfolding all using len by simp
  show "blocks mix (length p div 96) p (mix (drop 96 full) (mix full v)) =
       blocks mix (length (take r data @ m) div 96) (take r data @ m) v" if "block_local mix"
    unfolding d unfolding all blocks_two [symmetric] using len by (intro blocks_append [OF that]) simp
  show "drop (96 * (length (take r data @ m) div 96)) (take r data @ m) = drop (96 * (length p div 96)) p"
    unfolding d unfolding all using len by simp
qed

text \<open>What \<open>Final\<close> makes of the buffer.\<close>

lemma padded:
  assumes "length data = 192" "r < 192" "off = 96 * (r div 96)"
    and pad: "pad = (memset0 data r (off + 96 - r))[off + 95 := w]"
  shows "length pad = 192" "take r pad = take r data"
    "w = of_nat (r - off) \<Longrightarrow> take 96 (drop off pad) = last_block (drop off (take r data))"
proof -
  have off: "off \<le> r" "r < off + 96" "off + 96 \<le> 192" using assms(2,3) by auto
  show "length pad = 192" using assms(1) off by (simp add: pad memset0_def)
  show "take r pad = take r data"
    using assms(1) off by (simp add: pad memset0_def memcpy_def)
  have "take 96 (drop off (memset0 data r (off + 96 - r))) = drop off (take r data) @ replicate (off + 96 - r) 0"
    using assms(1) off by (simp add: memset0_def memcpy_def drop_take)
  moreover have "take 96 (drop off pad) = (take 96 (drop off (memset0 data r (off + 96 - r))))[95 := w]"
    by (simp add: pad drop_update_swap take_update_swap)
  ultimately show "take 96 (drop off pad) = last_block (drop off (take r data))" if "w = of_nat (r - off)"
    using that assms(1) off by (simp add: last_block_def add.commute)
qed

section \<open>The streaming contract\<close>

datatype stream_call = CallUpdate bytes | CallFinal

fun message_of :: "stream_call list \<Rightarrow> bytes" where
  "message_of [] = []"
| "message_of (CallUpdate m # cs) = m @ message_of cs"
| "message_of (CallFinal # cs) = message_of cs"

fun run_calls :: "(bytes \<Rightarrow> spooky \<Rightarrow> spooky) \<Rightarrow> (spooky \<Rightarrow> (u64 \<times> u64) \<times> spooky) \<Rightarrow>
    stream_call list \<Rightarrow> spooky \<Rightarrow> spooky" where
  "run_calls upd fin [] s = s"
| "run_calls upd fin (CallUpdate m # cs) s = run_calls upd fin cs (upd m s)"
| "run_calls upd fin (CallFinal # cs) s = run_calls upd fin cs (snd (fin s))"

definition object_ok :: "spooky \<Rightarrow> bool" where
  "object_ok s \<longleftrightarrow> length (m_data s) = 192 \<and> unat (m_remainder s) < 192"

text \<open>
  \<open>start\<close> spreads two seeds over the variables, \<open>finish\<close> pads and mixes the last partial block.
  What \<open>Update\<close> and \<open>Final\<close> leave in the buffer past the stash is not fixed.
\<close>

locale spooky_stream =
  fixes mix :: "bytes \<Rightarrow> vars \<Rightarrow> vars"
    and start :: "u64 \<times> u64 \<Rightarrow> vars"
    and finish :: "bytes \<Rightarrow> vars \<Rightarrow> u64 \<times> u64"
    and short :: "bytes \<Rightarrow> u64 \<times> u64 \<Rightarrow> u64 \<times> u64"
    and hash128 :: "bytes \<Rightarrow> u64 \<times> u64 \<Rightarrow> u64 \<times> u64"
    and init :: "u64 \<Rightarrow> u64 \<Rightarrow> spooky \<Rightarrow> spooky"
    and update :: "bytes \<Rightarrow> spooky \<Rightarrow> spooky"
    and final :: "spooky \<Rightarrow> (u64 \<times> u64) \<times> spooky"
  assumes mix_local: "block_local mix"
    and hash_short: "length m < 192 \<Longrightarrow> hash128 m sd = short m sd"
    and hash_long: "192 \<le> length m \<Longrightarrow> hash128 m sd =
          finish (drop (96 * (length m div 96)) m) (blocks mix (length m div 96) m (start sd))"
    and init_law: "init a b s = s\<lparr>m_length := 0, m_remainder := 0, m_state := set_state01 a b (m_state s)\<rparr>"
    and update_short: "object_ok s \<Longrightarrow> length m + unat (m_remainder s) < 192 \<Longrightarrow>
          object_ok (update m s) \<and> stash (update m s) = stash s @ m \<and> m_state (update m s) = m_state s \<and>
          m_length (update m s) = of_nat (length m) + m_length s"
    and update_long: "object_ok s \<Longrightarrow> 192 \<le> length m + unat (m_remainder s) \<Longrightarrow>
          object_ok (update m s) \<and>
          stash (update m s) = drop (96 * (length (stash s @ m) div 96)) (stash s @ m) \<and>
          m_state (update m s) = blocks mix (length (stash s @ m) div 96) (stash s @ m)
            (if m_length s < 192 then start (state01 (m_state s)) else m_state s) \<and>
          m_length (update m s) = of_nat (length m) + m_length s"
    and final_short: "m_length s < 192 \<Longrightarrow>
          final s = (short (take (unat (m_length s)) (m_data s)) (state01 (m_state s)), s)"
    and final_long: "object_ok s \<Longrightarrow> 192 \<le> m_length s \<Longrightarrow>
          fst (final s) = finish (drop (96 * (length (stash s) div 96)) (stash s))
            (blocks mix (length (stash s) div 96) (stash s) (m_state s)) \<and>
          object_ok (snd (final s)) \<and> stash (snd (final s)) = stash s \<and>
          m_state (snd (final s)) = m_state s \<and> m_length (snd (final s)) = m_length s"
begin

text \<open>The object after the message \<open>msg\<close>.\<close>

definition holds :: "u64 \<times> u64 \<Rightarrow> bytes \<Rightarrow> spooky \<Rightarrow> bool" where
  "holds sd msg s \<longleftrightarrow> object_ok s \<and> length msg < 2 ^ 64 \<and> m_length s = of_nat (length msg) \<and>
     (if length msg < 192 then stash s = msg \<and> state01 (m_state s) = sd
      else \<exists>n. 96 * n + length (stash s) = length msg \<and> stash s = drop (96 * n) msg \<and>
             m_state s = blocks mix n msg (start sd))"

lemma length_stash: "object_ok s \<Longrightarrow> length (stash s) = unat (m_remainder s)"
  by (simp add: object_ok_def stash_def)

lemma len64: "2 ^ 64 = (2 :: nat) ^ LENGTH(64)"
  by simp

lemma length_cases: "length msg < 2 ^ 64 \<Longrightarrow> (of_nat (length msg) < (192 :: u64)) = (length msg < 192)"
  by (simp add: word_less_nat_alt unat_of_nat_small)

lemma holds_init: "length (m_data s) = 192 \<Longrightarrow> holds (a, b) [] (init a b s)"
  by (simp add: holds_def init_law object_ok_def stash_def)

lemma holds_update:
  assumes h: "holds sd msg s" and len: "length msg + length m < 2 ^ 64"
  shows "holds sd (msg @ m) (update m s)"
proof -
  have ok: "object_ok s" and ml: "m_length s = of_nat (length msg)" and lt: "length msg < 2 ^ 64"
    using h by (auto simp: holds_def)
  have ml': "of_nat (length m) + m_length s = of_nat (length (msg @ m))" using ml by simp
  show ?thesis
  proof (cases "length m + unat (m_remainder s) < 192")
    case True
    note u = update_short [OF ok True]
    show ?thesis
    proof (cases "length msg < 192")
      case short: True
      with h have "stash s = msg" "state01 (m_state s) = sd" by (auto simp: holds_def)
      with True length_stash [OF ok] u ml' len show ?thesis by (simp add: holds_def)
    next
      case False
      with h obtain n where "96 * n + length (stash s) = length msg" "stash s = drop (96 * n) msg"
        "m_state s = blocks mix n msg (start sd)" by (auto simp: holds_def)
      moreover from this have "blocks mix n msg (start sd) = blocks mix n (msg @ m) (start sd)"
        by (intro blocks_cong [OF mix_local]) simp
      ultimately show ?thesis using u ml' len False
        by (auto simp: holds_def intro!: exI [of _ n])
    qed
  next
    case False
    then have big: "192 \<le> length m + unat (m_remainder s)" by simp
    note u = update_long [OF ok big]
    define k where "k = length (stash s @ m) div 96"
    obtain n where n: "96 * n + length (stash s) = length msg" "stash s = drop (96 * n) msg"
      "(if m_length s < 192 then start (state01 (m_state s)) else m_state s) = blocks mix n msg (start sd)"
      using h length_cases [OF lt] ml by (cases "length msg < 192") (auto simp: holds_def intro: that [of 0])
    have *: "drop (96 * n) (msg @ m) = stash s @ m" using n(1,2) by simp
    have "blocks mix n msg (start sd) = blocks mix n (msg @ m) (start sd)"
      using n(1) by (intro blocks_cong [OF mix_local]) simp
    then have "m_state (update m s) = blocks mix (n + k) (msg @ m) (start sd)"
      unfolding blocks_add * using u n(3) by (simp add: k_def)
    moreover have "drop (96 * (n + k)) (msg @ m) = drop (96 * k) (drop (96 * n) (msg @ m))"
      by (simp only: drop_drop add_mult_distrib2 add.commute)
    then have "stash (update m s) = drop (96 * (n + k)) (msg @ m)"
      unfolding * using u by (simp add: k_def)
    moreover have "96 * (n + k) + length (stash (update m s)) = length (msg @ m)"
    proof -
      have "96 * k \<le> length (stash s @ m)" by (simp add: k_def)
      moreover have "length (stash (update m s)) = length (stash s @ m) - 96 * k"
        using u unfolding k_def by (metis length_drop)
      ultimately show ?thesis using n(1) by simp
    qed
    ultimately have ex: "\<exists>n. 96 * n + length (stash (update m s)) = length (msg @ m) \<and>
        stash (update m s) = drop (96 * n) (msg @ m) \<and> m_state (update m s) = blocks mix n (msg @ m) (start sd)"
      by blast
    have "\<not> length (msg @ m) < 192" using big n(1) length_stash [OF ok] by simp
    moreover have "object_ok (update m s)" "m_length (update m s) = of_nat (length (msg @ m))"
      "length (msg @ m) < 2 ^ 64" using u ml' len by simp_all
    ultimately show ?thesis using ex unfolding holds_def by presburger
  qed
qed

lemma holds_final:
  assumes h: "holds sd msg s"
  shows "fst (final s) = hash128 msg sd" "holds sd msg (snd (final s))"
proof -
  have ok: "object_ok s" and ml: "m_length s = of_nat (length msg)" and lt: "length msg < 2 ^ 64"
    using h by (auto simp: holds_def)
  have "fst (final s) = hash128 msg sd \<and> holds sd msg (snd (final s))"
  proof (cases "length msg < 192")
    case True
    have "stash s = msg" "state01 (m_state s) = sd" using h True by (auto simp: holds_def)
    moreover have "take (unat (m_length s)) (m_data s) = stash s"
      using ml lt length_stash [OF ok] \<open>stash s = msg\<close> by (metis stash_def unat_of_nat_small len64)
    ultimately show ?thesis using final_short length_cases [OF lt] ml True h by (simp add: hash_short)
  next
    case False
    then obtain n where n: "96 * n + length (stash s) = length msg" "stash s = drop (96 * n) msg"
      "m_state s = blocks mix n msg (start sd)" using h by (auto simp: holds_def)
    define k where "k = length (stash s) div 96"
    have d: "length msg div 96 = n + k" using n(1) by (simp add: k_def flip: n(1))
    have "192 \<le> m_length s" using length_cases [OF lt] ml False by (simp add: not_less)
    note f = final_long [OF ok this]
    have "fst (final s) = finish (drop (96 * k) (stash s)) (blocks mix k (stash s) (m_state s))"
      using f by (simp add: k_def)
    also have "\<dots> = hash128 msg sd"
      using False n(3) by (simp add: n(2) hash_long d blocks_add) (simp add: add.commute add_mult_distrib2)
    finally show ?thesis using f h by (simp add: holds_def)
  qed
  then show "fst (final s) = hash128 msg sd" "holds sd msg (snd (final s))" by auto
qed

lemma holds_calls:
  assumes "holds sd msg s" "length msg + length (message_of cs) < 2 ^ 64"
  shows "holds sd (msg @ message_of cs) (run_calls update final cs s)"
  using assms
proof (induction cs arbitrary: msg s)
  case Nil
  then show ?case by simp
next
  case (Cons c cs)
  show ?case
  proof (cases c)
    case (CallUpdate m)
    have "holds sd (msg @ m) (update m s)" using Cons.prems CallUpdate by (intro holds_update) auto
    from Cons.IH [OF this] show ?thesis using Cons.prems CallUpdate by simp
  next
    case CallFinal
    from Cons.IH [OF holds_final(2) [OF Cons.prems(1)]] show ?thesis using Cons.prems CallFinal by simp
  qed
qed

text \<open>\<open>Final\<close> after any calls of \<open>Update\<close> and \<open>Final\<close> is the hash of the concatenation.\<close>

lemma streaming:
  assumes "length (m_data s) = 192" "length (message_of cs) < 2 ^ 64"
  shows "fst (final (run_calls update final cs (init a b s))) = hash128 (message_of cs) (a, b)"
proof -
  have "holds (a, b) ([] @ message_of cs) (run_calls update final cs (init a b s))"
    using assms by (intro holds_calls holds_init) auto
  then show ?thesis using holds_final(1) by simp
qed

end

end
