(* ===== verification/Spooky_V2.thy ===== *)
theory Spooky_V2
  imports Spooky_Stream
begin

text \<open>
  \<open>folly/SpookyHashV2.h\<close> and \<open>folly/SpookyHashV2.cpp\<close>: version 2 of the hash, one-shot and
  streamed, and the interpretation of the streaming contract on it. A pointer that moves over
  the message is the list of the bytes from there on.
\<close>

section \<open>Mixing\<close>

definition sc_const_v2 :: u64 where
  "sc_const_v2 = 0xdeadbeefdeadbeef"

definition Rot64_v2 :: "u64 \<Rightarrow> nat \<Rightarrow> u64" where
  "Rot64_v2 x k = push_bit k x OR drop_bit (64 - k) x"

definition Mix_v2 :: "u8 list \<Rightarrow> vars \<Rightarrow> vars" where
  "Mix_v2 data = (\<lambda>(s0, s1, s2, s3, s4, s5, s6, s7, s8, s9, s10, s11).
     (let s0 = s0 + p64 data 0; s2 = s2 XOR s10; s11 = s11 XOR s0; s0 = Rot64_v2 s0 11; s11 = s11 + s1;
          s1 = s1 + p64 data 1; s3 = s3 XOR s11; s0 = s0 XOR s1; s1 = Rot64_v2 s1 32; s0 = s0 + s2;
          s2 = s2 + p64 data 2; s4 = s4 XOR s0; s1 = s1 XOR s2; s2 = Rot64_v2 s2 43; s1 = s1 + s3;
          s3 = s3 + p64 data 3; s5 = s5 XOR s1; s2 = s2 XOR s3; s3 = Rot64_v2 s3 31; s2 = s2 + s4;
          s4 = s4 + p64 data 4; s6 = s6 XOR s2; s3 = s3 XOR s4; s4 = Rot64_v2 s4 17; s3 = s3 + s5;
          s5 = s5 + p64 data 5; s7 = s7 XOR s3; s4 = s4 XOR s5; s5 = Rot64_v2 s5 28; s4 = s4 + s6;
          s6 = s6 + p64 data 6; s8 = s8 XOR s4; s5 = s5 XOR s6; s6 = Rot64_v2 s6 39; s5 = s5 + s7;
          s7 = s7 + p64 data 7; s9 = s9 XOR s5; s6 = s6 XOR s7; s7 = Rot64_v2 s7 57; s6 = s6 + s8;
          s8 = s8 + p64 data 8; s10 = s10 XOR s6; s7 = s7 XOR s8; s8 = Rot64_v2 s8 55; s7 = s7 + s9;
          s9 = s9 + p64 data 9; s11 = s11 XOR s7; s8 = s8 XOR s9; s9 = Rot64_v2 s9 54; s8 = s8 + s10;
          s10 = s10 + p64 data 10; s0 = s0 XOR s8; s9 = s9 XOR s10; s10 = Rot64_v2 s10 22; s9 = s9 + s11;
          s11 = s11 + p64 data 11; s1 = s1 XOR s9; s10 = s10 XOR s11; s11 = Rot64_v2 s11 46; s10 = s10 + s0
      in (s0, s1, s2, s3, s4, s5, s6, s7, s8, s9, s10, s11)))"

definition EndPartial_v2 :: "vars \<Rightarrow> vars" where
  "EndPartial_v2 = (\<lambda>(h0, h1, h2, h3, h4, h5, h6, h7, h8, h9, h10, h11).
     (let h11 = h11 + h1; h2 = h2 XOR h11; h1 = Rot64_v2 h1 44;
          h0 = h0 + h2; h3 = h3 XOR h0; h2 = Rot64_v2 h2 15;
          h1 = h1 + h3; h4 = h4 XOR h1; h3 = Rot64_v2 h3 34;
          h2 = h2 + h4; h5 = h5 XOR h2; h4 = Rot64_v2 h4 21;
          h3 = h3 + h5; h6 = h6 XOR h3; h5 = Rot64_v2 h5 38;
          h4 = h4 + h6; h7 = h7 XOR h4; h6 = Rot64_v2 h6 33;
          h5 = h5 + h7; h8 = h8 XOR h5; h7 = Rot64_v2 h7 10;
          h6 = h6 + h8; h9 = h9 XOR h6; h8 = Rot64_v2 h8 13;
          h7 = h7 + h9; h10 = h10 XOR h7; h9 = Rot64_v2 h9 38;
          h8 = h8 + h10; h11 = h11 XOR h8; h10 = Rot64_v2 h10 53;
          h9 = h9 + h11; h0 = h0 XOR h9; h11 = Rot64_v2 h11 42;
          h10 = h10 + h0; h1 = h1 XOR h10; h0 = Rot64_v2 h0 54
      in (h0, h1, h2, h3, h4, h5, h6, h7, h8, h9, h10, h11)))"

definition End_v2 :: "u8 list \<Rightarrow> vars \<Rightarrow> vars" where
  "End_v2 data = (\<lambda>(h0, h1, h2, h3, h4, h5, h6, h7, h8, h9, h10, h11).
     (let h0 = h0 + p64 data 0; h1 = h1 + p64 data 1; h2 = h2 + p64 data 2; h3 = h3 + p64 data 3;
          h4 = h4 + p64 data 4; h5 = h5 + p64 data 5; h6 = h6 + p64 data 6; h7 = h7 + p64 data 7;
          h8 = h8 + p64 data 8; h9 = h9 + p64 data 9; h10 = h10 + p64 data 10; h11 = h11 + p64 data 11
      in EndPartial_v2 (EndPartial_v2 (EndPartial_v2 (h0, h1, h2, h3, h4, h5, h6, h7, h8, h9, h10, h11)))))"

definition ShortMix_v2 :: "quad \<Rightarrow> quad" where
  "ShortMix_v2 = (\<lambda>(h0, h1, h2, h3).
     (let h2 = Rot64_v2 h2 50; h2 = h2 + h3; h0 = h0 XOR h2;
          h3 = Rot64_v2 h3 52; h3 = h3 + h0; h1 = h1 XOR h3;
          h0 = Rot64_v2 h0 30; h0 = h0 + h1; h2 = h2 XOR h0;
          h1 = Rot64_v2 h1 41; h1 = h1 + h2; h3 = h3 XOR h1;
          h2 = Rot64_v2 h2 54; h2 = h2 + h3; h0 = h0 XOR h2;
          h3 = Rot64_v2 h3 48; h3 = h3 + h0; h1 = h1 XOR h3;
          h0 = Rot64_v2 h0 38; h0 = h0 + h1; h2 = h2 XOR h0;
          h1 = Rot64_v2 h1 37; h1 = h1 + h2; h3 = h3 XOR h1;
          h2 = Rot64_v2 h2 62; h2 = h2 + h3; h0 = h0 XOR h2;
          h3 = Rot64_v2 h3 34; h3 = h3 + h0; h1 = h1 XOR h3;
          h0 = Rot64_v2 h0 5; h0 = h0 + h1; h2 = h2 XOR h0;
          h1 = Rot64_v2 h1 36; h1 = h1 + h2; h3 = h3 XOR h1
      in (h0, h1, h2, h3)))"

definition ShortEnd_v2 :: "quad \<Rightarrow> quad" where
  "ShortEnd_v2 = (\<lambda>(h0, h1, h2, h3).
     (let h3 = h3 XOR h2; h2 = Rot64_v2 h2 15; h3 = h3 + h2;
          h0 = h0 XOR h3; h3 = Rot64_v2 h3 52; h0 = h0 + h3;
          h1 = h1 XOR h0; h0 = Rot64_v2 h0 26; h1 = h1 + h0;
          h2 = h2 XOR h1; h1 = Rot64_v2 h1 51; h2 = h2 + h1;
          h3 = h3 XOR h2; h2 = Rot64_v2 h2 28; h3 = h3 + h2;
          h0 = h0 XOR h3; h3 = Rot64_v2 h3 9; h0 = h0 + h3;
          h1 = h1 XOR h0; h0 = Rot64_v2 h0 47; h1 = h1 + h0;
          h2 = h2 XOR h1; h1 = Rot64_v2 h1 54; h2 = h2 + h1;
          h3 = h3 XOR h2; h2 = Rot64_v2 h2 32; h3 = h3 + h2;
          h0 = h0 XOR h3; h3 = Rot64_v2 h3 25; h0 = h0 + h3;
          h1 = h1 XOR h0; h0 = Rot64_v2 h0 63; h1 = h1 + h0
      in (h0, h1, h2, h3)))"

section \<open>Short messages\<close>

fun short_blocks_v2 :: "nat \<Rightarrow> bytes \<Rightarrow> quad \<Rightarrow> quad" where
  "short_blocks_v2 0 p v = v"
| "short_blocks_v2 (Suc n) p (a, b, c, d) =
     (let c = c + p64 p 0; d = d + p64 p 1;
          (a, b, c, d) = ShortMix_v2 (a, b, c, d);
          a = a + p64 p 2; b = b + p64 p 3
      in short_blocks_v2 n (drop 32 p) (a, b, c, d))"

text \<open>The \<open>switch\<close> over the last 0 to 15 bytes; its cases fall through down to the next \<open>break\<close>.\<close>

definition short_tail_v2 :: "nat \<Rightarrow> bytes \<Rightarrow> u64 \<Rightarrow> u64 \<Rightarrow> u64 \<times> u64" where
  "short_tail_v2 remainder p c d =
     (if 12 \<le> remainder then
        (let d = (if 15 \<le> remainder then d + push_bit 48 (p8 p 14) else d);
             d = (if 14 \<le> remainder then d + push_bit 40 (p8 p 13) else d);
             d = (if 13 \<le> remainder then d + push_bit 32 (p8 p 12) else d);
             d = d + p32 p 2; c = c + p64 p 0
         in (c, d))
      else if 8 \<le> remainder then
        (let d = (if 11 \<le> remainder then d + push_bit 16 (p8 p 10) else d);
             d = (if 10 \<le> remainder then d + push_bit 8 (p8 p 9) else d);
             d = (if 9 \<le> remainder then d + p8 p 8 else d);
             c = c + p64 p 0
         in (c, d))
      else if 4 \<le> remainder then
        (let c = (if 7 \<le> remainder then c + push_bit 48 (p8 p 6) else c);
             c = (if 6 \<le> remainder then c + push_bit 40 (p8 p 5) else c);
             c = (if 5 \<le> remainder then c + push_bit 32 (p8 p 4) else c);
             c = c + p32 p 0
         in (c, d))
      else if 1 \<le> remainder then
        (let c = (if 3 \<le> remainder then c + push_bit 16 (p8 p 2) else c);
             c = (if 2 \<le> remainder then c + push_bit 8 (p8 p 1) else c);
             c = c + p8 p 0
         in (c, d))
      else (c + sc_const_v2, d + sc_const_v2))"

definition Short_v2 :: "bytes \<Rightarrow> u64 \<times> u64 \<Rightarrow> u64 \<times> u64" where
  "Short_v2 message = (\<lambda>(hash1, hash2).
     (let len = length message; remainder = len mod 32;
          (v, p, remainder) =
            (if 15 < len then
               (let v = short_blocks_v2 (len div 32) message (hash1, hash2, sc_const_v2, sc_const_v2);
                    p = drop (32 * (len div 32)) message
                in if 16 \<le> remainder then
                     (let (a, b, c, d) = v; c = c + p64 p 0; d = d + p64 p 1
                      in (ShortMix_v2 (a, b, c, d), drop 16 p, remainder - 16))
                   else (v, p, remainder))
             else ((hash1, hash2, sc_const_v2, sc_const_v2), message, remainder));
          (a, b, c, d) = v;
          d = d + push_bit 56 (of_nat len);
          (c, d) = short_tail_v2 remainder p c d;
          (a, b, c, d) = ShortEnd_v2 (a, b, c, d)
      in (a, b)))"

section \<open>One call\<close>

definition start_v2 :: "u64 \<times> u64 \<Rightarrow> vars" where
  "start_v2 = (\<lambda>(h0, h1). (h0, h1, sc_const_v2, h0, h1, sc_const_v2, h0, h1, sc_const_v2, h0, h1, sc_const_v2))"

definition Hash128_v2 :: "bytes \<Rightarrow> u64 \<times> u64 \<Rightarrow> u64 \<times> u64" where
  "Hash128_v2 message hashes =
     (if length message < 192 then Short_v2 message hashes
      else
        let h = blocks Mix_v2 (length message div 96) message (start_v2 hashes);
            endp = drop (96 * (length message div 96)) message;
            remainder = length endp;
            buf = endp @ replicate (96 - remainder) 0;
            buf = buf[95 := of_nat remainder];
            h = End_v2 buf h
        in state01 h)"

definition Hash64_v2 :: "bytes \<Rightarrow> u64 \<Rightarrow> u64" where
  "Hash64_v2 message seed = fst (Hash128_v2 message (seed, seed))"

definition Hash32_v2 :: "bytes \<Rightarrow> u32 \<Rightarrow> u32" where
  "Hash32_v2 message seed = ucast (fst (Hash128_v2 message (ucast seed, ucast seed)))"

section \<open>Streaming\<close>

definition Init_v2 :: "u64 \<Rightarrow> u64 \<Rightarrow> spooky \<Rightarrow> spooky" where
  "Init_v2 seed1 seed2 s =
     s\<lparr>m_length := 0, m_remainder := 0, m_state := set_state01 seed1 seed2 (m_state s)\<rparr>"

definition Update_v2 :: "bytes \<Rightarrow> spooky \<Rightarrow> spooky" where
  "Update_v2 message s =
     (let rem = unat (m_remainder s); newLength = length message + rem
      in if newLength < 192 then
           s\<lparr>m_data := memcpy (m_data s) rem message,
             m_length := of_nat (length message) + m_length s, m_remainder := of_nat newLength\<rparr>
         else
           let h = (if m_length s < 192 then start_v2 (state01 (m_state s)) else m_state s);
               newTotal = of_nat (length message) + m_length s;
               (data, h, p) =
                 (if rem \<noteq> 0 then
                    (let prefix = 192 - rem;
                         data = memcpy (m_data s) rem (take prefix message);
                         h = Mix_v2 data h;
                         h = Mix_v2 (drop 96 data) h
                     in (data, h, drop prefix message))
                  else (m_data s, h, message));
               endp = drop (96 * (length p div 96)) p;
               h = blocks Mix_v2 (length p div 96) p h
           in s\<lparr>m_data := memcpy data 0 endp, m_state := h, m_length := newTotal,
                m_remainder := of_nat (length endp)\<rparr>)"

definition Final_v2 :: "spooky \<Rightarrow> (u64 \<times> u64) \<times> spooky" where
  "Final_v2 s =
     (if m_length s < 192 then
        (Short_v2 (take (unat (m_length s)) (m_data s)) (state01 (m_state s)), s)
      else
        let remainder = unat (m_remainder s);
            (off, h, remainder) =
              (if 96 \<le> remainder then (96, Mix_v2 (m_data s) (m_state s), remainder - 96)
               else (0, m_state s, remainder));
            data = memset0 (m_data s) (off + remainder) (96 - remainder);
            data = data[off + 95 := of_nat remainder];
            h = End_v2 (drop off data) h
        in (state01 h, s\<lparr>m_data := data\<rparr>))"

section \<open>The contract\<close>

definition finish_v2 :: "bytes \<Rightarrow> vars \<Rightarrow> u64 \<times> u64" where
  "finish_v2 rest h = state01 (End_v2 (last_block rest) h)"

lemma Mix_v2_local: "block_local Mix_v2"
  unfolding block_local_def Mix_v2_def by (simp only: p64_take [OF word_fits] simp_thms)

lemma End_v2_local: "block_local End_v2"
  unfolding block_local_def End_v2_def by (simp only: p64_take [OF word_fits] simp_thms)

lemma Update_v2_short:
  assumes "object_ok s" "length m + unat (m_remainder s) < 192"
  shows "object_ok (Update_v2 m s) \<and> stash (Update_v2 m s) = stash s @ m \<and>
    m_state (Update_v2 m s) = m_state s \<and> m_length (Update_v2 m s) = of_nat (length m) + m_length s"
  using assms take_memcpy [of "unat (m_remainder s)" "m_data s" m] unat_stashed [OF assms(2)]
  by (simp add: Update_v2_def Let_def object_ok_def stash_def add.commute)

lemma Update_v2_long:
  assumes ok: "object_ok s" and big: "192 \<le> length m + unat (m_remainder s)"
  defines "all \<equiv> stash s @ m"
  shows "object_ok (Update_v2 m s) \<and> stash (Update_v2 m s) = drop (96 * (length all div 96)) all \<and>
    m_state (Update_v2 m s) = blocks Mix_v2 (length all div 96) all
      (if m_length s < 192 then start_v2 (state01 (m_state s)) else m_state s) \<and>
    m_length (Update_v2 m s) = of_nat (length m) + m_length s"
proof -
  let ?r = "unat (m_remainder s)"
  have len: "length (m_data s) = 192" "?r < 192" using ok by (simp_all add: object_ok_def)
  have rest: "length (drop (96 * (length p div 96)) p) < 96" for p :: bytes
    by (simp add: minus_mult_div_eq_mod)
  show ?thesis
  proof (cases "?r = 0")
    case True
    then have "all = m" by (simp add: all_def stash_def)
    define e where "e = drop (96 * (length m div 96)) m"
    have e: "length e < 96" unfolding e_def by (rule rest)
    have "Update_v2 m s = s\<lparr>m_data := memcpy (m_data s) 0 e,
        m_state := blocks Mix_v2 (length all div 96) all
          (if m_length s < 192 then start_v2 (state01 (m_state s)) else m_state s),
        m_length := of_nat (length m) + m_length s, m_remainder := of_nat (length e)\<rparr>"
      using True big by (simp add: Update_v2_def Let_def \<open>all = m\<close> e_def)
    then show ?thesis
      using e \<open>all = m\<close> len take_memcpy [of 0 "m_data s" e]
      by (simp add: object_ok_def stash_def unat_stashed flip: e_def)
  next
    case False
    define full where "full = memcpy (m_data s) ?r (take (192 - ?r) m)"
    define p where "p = drop (192 - ?r) m"
    note re = refill [OF len big full_def p_def]
    have all: "all = take ?r (m_data s) @ m" by (simp add: all_def stash_def)
    define e where "e = drop (96 * (length p div 96)) p"
    have e: "length e < 96" unfolding e_def by (rule rest)
    have "Update_v2 m s = s\<lparr>m_data := memcpy full 0 e,
        m_state := blocks Mix_v2 (length all div 96) all
          (if m_length s < 192 then start_v2 (state01 (m_state s)) else m_state s),
        m_length := of_nat (length m) + m_length s, m_remainder := of_nat (length e)\<rparr>"
      using False big unfolding all re(3) [OF Mix_v2_local, symmetric]
      by (simp add: Update_v2_def Let_def full_def p_def e_def)
    moreover have "drop (96 * (length all div 96)) all = e" unfolding all re(4) e_def ..
    ultimately show ?thesis
      using e re(1) take_memcpy [of 0 full e] by (simp add: object_ok_def stash_def unat_stashed)
  qed
qed

lemma Final_v2_long:
  assumes ok: "object_ok s" and big: "192 \<le> m_length s"
  shows "fst (Final_v2 s) = finish_v2 (drop (96 * (length (stash s) div 96)) (stash s))
      (blocks Mix_v2 (length (stash s) div 96) (stash s) (m_state s)) \<and>
    object_ok (snd (Final_v2 s)) \<and> stash (snd (Final_v2 s)) = stash s \<and>
    m_state (snd (Final_v2 s)) = m_state s \<and> m_length (snd (Final_v2 s)) = m_length s"
proof -
  define r where "r = unat (m_remainder s)"
  define off where "off = 96 * (r div 96)"
  define pad where "pad = (memset0 (m_data s) r (off + 96 - r))[off + 95 := of_nat (r - off)]"
  have len: "length (m_data s) = 192" "r < 192" using ok by (simp_all add: object_ok_def r_def)
  note p = padded [OF len off_def pad_def]
  have st: "stash s = take r (m_data s)" "length (stash s) = r" using len by (simp_all add: stash_def r_def)
  have h: "blocks Mix_v2 (r div 96) (stash s) (m_state s) =
      (if 96 \<le> r then Mix_v2 (m_data s) (m_state s) else m_state s)"
  proof (cases "96 \<le> r")
    case True
    then have "r div 96 = 1" using len(2) by auto
    moreover have "Mix_v2 (stash s) v = Mix_v2 (m_data s) v" for v
      using True by (intro block_localD [OF Mix_v2_local]) (simp add: st)
    ultimately show ?thesis using True by simp
  qed simp
  have off: "off = (if 96 \<le> r then 96 else 0)" using len(2) by (auto simp: off_def)
  have fin: "finish_v2 (drop off (stash s)) v = state01 (End_v2 (drop off pad) v)" for v
    unfolding finish_v2_def st(1) p(3) [OF refl, symmetric] block_localE [OF End_v2_local] ..
  have "\<not> m_length s < 192" using big by (simp add: not_less)
  then have "Final_v2 s = (finish_v2 (drop off (stash s)) (blocks Mix_v2 (r div 96) (stash s) (m_state s)), s\<lparr>m_data := pad\<rparr>)"
    using len(2) unfolding h fin by (simp add: Final_v2_def Let_def pad_def off flip: r_def)
  then show ?thesis
    using p(1,2) len st by (simp add: object_ok_def stash_def off_def flip: r_def)
qed

interpretation v2: spooky_stream Mix_v2 start_v2 finish_v2 Short_v2 Hash128_v2 Init_v2 Update_v2 Final_v2
proof
  show "192 \<le> length m \<Longrightarrow> Hash128_v2 m sd = finish_v2 (drop (96 * (length m div 96)) m)
      (blocks Mix_v2 (length m div 96) m (start_v2 sd))" for m sd
    by (simp add: Hash128_v2_def finish_v2_def last_block_def Let_def)
qed (simp_all only: Mix_v2_local Update_v2_short Update_v2_long Final_v2_long Init_v2_def,
  simp_all add: Hash128_v2_def Final_v2_def)

end
