(* ===== verification/Sample_Run.thy ===== *)
theory Sample_Run
  imports Solver Board_Eval Spooky_V1 Spooky_V2
begin

text \<open>
  A concrete platform, configuration and boards. The platform's functions satisfy what the
  rest of the development asks of them: \<open>std::sort\<close> is an insertion sort, the checksum
  instructions compute the bitwise checksum, rounding is exact. The last section makes the
  definition of a forced mate executable.
\<close>

section \<open>A sort\<close>

fun place_by :: "(nat \<Rightarrow> nat \<Rightarrow> bool) \<Rightarrow> nat \<Rightarrow> nat list \<Rightarrow> nat list" where
  "place_by lt x [] = [x]"
| "place_by lt x (y # ys) = (if lt y x then y # place_by lt x ys else x # y # ys)"

fun insertion :: "(nat \<Rightarrow> nat \<Rightarrow> bool) \<Rightarrow> nat list \<Rightarrow> nat list" where
  "insertion lt [] = []"
| "insertion lt (x # xs) = place_by lt x (insertion lt xs)"

lemma mset_place_by [simp]: "mset (place_by lt x ys) = add_mset x (mset ys)"
  by (induction ys) auto

lemma mset_insertion [simp]: "mset (insertion lt xs) = mset xs"
  by (induction xs) auto

lemma set_place_by [simp]: "set (place_by lt x ys) = insert x (set ys)"
  by (induction ys) auto

lemma sorted_place_by:
  fixes key :: "nat \<Rightarrow> rat"
  assumes "sorted_wrt (\<lambda>x y. key x \<ge> key y) ys"
  shows "sorted_wrt (\<lambda>x y. key x \<ge> key y) (place_by (\<lambda>x y. key x > key y) x ys)"
  using assms by (induction ys) fastforce+

lemma sorted_insertion:
  "sorted_wrt (\<lambda>x y. key x \<ge> (key y :: rat)) (insertion (\<lambda>x y. key x > key y) xs)"
  by (induction xs) (simp_all add: sorted_place_by)

section \<open>Checksum instructions\<close>

definition bytes_of :: "u64 \<Rightarrow> u8 list" where
  "bytes_of w = map (\<lambda>i. ucast (drop_bit (8 * i) w)) [0..<8]"

lemma bit_le_bytes:
  "bit (le_bytes bs) n \<longleftrightarrow> n < 64 \<and> n div 8 < length bs \<and> bit (bs ! (n div 8)) (n mod 8)"
proof (induction bs arbitrary: n)
  case (Cons b bs)
  show ?case
  proof (cases "n < 8")
    case True
    then show ?thesis by (simp add: bit_simps)
  next
    case False
    then have "n div 8 = Suc ((n - 8) div 8)" "(n - 8) mod 8 = n mod 8"
      by (simp_all add: div_if mod_if)
    with False show ?thesis
      using Cons.IH [of "n - 8"] bit_imp_le_length [of b n] by (auto simp: bit_simps)
  qed
qed simp

lemma bytes_of_le_bytes:
  assumes "length bs = 8"
  shows "bytes_of (le_bytes bs) = bs"
proof (rule nth_equalityI)
  fix i assume "i < length (bytes_of (le_bytes bs))"
  then have i: "i < 8" by (simp add: bytes_of_def)
  show "bytes_of (le_bytes bs) ! i = bs ! i"
  proof (rule bit_word_eqI)
    fix k assume "k < LENGTH(8)"
    then show "bit (bytes_of (le_bytes bs) ! i) k = bit (bs ! i) k"
      using i assms by (simp add: bytes_of_def bit_simps bit_le_bytes)
  qed
qed (simp add: bytes_of_def assms)

lemma mirrored_unique:
  assumes "mirrored s r"
  shows "reverse_checksum r = s"
proof (rule bit_word_eqI)
  fix n assume "n < LENGTH(32)"
  then show "bit (reverse_checksum r) n = bit s n"
    using assms reverse_checksum_mirrored [of r] by (simp add: mirrored_def)
qed

section \<open>The platform\<close>

definition sample_cpuid :: cpuid_insn where
  "sample_cpuid leaf sub =
     (if leaf = 0 then \<lparr>eax = 7, ebx = 0x756e6547, ecx = 0x6c65746e, edx = 0x49656e69\<rparr>
      else if leaf = 1 then \<lparr>eax = 0, ebx = 0, ecx = 0x00180201, edx = 0x06000001\<rparr>
      else \<lparr>eax = 0, ebx = 0x00000020, ecx = 0, edx = 0\<rparr>)"

definition sample_platform :: platform where
  "sample_platform = \<lparr>cpuid = sample_cpuid, crc32qi = crc_byte,
     crc32di = (\<lambda>s w. ucast (crc_ref (bytes_of w) (ucast s))),
     boost_crc = (\<lambda>r bs. crc_ref bs (reverse_checksum r)),
     std_hash_u32 = ucast, positions_mask = 0,
     fl = (\<lambda>x. x), exp_float = (\<lambda>x. 1 / (1 - x)), exp_double = (\<lambda>x. 1 / (1 - x)),
     std_sort = insertion\<rparr>"

lemma sample_sort_ok: "sort_ok sample_platform"
  by (simp add: sort_ok_def sample_platform_def sorted_insertion)

lemma sample_float_ok: "float_ok sample_platform"
  by (simp add: float_ok_def sample_platform_def)

lemma sample_crc_ok: "crc_platform_ok (crc_platform.truncate sample_platform)"
  by (auto simp: crc_platform_ok_def sample_platform_def crc_platform.truncate_def bytes_of_le_bytes mirrored_unique)

definition sample_flags :: flags where
  "sample_flags = \<lparr>allow_castling = False, min_store_level = 3\<rparr>"

definition sample_config :: config where
  "sample_config = \<lparr>plat = sample_platform, flag = sample_flags,
     garbage_piece = None, garbage_flags = (False, False), garbage_count = 0\<rparr>"

section \<open>Forced mates\<close>

text \<open>A mate in one from its move; the premises evaluate.\<close>

lemma mate_oneI:
  assumes "on_board b p" "isBlack (type p) = c" "m \<in> set (getMoves fg p b)" "\<not> isChecked (after m b) c"
    and "isChecked (after m b) (\<not> c)" "legal_list fg (\<not> c) (after m b) = []"
  shows "mate fg c (Suc 0) b"
proof -
  have "legal fg c b m" using assms(1-4) by (auto simp: legal_def pseudo_def)
  moreover have "\<not> legal fg (\<not> c) (after m b) m'" for m'
    using assms(6) by (simp flip: set_legal_list)
  ultimately show ?thesis using assms(5) by auto
qed

section \<open>Boards\<close>

text \<open>White mates with the rook on the eighth row.\<close>

definition mate_file :: string where
  "mate_file = ''# white to move'' @ [CHR 0x0A] @ ''ra1'' @ [CHR 0x0A] @ ''kg6'' @ [CHR 0x0A] @ ''Kh8'' @ [CHR 0x0A]"

definition mate_board :: board where
  "mate_board = (case load_Board (\<lambda>_. EMPTY) (Some mate_file) of Inr b \<Rightarrow> b | Inl _ \<Rightarrow> empty_board (\<lambda>_. EMPTY))"

lemma mate_board_loaded: "load_Board (\<lambda>_. EMPTY) (Some mate_file) = Inr mate_board"
proof -
  have "isl (load_Board (\<lambda>_. EMPTY) (Some mate_file)) = False" by code_simp
  then show ?thesis by (cases "load_Board (\<lambda>_. EMPTY) (Some mate_file)") (simp_all add: mate_board_def)
qed

definition mate_rook :: piece where
  "mate_rook = \<lparr>type = W_ROOK, row = 0, col = 0\<rparr>"

definition mate_move :: move where
  "mate_move = new_Move mate_board NORMAL_MOVE (0, 0) (7, 0)"

lemma mate_board_ok: "search_ok False mate_board"
  by code_simp

lemma mate_rook_ok: "on_board mate_board mate_rook" "\<not> isBlack (type mate_rook)"
    "mate_move \<in> set (getMoves sample_flags mate_rook mate_board)"
  by code_simp+

lemma mate_board_mate: "mate sample_flags False (Suc 0) mate_board"
proof (rule mate_oneI)
  show "\<not> isChecked (after mate_move mate_board) False" by code_simp
  show "isChecked (after mate_move mate_board) (\<not> False)" by code_simp
  show "legal_list sample_flags (\<not> False) (after mate_move mate_board) = []" by code_simp
qed (use mate_rook_ok in simp_all)

text \<open>On this board a search of one level finds the mate.\<close>

lemma sample_config_sel [simp]: "plat sample_config = sample_platform" "flag sample_config = sample_flags"
    "min_store_level sample_flags = 3"
  by (simp_all add: sample_config_def sample_flags_def)

lemma mate_board_search:
  obtains r ca where "dfs_search sample_config 1 mate_board False = Inr (CHECKMATE, r, ca)"
proof -
  have env: "search_env sample_config False (round_board sample_flags False mate_board) (Suc 0)"
    using search_env_round [of False mate_board sample_config "Suc 0"] mate_board_ok sample_sort_ok
      hash_adequate_uncached [of "Suc 0" sample_config] by simp
  note ret = dfs_search_returns [OF env round_board.start last_level.child_search_axioms]
  obtain sc r ca where run: "dfs_search sample_config (int (Suc 0)) mate_board False = Inr (sc, r, ca)"
    using ret by (cases "dfs_search sample_config (int (Suc 0)) mate_board False") (auto simp: returns_def)
  have "rmate sample_flags False (Suc 0) None mate_board"
    using mate_board_mate by (simp add: circular_def)
  then have "sc = CHECKMATE" using returnsD [OF ret run] by (simp del: rmate.simps mate.simps)
  with run that show ?thesis by simp
qed

text \<open>White, to move, is stalemated.\<close>

definition stalled_board :: board where
  "stalled_board = board_of [(W_KING, (0, 0)), (B_QUEEN, (2, 1)), (B_KING, (7, 7))]"

lemma stalled_board_ok: "search_ok False stalled_board" "legal_list sample_flags False stalled_board = []"
  by code_simp+

text \<open>White pawn and white king against the king and pawns: double steps, captures, en passant.\<close>

definition pawn_board :: board where
  "pawn_board = (board_of [(W_KING, (0, 0)), (B_KING, (7, 7)), (W_PAWN, (4, 3)), (B_PAWN, (4, 4)), (B_ROOK, (5, 2))])
     \<lparr>lastMove := \<lparr>special = NORMAL_MOVE, from_pos = (6, 4), to_pos = (4, 4), fromType = B_PAWN, toType = EMPTY\<rparr>\<rparr>"

definition pawn :: piece where
  "pawn = \<lparr>type = W_PAWN, row = 4, col = 3\<rparr>"

definition ep_move :: move where
  "ep_move = new_Move pawn_board PAWN_EN_PASSANT (4, 3) (5, 4)"

lemma pawn_board_ok: "search_ok False pawn_board" "board_ok pawn_board" "last_ok pawn_board" "game_ok pawn_board"
    "on_board pawn_board pawn" "\<not> isChecked pawn_board True"
  by code_simp+

lemma ep_move_in: "ep_move \<in> set (getMoves sample_flags pawn pawn_board)"
  by code_simp

text \<open>White can give check with the pawn, but no mate.\<close>

definition check_board :: board where
  "check_board = board_of [(W_KING, (0, 0)), (W_PAWN, (4, 3)), (B_KING, (6, 4))]"

lemma check_board_ok: "bfs_ok False check_board"
  by code_simp

lemma check_board_states:
  "list_ex (stalled sample_flags False) (kids sample_flags False (scored False 1 check_board)) = False"
  "list_ex (\<lambda>s. isChecked s True) (kids sample_flags False (scored False 1 check_board)) = True"
  by code_simp+

text \<open>After every white move the black king can step to \<open>f8\<close>.\<close>

definition king_step :: "board \<Rightarrow> move" where
  "king_step s = new_Move s NORMAL_MOVE (6, 4) (7, 5)"

lemma check_board_reply:
  assumes "legal sample_flags False check_board m"
  shows "legal sample_flags True (after m check_board) (king_step (after m check_board))"
proof -
  let ?k = "\<lparr>type = B_KING, row = 6, col = 4\<rparr>"
  have "list_all (\<lambda>m. on_board (after m check_board) ?k \<and>
      king_step (after m check_board) \<in> set (getMoves sample_flags ?k (after m check_board)) \<and>
      \<not> isChecked (after (king_step (after m check_board)) (after m check_board)) True)
    (legal_list sample_flags False check_board)"
    by code_simp
  moreover have "m \<in> set (legal_list sample_flags False check_board)" using assms by (simp add: set_legal_list)
  ultimately have r: "on_board (after m check_board) ?k"
      "king_step (after m check_board) \<in> set (getMoves sample_flags ?k (after m check_board))"
      "\<not> isChecked (after (king_step (after m check_board)) (after m check_board)) True"
    unfolding list_all_iff by blast+
  have "isBlack (type ?k) = True" by simp
  with r show ?thesis unfolding legal_def pseudo_def by blast
qed

lemma check_board_no_mate: "\<not> mate sample_flags False 1 check_board"
  using check_board_reply by auto

end
