(* ===== verification/Varint.thy ===== *)
theory Varint
  imports Folly_Hash
begin

text \<open>
  \<open>folly/Varint.h\<close>: the variable-length encoding of 64-bit numbers, seven bits to a byte, and
  the zig-zag mapping of signed to unsigned numbers. \<open>encodeVarint\<close> writes through a pointer
  into a buffer that the caller has made large enough; the model keeps the buffer as a list
  and a write past its end is an error, so that the room the code needs is a theorem.
\<close>

section \<open>Encoding\<close>

datatype varint_error = BufferOverrun | InvalidVarint

definition kMaxVarintLength64 :: nat where
  "kMaxVarintLength64 = 10"

definition put_byte :: "u8 list \<Rightarrow> nat \<Rightarrow> u8 \<Rightarrow> varint_error + u8 list" where
  "put_byte buf p b = (if p < length buf then Inr (buf[p := b]) else Inl BufferOverrun)"

lemma drop7_less: "(128 :: u64) \<le> v \<Longrightarrow> unat (drop_bit 7 v) < unat v"
  by (simp add: drop_bit_eq_div word_le_nat_alt unat_div)

function encode_loop :: "u64 \<Rightarrow> u8 list \<Rightarrow> nat \<Rightarrow> varint_error + u64 \<times> u8 list \<times> nat" where
  "encode_loop val buf p =
     (if 128 \<le> val
      then rbind (put_byte buf p (0x80 OR ucast (val AND 0x7f)))
             (\<lambda>buf. encode_loop (drop_bit 7 val) buf (p + 1))
      else Inr (val, buf, p))"
  by pat_completeness auto
termination by (relation "measure (\<lambda>(val, buf, p). unat val)") (auto simp: drop7_less)

declare encode_loop.simps [simp del]

definition encodeVarint :: "u64 \<Rightarrow> u8 list \<Rightarrow> varint_error + u8 list \<times> nat" where
  "encodeVarint val buf =
     rbind (encode_loop val buf 0) (\<lambda>(val, buf, p).
     rbind (put_byte buf p (ucast val)) (\<lambda>buf.
     Inr (buf, p + 1)))"

section \<open>Decoding\<close>

text \<open>
  The bytes are read as \<open>int8_t\<close>: the top bit makes them negative. The fast path is ten copies
  of one line, which differ in the shift only; a line takes the next byte and leaves the
  cascade when it is not negative. It runs only when ten bytes are there, so the reads stay
  inside; the list of shifts stands for the copies.
\<close>

definition negative :: "u8 \<Rightarrow> bool" where
  "negative b \<longleftrightarrow> sint b < 0"

fun decode_fast :: "nat list \<Rightarrow> u8 list \<Rightarrow> u64 \<Rightarrow> varint_error + u64 \<times> u8 list" where
  "decode_fast (s # ss) (b # bs) val =
     (let val = val OR push_bit s (scast b AND 0x7f)
      in if negative b then decode_fast ss bs val else Inr (val, bs))"
| "decode_fast ss bs val = Inl InvalidVarint"

fun decode_slow :: "u8 list \<Rightarrow> u64 \<Rightarrow> nat \<Rightarrow> varint_error + u64 \<times> u8 list" where
  "decode_slow [] val shift = Inl InvalidVarint"
| "decode_slow (b # bs) val shift =
     (if negative b then decode_slow bs (val OR push_bit shift (scast b AND 0x7f)) (shift + 7)
      else Inr (val OR push_bit shift (scast b), bs))"

definition decodeVarint :: "u8 list \<Rightarrow> varint_error + u64 \<times> u8 list" where
  "decodeVarint bs =
     (if kMaxVarintLength64 \<le> length bs
      then decode_fast [0, 7, 14, 21, 28, 35, 42, 49, 56, 63] bs 0
      else decode_slow bs 0 0)"

section \<open>Zig-zag\<close>

text \<open>Signed 64-bit numbers are words read with \<open>sint\<close>; the right shift is arithmetic.\<close>

definition encodeZigZag :: "u64 \<Rightarrow> u64" where
  "encodeZigZag val = push_bit 1 val XOR signed_drop_bit 63 val"

definition decodeZigZag :: "u64 \<Rightarrow> u64" where
  "decodeZigZag val = drop_bit 1 val XOR - (val AND 1)"

section \<open>What is written\<close>

text \<open>The bytes without the buffer, and the number that they denote in base 128.\<close>

function varint_bytes :: "u64 \<Rightarrow> u8 list" where
  "varint_bytes val =
     (if 128 \<le> val then (0x80 OR ucast (val AND 0x7f)) # varint_bytes (drop_bit 7 val)
      else [ucast val])"
  by pat_completeness auto
termination by (relation "measure unat") (auto simp: drop7_less)

declare varint_bytes.simps [simp del]

fun base128 :: "u8 list \<Rightarrow> nat" where
  "base128 [] = 0"
| "base128 (b # bs) = unat b mod 128 + 128 * base128 bs"

lemma bit_literals [simp]: "bit (0x7f :: int) n \<longleftrightarrow> n < 7" "bit (0x80 :: int) n \<longleftrightarrow> n = 7"
proof -
  have "(0x7f :: int) = mask 7" "(0x80 :: int) = push_bit 7 1"
    by (simp_all add: mask_eq_exp_minus_1)
  then show "bit (0x7f :: int) n \<longleftrightarrow> n < 7" "bit (0x80 :: int) n \<longleftrightarrow> n = 7"
    by (simp_all only: bit_mask_iff bit_push_bit_iff bit_1_iff possible_bit_int) auto
qed

lemma negative_iff: "negative b \<longleftrightarrow> bit b 7"
  using bit_last_iff [of b] by (simp add: negative_def)

lemma below_128: "v < (128 :: u64) \<longleftrightarrow> (\<forall>n \<ge> 7. \<not> bit v n)"
proof -
  have "v < 128 \<longleftrightarrow> take_bit 7 (unat v) = unat v"
    by (simp add: word_less_nat_alt take_bit_nat_eq_self_iff)
  also have "\<dots> \<longleftrightarrow> take_bit 7 v = v"
    by (simp only: unsigned_take_bit_eq word_unat_eq_iff)
  also have "\<dots> \<longleftrightarrow> (\<forall>n \<ge> 7. \<not> bit v n)"
    unfolding bit_eq_iff bit_take_bit_iff possible_bit_word
    by (metis bit_imp_le_length leD linorder_le_less_linear)
  finally show ?thesis .
qed

lemma negative_more: "negative (0x80 OR ucast (v :: u64))"
  by (simp add: negative_iff bit_simps)

lemma negative_last: "v < (128 :: u64) \<Longrightarrow> \<not> negative (ucast v)"
  by (simp add: negative_iff bit_simps below_128)

lemma payload_more: "(scast (0x80 OR ucast (v AND 0x7f) :: u8) AND 0x7f :: u64) = v AND 0x7f"
  by (rule bit_word_eqI) (auto simp: bit_simps)

lemma payload_last: "v < (128 :: u64) \<Longrightarrow> (scast (ucast v :: u8) :: u64) = v"
  by (rule bit_word_eqI) (auto simp: bit_simps below_128 min_def not_le)

lemma low7_below: "v < (128 :: u64) \<Longrightarrow> v AND 0x7f = v"
  unfolding below_128 by (rule bit_word_eqI) (auto simp: bit_simps linorder_not_le [symmetric])

lemma join7: "push_bit s (v AND 0x7f) OR push_bit (s + 7) (drop_bit 7 (v :: u64)) = push_bit s v"
proof (rule bit_word_eqI)
  fix n assume "n < LENGTH(64)"
  show "bit (push_bit s (v AND 0x7f) OR push_bit (s + 7) (drop_bit 7 v)) n \<longleftrightarrow> bit (push_bit s v) n"
  proof (cases "s + 7 \<le> n")
    case True
    then have "7 + (n - (s + 7)) = n - s" by simp
    with True show ?thesis by (auto simp: bit_simps)
  next
    case False
    then show ?thesis by (auto simp: bit_simps)
  qed
qed

lemma unat_drop7: "unat (drop_bit 7 (v :: u64)) = unat v div 128"
  by (simp add: drop_bit_eq_div unat_div)

lemma drop7_bound: "unat v < 128 ^ (Suc k + 1) \<Longrightarrow> unat (drop_bit 7 (v :: u64)) < 128 ^ (k + 1)"
  unfolding unat_drop7 by (rule less_mult_imp_div_less) (simp add: mult.commute)

lemma varint_more:
  "128 \<le> v \<Longrightarrow> varint_bytes v = (0x80 OR ucast (v AND 0x7f)) # varint_bytes (drop_bit 7 v)"
  by (subst varint_bytes.simps) simp

lemma varint_last: "\<not> 128 \<le> v \<Longrightarrow> varint_bytes v = [ucast v]"
  by (subst varint_bytes.simps) simp

lemmas byte_simps = negative_more negative_last payload_more payload_last low7_below
  or.assoc join7 not_le

lemma decode_slow_bytes:
  "decode_slow (varint_bytes v @ rest) acc s = Inr (acc OR push_bit s v, rest)"
proof (induction v arbitrary: acc s rule: varint_bytes.induct)
  case (1 v)
  show ?case
  proof (cases "128 \<le> v")
    case True
    from 1 [OF True] show ?thesis
      by (simp add: varint_more [OF True] byte_simps del: push_bit_and)
  next
    case False
    then show ?thesis by (simp add: varint_last byte_simps)
  qed
qed

lemma decode_fast_bytes:
  assumes "unat v < 128 ^ (k + 1)"
  shows "decode_fast (map (\<lambda>i. s + 7 * i) [0..<Suc k] @ ss) (varint_bytes v @ rest) acc =
         Inr (acc OR push_bit s v, rest)"
  using assms
proof (induction k arbitrary: v acc s)
  case 0
  then have "\<not> 128 \<le> v" by (simp add: word_le_nat_alt)
  then show ?case by (simp add: varint_last byte_simps del: push_bit_and)
next
  case (Suc k)
  have shifts: "map (\<lambda>i. s + 7 * i) [0..<Suc (Suc k)] = s # map (\<lambda>i. (s + 7) + 7 * i) [0..<Suc k]"
    by (simp only: upt_conv_Cons [of 0 "Suc (Suc k)"] zero_less_Suc list.map map_Suc_upt [symmetric])
       (simp add: algebra_simps)
  show ?case
    using Suc.IH [OF drop7_bound [OF Suc.prems]] unfolding shifts
    by (cases "128 \<le> v")
       (simp_all add: varint_more varint_last byte_simps del: upt_Suc push_bit_and)
qed

lemma unat_u64: "unat (v :: u64) < 128 ^ (9 + 1)"
  using unsigned_less [of v, where 'a = nat] by simp

lemma decode_encode: "decodeVarint (varint_bytes v @ rest) = Inr (v, rest)"
  using decode_fast_bytes [OF unat_u64, of 0 "[]" v rest 0]
  by (simp add: decodeVarint_def decode_slow_bytes upt_rec)

lemma length_varint_bytes: "unat v < 128 ^ (k + 1) \<Longrightarrow> length (varint_bytes v) \<le> k + 1"
proof (induction k arbitrary: v)
  case 0
  then have "\<not> 128 \<le> v" by (simp add: word_le_nat_alt)
  then show ?case by (simp add: varint_last)
next
  case (Suc k)
  from Suc.IH [OF drop7_bound [OF Suc.prems]] show ?case
    by (cases "128 \<le> v") (simp_all add: varint_more varint_last)
qed

lemma varint_bytes_short: "length (varint_bytes v) \<le> kMaxVarintLength64"
  using length_varint_bytes [OF unat_u64] by (simp add: kMaxVarintLength64_def)

lemma base128_bytes: "base128 (varint_bytes v) = unat v"
proof (induction v rule: varint_bytes.induct)
  case (1 v)
  have m: "unat (0x80 OR ucast (v AND 0x7f) :: u8) mod 128 = unat v mod 128"
  proof -
    have "take_bit 7 (0x80 OR ucast (v AND 0x7f) :: u8) = ucast (take_bit 7 v)"
      by (rule bit_word_eqI) (auto simp: bit_simps)
    then have "take_bit 7 (unat (0x80 OR ucast (v AND 0x7f) :: u8)) = unat (ucast (take_bit 7 v) :: u8)"
      by (simp flip: unsigned_take_bit_eq)
    also have "\<dots> = take_bit 7 (unat v)"
      by (simp add: unsigned_ucast_eq unsigned_take_bit_eq)
    finally show ?thesis by (simp add: take_bit_eq_mod)
  qed
  show ?case
  proof (cases "128 \<le> v")
    case True
    then show ?thesis
      using 1 m by (subst varint_bytes.simps) (simp add: drop_bit_eq_div unat_div)
  next
    case False
    then have "unat v < 128" by (simp add: word_le_nat_alt)
    with False show ?thesis
      by (subst varint_bytes.simps) (simp add: unsigned_ucast_eq take_bit_nat_eq_self)
  qed
qed

lemma encode_loop_bytes:
  assumes "p + length (varint_bytes v) \<le> length buf"
  shows "rbind (encode_loop v buf p) (\<lambda>(val, buf, p).
           rbind (put_byte buf p (ucast val)) (\<lambda>buf. Inr (buf, p + 1))) =
         Inr (take p buf @ varint_bytes v @ drop (p + length (varint_bytes v)) buf,
              p + length (varint_bytes v))"
  using assms
proof (induction v arbitrary: buf p rule: varint_bytes.induct)
  case (1 v)
  show ?case
  proof (cases "128 \<le> v")
    case True
    define b :: u8 where "b = 0x80 OR ucast (v AND 0x7f)"
    have len: "length (varint_bytes v) = Suc (length (varint_bytes (drop_bit 7 v)))"
      by (simp add: varint_more [OF True])
    have p: "p < length buf" using 1 len by simp
    have "take (Suc p) (buf[p := b]) = take p buf @ [b]"
      using p by (simp add: take_Suc_conv_app_nth)
    moreover have "rbind (encode_loop (drop_bit 7 v) (buf[p := b]) (p + 1)) (\<lambda>(val, buf, p).
           rbind (put_byte buf p (ucast val)) (\<lambda>buf. Inr (buf, p + 1))) =
         Inr (take (p + 1) (buf[p := b]) @ varint_bytes (drop_bit 7 v) @
                drop (p + 1 + length (varint_bytes (drop_bit 7 v))) (buf[p := b]),
              p + 1 + length (varint_bytes (drop_bit 7 v)))"
      using True 1 len by (intro 1) simp_all
    ultimately show ?thesis
      using True p by (subst encode_loop.simps)
        (simp add: put_byte_def len varint_more [OF True] flip: b_def)
  next
    case False
    then show ?thesis
      using 1 by (subst encode_loop.simps)
        (simp add: put_byte_def varint_last upd_conv_take_nth_drop)
  qed
qed

lemma encodeVarint_bytes:
  assumes "length (varint_bytes v) \<le> length buf"
  shows "encodeVarint v buf =
         Inr (varint_bytes v @ drop (length (varint_bytes v)) buf, length (varint_bytes v))"
  using encode_loop_bytes [of 0 v buf] assms by (simp add: encodeVarint_def)

section \<open>Zig-zag, by cases on the sign\<close>

lemma sign_spread: "signed_drop_bit 63 (v :: u64) = (if sint v < 0 then - 1 else 0)"
  using bit_last_iff [of v] by (intro bit_word_eqI) (auto simp: bit_simps Suc_le_eq)

lemma bit_encodeZigZag:
  "bit (encodeZigZag v) n \<longleftrightarrow> n < 64 \<and> ((1 \<le> n \<and> bit v (n - 1)) \<noteq> (sint v < 0))"
  unfolding encodeZigZag_def sign_spread bit_xor_iff bit_push_bit_iff possible_bit_word
  by (auto dest: bit_imp_le_length)

lemma decode_encode_zigzag: "decodeZigZag (encodeZigZag v) = v"
proof (rule bit_word_eqI)
  fix n assume n: "n < LENGTH(64)"
  have low: "encodeZigZag v AND 1 = (if sint v < 0 then 1 else 0)"
    by (rule bit_word_eqI) (auto simp: bit_encodeZigZag bit_and_iff bit_1_iff)
  have last: "bit v 63 \<longleftrightarrow> sint v < 0" using bit_last_iff [of v] by simp
  show "bit (decodeZigZag (encodeZigZag v)) n \<longleftrightarrow> bit v n"
    using n last unfolding decodeZigZag_def low
    by (cases "n = 63") (auto simp: bit_xor_iff bit_drop_bit_eq bit_encodeZigZag)
qed

lemma encodeZigZag_cases:
  "encodeZigZag v = (if sint v < 0 then - 2 * v - 1 else 2 * v)"
  by (simp add: encodeZigZag_def sign_spread push_bit_eq_mult not_eq_complement)

lemma uint_encodeZigZag:
  "uint (encodeZigZag v) = (if sint v < 0 then - 2 * sint v - 1 else 2 * sint v)"
proof -
  have r: "- (2 ^ 63) \<le> sint v" "sint v < 2 ^ 63"
    using sint_range_size [of v] by (simp_all add: word_size)
  have v: "v = word_of_int (sint v)" by simp
  have "encodeZigZag v = word_of_int (if sint v < 0 then - 2 * sint v - 1 else 2 * sint v)"
    by (subst (2 3) v) (simp add: encodeZigZag_cases)
  then show ?thesis
    using r by (simp add: uint_word_of_int)
qed

section \<open>What is rejected\<close>

lemma decode_fast_error:
  "(\<exists>e. decode_fast ss bs val = Inl e) \<longleftrightarrow> list_all negative (take (length ss) bs)"
  by (induction ss bs val rule: decode_fast.induct) (auto simp: Let_def)

lemma decode_slow_error: "(\<exists>e. decode_slow bs val s = Inl e) \<longleftrightarrow> list_all negative bs"
  by (induction bs val s rule: decode_slow.induct) auto

lemma decodeVarint_error:
  "(\<exists>e. decodeVarint bs = Inl e) \<longleftrightarrow> list_all negative (take kMaxVarintLength64 bs)"
proof -
  have "length [0 :: nat, 7, 14, 21, 28, 35, 42, 49, 56, 63] = 10" by simp
  then show ?thesis
    by (simp only: decodeVarint_def kMaxVarintLength64_def decode_fast_error decode_slow_error
          take_all nat_le_linear split: if_split) simp
qed

end
