(* ===== verification/Unicode.thy ===== *)
theory Unicode
  imports Folly_Hash
begin

text \<open>
  \<open>folly/Unicode.cpp\<close>: the UTF-8 encoding of a code point. The result string is a list of
  bytes; it stays empty for a number above \<open>0x10FFFF\<close>.
\<close>

section \<open>The code\<close>

definition codePointToUtf8 :: "u32 \<Rightarrow> u8 list" where
  "codePointToUtf8 cp =
     (if cp \<le> 0x7f then [ucast cp]
      else if cp \<le> 0x7FF then
        [ucast (0xC0 OR drop_bit 6 cp), ucast (0x80 OR (0x3f AND cp))]
      else if cp \<le> 0xFFFF then
        [0xE0 OR ucast (drop_bit 12 cp), 0x80 OR ucast (0x3f AND drop_bit 6 cp),
         ucast (0x80 OR (0x3f AND cp))]
      else if cp \<le> 0x10FFFF then
        [ucast (0xF0 OR drop_bit 18 cp), ucast (0x80 OR (0x3f AND drop_bit 12 cp)),
         ucast (0x80 OR (0x3f AND drop_bit 6 cp)), ucast (0x80 OR (0x3f AND cp))]
      else [])"

section \<open>Decoding, as the standard describes it\<close>

text \<open>
  The first byte tells how many continuation bytes follow: \<open>0xxxxxxx\<close>, \<open>110xxxxx\<close>,
  \<open>1110xxxx\<close>, \<open>11110xxx\<close>; a continuation byte is \<open>10xxxxxx\<close>. The numbers are read as
  naturals.
\<close>

definition utf8_head :: "nat \<Rightarrow> (nat \<times> nat) option" where
  "utf8_head b =
     (if b < 0x80 then Some (b, 0)
      else if 0xC0 \<le> b \<and> b < 0xE0 then Some (b - 0xC0, 1)
      else if 0xE0 \<le> b \<and> b < 0xF0 then Some (b - 0xE0, 2)
      else if 0xF0 \<le> b \<and> b < 0xF8 then Some (b - 0xF0, 3) else None)"

fun utf8_more :: "nat \<Rightarrow> u8 list \<Rightarrow> nat \<Rightarrow> (nat \<times> u8 list) option" where
  "utf8_more 0 bs n = Some (n, bs)"
| "utf8_more (Suc k) [] n = None"
| "utf8_more (Suc k) (b # bs) n =
     (if 0x80 \<le> unat b \<and> unat b < 0xC0 then utf8_more k bs (64 * n + (unat b - 0x80)) else None)"

fun utf8_decode :: "u8 list \<Rightarrow> (nat \<times> u8 list) option" where
  "utf8_decode [] = None"
| "utf8_decode (b # bs) =
     (case utf8_head (unat b) of None \<Rightarrow> None | Some (n, k) \<Rightarrow> utf8_more k bs n)"

section \<open>Lemmas\<close>

text \<open>The marker bits of a byte and the payload below them do not overlap.\<close>

lemma or_low:
  assumes "(x :: nat) < 2 ^ k"
  shows "(2 ^ k * m) OR x = 2 ^ k * m + x"
proof -
  have x: "take_bit k x = x" using assms by (simp add: take_bit_nat_eq_self_iff)
  have "\<not> bit (push_bit k m) n \<or> \<not> bit x n" for n
    using x bit_take_bit_iff [of k x n] by (auto simp: bit_push_bit_iff_nat)
  then have "push_bit k m + x = push_bit k m OR x" by (intro disjunctive_add) auto
  then show ?thesis by (simp add: push_bit_eq_mult mult.commute)
qed

lemma unat_or: "unat ((x :: 'a :: len word) OR y) = unat x OR unat y"
  by (simp add: unsigned_or_eq)

lemma unat_low6: "unat (0x3f AND (cp :: u32)) = unat cp mod 64"
proof -
  have "0x3f AND cp = take_bit 6 cp" by (simp add: take_bit_eq_mask mask_eq_exp_minus_1 and.commute)
  then have "unat (0x3f AND cp) = take_bit 6 (unat cp)" by (simp only: unsigned_take_bit_eq)
  then show ?thesis by (simp add: take_bit_eq_mod)
qed

lemma unat_drop: "unat (drop_bit k (cp :: u32)) = unat cp div 2 ^ k"
  unfolding unat_drop_bit_eq by (rule drop_bit_eq_div)

lemma unat_ucast8: "unat x < 256 \<Longrightarrow> unat (ucast (x :: u32) :: u8) = unat x"
  by (simp add: unsigned_ucast_eq take_bit_nat_eq_self_iff)

lemma cont_byte: "unat (ucast (0x80 OR (0x3f AND (x :: u32))) :: u8) = 128 + unat x mod 64"
proof -
  have "unat (0x80 OR (0x3f AND x)) = 128 + unat x mod 64"
    using or_low [of "unat x mod 64" 7 1] by (simp add: unat_or unat_low6)
  then show ?thesis by (subst unat_ucast8) simp_all
qed

lemma cont_byte': "unat (0x80 OR ucast (0x3f AND (x :: u32)) :: u8) = 128 + unat x mod 64"
proof -
  have "unat (ucast (0x3f AND x) :: u8) = unat x mod 64"
    by (subst unat_ucast8) (simp_all add: unat_low6)
  then show ?thesis
    using or_low [of "unat x mod 64" 7 1] by (simp add: unat_or)
qed

lemma head_byte:
  assumes "unat x < 2 ^ k" "(n :: u32) = of_nat (2 ^ k * m)" "2 ^ k * m + 2 ^ k \<le> 256"
  shows "unat (ucast (n OR x) :: u8) = 2 ^ k * m + unat x"
proof -
  have "unat n = 2 ^ k * m" using assms(2,3) by (simp only: assms(2) unat_of_nat take_bit_nat_eq_self_iff) simp
  then have "unat (n OR x) = 2 ^ k * m + unat x" by (simp add: unat_or or_low assms(1))
  then show ?thesis using assms by (subst unat_ucast8) simp_all
qed

lemma head_byte3:
  assumes "unat (x :: u32) < 16"
  shows "unat (0xE0 OR ucast x :: u8) = 0xE0 + unat x"
  using assms or_low [of "unat x" 4 14] by (simp add: unat_or unat_ucast8)

lemma digits64: "64 * ((n :: nat) div 64) + n mod 64 = n" "(n :: nat) div 64 div 64 = n div 4096"
    "(n :: nat) div 4096 div 64 = n div 262144"
  by (simp_all flip: div_mult2_eq)

lemma utf8_more_numeral:
  "utf8_more 2 bs n = utf8_more (Suc (Suc 0)) bs n"
  "utf8_more 3 bs n = utf8_more (Suc (Suc (Suc 0))) bs n"
  by (simp_all only: numeral_2_eq_2 numeral_3_eq_3)

lemma utf8_one: "unat cp \<le> 0x7f \<Longrightarrow> utf8_decode (codePointToUtf8 cp @ rest) = Some (unat cp, rest)"
  by (simp add: codePointToUtf8_def word_le_nat_alt utf8_head_def unat_ucast8)

lemma utf8_two:
  assumes "0x7f < unat cp" "unat cp \<le> 0x7FF"
  shows "utf8_decode (codePointToUtf8 cp @ rest) = Some (unat cp, rest)"
proof -
  have x: "unat cp div 64 < 32" using assms by simp
  then have "unat (ucast (0xC0 OR drop_bit 6 cp) :: u8) = 192 + unat cp div 64"
    using head_byte [where x = "drop_bit 6 cp" and k = 5 and n = "0xC0" and m = 6] by (simp add: unat_drop)
  then show ?thesis
    using assms x
    by (simp add: codePointToUtf8_def word_le_nat_alt utf8_head_def cont_byte digits64)
qed

lemma utf8_three:
  assumes "0x7FF < unat cp" "unat cp \<le> 0xFFFF"
  shows "utf8_decode (codePointToUtf8 cp @ rest) = Some (unat cp, rest)"
proof -
  have x: "unat cp div 4096 < 16" using assms by simp
  then have "unat (0xE0 OR ucast (drop_bit 12 cp) :: u8) = 224 + unat cp div 4096"
    using head_byte3 [of "drop_bit 12 cp"] by (simp add: unat_drop)
  moreover have "64 * (64 * (unat cp div 4096) + unat cp div 64 mod 64) + unat cp mod 64 = unat cp"
    using digits64(1) [of "unat cp div 64"] digits64(1,2) [of "unat cp"] by simp
  moreover have "codePointToUtf8 cp = [0xE0 OR ucast (drop_bit 12 cp),
      0x80 OR ucast (0x3f AND drop_bit 6 cp), ucast (0x80 OR (0x3f AND cp))]"
    using assms by (simp add: codePointToUtf8_def word_le_nat_alt)
  ultimately show ?thesis
    using x by (simp add: utf8_head_def cont_byte cont_byte' unat_drop utf8_more_numeral)
qed

lemma utf8_four:
  assumes "0xFFFF < unat cp" "unat cp \<le> 0x10FFFF"
  shows "utf8_decode (codePointToUtf8 cp @ rest) = Some (unat cp, rest)"
proof -
  have x: "unat cp div 262144 < 8" using assms by simp
  then have "unat (ucast (0xF0 OR drop_bit 18 cp) :: u8) = 240 + unat cp div 262144"
    using head_byte [where x = "drop_bit 18 cp" and k = 3 and n = "0xF0" and m = 30] by (simp add: unat_drop)
  moreover have "64 * (64 * (64 * (unat cp div 262144) + unat cp div 4096 mod 64) +
      unat cp div 64 mod 64) + unat cp mod 64 = unat cp"
    using digits64(1) [of "unat cp div 4096"] digits64(1) [of "unat cp div 64"]
      digits64 [of "unat cp"] by simp
  moreover have "codePointToUtf8 cp = [ucast (0xF0 OR drop_bit 18 cp),
      ucast (0x80 OR (0x3f AND drop_bit 12 cp)), ucast (0x80 OR (0x3f AND drop_bit 6 cp)),
      ucast (0x80 OR (0x3f AND cp))]"
    using assms by (simp add: codePointToUtf8_def word_le_nat_alt)
  ultimately show ?thesis
    using x by (simp add: utf8_head_def cont_byte unat_drop utf8_more_numeral)
qed

lemma utf8_round_trip:
  assumes "unat cp \<le> 0x10FFFF"
  shows "utf8_decode (codePointToUtf8 cp @ rest) = Some (unat cp, rest)"
proof -
  consider "unat cp \<le> 0x7f" | "0x7f < unat cp" "unat cp \<le> 0x7FF"
    | "0x7FF < unat cp" "unat cp \<le> 0xFFFF" | "0xFFFF < unat cp" by linarith
  then show ?thesis
    by cases (simp_all add: utf8_one utf8_two utf8_three utf8_four assms)
qed

lemma utf8_length:
  "length (codePointToUtf8 cp) =
     (if unat cp \<le> 0x7f then 1 else if unat cp \<le> 0x7FF then 2 else if unat cp \<le> 0xFFFF then 3
      else if unat cp \<le> 0x10FFFF then 4 else 0)"
  by (simp add: codePointToUtf8_def word_le_nat_alt)

end
