(* ===== verification/Evicting_Cache.thy ===== *)
theory Evicting_Cache
  imports Chess_Prelude
begin

text \<open>
  \<open>folly/EvictingCacheMap.h\<close>: a map with a bounded number of entries that drops the least
  recently used ones. A \<open>Node\<close> object holds a key and a value and is linked into two intrusive
  containers at once, the recency list \<open>lru\<close> and the hash index; the model keeps the objects in
  a store by address and the containers as lists of addresses, so that an update through the
  index is seen through the list. The order inside the Boost index plays no role: the code
  looks keys up in it and counts it. Sizes are \<open>size_t\<close> counts of live objects and do not wrap.

  The eviction callback of a client is code outside the class; it is a function that says for a
  key and value whether it throws. The calls it gets are a result of the operations.
\<close>

section \<open>State\<close>

type_synonym ('k, 'v) prune_hook = "'k \<Rightarrow> 'v \<Rightarrow> bool"

record ('k, 'v) ecm =
  nodes :: "nat \<rightharpoonup> 'k \<times> 'v"
  next_node :: nat
  lru :: "nat list"
  index :: "nat list"
  maxSize :: nat
  clearSize :: nat
  pruneHook :: "('k, 'v) prune_hook option"

definition EvictingCacheMap :: "nat \<Rightarrow> nat \<Rightarrow> ('k, 'v) ecm" where
  "EvictingCacheMap max_size clear_size =
     \<lparr>nodes = Map.empty, next_node = 0, lru = [], index = [],
      maxSize = max_size, clearSize = clear_size, pruneHook = None\<rparr>"

section \<open>Reading\<close>

definition findInIndex :: "('k, 'v) ecm \<Rightarrow> 'k \<Rightarrow> nat option" where
  "findInIndex c key = List.find (\<lambda>n. map_option fst (nodes c n) = Some key) (index c)"

definition ecm_size :: "('k, 'v) ecm \<Rightarrow> nat" where
  "ecm_size c = length (index c)"

definition ecm_empty :: "('k, 'v) ecm \<Rightarrow> bool" where
  "ecm_empty c \<longleftrightarrow> index c = []"

definition ecm_exists :: "('k, 'v) ecm \<Rightarrow> 'k \<Rightarrow> bool" where
  "ecm_exists c key \<longleftrightarrow> findInIndex c key \<noteq> None"

definition findWithoutPromotion :: "('k, 'v) ecm \<Rightarrow> 'k \<Rightarrow> nat option" where
  "findWithoutPromotion c key = findInIndex c key"

datatype ecm_error = KeyDoesNotExist

definition node_value :: "('k, 'v) ecm \<Rightarrow> nat option \<Rightarrow> ecm_error + 'v" where
  "node_value c it =
     (case Option.bind it (nodes c) of None \<Rightarrow> Inl KeyDoesNotExist | Some pr \<Rightarrow> Inr (snd pr))"

definition getWithoutPromotion :: "('k, 'v) ecm \<Rightarrow> 'k \<Rightarrow> ecm_error + 'v" where
  "getWithoutPromotion c key = node_value c (findWithoutPromotion c key)"

section \<open>Promotion\<close>

definition to_front :: "nat \<Rightarrow> ('k, 'v) ecm \<Rightarrow> ('k, 'v) ecm" where
  "to_front n c = c\<lparr>lru := n # remove1 n (lru c)\<rparr>"

definition ecm_find :: "'k \<Rightarrow> ('k, 'v) ecm \<Rightarrow> nat option \<times> ('k, 'v) ecm" where
  "ecm_find key c =
     (case findInIndex c key of None \<Rightarrow> (None, c) | Some n \<Rightarrow> (Some n, to_front n c))"

definition ecm_get :: "'k \<Rightarrow> ('k, 'v) ecm \<Rightarrow> (ecm_error + 'v) \<times> ('k, 'v) ecm" where
  "ecm_get key c = (let (it, c) = ecm_find key c in (node_value c it, c))"

section \<open>Removal\<close>

definition unlink :: "nat \<Rightarrow> ('k, 'v) ecm \<Rightarrow> ('k, 'v) ecm" where
  "unlink n c = c\<lparr>lru := remove1 n (lru c), index := remove1 n (index c), nodes := (nodes c)(n := None)\<rparr>"

definition ecm_erase :: "'k \<Rightarrow> ('k, 'v) ecm \<Rightarrow> bool \<times> ('k, 'v) ecm" where
  "ecm_erase key c =
     (case findInIndex c key of None \<Rightarrow> (False, c) | Some n \<Rightarrow> (True, unlink n c))"

text \<open>
  The loop of \<open>pruneWithFailSafeOption\<close>, with the rounds that are left. The result is whether
  an exception leaves the function, the calls of the hook so far, and the state.
\<close>

fun prune_loop :: "nat \<Rightarrow> ('k, 'v) prune_hook option \<Rightarrow> bool \<Rightarrow> ('k \<times> 'v) list \<Rightarrow> ('k, 'v) ecm \<Rightarrow>
    bool \<times> ('k \<times> 'v) list \<times> ('k, 'v) ecm" where
  "prune_loop 0 ph failSafe calls c = (False, calls, c)"
| "prune_loop (Suc i) ph failSafe calls c =
     (if lru c = [] then (False, calls, c)
      else
        let n = last (lru c);
            c' = unlink n c
        in case (ph, nodes c n) of
             (Some hook, Some (k, v)) \<Rightarrow>
               if hook k v \<and> \<not> failSafe then (True, calls @ [(k, v)], c')
               else prune_loop i ph failSafe (calls @ [(k, v)]) c'
           | _ \<Rightarrow> prune_loop i ph failSafe calls c')"

definition pruneWithFailSafeOption ::
  "nat \<Rightarrow> ('k, 'v) prune_hook option \<Rightarrow> bool \<Rightarrow> ('k, 'v) ecm \<Rightarrow>
    bool \<times> ('k \<times> 'v) list \<times> ('k, 'v) ecm" where
  "pruneWithFailSafeOption pruneSize hook failSafe c =
     prune_loop pruneSize (if hook = None then pruneHook c else hook) failSafe [] c"

definition prune :: "nat \<Rightarrow> ('k, 'v) prune_hook option \<Rightarrow> ('k, 'v) ecm \<Rightarrow>
    bool \<times> ('k \<times> 'v) list \<times> ('k, 'v) ecm" where
  "prune pruneSize hook c = pruneWithFailSafeOption pruneSize hook False c"

definition ecm_clear :: "('k, 'v) ecm \<Rightarrow> bool \<times> ('k \<times> 'v) list \<times> ('k, 'v) ecm" where
  "ecm_clear c = prune (ecm_size c) None c"

definition setPruneHook :: "('k, 'v) prune_hook option \<Rightarrow> ('k, 'v) ecm \<Rightarrow> ('k, 'v) ecm" where
  "setPruneHook hook c = c\<lparr>pruneHook := hook\<rparr>"

definition ecm_destroy :: "('k, 'v) ecm \<Rightarrow> bool \<times> ('k \<times> 'v) list \<times> ('k, 'v) ecm" where
  "ecm_destroy c =
     (let c = setPruneHook None c in pruneWithFailSafeOption (ecm_size c) None True c)"

section \<open>Insertion and limits\<close>

definition ecm_set :: "'k \<Rightarrow> 'v \<Rightarrow> bool \<Rightarrow> ('k, 'v) ecm \<Rightarrow> bool \<times> ('k \<times> 'v) list \<times> ('k, 'v) ecm" where
  "ecm_set key val promote c =
     (case findInIndex c key of
        Some n \<Rightarrow>
          (let c = c\<lparr>nodes := (nodes c)(n := map_option (\<lambda>pr. (fst pr, val)) (nodes c n))\<rparr>
           in (False, [], if promote then to_front n c else c))
      | None \<Rightarrow>
          (let n = next_node c;
               c = c\<lparr>nodes := (nodes c)(n \<mapsto> (key, val)), next_node := n + 1,
                     index := n # index c, lru := n # lru c\<rparr>
           in if 0 < maxSize c \<and> maxSize c < ecm_size c then prune (clearSize c) None c
              else (False, [], c)))"

definition setMaxSize :: "nat \<Rightarrow> ('k, 'v) ecm \<Rightarrow> bool \<times> ('k \<times> 'v) list \<times> ('k, 'v) ecm" where
  "setMaxSize m c =
     (if m \<noteq> 0 \<and> m < ecm_size c then
        (let (thrown, calls, c) = prune (max (ecm_size c - m) (clearSize c)) None c
         in (thrown, calls, if thrown then c else c\<lparr>maxSize := m\<rparr>))
      else (False, [], c\<lparr>maxSize := m\<rparr>))"

definition setClearSize :: "nat \<Rightarrow> ('k, 'v) ecm \<Rightarrow> ('k, 'v) ecm" where
  "setClearSize n c = c\<lparr>clearSize := n\<rparr>"

section \<open>Invariant and contents\<close>

text \<open>
  Both containers link the same live objects, each once, and no object is lost; keys are
  distinct. The contents are the pairs in the order of iteration, most recent first.
\<close>

definition entries :: "('k, 'v) ecm \<Rightarrow> ('k \<times> 'v) list" where
  "entries c = map (\<lambda>n. the (nodes c n)) (lru c)"

definition ecm_ok :: "('k, 'v) ecm \<Rightarrow> bool" where
  "ecm_ok c \<longleftrightarrow> distinct (lru c) \<and> distinct (index c) \<and> set (index c) = set (lru c) \<and>
     dom (nodes c) = set (lru c) \<and> (\<forall>n \<in> set (lru c). n < next_node c) \<and>
     distinct (map fst (entries c))"

definition within_limit :: "('k, 'v) ecm \<Rightarrow> bool" where
  "within_limit c \<longleftrightarrow> (0 < maxSize c \<longrightarrow> ecm_size c \<le> maxSize c)"

section \<open>Lemmas\<close>

lemma length_entries [simp]: "length (entries c) = length (lru c)"
  by (simp add: entries_def)

lemma ecm_size_eq: "ecm_ok c \<Longrightarrow> ecm_size c = length (lru c)"
  unfolding ecm_ok_def ecm_size_def by (metis distinct_card)

lemma entries_key:
  assumes "ecm_ok c" "n \<in> set (lru c)"
  obtains v where "nodes c n = Some (fst (the (nodes c n)), v)"
proof -
  have "n \<in> dom (nodes c)" using assms by (simp add: ecm_ok_def)
  then show ?thesis using that by force
qed

lemma findInIndex_Some:
  assumes "ecm_ok c" "findInIndex c k = Some n"
  obtains v where "n \<in> set (lru c)" "n \<in> set (index c)" "nodes c n = Some (k, v)"
    "(k, v) \<in> set (entries c)"
proof -
  have n: "n \<in> set (index c)" "map_option fst (nodes c n) = Some k"
    using assms(2) by (auto simp: findInIndex_def find_Some_iff)
  then obtain v where v: "nodes c n = Some (k, v)" by auto
  moreover have "n \<in> set (lru c)" using assms(1) n by (simp add: ecm_ok_def)
  moreover from this v have "(k, v) \<in> set (entries c)" by (force simp: entries_def)
  ultimately show ?thesis using n that by blast
qed

lemma findInIndex_None:
  assumes "ecm_ok c"
  shows "findInIndex c k = None \<longleftrightarrow> k \<notin> fst ` set (entries c)"
proof
  assume "findInIndex c k = None"
  then have "\<forall>n \<in> set (lru c). map_option fst (nodes c n) \<noteq> Some k"
    using assms by (simp add: findInIndex_def find_None_iff ecm_ok_def)
  moreover have "\<forall>n \<in> set (lru c). nodes c n \<noteq> None"
    using assms unfolding ecm_ok_def by blast
  ultimately show "k \<notin> fst ` set (entries c)" by (force simp: entries_def)
next
  assume k: "k \<notin> fst ` set (entries c)"
  show "findInIndex c k = None"
  proof (rule ccontr)
    assume "findInIndex c k \<noteq> None"
    then obtain n where "findInIndex c k = Some n" by blast
    then obtain v where "(k, v) \<in> set (entries c)" using findInIndex_Some [OF assms] by metis
    with k show False by force
  qed
qed

lemma map_remove1_key:
  "distinct ns \<Longrightarrow> distinct (map fst (map f ns)) \<Longrightarrow> n \<in> set ns \<Longrightarrow>
     map f (remove1 n ns) = filter (\<lambda>p. fst p \<noteq> fst (f n)) (map f ns)"
proof (induction ns)
  case (Cons a ns)
  have "filter (\<lambda>p. fst p \<noteq> fst (f a)) (map f ns) = map f ns"
    using Cons.prems by (auto simp: filter_id_conv image_iff)
  with Cons show ?case by (auto simp: image_iff)
qed simp

lemma entries_remove:
  assumes "ecm_ok c" "n \<in> set (lru c)" "nodes c n = Some (k, v)"
  shows "map (\<lambda>m. the (nodes c m)) (remove1 n (lru c)) = filter (\<lambda>p. fst p \<noteq> k) (entries c)"
  using assms map_remove1_key [of "lru c" "\<lambda>m. the (nodes c m)" n]
  by (simp add: ecm_ok_def entries_def)

subsection \<open>One operation at a time\<close>

lemma unlink_entries:
  assumes ok: "ecm_ok c" and n: "n \<in> set (lru c)" "nodes c n = Some (k, v)"
  shows "entries (unlink n c) = filter (\<lambda>p. fst p \<noteq> k) (entries c)"
proof -
  have "n \<notin> set (remove1 n (lru c))" using ok by (simp add: ecm_ok_def)
  then have "entries (unlink n c) = map (\<lambda>m. the (nodes c m)) (remove1 n (lru c))"
    by (auto simp: entries_def unlink_def)
  then show ?thesis using entries_remove [OF ok n] by simp
qed

lemma unlink_ok:
  assumes ok: "ecm_ok c" and n: "n \<in> set (lru c)"
  shows "ecm_ok (unlink n c)"
proof -
  obtain v where v: "nodes c n = Some (fst (the (nodes c n)), v)" using entries_key [OF ok n] .
  have "distinct (map fst (entries (unlink n c)))"
    using ok unlink_entries [OF ok n v] by (simp add: ecm_ok_def distinct_map_filter)
  then show ?thesis using ok by (auto simp: ecm_ok_def unlink_def)
qed

lemma to_front_entries:
  assumes ok: "ecm_ok c" and n: "n \<in> set (lru c)" "nodes c n = Some (k, v)"
  shows "entries (to_front n c) = (k, v) # filter (\<lambda>p. fst p \<noteq> k) (entries c)"
  using entries_remove [OF ok n] n by (simp add: entries_def to_front_def)

lemma to_front_ok:
  assumes ok: "ecm_ok c" and n: "n \<in> set (lru c)"
  shows "ecm_ok (to_front n c)"
proof -
  obtain v where v: "nodes c n = Some (fst (the (nodes c n)), v)" using entries_key [OF ok n] .
  have "distinct (map fst (entries (to_front n c)))"
    using ok to_front_entries [OF ok n v] by (auto simp: ecm_ok_def distinct_map_filter)
  then show ?thesis using ok n by (auto simp: ecm_ok_def to_front_def)
qed

subsection \<open>Evictions\<close>

lemma unlink_last:
  assumes ok: "ecm_ok c" and ne: "lru c \<noteq> []"
  shows "entries (unlink (last (lru c)) c) = butlast (entries c)"
    and "length (lru (unlink (last (lru c)) c)) = length (lru c) - 1"
proof -
  let ?n = "last (lru c)"
  have n: "?n \<in> set (lru c)" using ne by simp
  have "lru c = butlast (lru c) @ [?n]" using ne by simp
  moreover have "distinct (lru c)" using ok by (simp add: ecm_ok_def)
  ultimately have "?n \<notin> set (butlast (lru c))" by (metis distinct_append not_distinct_conv_prefix distinct_butlast snoc_eq_iff_butlast)
  then have r: "remove1 ?n (lru c) = butlast (lru c)"
    by (subst \<open>lru c = butlast (lru c) @ [?n]\<close>) (simp add: remove1_append)
  show "entries (unlink ?n c) = butlast (entries c)"
    using \<open>?n \<notin> set (butlast (lru c))\<close>
    by (auto simp: entries_def unlink_def r map_butlast [symmetric])
  show "length (lru (unlink ?n c)) = length (lru c) - 1"
    by (simp add: unlink_def r)
qed

lemma unlink_limits [simp]:
  "maxSize (unlink n c) = maxSize c" "clearSize (unlink n c) = clearSize c"
  "pruneHook (unlink n c) = pruneHook c"
  by (simp_all add: unlink_def)

text \<open>What the loop does: some number \<open>j\<close> of entries is taken off the end.\<close>

definition pruned ::
  "nat \<Rightarrow> ('k, 'v) prune_hook option \<Rightarrow> bool \<Rightarrow> ('k, 'v) ecm \<Rightarrow> nat \<Rightarrow> bool \<Rightarrow>
    ('k \<times> 'v) list \<Rightarrow> ('k, 'v) ecm \<Rightarrow> bool" where
  "pruned i ph failSafe c j thrown calls c' \<longleftrightarrow>
     ecm_ok c' \<and> j \<le> min i (length (lru c)) \<and>
     entries c' = take (length (lru c) - j) (entries c) \<and>
     calls = (if ph = None then [] else rev (drop (length (lru c) - j) (entries c))) \<and>
     (\<not> thrown \<longrightarrow> j = min i (length (lru c))) \<and>
     (thrown \<longrightarrow> 0 < j \<and> \<not> failSafe \<and> ph \<noteq> None) \<and>
     maxSize c' = maxSize c \<and> clearSize c' = clearSize c \<and> pruneHook c' = pruneHook c"

lemma pruned_step:
  assumes p: "pruned i ph failSafe c1 j t rest d"
    and c1: "entries c1 = butlast (entries c)" "length (lru c1) = length (lru c) - 1"
    and e: "entries c = butlast (entries c) @ [(k, v)]"
    and pos: "0 < length (lru c)"
    and same: "maxSize c1 = maxSize c" "clearSize c1 = clearSize c" "pruneHook c1 = pruneHook c"
  shows "pruned (Suc i) ph failSafe c (Suc j) t ((if ph = None then [] else [(k, v)]) @ rest) d"
proof -
  have j: "j \<le> length (lru c) - 1" using p c1(2) by (simp add: pruned_def)
  have len: "length (butlast (entries c)) = length (lru c) - 1" by simp
  have t: "take (length (lru c) - Suc j) (entries c) =
      take (length (lru c) - 1 - j) (butlast (entries c))"
    by (subst e) (simp add: len)
  have d: "drop (length (lru c) - Suc j) (entries c) =
      drop (length (lru c) - 1 - j) (butlast (entries c)) @ [(k, v)]"
    by (subst e) (simp add: len)
  have m: "min (Suc i) (length (lru c)) = Suc (min i (length (lru c) - 1))"
    using pos by (cases "length (lru c)") simp_all
  show ?thesis
    using p j pos unfolding pruned_def c1 t d m same by auto
qed

lemma prune_loop_pruned:
  assumes "ecm_ok c" "prune_loop i ph failSafe calls c = (thrown, calls', c')"
  shows "\<exists>j rest. calls' = calls @ rest \<and> pruned i ph failSafe c j thrown rest c'"
  using assms
proof (induction i arbitrary: c calls)
  case 0
  then show ?case by (intro exI [of _ 0] exI [of _ "[]"]) (simp add: pruned_def)
next
  case (Suc i)
  show ?case
  proof (cases "lru c = []")
    case True
    with Suc.prems show ?thesis
      by (intro exI [of _ 0] exI [of _ "[]"]) (simp add: pruned_def entries_def)
  next
    case False
    let ?n = "last (lru c)"
    let ?c = "unlink ?n c"
    obtain k v where kv: "nodes c ?n = Some (k, v)"
      using entries_key [OF Suc.prems(1)] False by (metis last_in_set)
    have ok: "ecm_ok ?c" using unlink_ok [OF Suc.prems(1)] False by simp
    note u = unlink_last [OF Suc.prems(1) False]
    have e: "entries c = butlast (entries c) @ [(k, v)]"
    proof -
      have "entries c \<noteq> []" "last (entries c) = (k, v)"
        using False kv by (simp_all add: entries_def last_map)
      then show ?thesis by (metis append_butlast_last_id)
    qed
    have step: "pruned (Suc i) ph failSafe c (Suc j) t ((if ph = None then [] else [(k, v)]) @ rest) d"
      if "pruned i ph failSafe ?c j t rest d" for j t rest d
      by (rule pruned_step [OF that u e]) (use False in simp_all)
    show ?thesis
    proof (cases "ph = None \<or> (\<exists>h. ph = Some h \<and> \<not> (h k v \<and> \<not> failSafe))")
      case True
      then have "prune_loop i ph failSafe (calls @ (if ph = None then [] else [(k, v)])) ?c =
          (thrown, calls', c')"
        using Suc.prems False kv by (auto simp: Let_def)
      from Suc.IH [OF ok this] obtain j rest
        where "calls' = calls @ (if ph = None then [] else [(k, v)]) @ rest"
          "pruned i ph failSafe ?c j thrown rest c'" by auto
      with step show ?thesis by blast
    next
      case halt: False
      then obtain h where h: "ph = Some h" "h k v" "\<not> failSafe" by auto
      then have r: "thrown = True" "calls' = calls @ [(k, v)]" "c' = ?c"
        using Suc.prems False kv by (auto simp: Let_def)
      have "drop (length (lru c) - 1) (entries c) = [(k, v)]" by (subst e) simp
      then have "pruned (Suc i) ph failSafe c 1 True [(k, v)] ?c"
        using h ok u(1) False by (auto simp: pruned_def butlast_conv_take Suc_le_eq)
      with r show ?thesis by blast
    qed
  qed
qed

lemma prune_pruned:
  assumes "ecm_ok c" "pruneWithFailSafeOption n hook failSafe c = (thrown, calls, c')"
  obtains j where "pruned n (if hook = None then pruneHook c else hook) failSafe c j thrown calls c'"
  using prune_loop_pruned [OF assms [unfolded pruneWithFailSafeOption_def]] that by auto

lemma pruned_size: "pruned i ph failSafe c j thrown calls c' \<Longrightarrow> length (lru c') = length (lru c) - j"
  unfolding pruned_def by (metis length_entries length_take min_absorb2 diff_le_self)

subsection \<open>Insertion\<close>

lemma set_value_entries:
  assumes ok: "ecm_ok c" and n: "n \<in> set (lru c)" "nodes c n = Some (k, w)"
  shows "entries (c\<lparr>nodes := (nodes c)(n \<mapsto> (k, v))\<rparr>) =
      map (\<lambda>e. if fst e = k then (k, v) else e) (entries c)"
proof -
  have "fst (the (nodes c m)) = k \<longleftrightarrow> m = n" if m: "m \<in> set (lru c)" for m
    using ok n m inj_onD [of "fst \<circ> (\<lambda>m. the (nodes c m))" "set (lru c)" m n]
    by (auto simp: ecm_ok_def entries_def distinct_map)
  then show ?thesis by (auto simp: entries_def)
qed

lemma set_value_ok:
  assumes ok: "ecm_ok c" and n: "n \<in> set (lru c)" "nodes c n = Some (k, w)"
  shows "ecm_ok (c\<lparr>nodes := (nodes c)(n \<mapsto> (k, v))\<rparr>)"
proof -
  have "map fst (map (\<lambda>e. if fst e = k then (k, v) else e) (entries c)) = map fst (entries c)"
    by (induction "entries c") auto
  then have "distinct (map fst (entries (c\<lparr>nodes := (nodes c)(n \<mapsto> (k, v))\<rparr>)))"
    unfolding set_value_entries [OF assms] using ok by (simp only: ecm_ok_def)
  then show ?thesis using ok n by (auto simp: ecm_ok_def)
qed

definition link_new :: "'k \<Rightarrow> 'v \<Rightarrow> ('k, 'v) ecm \<Rightarrow> ('k, 'v) ecm" where
  "link_new key val c =
     c\<lparr>nodes := (nodes c)(next_node c \<mapsto> (key, val)), next_node := next_node c + 1,
       index := next_node c # index c, lru := next_node c # lru c\<rparr>"

lemma link_new_entries:
  assumes "ecm_ok c"
  shows "entries (link_new k v c) = (k, v) # entries c"
proof -
  have "next_node c \<notin> set (lru c)" using assms by (auto simp: ecm_ok_def)
  then show ?thesis by (auto simp: entries_def link_new_def)
qed

lemma link_new_ok:
  assumes ok: "ecm_ok c" and k: "findInIndex c k = None"
  shows "ecm_ok (link_new k v c)"
proof -
  have "next_node c \<notin> set (lru c)" using ok by (auto simp: ecm_ok_def)
  moreover have "distinct (map fst (entries (link_new k v c)))"
    using ok k by (simp add: link_new_entries findInIndex_None) (simp add: ecm_ok_def)
  ultimately show ?thesis using ok by (auto simp: ecm_ok_def link_new_def less_Suc_eq)
qed

lemma ecm_set_cases:
  assumes ok: "ecm_ok c"
  obtains (old) n w where "findInIndex c k = Some n" "n \<in> set (lru c)" "nodes c n = Some (k, w)"
      "(k, w) \<in> set (entries c)"
      "ecm_set k v promote c = (False, [],
         (if promote then to_front n else id) (c\<lparr>nodes := (nodes c)(n \<mapsto> (k, v))\<rparr>))"
    | (new) "findInIndex c k = None" "k \<notin> fst ` set (entries c)"
      "ecm_set k v promote c =
         (if 0 < maxSize c \<and> maxSize c < length (lru c) + 1
          then prune (clearSize c) None (link_new k v c) else (False, [], link_new k v c))"
proof (cases "findInIndex c k")
  case None
  have "ecm_set k v promote c =
      (if 0 < maxSize c \<and> maxSize c < length (lru c) + 1
       then prune (clearSize c) None (link_new k v c) else (False, [], link_new k v c))"
    using None ecm_size_eq [OF ok] by (simp add: ecm_set_def link_new_def Let_def ecm_size_def)
  with None show ?thesis using findInIndex_None [OF ok, of k] new by blast
next
  case (Some n)
  obtain w where w: "n \<in> set (lru c)" "nodes c n = Some (k, w)" "(k, w) \<in> set (entries c)"
    using findInIndex_Some [OF ok Some] by metis
  show ?thesis
    by (rule old [OF Some w]) (simp add: ecm_set_def Some w Let_def)
qed

lemma link_new_limits [simp]:
  "maxSize (link_new k v c) = maxSize c" "clearSize (link_new k v c) = clearSize c"
  "pruneHook (link_new k v c) = pruneHook c" "length (lru (link_new k v c)) = Suc (length (lru c))"
  by (simp_all add: link_new_def)

lemma to_front_limits [simp]:
  "maxSize (to_front n c) = maxSize c" "clearSize (to_front n c) = clearSize c"
  "pruneHook (to_front n c) = pruneHook c"
  "n \<in> set (lru c) \<Longrightarrow> length (lru (to_front n c)) = length (lru c)"
  by (simp_all add: to_front_def length_remove1) (metis Suc_pred length_pos_if_in_set One_nat_def)

lemma ecm_ok_fields [simp]:
  "ecm_ok (c\<lparr>maxSize := m\<rparr>) = ecm_ok c" "ecm_ok (c\<lparr>clearSize := m\<rparr>) = ecm_ok c"
  "ecm_ok (c\<lparr>pruneHook := h\<rparr>) = ecm_ok c"
  "entries (c\<lparr>maxSize := m\<rparr>) = entries c" "entries (c\<lparr>clearSize := m\<rparr>) = entries c"
  "entries (c\<lparr>pruneHook := h\<rparr>) = entries c"
  by (simp_all add: ecm_ok_def entries_def)

section \<open>Sequences of calls\<close>

datatype ('k, 'v) ecm_call =
    CFind 'k | CSet 'k 'v bool | CErase 'k | CPrune nat | CSetMaxSize nat | CSetClearSize nat
  | CSetHook "('k, 'v) prune_hook option" | CClear

fun ecm_step :: "('k, 'v) ecm_call \<Rightarrow> ('k, 'v) ecm \<Rightarrow> ('k, 'v) ecm" where
  "ecm_step (CFind k) c = snd (ecm_find k c)"
| "ecm_step (CSet k v promote) c = snd (snd (ecm_set k v promote c))"
| "ecm_step (CErase k) c = snd (ecm_erase k c)"
| "ecm_step (CPrune n) c = snd (snd (prune n None c))"
| "ecm_step (CSetMaxSize m) c = snd (snd (setMaxSize m c))"
| "ecm_step (CSetClearSize n) c = setClearSize n c"
| "ecm_step (CSetHook h) c = setPruneHook h c"
| "ecm_step CClear c = snd (snd (ecm_clear c))"

text \<open>The limit is kept by clients that never set the number of evictions to zero.\<close>

fun keeps_limit :: "('k, 'v) ecm_call \<Rightarrow> bool" where
  "keeps_limit (CSetClearSize n) \<longleftrightarrow> 0 < n"
| "keeps_limit _ \<longleftrightarrow> True"

definition limit_inv :: "('k, 'v) ecm \<Rightarrow> bool" where
  "limit_inv c \<longleftrightarrow> ecm_ok c \<and> 0 < clearSize c \<and> within_limit c"

lemma limit_inv_iff:
  "limit_inv c \<longleftrightarrow> ecm_ok c \<and> 0 < clearSize c \<and> (0 < maxSize c \<longrightarrow> length (lru c) \<le> maxSize c)"
  by (auto simp: limit_inv_def within_limit_def ecm_size_eq)

lemma limit_prune:
  assumes "ecm_ok c" "prune n None c = (t, calls, c')"
  shows "ecm_ok c' \<and> maxSize c' = maxSize c \<and> clearSize c' = clearSize c \<and>
     length (lru c') \<le> length (lru c) \<and>
     (0 < n \<longrightarrow> 0 < length (lru c) \<longrightarrow> length (lru c') < length (lru c)) \<and>
     (\<not> t \<longrightarrow> length (lru c') = length (lru c) - n)"
proof -
  obtain j where j: "pruned n (pruneHook c) False c j t calls c'"
    using prune_pruned [OF assms(1), of n None False t calls c'] assms(2) by (auto simp: prune_def)
  from pruned_size [OF this] j show ?thesis by (cases t) (auto simp: pruned_def)
qed

lemma limit_set:
  assumes inv: "limit_inv c"
  shows "limit_inv (snd (snd (ecm_set k v promote c)))"
proof -
  have ok: "ecm_ok c" and lim: "0 < maxSize c \<longrightarrow> length (lru c) \<le> maxSize c" "0 < clearSize c"
    using inv by (auto simp: limit_inv_iff)
  show ?thesis
  proof (cases rule: ecm_set_cases [OF ok, of k v promote, case_names old new])
    case (old n w)
    let ?c = "c\<lparr>nodes := (nodes c)(n \<mapsto> (k, v))\<rparr>"
    have "ecm_ok ?c" using set_value_ok [OF ok old(2,3)] .
    moreover from this have "ecm_ok (to_front n ?c)" using old by (intro to_front_ok) simp_all
    ultimately show ?thesis using old lim by (simp add: limit_inv_iff)
  next
    case new
    have ok': "ecm_ok (link_new k v c)" using link_new_ok [OF ok new(1)] .
    obtain t calls c' where p: "prune (clearSize c) None (link_new k v c) = (t, calls, c')"
      by (metis prod_cases3)
    show ?thesis
      using new ok' lim limit_prune [OF ok' p] p by (auto simp: limit_inv_iff)
  qed
qed

lemma limit_setMaxSize:
  assumes inv: "limit_inv c"
  shows "limit_inv (snd (snd (setMaxSize m c)))"
proof -
  have ok: "ecm_ok c" using inv by (simp add: limit_inv_def)
  obtain t calls c' where p: "prune (max (length (lru c) - m) (clearSize c)) None c = (t, calls, c')"
    by (metis prod_cases3)
  have e: "setMaxSize m c =
      (if m \<noteq> 0 \<and> m < length (lru c) then (t, calls, if t then c' else c'\<lparr>maxSize := m\<rparr>)
       else (False, [], c\<lparr>maxSize := m\<rparr>))"
    using p by (simp add: setMaxSize_def ecm_size_eq [OF ok])
  show ?thesis
    using inv limit_prune [OF ok p] unfolding e by (cases t) (auto simp: limit_inv_iff)
qed

lemma limit_find:
  assumes "limit_inv c"
  shows "limit_inv (snd (ecm_find k c))"
proof (cases "findInIndex c k")
  case (Some n)
  have ok: "ecm_ok c" using assms by (simp add: limit_inv_def)
  have "n \<in> set (lru c)" using findInIndex_Some [OF ok Some] by metis
  with Some assms to_front_ok [OF ok] show ?thesis by (simp add: ecm_find_def limit_inv_iff)
qed (use assms in \<open>simp add: ecm_find_def\<close>)

lemma limit_erase:
  assumes "limit_inv c"
  shows "limit_inv (snd (ecm_erase k c))"
proof (cases "findInIndex c k")
  case (Some n)
  have ok: "ecm_ok c" using assms by (simp add: limit_inv_def)
  have n: "n \<in> set (lru c)" using findInIndex_Some [OF ok Some] by metis
  have "length (lru (unlink n c)) \<le> length (lru c)" by (simp add: unlink_def length_remove1)
  with Some assms unlink_ok [OF ok n] show ?thesis by (auto simp: ecm_erase_def limit_inv_iff)
qed (use assms in \<open>simp add: ecm_erase_def\<close>)

lemma limit_step:
  assumes "limit_inv c" "keeps_limit call"
  shows "limit_inv (ecm_step call c)"
proof -
  have ok: "ecm_ok c" using assms by (simp add: limit_inv_def)
  have pr: "limit_inv (snd (snd (prune n None c)))" for n
    using limit_prune [OF ok, of n] assms(1)
    by (cases "prune n None c") (auto simp: limit_inv_iff)
  show ?thesis
    using assms pr
    by (cases call) (simp_all add: limit_find limit_set limit_erase limit_setMaxSize ecm_clear_def
      setClearSize_def setPruneHook_def, simp_all add: limit_inv_iff)
qed

interpretation lc: op_invariant ecm_step limit_inv keeps_limit
  by unfold_locales (rule limit_step)

section \<open>The abstract machine\<close>

text \<open>
  The contents as one list in the order of use, without nodes, addresses and an index, next to
  the two limits.
\<close>

type_synonym ('k, 'v) lru_spec = "('k \<times> 'v) list \<times> nat \<times> nat"

definition used :: "'k \<Rightarrow> ('k \<times> 'v) list \<Rightarrow> ('k \<times> 'v) list" where
  "used k xs = (case map_of xs k of None \<Rightarrow> xs | Some v \<Rightarrow> (k, v) # filter (\<lambda>e. fst e \<noteq> k) xs)"

definition dropped :: "nat \<Rightarrow> 'a list \<Rightarrow> 'a list" where
  "dropped n xs = take (length xs - n) xs"

fun lru_step :: "('k, 'v) ecm_call \<Rightarrow> ('k, 'v) lru_spec \<Rightarrow> ('k, 'v) lru_spec" where
  "lru_step (CFind k) (xs, m, n) = (used k xs, m, n)"
| "lru_step (CSet k v promote) (xs, m, n) =
     (if k \<in> fst ` set xs
      then if promote then (k, v) # filter (\<lambda>e. fst e \<noteq> k) xs
           else map (\<lambda>e. if fst e = k then (k, v) else e) xs
      else if 0 < m \<and> m < length xs + 1 then dropped n ((k, v) # xs) else (k, v) # xs, m, n)"
| "lru_step (CErase k) (xs, m, n) = (filter (\<lambda>e. fst e \<noteq> k) xs, m, n)"
| "lru_step (CPrune i) (xs, m, n) = (dropped i xs, m, n)"
| "lru_step (CSetMaxSize m') (xs, m, n) =
     (if m' \<noteq> 0 \<and> m' < length xs then dropped (max (length xs - m') n) xs else xs, m', n)"
| "lru_step (CSetClearSize n') (xs, m, n) = (xs, m, n')"
| "lru_step (CSetHook h) (xs, m, n) = (xs, m, n)"
| "lru_step CClear (xs, m, n) = ([], m, n)"

definition lru_abs :: "('k, 'v) ecm \<Rightarrow> ('k, 'v) lru_spec" where
  "lru_abs c = (entries c, maxSize c, clearSize c)"

fun no_hook :: "('k, 'v) ecm_call \<Rightarrow> bool" where
  "no_hook (CSetHook h) \<longleftrightarrow> h = None"
| "no_hook _ \<longleftrightarrow> True"

definition quiet_inv :: "('k, 'v) ecm \<Rightarrow> bool" where
  "quiet_inv c \<longleftrightarrow> ecm_ok c \<and> pruneHook c = None"

lemma quiet_prune:
  assumes "quiet_inv c"
  shows "\<exists>c'. prune n None c = (False, [], c') \<and> quiet_inv c' \<and> entries c' = dropped n (entries c) \<and>
     maxSize c' = maxSize c \<and> clearSize c' = clearSize c"
proof -
  obtain t calls c' where p: "prune n None c = (t, calls, c')" by (metis prod_cases3)
  obtain j where "pruned n None False c j t calls c'"
    using prune_pruned [of c n None False t calls c'] assms p by (auto simp: prune_def quiet_inv_def)
  then show ?thesis
    using p assms by (auto simp: pruned_def quiet_inv_def dropped_def min_def)
qed

lemma map_of_entries:
  assumes "ecm_ok c" "(k, v) \<in> set (entries c)"
  shows "map_of (entries c) k = Some v"
  using assms by (simp add: ecm_ok_def)

lemma getWithoutPromotion_eq:
  assumes ok: "ecm_ok c"
  shows "getWithoutPromotion c k =
    (case map_of (entries c) k of None \<Rightarrow> Inl KeyDoesNotExist | Some v \<Rightarrow> Inr v)"
proof (cases "findInIndex c k")
  case None
  then have "map_of (entries c) k = None"
    using findInIndex_None [OF ok, of k] by (simp add: map_of_eq_None_iff)
  with None show ?thesis by (simp add: getWithoutPromotion_def findWithoutPromotion_def node_value_def)
next
  case (Some n)
  obtain v where "nodes c n = Some (k, v)" "(k, v) \<in> set (entries c)"
    using findInIndex_Some [OF ok Some] by metis
  then show ?thesis
    using Some map_of_entries [OF ok] by (simp add: getWithoutPromotion_def findWithoutPromotion_def node_value_def)
qed

lemma quiet_find:
  assumes "quiet_inv c"
  shows "quiet_inv (snd (ecm_find k c)) \<and> entries (snd (ecm_find k c)) = used k (entries c)"
proof (cases "findInIndex c k")
  case None
  then have "map_of (entries c) k = None"
    using findInIndex_None [of c k] assms by (simp add: map_of_eq_None_iff quiet_inv_def)
  with None assms show ?thesis by (simp add: ecm_find_def used_def)
next
  case (Some n)
  have ok: "ecm_ok c" using assms by (simp add: quiet_inv_def)
  obtain v where v: "n \<in> set (lru c)" "nodes c n = Some (k, v)" "(k, v) \<in> set (entries c)"
    using findInIndex_Some [OF ok Some] by metis
  then show ?thesis
    using Some assms to_front_ok [OF ok v(1)] to_front_entries [OF ok v(1,2)] map_of_entries [OF ok v(3)]
    by (simp add: ecm_find_def used_def quiet_inv_def)
qed

lemma quiet_erase:
  assumes "quiet_inv c"
  shows "quiet_inv (snd (ecm_erase k c)) \<and>
    entries (snd (ecm_erase k c)) = filter (\<lambda>e. fst e \<noteq> k) (entries c)"
proof (cases "findInIndex c k")
  case None
  then have "k \<notin> fst ` set (entries c)" using findInIndex_None [of c k] assms by (simp add: quiet_inv_def)
  then have "filter (\<lambda>e. fst e \<noteq> k) (entries c) = entries c" by (force simp: filter_id_conv)
  with None assms show ?thesis by (simp add: ecm_erase_def)
next
  case (Some n)
  have ok: "ecm_ok c" using assms by (simp add: quiet_inv_def)
  obtain v where v: "n \<in> set (lru c)" "nodes c n = Some (k, v)"
    using findInIndex_Some [OF ok Some] by metis
  then show ?thesis
    using Some assms unlink_ok [OF ok v(1)] unlink_entries [OF ok v]
    by (simp add: ecm_erase_def quiet_inv_def)
qed

lemma quiet_set:
  assumes "quiet_inv c"
  shows "quiet_inv (snd (snd (ecm_set k v promote c))) \<and>
    lru_abs (snd (snd (ecm_set k v promote c))) = lru_step (CSet k v promote) (lru_abs c)"
proof -
  have ok: "ecm_ok c" and h: "pruneHook c = None" using assms by (simp_all add: quiet_inv_def)
  show ?thesis
  proof (cases rule: ecm_set_cases [OF ok, of k v promote, case_names old new])
    case (old n w)
    let ?c = "c\<lparr>nodes := (nodes c)(n \<mapsto> (k, v))\<rparr>"
    note ok' = set_value_ok [OF ok old(2,3), of v] and e = set_value_entries [OF ok old(2,3), of v]
    have "filter (\<lambda>e. fst e \<noteq> k) (map (\<lambda>e. if fst e = k then (k, v) else e) xs) =
        filter (\<lambda>e. fst e \<noteq> k) xs" for xs :: "('a \<times> 'b) list"
      by (induction xs) auto
    then have "entries (to_front n ?c) = (k, v) # filter (\<lambda>e. fst e \<noteq> k) (entries c)"
      using to_front_entries [OF ok', of n k v] old(2) e by simp
    moreover have "k \<in> fst ` set (entries c)" using old(4) by force
    ultimately show ?thesis
      using old h e ok' to_front_ok [OF ok', of n] by (simp add: lru_abs_def quiet_inv_def)
  next
    case new
    have q: "quiet_inv (link_new k v c)"
      using link_new_ok [OF ok new(1)] h by (simp add: quiet_inv_def)
    from quiet_prune [OF q, of "clearSize c"] obtain c'
      where "prune (clearSize c) None (link_new k v c) = (False, [], c')" "quiet_inv c'"
        "entries c' = dropped (clearSize c) (entries (link_new k v c))"
        "maxSize c' = maxSize c" "clearSize c' = clearSize c" by auto
    with new q link_new_entries [OF ok, of k v] show ?thesis by (simp add: lru_abs_def)
  qed
qed

lemma quiet_setMaxSize:
  assumes "quiet_inv c"
  shows "quiet_inv (snd (snd (setMaxSize m c))) \<and>
    lru_abs (snd (snd (setMaxSize m c))) = lru_step (CSetMaxSize m) (lru_abs c)"
proof -
  have size: "ecm_size c = length (lru c)" using assms by (simp add: quiet_inv_def ecm_size_eq)
  from quiet_prune [OF assms, of "max (length (lru c) - m) (clearSize c)"] obtain c'
    where "prune (max (length (lru c) - m) (clearSize c)) None c = (False, [], c')" "quiet_inv c'"
      "entries c' = dropped (max (length (lru c) - m) (clearSize c)) (entries c)"
      "clearSize c' = clearSize c" by auto
  then show ?thesis using assms by (simp add: setMaxSize_def size lru_abs_def quiet_inv_def)
qed

lemma quiet_clear:
  assumes "quiet_inv c"
  shows "quiet_inv (snd (snd (ecm_clear c))) \<and> lru_abs (snd (snd (ecm_clear c))) = lru_step CClear (lru_abs c)"
proof -
  have "ecm_size c = length (lru c)" using assms by (simp add: quiet_inv_def ecm_size_eq)
  with quiet_prune [OF assms, of "ecm_size c"] show ?thesis
    by (auto simp: ecm_clear_def lru_abs_def dropped_def)
qed

lemma quiet_step:
  assumes "quiet_inv c" "no_hook call"
  shows "quiet_inv (ecm_step call c) \<and> lru_abs (ecm_step call c) = lru_step call (lru_abs c)"
proof (cases call)
  case (CFind k)
  then show ?thesis using quiet_find [OF assms(1), of k]
    by (auto simp: lru_abs_def ecm_find_def split: option.splits)
next
  case (CErase k)
  then show ?thesis using quiet_erase [OF assms(1), of k]
    by (auto simp: lru_abs_def ecm_erase_def split: option.splits)
next
  case (CPrune n)
  then show ?thesis using quiet_prune [OF assms(1), of n] by (auto simp: lru_abs_def)
next
  case (CSet k v promote)
  then show ?thesis using quiet_set [OF assms(1), of k v promote] by simp
next
  case (CSetMaxSize m)
  then show ?thesis using quiet_setMaxSize [OF assms(1), of m] by simp
next
  case CClear
  then show ?thesis using quiet_clear [OF assms(1)] by simp
qed (use assms in \<open>simp_all add: setClearSize_def setPruneHook_def lru_abs_def quiet_inv_def\<close>)

interpretation qc: op_refinement ecm_step quiet_inv no_hook lru_abs lru_step
  by unfold_locales (simp_all add: quiet_step)

lemma new_ecm [simp]:
  "quiet_inv (EvictingCacheMap m n)" "lru_abs (EvictingCacheMap m n) = ([], m, n)"
  "limit_inv (EvictingCacheMap m n) \<longleftrightarrow> 0 < n"
  by (auto simp: quiet_inv_def limit_inv_iff ecm_ok_def entries_def EvictingCacheMap_def lru_abs_def)

end
