(* ===== verification/Sorted_Vector.thy ===== *)
theory Sorted_Vector
  imports Chess_Prelude
begin

text \<open>
  \<open>folly/sorted_vector_types.h\<close>: a set and a map kept as a sorted \<open>std::vector\<close>, with the
  default comparison \<open>std::less\<close> on a linearly ordered key type. Iterators are positions, the end
  iterator is the length. The growth policies change the capacity only and keep the position.
  \<open>insert_with_hint\<close> is a template over both containers: it gets the container's comparison
  and its \<open>insert\<close>.
\<close>

section \<open>The parts of the standard library in use\<close>

definition vec_insert :: "nat \<Rightarrow> 'a \<Rightarrow> 'a list \<Rightarrow> 'a list" where
  "vec_insert i v xs = take i xs @ v # drop i xs"

definition vec_erase :: "nat \<Rightarrow> nat \<Rightarrow> 'a list \<Rightarrow> 'a list" where
  "vec_erase i j xs = take i xs @ drop j xs"

text \<open>
  The position \<open>std::lower_bound\<close> and \<open>std::upper_bound\<close> find in a range where the elements
  with the property come first.
\<close>

definition partition_point :: "('a \<Rightarrow> bool) \<Rightarrow> 'a list \<Rightarrow> nat" where
  "partition_point p xs = length (takeWhile p xs)"

section \<open>The shared template\<close>

definition insert_with_hint ::
  "('a \<Rightarrow> 'a \<Rightarrow> bool) \<Rightarrow> ('a \<Rightarrow> 'a list \<Rightarrow> (nat \<times> bool) \<times> 'a list) \<Rightarrow> nat \<Rightarrow> 'a \<Rightarrow> 'a list \<Rightarrow>
    nat \<times> 'a list" where
  "insert_with_hint cmp ins hint val cont =
     (if hint = length cont \<or> cmp val (cont ! hint) then
        if hint = 0 then (0, vec_insert 0 val cont)
        else if cmp (cont ! (hint - 1)) val then (hint, vec_insert hint val cont)
        else let (r, cont) = ins val cont in (fst r, cont)
      else if cmp (cont ! hint) val \<and>
              (hint + 1 = length cont \<or> cmp val (cont ! (hint + 1))) then
        (hint + 1, vec_insert (hint + 1) val cont)
      else (hint, cont))"

section \<open>sorted_vector_set\<close>

definition svs_lower_bound :: "'a :: linorder \<Rightarrow> 'a list \<Rightarrow> nat" where
  "svs_lower_bound key cont = partition_point (\<lambda>x. x < key) cont"

definition svs_upper_bound :: "'a :: linorder \<Rightarrow> 'a list \<Rightarrow> nat" where
  "svs_upper_bound key cont = partition_point (\<lambda>x. \<not> key < x) cont"

definition svs_equal_range :: "'a :: linorder \<Rightarrow> 'a list \<Rightarrow> nat \<times> nat" where
  "svs_equal_range key cont = (svs_lower_bound key cont, svs_upper_bound key cont)"

definition svs_insert :: "'a :: linorder \<Rightarrow> 'a list \<Rightarrow> (nat \<times> bool) \<times> 'a list" where
  "svs_insert val cont =
     (let it = svs_lower_bound val cont
      in if it = length cont \<or> val < cont ! it then ((it, True), vec_insert it val cont)
         else ((it, False), cont))"

definition svs_insert_hint :: "nat \<Rightarrow> 'a :: linorder \<Rightarrow> 'a list \<Rightarrow> nat \<times> 'a list" where
  "svs_insert_hint hint val cont = insert_with_hint (<) svs_insert hint val cont"

definition svs_insert_range :: "'a :: linorder list \<Rightarrow> 'a list \<Rightarrow> 'a list" where
  "svs_insert_range vals cont = fold (\<lambda>v cont. snd (svs_insert_hint (length cont) v cont)) vals cont"

definition sorted_vector_set :: "'a :: linorder list \<Rightarrow> 'a list" where
  "sorted_vector_set vals = svs_insert_range vals []"

definition svs_erase :: "'a :: linorder \<Rightarrow> 'a list \<Rightarrow> nat \<times> 'a list" where
  "svs_erase key cont =
     (let it = svs_lower_bound key cont
      in if it = length cont then (0, cont) else (1, vec_erase it (it + 1) cont))"

definition svs_find :: "'a :: linorder \<Rightarrow> 'a list \<Rightarrow> nat" where
  "svs_find key cont =
     (let it = svs_lower_bound key cont
      in if it = length cont \<or> \<not> key < cont ! it then it else length cont)"

definition svs_count :: "'a :: linorder \<Rightarrow> 'a list \<Rightarrow> nat" where
  "svs_count key cont = (if svs_find key cont = length cont then 0 else 1)"

definition svs_erase_at :: "nat \<Rightarrow> 'a list \<Rightarrow> 'a list" where
  "svs_erase_at it cont = vec_erase it (it + 1) cont"

definition svs_erase_range :: "nat \<Rightarrow> nat \<Rightarrow> 'a list \<Rightarrow> 'a list" where
  "svs_erase_range from_it to_it cont = vec_erase from_it to_it cont"

definition svs_swap :: "'a list \<Rightarrow> 'a list \<Rightarrow> 'a list \<times> 'a list" where
  "svs_swap cont other = (other, cont)"

section \<open>sorted_vector_map\<close>

definition svm_lower_bound :: "'k :: linorder \<Rightarrow> ('k \<times> 'v) list \<Rightarrow> nat" where
  "svm_lower_bound key cont = partition_point (\<lambda>x. fst x < key) cont"

definition svm_upper_bound :: "'k :: linorder \<Rightarrow> ('k \<times> 'v) list \<Rightarrow> nat" where
  "svm_upper_bound key cont = partition_point (\<lambda>x. \<not> key < fst x) cont"

definition svm_equal_range :: "'k :: linorder \<Rightarrow> ('k \<times> 'v) list \<Rightarrow> nat \<times> nat" where
  "svm_equal_range key cont =
     (let low = svm_lower_bound key cont
      in (low, low + partition_point (\<lambda>x. \<not> key < fst x) (drop low cont)))"

definition svm_value_compare :: "'k :: linorder \<times> 'v \<Rightarrow> 'k \<times> 'v \<Rightarrow> bool" where
  "svm_value_compare a b \<longleftrightarrow> fst a < fst b"

definition svm_insert ::
  "'k :: linorder \<times> 'v \<Rightarrow> ('k \<times> 'v) list \<Rightarrow> (nat \<times> bool) \<times> ('k \<times> 'v) list" where
  "svm_insert val cont =
     (let it = svm_lower_bound (fst val) cont
      in if it = length cont \<or> svm_value_compare val (cont ! it)
         then ((it, True), vec_insert it val cont) else ((it, False), cont))"

definition svm_insert_hint ::
  "nat \<Rightarrow> 'k :: linorder \<times> 'v \<Rightarrow> ('k \<times> 'v) list \<Rightarrow> nat \<times> ('k \<times> 'v) list" where
  "svm_insert_hint hint val cont = insert_with_hint svm_value_compare svm_insert hint val cont"

definition svm_insert_range ::
  "('k :: linorder \<times> 'v) list \<Rightarrow> ('k \<times> 'v) list \<Rightarrow> ('k \<times> 'v) list" where
  "svm_insert_range vals cont = fold (\<lambda>v cont. snd (svm_insert_hint (length cont) v cont)) vals cont"

definition svm_find :: "'k :: linorder \<Rightarrow> ('k \<times> 'v) list \<Rightarrow> nat" where
  "svm_find key cont =
     (let it = svm_lower_bound key cont
      in if it = length cont \<or> \<not> key < fst (cont ! it) then it else length cont)"

definition svm_erase :: "'k :: linorder \<Rightarrow> ('k \<times> 'v) list \<Rightarrow> nat \<times> ('k \<times> 'v) list" where
  "svm_erase key cont =
     (let it = svm_find key cont
      in if it = length cont then (0, cont) else (1, vec_erase it (it + 1) cont))"

definition svm_count :: "'k :: linorder \<Rightarrow> ('k \<times> 'v) list \<Rightarrow> nat" where
  "svm_count key cont = (if svm_find key cont = length cont then 0 else 1)"

text \<open>\<open>operator[]\<close> with the default value of the mapped type; the result is the position.\<close>

definition svm_at :: "'v \<Rightarrow> 'k :: linorder \<Rightarrow> ('k \<times> 'v) list \<Rightarrow> nat \<times> ('k \<times> 'v) list" where
  "svm_at dflt key cont =
     (let it = svm_lower_bound key cont
      in if it = length cont \<or> key < fst (cont ! it)
         then svm_insert_hint it (key, dflt) cont else (it, cont))"

definition svm_erase_at :: "nat \<Rightarrow> ('k \<times> 'v) list \<Rightarrow> ('k \<times> 'v) list" where
  "svm_erase_at it cont = vec_erase it (it + 1) cont"

definition svm_erase_range :: "nat \<Rightarrow> nat \<Rightarrow> ('k \<times> 'v) list \<Rightarrow> ('k \<times> 'v) list" where
  "svm_erase_range from_it to_it cont = vec_erase from_it to_it cont"

definition svm_swap :: "('k \<times> 'v) list \<Rightarrow> ('k \<times> 'v) list \<Rightarrow> ('k \<times> 'v) list \<times> ('k \<times> 'v) list" where
  "svm_swap cont other = (other, cont)"

section \<open>Strictly increasing vectors\<close>

definition ascending :: "('a \<Rightarrow> 'k :: linorder) \<Rightarrow> 'a list \<Rightarrow> bool" where
  "ascending f xs \<longleftrightarrow> sorted_wrt (\<lambda>x y. f x < f y) xs"

text \<open>The two containers are the instances of one insertion.\<close>

definition keyed_insert ::
  "('a \<Rightarrow> 'k :: linorder) \<Rightarrow> 'a \<Rightarrow> 'a list \<Rightarrow> (nat \<times> bool) \<times> 'a list" where
  "keyed_insert f val cont =
     (let it = partition_point (\<lambda>x. f x < f val) cont
      in if it = length cont \<or> f val < f (cont ! it) then ((it, True), vec_insert it val cont)
         else ((it, False), cont))"

definition keyed_hint :: "('a \<Rightarrow> 'k :: linorder) \<Rightarrow> nat \<Rightarrow> 'a \<Rightarrow> 'a list \<Rightarrow> nat \<times> 'a list" where
  "keyed_hint f = insert_with_hint (\<lambda>x y. f x < f y) (keyed_insert f)"

lemma svs_insert_keyed: "svs_insert = keyed_insert (\<lambda>x. x)"
  by (auto simp: fun_eq_iff svs_insert_def keyed_insert_def svs_lower_bound_def)

lemma svm_insert_keyed: "svm_insert = keyed_insert fst"
  by (auto simp: fun_eq_iff svm_insert_def keyed_insert_def svm_lower_bound_def svm_value_compare_def)

lemma svs_hint_keyed: "svs_insert_hint = keyed_hint (\<lambda>x. x)"
  by (simp add: fun_eq_iff svs_insert_hint_def keyed_hint_def svs_insert_keyed)

lemma svm_hint_keyed: "svm_insert_hint = keyed_hint fst"
proof -
  have cmp: "svm_value_compare = (\<lambda>x y. fst x < fst y)"
    by (intro ext) (rule svm_value_compare_def)
  show ?thesis
    by (intro ext) (simp only: svm_insert_hint_def keyed_hint_def svm_insert_keyed cmp)
qed

lemma ascending_nth: "ascending f xs \<Longrightarrow> i < j \<Longrightarrow> j < length xs \<Longrightarrow> f (xs ! i) < f (xs ! j)"
  by (simp add: ascending_def sorted_wrt_iff_nth_less)

lemma ascending_inj: "ascending f xs \<Longrightarrow> x \<in> set xs \<Longrightarrow> y \<in> set xs \<Longrightarrow> f x = f y \<Longrightarrow> x = y"
proof -
  assume a: "ascending f xs" "x \<in> set xs" "y \<in> set xs" "f x = f y"
  then obtain i j where "x = xs ! i" "i < length xs" "y = xs ! j" "j < length xs"
    by (metis in_set_conv_nth)
  with a show "x = y"
    using ascending_nth [of f xs i j] ascending_nth [of f xs j i] by (metis less_irrefl nat_neq_iff)
qed

lemma ascending_above:
  assumes "ascending f xs" "i < length xs" "x \<in> set (drop i xs)"
  shows "f (xs ! i) \<le> f x"
proof -
  obtain j where "x = xs ! (i + j)" "i + j < length xs"
    using assms(3) by (auto simp: in_set_conv_nth)
  then show ?thesis using ascending_nth [OF assms(1), of i "i + j"] by (cases j) auto
qed

lemma ascending_below:
  assumes "ascending f xs" "0 < i" "i \<le> length xs" "x \<in> set (take i xs)"
  shows "f x \<le> f (xs ! (i - 1))"
proof -
  obtain j where "x = xs ! j" "j < i" using assms(3,4) by (auto simp: in_set_conv_nth)
  moreover from this have "j < i - 1 \<or> j = i - 1" by auto
  ultimately show ?thesis
    using ascending_nth [OF assms(1), of j "i - 1"] assms(2,3) by fastforce
qed

text \<open>The split that a lower bound makes.\<close>

lemma partition_split:
  assumes "ascending f xs" and i_def: "i = partition_point (\<lambda>x. f x < k) xs"
  shows "i \<le> length xs" "\<And>x. x \<in> set (take i xs) \<Longrightarrow> f x < k" "\<And>x. x \<in> set (drop i xs) \<Longrightarrow> k \<le> f x"
proof -
  show le: "i \<le> length xs" by (simp add: i_def partition_point_def length_takeWhile_le)
  have t: "take i xs = takeWhile (\<lambda>x. f x < k) xs" by (simp add: i_def partition_point_def takeWhile_eq_take [symmetric])
  show "x \<in> set (take i xs) \<Longrightarrow> f x < k" for x unfolding t by (auto dest: set_takeWhileD)
  show "k \<le> f x" if x: "x \<in> set (drop i xs)" for x
  proof -
    have i: "i < length xs" using x by (cases "i < length xs") auto
    then have "\<not> f (xs ! i) < k" unfolding i_def partition_point_def by (rule nth_length_takeWhile)
    then show ?thesis using ascending_above [OF assms(1) i x] by auto
  qed
qed

lemma ascending_vec_insert:
  assumes "ascending f xs" "\<And>x. x \<in> set (take i xs) \<Longrightarrow> f x < f v" "\<And>x. x \<in> set (drop i xs) \<Longrightarrow> f v < f x"
  shows "ascending f (vec_insert i v xs)"
  using assms sorted_wrt_append [of "\<lambda>x y. f x < f y" "take i xs" "drop i xs"]
  by (auto simp: ascending_def vec_insert_def sorted_wrt_append)

lemma ascending_vec_erase:
  assumes "ascending f xs" "i \<le> j"
  shows "ascending f (vec_erase i j xs)"
proof -
  have "sorted_wrt (\<lambda>x y. f x < f y) (take i xs @ drop i xs)" using assms by (simp add: ascending_def)
  moreover have "set (drop j xs) \<subseteq> set (drop i xs)" using assms(2) by (rule set_drop_subset_set_drop)
  ultimately show ?thesis
    using assms(1) by (auto simp: ascending_def vec_erase_def sorted_wrt_append sorted_wrt_drop simp del: append_take_drop_id)
qed

lemma erase_positions_ascending:
  assumes "i \<le> j"
  shows "ascending (\<lambda>x. x) xs \<Longrightarrow> ascending (\<lambda>x. x) (svs_erase_range i j xs)"
    and "ascending (\<lambda>x. x) xs \<Longrightarrow> ascending (\<lambda>x. x) (svs_erase_at i xs)"
    and "ascending fst ys \<Longrightarrow> ascending fst (svm_erase_range i j ys)"
    and "ascending fst ys \<Longrightarrow> ascending fst (svm_erase_at i ys)"
  using assms by (simp_all add: svs_erase_range_def svs_erase_at_def svm_erase_range_def
      svm_erase_at_def ascending_vec_erase)

lemma set_vec_insert [simp]: "set (vec_insert i v xs) = insert v (set xs)"
  unfolding vec_insert_def by (metis append_take_drop_id list.simps(15) set_append Un_insert_right)

section \<open>Insertion\<close>

text \<open>What an insertion promises: \<open>ys\<close> holds \<open>v\<close>, unless its key was there, and \<open>it\<close> points at it.\<close>

definition inserted :: "('a \<Rightarrow> 'k :: linorder) \<Rightarrow> 'a \<Rightarrow> 'a list \<Rightarrow> nat \<Rightarrow> 'a list \<Rightarrow> bool" where
  "inserted f v xs it ys \<longleftrightarrow> ascending f ys \<and>
     set ys = (if f v \<in> f ` set xs then set xs else insert v (set xs)) \<and>
     it < length ys \<and> f (ys ! it) = f v"

lemma inserted_here:
  assumes "ascending f xs" "i \<le> length xs"
    "\<And>x. x \<in> set (take i xs) \<Longrightarrow> f x < f v" "\<And>x. x \<in> set (drop i xs) \<Longrightarrow> f v < f x"
  shows "inserted f v xs i (vec_insert i v xs)" "f v \<notin> f ` set xs"
proof -
  have "set xs = set (take i xs) \<union> set (drop i xs)" by (metis append_take_drop_id set_append)
  then show notin: "f v \<notin> f ` set xs" using assms(3,4) by fastforce
  have "ascending f (vec_insert i v xs)"
    by (rule ascending_vec_insert [OF assms(1)]) (use assms(3,4) in auto)
  moreover have "i < length (vec_insert i v xs)" "vec_insert i v xs ! i = v"
    using assms(2) by (simp_all add: vec_insert_def nth_append)
  ultimately show "inserted f v xs i (vec_insert i v xs)" using notin by (simp add: inserted_def)
qed

lemma inserted_old: "ascending f xs \<Longrightarrow> i < length xs \<Longrightarrow> f (xs ! i) = f v \<Longrightarrow> inserted f v xs i xs"
  unfolding inserted_def using image_eqI [of "f v" f "xs ! i" "set xs"] by simp

lemma keyed_insert_spec:
  assumes asc: "ascending f xs"
  shows "\<exists>it ys. keyed_insert f v xs = ((it, f v \<notin> f ` set xs), ys) \<and> inserted f v xs it ys"
proof -
  define i where "i = partition_point (\<lambda>x. f x < f v) xs"
  note split = partition_split [OF asc i_def]
  show ?thesis
  proof (cases "i = length xs \<or> f v < f (xs ! i)")
    case True
    have above: "f v < f x" if "x \<in> set (drop i xs)" for x
    proof -
      have "i < length xs" using that by (cases "i < length xs") auto
      with True ascending_above [OF asc this that] show ?thesis by auto
    qed
    then have "inserted f v xs i (vec_insert i v xs)" "f v \<notin> f ` set xs"
      using inserted_here [OF asc split(1), of v] split(2) by blast+
    then show ?thesis using True by (simp add: keyed_insert_def Let_def flip: i_def)
  next
    case False
    then have i: "i < length xs" using split(1) by simp
    have "xs ! i \<in> set (drop i xs)" using i by (simp add: Cons_nth_drop_Suc [symmetric])
    then have e: "f (xs ! i) = f v" using split(3) False by force
    then have "f v \<in> f ` set xs" using i by (metis imageI nth_mem)
    then show ?thesis
      using False inserted_old [OF asc i e] by (simp add: keyed_insert_def Let_def flip: i_def)
  qed
qed

text \<open>
  A hint is used when it is the right place or one to the left of it; a hint further to the
  left loses the value.
\<close>

definition stale_hint :: "('a \<Rightarrow> 'k :: linorder) \<Rightarrow> nat \<Rightarrow> 'a \<Rightarrow> 'a list \<Rightarrow> bool" where
  "stale_hint f hint v xs \<longleftrightarrow>
     hint + 1 < length xs \<and> f (xs ! hint) < f v \<and> f (xs ! (hint + 1)) \<le> f v"

lemma keyed_hint_spec:
  assumes asc: "ascending f xs" and hint: "hint \<le> length xs"
  shows "if stale_hint f hint v xs then keyed_hint f hint v xs = (hint, xs)
         else inserted f v xs (fst (keyed_hint f hint v xs)) (snd (keyed_hint f hint v xs))"
proof -
  have above: "f v < f x" if "i = length xs \<or> f v < f (xs ! i)" "x \<in> set (drop i xs)" for x i
  proof -
    have "i < length xs" using that(2) by (cases "i < length xs") auto
    with that ascending_above [OF asc this that(2)] show ?thesis by auto
  qed
  have below: "f x < f v" if "0 < i" "i \<le> length xs" "f (xs ! (i - 1)) < f v" "x \<in> set (take i xs)" for x i
    using ascending_below [OF asc that(1,2,4)] that(3) by auto
  consider (right) "hint = length xs \<or> f v < f (xs ! hint)"
    | (left) "hint < length xs" "f (xs ! hint) < f v" | (here) "hint < length xs" "f (xs ! hint) = f v"
    using hint by force
  then show ?thesis
  proof cases
    case right
    then have ns: "\<not> stale_hint f hint v xs" by (auto simp: stale_hint_def)
    obtain it ys where ins: "keyed_insert f v xs = ((it, f v \<notin> f ` set xs), ys)" "inserted f v xs it ys"
      using keyed_insert_spec [OF asc] by blast
    have "inserted f v xs hint (vec_insert hint v xs)" if "hint = 0 \<or> f (xs ! (hint - 1)) < f v"
      using that above [OF right] below [of hint] hint
      by (intro inserted_here [OF asc hint]) (cases "hint = 0"; auto)+
    then show ?thesis
      using right ns ins by (auto simp: keyed_hint_def insert_with_hint_def)
  next
    case left
    show ?thesis
    proof (cases "stale_hint f hint v xs")
      case True
      then show ?thesis using left by (auto simp: keyed_hint_def insert_with_hint_def stale_hint_def)
    next
      case False
      then have next_above: "hint + 1 = length xs \<or> f v < f (xs ! (hint + 1))"
        using left by (auto simp: stale_hint_def)
      then have "inserted f v xs (hint + 1) (vec_insert (hint + 1) v xs)"
        using above [OF next_above] below [of "hint + 1"] left
        by (intro inserted_here [OF asc]) auto
      then show ?thesis
        using False left next_above by (auto simp: keyed_hint_def insert_with_hint_def)
    qed
  next
    case here
    then show ?thesis
      using inserted_old [OF asc here] by (auto simp: keyed_hint_def insert_with_hint_def stale_hint_def)
  qed
qed

lemma hint_at_end:
  assumes "ascending f xs"
  shows "inserted f v xs (fst (keyed_hint f (length xs) v xs)) (snd (keyed_hint f (length xs) v xs))"
  using keyed_hint_spec [OF assms, of "length xs" v] by (simp add: stale_hint_def)

section \<open>The set\<close>

lemma svs_range_spec:
  assumes "ascending (\<lambda>x. x) xs"
  shows "ascending (\<lambda>x. x) (svs_insert_range vs xs) \<and> set (svs_insert_range vs xs) = set vs \<union> set xs"
  using assms
proof (induction vs arbitrary: xs)
  case (Cons v vs)
  let ?ys = "snd (svs_insert_hint (length xs) v xs)"
  have "ascending (\<lambda>x. x) ?ys" "set ?ys = insert v (set xs)"
    using hint_at_end [OF Cons.prems, of v] by (auto simp: inserted_def svs_hint_keyed)
  with Cons.IH [of ?ys] show ?case by (simp add: svs_insert_range_def)
qed (simp add: svs_insert_range_def)

lemma set_vec_erase:
  assumes asc: "ascending f xs" and i: "i < length xs"
  shows "set (vec_erase i (i + 1) xs) = set xs - {xs ! i}"
proof -
  have e: "xs = take i xs @ xs ! i # drop (i + 1) xs" using i by (simp add: id_take_nth_drop)
  have "distinct (map f xs)" using asc by (simp add: ascending_def sorted_wrt_map strict_sorted_iff flip: sorted_wrt_map)
  then have "distinct xs" by (simp add: distinct_map)
  then have "xs ! i \<notin> set (take i xs) \<union> set (drop (i + 1) xs)"
    by (subst (asm) e) (simp only: distinct_append distinct.simps list.set, blast)
  then show ?thesis unfolding vec_erase_def by (subst (3) e) auto
qed

lemma lower_bound_least:
  assumes asc: "ascending f xs" and i: "i = partition_point (\<lambda>x. f x < k) xs" "i < length xs"
  shows "k \<le> f (xs ! i)" "\<And>x. x \<in> set xs \<Longrightarrow> k \<le> f x \<Longrightarrow> f (xs ! i) \<le> f x"
proof -
  note split = partition_split [OF asc i(1)]
  have "xs ! i \<in> set (drop i xs)" using i by (simp add: Cons_nth_drop_Suc [symmetric])
  then show "k \<le> f (xs ! i)" by (rule split(3))
  show "f (xs ! i) \<le> f x" if x: "x \<in> set xs" "k \<le> f x" for x
  proof -
    have "x \<in> set (take i xs) \<or> x \<in> set (drop i xs)" using x(1) by (metis UnE append_take_drop_id set_append)
    then show ?thesis using split(2) x(2) ascending_above [OF asc i(2)] by fastforce
  qed
qed

lemma lower_bound_end:
  assumes asc: "ascending f xs" and i: "length xs = partition_point (\<lambda>x. f x < k) xs"
  shows "x \<in> set xs \<Longrightarrow> f x < k"
  using partition_split [OF asc i] by simp

lemma svs_find_spec:
  assumes "ascending (\<lambda>x. x) xs"
  shows "if k \<in> set xs then svs_find k xs < length xs \<and> xs ! svs_find k xs = k
         else svs_find k xs = length xs"
proof -
  define i where "i = partition_point (\<lambda>x. x < k) xs"
  have le: "i \<le> length xs" using partition_split [OF assms i_def] by simp
  show ?thesis
  proof (cases "i = length xs")
    case True
    then show ?thesis
      using lower_bound_end [OF assms, of k] by (auto simp: i_def svs_find_def svs_lower_bound_def Let_def)
  next
    case False
    then have i: "i < length xs" using le by simp
    note l = lower_bound_least [OF assms i_def i]
    have "k \<in> set xs \<longleftrightarrow> xs ! i = k" using l(1) l(2) [of k] nth_mem [OF i] by auto
    then show ?thesis
      using l(1) i by (auto simp: svs_find_def svs_lower_bound_def Let_def simp flip: i_def)
  qed
qed

text \<open>
  \<open>erase(key)\<close> of the set does not ask whether the element it has found is the key: the least
  element that is not below the key goes.
\<close>

definition erased_by_key :: "'a :: linorder \<Rightarrow> 'a set \<Rightarrow> 'a set" where
  "erased_by_key k S = (if \<exists>x \<in> S. k \<le> x then S - {Min {x \<in> S. k \<le> x}} else S)"

lemma svs_erase_spec:
  assumes asc: "ascending (\<lambda>x. x) xs"
  shows "ascending (\<lambda>x. x) (snd (svs_erase k xs)) \<and>
    set (snd (svs_erase k xs)) = erased_by_key k (set xs)"
proof -
  define i where "i = partition_point (\<lambda>x. x < k) xs"
  have le: "i \<le> length xs" using partition_split [OF asc i_def] by simp
  show ?thesis
  proof (cases "i = length xs")
    case True
    then have "\<not> (\<exists>x \<in> set xs. k \<le> x)"
      using lower_bound_end [OF asc, of k] by (force simp: i_def)
    with True asc show ?thesis
      by (simp add: svs_erase_def svs_lower_bound_def erased_by_key_def Let_def flip: i_def)
  next
    case False
    then have i: "i < length xs" using le by simp
    note l = lower_bound_least [OF asc i_def i]
    have "Min {x \<in> set xs. k \<le> x} = xs ! i"
      by (rule Min_eqI) (use l nth_mem [OF i] in auto)
    moreover have "\<exists>x \<in> set xs. k \<le> x" using l(1) nth_mem [OF i] by blast
    ultimately show ?thesis
      using False set_vec_erase [OF asc i] ascending_vec_erase [OF asc, of i "i + 1"]
      by (simp add: svs_erase_def svs_lower_bound_def erased_by_key_def Let_def flip: i_def)
  qed
qed

datatype 'a svs_call = SInsert 'a | SInsertRange "'a list" | SErase 'a | SClear

fun svs_step :: "'a :: linorder svs_call \<Rightarrow> 'a list \<Rightarrow> 'a list" where
  "svs_step (SInsert v) cont = snd (svs_insert v cont)"
| "svs_step (SInsertRange vs) cont = svs_insert_range vs cont"
| "svs_step (SErase k) cont = snd (svs_erase k cont)"
| "svs_step SClear cont = []"

fun set_step :: "'a :: linorder svs_call \<Rightarrow> 'a set \<Rightarrow> 'a set" where
  "set_step (SInsert v) S = insert v S"
| "set_step (SInsertRange vs) S = set vs \<union> S"
| "set_step (SErase k) S = erased_by_key k S"
| "set_step SClear S = {}"

lemma svs_step_ok:
  assumes "ascending (\<lambda>x. x) xs"
  shows "ascending (\<lambda>x. x) (svs_step c xs) \<and> set (svs_step c xs) = set_step c (set xs)"
proof (cases c)
  case (SInsert v)
  obtain it ys where "svs_insert v xs = ((it, v \<notin> set xs), ys)" "inserted (\<lambda>x. x) v xs it ys"
    using keyed_insert_spec [OF assms, of v] by (auto simp: svs_insert_keyed)
  with SInsert show ?thesis by (cases "v \<in> set xs") (auto simp: inserted_def)
qed (simp_all add: svs_range_spec [OF assms] svs_erase_spec [OF assms], simp add: ascending_def)

interpretation svs: op_refinement svs_step "ascending (\<lambda>x. x)" "\<lambda>_. True" set set_step
  by unfold_locales (simp_all add: svs_step_ok)

section \<open>The map\<close>

lemma map_of_ascending:
  assumes "ascending fst xs"
  shows "map_of xs k = Some v \<longleftrightarrow> (k, v) \<in> set xs"
proof -
  have "distinct (map fst xs)"
    using assms by (simp add: ascending_def strict_sorted_iff flip: sorted_wrt_map)
  then show ?thesis by simp
qed

lemma map_of_eqI:
  assumes "ascending fst xs" "\<And>k v. (k, v) \<in> set xs \<longleftrightarrow> M k = Some v"
  shows "map_of xs = M"
proof
  fix k
  show "map_of xs k = M k"
    using assms(2) map_of_ascending [OF assms(1), of k] by (metis not_Some_eq)
qed

lemma inserted_map_of:
  assumes asc: "ascending fst xs" and ins: "inserted fst (k, v) xs it ys"
  shows "ascending fst ys \<and>
    map_of ys = (if k \<in> dom (map_of xs) then map_of xs else (map_of xs)(k \<mapsto> v)) \<and>
    it < length ys \<and> fst (ys ! it) = k \<and> map_of ys k = Some (snd (ys ! it))"
proof -
  have asc': "ascending fst ys" using ins by (simp add: inserted_def)
  have keys: "fst ` set xs = dom (map_of xs)" by (simp add: dom_map_of_conv_image_fst)
  have s: "set ys = (if k \<in> dom (map_of xs) then set xs else insert (k, v) (set xs))"
    using ins by (simp add: inserted_def keys)
  have "map_of ys = (if k \<in> dom (map_of xs) then map_of xs else (map_of xs)(k \<mapsto> v))"
    by (rule map_of_eqI [OF asc']) (auto simp: s map_of_ascending [OF asc, symmetric])
  moreover have "map_of ys k = Some (snd (ys ! it))"
    using ins nth_mem [of it ys] map_of_ascending [OF asc', of k "snd (ys ! it)"]
    by (metis fst_conv inserted_def prod.collapse)
  ultimately show ?thesis using asc' ins by (simp add: inserted_def)
qed

lemma svm_insert_spec:
  assumes asc: "ascending fst xs"
  shows "\<exists>it ys. svm_insert (k, v) xs = ((it, k \<notin> dom (map_of xs)), ys) \<and> inserted fst (k, v) xs it ys"
  using keyed_insert_spec [OF asc, of "(k, v)"]
  by (simp add: svm_insert_keyed dom_map_of_conv_image_fst)

lemma svm_find_spec:
  assumes asc: "ascending fst xs"
  shows "case map_of xs k of
           None \<Rightarrow> svm_find k xs = length xs
         | Some v \<Rightarrow> svm_find k xs < length xs \<and> xs ! svm_find k xs = (k, v)"
proof -
  define i where "i = partition_point (\<lambda>x. fst x < k) xs"
  have le: "i \<le> length xs" using partition_split [OF asc i_def] by simp
  show ?thesis
  proof (cases "i = length xs")
    case True
    then have "map_of xs k = None"
      using lower_bound_end [OF asc, of k] by (force simp: i_def map_of_eq_None_iff)
    with True show ?thesis by (simp add: svm_find_def svm_lower_bound_def Let_def flip: i_def)
  next
    case False
    then have i: "i < length xs" using le by simp
    note l = lower_bound_least [OF asc i_def i]
    show ?thesis
    proof (cases "map_of xs k")
      case None
      then have "fst (xs ! i) \<noteq> k" using nth_mem [OF i] by (auto simp: map_of_eq_None_iff)
      then have "k < fst (xs ! i)" using l(1) by simp
      with None i show ?thesis by (simp add: svm_find_def svm_lower_bound_def Let_def flip: i_def)
    next
      case (Some v)
      then have kv: "(k, v) \<in> set xs" using map_of_ascending [OF asc] by blast
      then have "fst (xs ! i) = k" using l(1) l(2) [OF kv] by simp
      then have "xs ! i = (k, v)" using ascending_inj [OF asc nth_mem [OF i] kv] by simp
      with Some i show ?thesis by (simp add: svm_find_def svm_lower_bound_def Let_def flip: i_def)
    qed
  qed
qed

lemma svm_erase_spec:
  assumes asc: "ascending fst xs"
  shows "ascending fst (snd (svm_erase k xs)) \<and> map_of (snd (svm_erase k xs)) = (map_of xs)(k := None)"
proof (cases "map_of xs k")
  case None
  then have "svm_find k xs = length xs" using svm_find_spec [OF asc, of k] by simp
  moreover have "map_of xs = (map_of xs)(k := None)" using None by auto
  ultimately show ?thesis using asc by (simp add: svm_erase_def)
next
  case (Some v)
  let ?i = "svm_find k xs"
  have i: "?i < length xs" "xs ! ?i = (k, v)" using svm_find_spec [OF asc, of k] Some by simp_all
  have e: "snd (svm_erase k xs) = vec_erase ?i (?i + 1) xs" using i by (simp add: svm_erase_def Let_def)
  have asc': "ascending fst (vec_erase ?i (?i + 1) xs)" by (rule ascending_vec_erase [OF asc]) simp
  have "map_of (vec_erase ?i (?i + 1) xs) = (map_of xs)(k := None)"
  proof (rule map_of_eqI [OF asc'])
    fix k' v'
    have "k' = k \<and> (k', v') \<in> set xs \<longrightarrow> v' = v"
      using Some map_of_ascending [OF asc, of k v'] by auto
    then show "(k', v') \<in> set (vec_erase ?i (?i + 1) xs) \<longleftrightarrow> ((map_of xs)(k := None)) k' = Some v'"
      using set_vec_erase [OF asc i(1)] i(2) by (auto simp: map_of_ascending [OF asc])
  qed
  with asc' e show ?thesis by simp
qed

lemma svm_at_spec:
  assumes asc: "ascending fst xs" and r_def: "r = svm_at d k xs"
  shows "ascending fst (snd r) \<and>
    map_of (snd r) = (if k \<in> dom (map_of xs) then map_of xs else (map_of xs)(k \<mapsto> d)) \<and>
    fst r < length (snd r) \<and> fst (snd r ! fst r) = k \<and> map_of (snd r) k = Some (snd (snd r ! fst r))"
proof -
  define i where "i = partition_point (\<lambda>x. fst x < k) xs"
  have le: "i \<le> length xs" using partition_split [OF asc i_def] by simp
  have "inserted fst (k, d) xs (fst r) (snd r)"
  proof (cases "i = length xs \<or> k < fst (xs ! i)")
    case True
    then have "r = keyed_hint fst i (k, d) xs" "\<not> stale_hint fst i (k, d) xs"
      by (auto simp: r_def svm_at_def svm_lower_bound_def svm_hint_keyed stale_hint_def simp flip: i_def)
    then show ?thesis using keyed_hint_spec [OF asc le, of "(k, d)"] by simp
  next
    case False
    then have i: "i < length xs" using le by simp
    have "fst (xs ! i) = k" using lower_bound_least(1) [OF asc i_def i] False by simp
    moreover have "r = (i, xs)"
      using False by (simp add: r_def svm_at_def svm_lower_bound_def flip: i_def)
    ultimately show ?thesis using inserted_old [OF asc i, of "(k, d)"] by simp
  qed
  then show ?thesis using inserted_map_of [OF asc] by blast
qed

datatype ('k, 'v) svm_call = MInsert 'k 'v | MErase 'k | MAt 'k 'v | MClear

fun svm_step :: "('k :: linorder, 'v) svm_call \<Rightarrow> ('k \<times> 'v) list \<Rightarrow> ('k \<times> 'v) list" where
  "svm_step (MInsert k v) cont = snd (svm_insert (k, v) cont)"
| "svm_step (MErase k) cont = snd (svm_erase k cont)"
| "svm_step (MAt k dflt) cont = snd (svm_at dflt k cont)"
| "svm_step MClear cont = []"

fun map_step :: "('k :: linorder, 'v) svm_call \<Rightarrow> ('k \<rightharpoonup> 'v) \<Rightarrow> ('k \<rightharpoonup> 'v)" where
  "map_step (MInsert k v) M = (if k \<in> dom M then M else M(k \<mapsto> v))"
| "map_step (MErase k) M = M(k := None)"
| "map_step (MAt k dflt) M = (if k \<in> dom M then M else M(k \<mapsto> dflt))"
| "map_step MClear M = Map.empty"

lemma svm_step_ok:
  assumes "ascending fst xs"
  shows "ascending fst (svm_step c xs) \<and> map_of (svm_step c xs) = map_step c (map_of xs)"
proof (cases c)
  case (MInsert k v)
  then show ?thesis
    using svm_insert_spec [OF assms, of k v] inserted_map_of [OF assms, of k v] by force
next
  case (MErase k)
  then show ?thesis using svm_erase_spec [OF assms, of k] by simp
next
  case (MAt k d)
  then show ?thesis using svm_at_spec [OF assms refl, of d k] by simp
qed (simp add: ascending_def)

interpretation svm: op_refinement svm_step "ascending fst" "\<lambda>_. True" map_of map_step
  by unfold_locales (simp_all add: svm_step_ok)

end
