(* ===== verification/Timeout_Queue.thy ===== *)
theory Timeout_Queue
  imports Chess_Prelude
begin

text \<open>
  \<open>folly/TimeoutQueue.h\<close>, \<open>TimeoutQueue.cpp\<close>: timed events that fire when the queue is run. The
  Boost container is indexed by the event's identifier, which is unique, and by its expiration;
  the list of the model is the second index, in which an event comes after those of the same
  time. Times are \<open>int64_t\<close>; sums outside that range are undefined in C++ and no case of the code
  makes use of them.

  Callbacks are code of the client. They get the identifier and the time, may change whatever
  else there is (the world \<open>'w\<close>) and may call back into the queue; the calls they make are part
  of their result.
\<close>

section \<open>State and operations\<close>

record 'c event =
  ev_id :: int
  expiration :: int
  repeatInterval :: int
  callback :: 'c

record 'c tqueue =
  timeouts :: "'c event list"
  nextId :: int

definition TimeoutQueue :: "'c tqueue" where
  "TimeoutQueue = \<lparr>timeouts = [], nextId = 1\<rparr>"

definition timeouts_insert :: "'c event \<Rightarrow> 'c event list \<Rightarrow> 'c event list" where
  "timeouts_insert e ts =
     (if ev_id e \<in> set (map ev_id ts) then ts
      else takeWhile (\<lambda>x. expiration x \<le> expiration e) ts @ e #
           dropWhile (\<lambda>x. expiration x \<le> expiration e) ts)"

definition tq_add :: "int \<Rightarrow> int \<Rightarrow> 'c \<Rightarrow> 'c tqueue \<Rightarrow> int \<times> 'c tqueue" where
  "tq_add now delay cb q =
     (let i = nextId q
      in (i, \<lparr>timeouts = timeouts_insert
                 \<lparr>ev_id = i, expiration = now + delay, repeatInterval = - 1, callback = cb\<rparr> (timeouts q),
               nextId = i + 1\<rparr>))"

definition tq_addRepeating :: "int \<Rightarrow> int \<Rightarrow> 'c \<Rightarrow> 'c tqueue \<Rightarrow> int \<times> 'c tqueue" where
  "tq_addRepeating now interval cb q =
     (let i = nextId q
      in (i, \<lparr>timeouts = timeouts_insert
                 \<lparr>ev_id = i, expiration = now + interval, repeatInterval = interval, callback = cb\<rparr> (timeouts q),
               nextId = i + 1\<rparr>))"

definition nextExpiration :: "'c tqueue \<Rightarrow> int" where
  "nextExpiration q = (case timeouts q of [] \<Rightarrow> 2 ^ 63 - 1 | e # _ \<Rightarrow> expiration e)"

definition tq_erase :: "int \<Rightarrow> 'c tqueue \<Rightarrow> bool \<times> 'c tqueue" where
  "tq_erase i q =
     (i \<in> set (map ev_id (timeouts q)), q\<lparr>timeouts := filter (\<lambda>e. ev_id e \<noteq> i) (timeouts q)\<rparr>)"

section \<open>Running\<close>

datatype 'c tq_call = QAdd int int 'c | QAddRepeating int int 'c | QErase int

fun tq_step :: "'c tq_call \<Rightarrow> 'c tqueue \<Rightarrow> 'c tqueue" where
  "tq_step (QAdd now delay cb) q = snd (tq_add now delay cb q)"
| "tq_step (QAddRepeating now interval cb) q = snd (tq_addRepeating now interval cb q)"
| "tq_step (QErase i) q = snd (tq_erase i q)"

type_synonym ('c, 'w) callbacks = "'c \<Rightarrow> int \<Rightarrow> int \<Rightarrow> 'w \<Rightarrow> 'w \<times> 'c tq_call list"

definition reinsert :: "int \<Rightarrow> 'c event \<Rightarrow> 'c event list \<Rightarrow> 'c event list" where
  "reinsert now e ts =
     (if 0 \<le> repeatInterval e
      then timeouts_insert (e\<lparr>expiration := now + repeatInterval e\<rparr>) ts else ts)"

definition call_callback :: "('c, 'w) callbacks \<Rightarrow> int \<Rightarrow> 'c event \<Rightarrow> 'c tqueue \<times> 'w \<Rightarrow> 'c tqueue \<times> 'w" where
  "call_callback cbs now e st =
     (let (w, calls) = cbs (callback e) (ev_id e) now (snd st) in (fold tq_step calls (fst st), w))"

text \<open>One round of the loop: take the due events out, put the repeating ones back, call.\<close>

definition run_round :: "('c, 'w) callbacks \<Rightarrow> int \<Rightarrow> 'c tqueue \<times> 'w \<Rightarrow> 'c tqueue \<times> 'w" where
  "run_round cbs now st =
     (let q = fst st;
          expired = takeWhile (\<lambda>e. expiration e \<le> now) (timeouts q);
          rest = dropWhile (\<lambda>e. expiration e \<le> now) (timeouts q);
          q = q\<lparr>timeouts := fold (reinsert now) expired rest\<rparr>
      in fold (call_callback cbs now) expired (q, snd st))"

partial_function (option) runInternal ::
  "('c, 'w) callbacks \<Rightarrow> int \<Rightarrow> bool \<Rightarrow> 'c tqueue \<times> 'w \<Rightarrow> (int \<times> 'c tqueue \<times> 'w) option" where
  "runInternal cbs now onceOnly st =
     (let st = run_round cbs now st;
          nextExp = nextExpiration (fst st)
      in if \<not> onceOnly \<and> nextExp \<le> now then runInternal cbs now onceOnly st
         else Some (nextExp, st))"

definition runOnce :: "('c, 'w) callbacks \<Rightarrow> int \<Rightarrow> 'c tqueue \<times> 'w \<Rightarrow> (int \<times> 'c tqueue \<times> 'w) option" where
  "runOnce cbs now st = runInternal cbs now True st"

definition runLoop :: "('c, 'w) callbacks \<Rightarrow> int \<Rightarrow> 'c tqueue \<times> 'w \<Rightarrow> (int \<times> 'c tqueue \<times> 'w) option" where
  "runLoop cbs now st = runInternal cbs now False st"

section \<open>Invariant\<close>

definition events_ok :: "int \<Rightarrow> 'c event list \<Rightarrow> bool" where
  "events_ok n ts \<longleftrightarrow>
     distinct (map ev_id ts) \<and> sorted (map expiration ts) \<and> (\<forall>e \<in> set ts. 1 \<le> ev_id e \<and> ev_id e < n)"

definition tq_ok :: "'c tqueue \<Rightarrow> bool" where
  "tq_ok q \<longleftrightarrow> 1 \<le> nextId q \<and> events_ok (nextId q) (timeouts q)"

lemma takeWhile_due:
  assumes "sorted (map expiration ts)"
  shows "takeWhile (\<lambda>x. expiration x \<le> t) ts = filter (\<lambda>x. expiration x \<le> t) ts"
    and "dropWhile (\<lambda>x. expiration x \<le> t) ts = filter (\<lambda>x. t < expiration x) ts"
proof -
  have "takeWhile (\<lambda>x. expiration x \<le> t) ts = filter (\<lambda>x. expiration x \<le> t) ts \<and>
      dropWhile (\<lambda>x. expiration x \<le> t) ts = filter (\<lambda>x. t < expiration x) ts"
    using assms
  proof (induction ts)
    case (Cons e ts)
    show ?case
    proof (cases "expiration e \<le> t")
      case False
      with Cons.prems have "\<forall>x \<in> set ts. t < expiration x" by auto
      then have "filter (\<lambda>x. expiration x \<le> t) ts = []" "filter (\<lambda>x. t < expiration x) ts = ts"
        by (auto simp: filter_empty_conv filter_id_conv)
      with False show ?thesis by simp
    qed (use Cons in auto)
  qed simp
  then show "takeWhile (\<lambda>x. expiration x \<le> t) ts = filter (\<lambda>x. expiration x \<le> t) ts"
    and "dropWhile (\<lambda>x. expiration x \<le> t) ts = filter (\<lambda>x. t < expiration x) ts" by blast+
qed

lemma set_timeouts_insert:
  "set (timeouts_insert e ts) = (if ev_id e \<in> ev_id ` set ts then set ts else insert e (set ts))"
proof -
  have "set (takeWhile P ts) \<union> set (dropWhile P ts) = set ts" for P
    by (metis set_append takeWhile_dropWhile_id)
  then show ?thesis by (auto simp: timeouts_insert_def)
qed

lemma events_ok_insert:
  assumes ok: "events_ok n ts" and i: "1 \<le> ev_id e" "ev_id e < n"
  shows "events_ok n (timeouts_insert e ts)"
proof (cases "ev_id e \<in> ev_id ` set ts")
  case True
  with ok show ?thesis by (simp add: timeouts_insert_def)
next
  case False
  let ?a = "filter (\<lambda>x. expiration x \<le> expiration e) ts"
  let ?b = "filter (\<lambda>x. expiration e < expiration x) ts"
  have s: "sorted (map expiration ts)" using ok by (simp add: events_ok_def)
  have e: "timeouts_insert e ts = ?a @ e # ?b"
    using False by (simp add: timeouts_insert_def takeWhile_due [OF s])
  have "sorted (map expiration ?a)" "sorted (map expiration ?b)" using s by (simp_all add: sorted_filter)
  then have "sorted (map expiration (?a @ e # ?b))" by (auto simp: sorted_append)
  moreover have "distinct (map ev_id (?a @ e # ?b))"
  proof -
    have inj: "inj_on ev_id (set ts)" and d: "distinct (map ev_id ts)"
      using ok by (simp_all add: events_ok_def distinct_map)
    have "ev_id ` set ?a \<inter> ev_id ` set ?b = ev_id ` (set ?a \<inter> set ?b)"
      by (rule inj_on_image_Int [OF inj, symmetric]) auto
    also have "set ?a \<inter> set ?b = {}" by auto
    finally show ?thesis
      using False distinct_map_filter [OF d] by auto
  qed
  ultimately show ?thesis using ok i unfolding e by (auto simp: events_ok_def)
qed

lemma events_ok_filter: "events_ok n ts \<Longrightarrow> events_ok n (filter P ts)"
  by (auto simp: events_ok_def distinct_map_filter sorted_filter)

lemma events_ok_Suc: "events_ok n ts \<Longrightarrow> events_ok (n + 1) ts"
  by (auto simp: events_ok_def)

lemma tq_step_ok:
  assumes "tq_ok q"
  shows "tq_ok (tq_step c q)"
proof -
  have new_event: "events_ok (nextId q + 1) (timeouts_insert e (timeouts q))" if "ev_id e = nextId q" for e
    using assms that by (intro events_ok_insert events_ok_Suc) (simp_all add: tq_ok_def)
  show ?thesis
  proof (cases c)
    case (QErase i)
    with assms show ?thesis by (simp add: tq_ok_def tq_erase_def events_ok_filter)
  qed (use assms new_event in \<open>simp_all add: tq_ok_def tq_add_def tq_addRepeating_def Let_def\<close>)
qed

interpretation tq: op_invariant tq_step tq_ok "\<lambda>_. True"
  by unfold_locales (rule tq_step_ok)

section \<open>One round\<close>

abbreviation due :: "int \<Rightarrow> 'c tqueue \<Rightarrow> 'c event list" where
  "due now q \<equiv> filter (\<lambda>e. expiration e \<le> now) (timeouts q)"

text \<open>The queue before the callbacks: what was not due, and the repeating events again.\<close>

definition after_expiry :: "int \<Rightarrow> 'c tqueue \<Rightarrow> 'c tqueue" where
  "after_expiry now q =
     q\<lparr>timeouts := fold (reinsert now) (due now q) (filter (\<lambda>e. now < expiration e) (timeouts q))\<rparr>"

lemma timeouts_after_expiry:
  "timeouts (after_expiry now q) =
     fold (reinsert now) (due now q) (filter (\<lambda>e. now < expiration e) (timeouts q))"
  by (simp add: after_expiry_def)

lemma run_round_eq:
  assumes "tq_ok q"
  shows "run_round cbs now (q, w) = fold (call_callback cbs now) (due now q) (after_expiry now q, w)"
proof -
  have "sorted (map expiration (timeouts q))" using assms by (simp add: tq_ok_def events_ok_def)
  then show ?thesis by (simp add: run_round_def after_expiry_def takeWhile_due Let_def)
qed

lemma fold_reinsert_ok:
  "events_ok n ts \<Longrightarrow> \<forall>e \<in> set es. 1 \<le> ev_id e \<and> ev_id e < n \<Longrightarrow> events_ok n (fold (reinsert now) es ts)"
  by (induction es arbitrary: ts) (auto simp: reinsert_def events_ok_insert)

lemma after_expiry_ok:
  assumes "tq_ok q"
  shows "tq_ok (after_expiry now q)"
proof -
  have "events_ok (nextId q) (timeouts q)" using assms by (simp add: tq_ok_def)
  then show ?thesis
    using assms unfolding tq_ok_def after_expiry_def
    by (auto intro!: fold_reinsert_ok events_ok_filter) (auto simp: events_ok_def)
qed

lemma callbacks_ok: "tq_ok q \<Longrightarrow> tq_ok (fst (fold (call_callback cbs now) es (q, w)))"
proof (induction es arbitrary: q w)
  case (Cons e es)
  have "tq_ok (fold tq_step calls q)" for calls using tq.inv_run [OF Cons.prems] by (simp add: list_all_iff)
  with Cons.IH show ?case by (simp add: call_callback_def split: prod.split)
qed simp

text \<open>What the callbacks do to the world does not depend on the queue.\<close>

definition fire :: "('c, 'w) callbacks \<Rightarrow> int \<Rightarrow> 'c event \<Rightarrow> 'w \<Rightarrow> 'w" where
  "fire cbs now e w = fst (cbs (callback e) (ev_id e) now w)"

lemma callbacks_world: "snd (fold (call_callback cbs now) es (q, w)) = fold (fire cbs now) es w"
  by (induction es arbitrary: q w) (auto simp: call_callback_def fire_def split: prod.split)

lemma round_ok: "tq_ok q \<Longrightarrow> tq_ok (fst (run_round cbs now (q, w)))"
  by (simp add: run_round_eq callbacks_ok after_expiry_ok)

lemma round_world: "tq_ok q \<Longrightarrow> snd (run_round cbs now (q, w)) = fold (fire cbs now) (due now q) w"
  by (simp add: run_round_eq callbacks_world)

lemma nextExpiration_least:
  assumes "tq_ok q" "now < nextExpiration q" "e \<in> set (timeouts q)"
  shows "now < expiration e"
  using assms by (cases "timeouts q") (auto simp: tq_ok_def events_ok_def nextExpiration_def)

section \<open>Running to the end\<close>

lemma runOnce_spec:
  assumes "tq_ok q"
  shows "\<exists>q'. runOnce cbs now (q, w) = Some (nextExpiration q', q', fold (fire cbs now) (due now q) w) \<and> tq_ok q'"
proof -
  obtain q' w' where r: "run_round cbs now (q, w) = (q', w')" by (cases "run_round cbs now (q, w)")
  then have "runOnce cbs now (q, w) = Some (nextExpiration q', q', w')"
    unfolding runOnce_def by (subst runInternal.simps) (simp add: Let_def)
  moreover have "tq_ok q'" "w' = fold (fire cbs now) (due now q) w"
    using round_ok [OF assms, of cbs now w] round_world [OF assms, of cbs now w] r by simp_all
  ultimately show ?thesis by blast
qed

text \<open>If the loop returns, nothing is due any more.\<close>

definition loop_post :: "int \<Rightarrow> int \<times> 'c tqueue \<times> 'w \<Rightarrow> bool" where
  "loop_post now r \<longleftrightarrow>
     tq_ok (fst (snd r)) \<and> now < nextExpiration (fst (snd r)) \<and> fst r = nextExpiration (fst (snd r))"

lemma runLoop_partial:
  assumes ret: "runInternal cbs now onceOnly st = Some r"
  shows "\<not> onceOnly \<longrightarrow> tq_ok (fst st) \<longrightarrow> loop_post now r"
proof (rule runInternal.raw_induct [where P = "\<lambda>cbs now onceOnly st r.
    \<not> onceOnly \<longrightarrow> tq_ok (fst st) \<longrightarrow> loop_post now r", OF _ ret])
  fix f and cbs :: "('a, 'b) callbacks" and now onceOnly st r
  assume IH: "\<And>cbs now onceOnly st r. f cbs now onceOnly st = Some r \<Longrightarrow>
      \<not> onceOnly \<longrightarrow> tq_ok (fst st) \<longrightarrow> loop_post now r"
    and body: "(let st = run_round cbs now st; nextExp = nextExpiration (fst st)
      in if \<not> onceOnly \<and> nextExp \<le> now then f cbs now onceOnly st else Some (nextExp, st)) = Some r"
  have ok: "tq_ok (fst (run_round cbs now st))" if "tq_ok (fst st)"
    using round_ok [OF that, of cbs now "snd st"] by simp
  show "\<not> onceOnly \<longrightarrow> tq_ok (fst st) \<longrightarrow> loop_post now r"
  proof (cases "\<not> onceOnly \<and> nextExpiration (fst (run_round cbs now st)) \<le> now")
    case True
    then have "f cbs now onceOnly (run_round cbs now st) = Some r" using body by (simp add: Let_def)
    from IH [OF this] show ?thesis using ok by blast
  next
    case False
    then have "r = (nextExpiration (fst (run_round cbs now st)), run_round cbs now st)"
      using body by (auto simp: Let_def)
    with False ok show ?thesis by (auto simp: loop_post_def)
  qed
qed

text \<open>
  The loop returns after one round when no event that is due repeats at once and no callback
  adds an event that is already due.
\<close>

fun later :: "int \<Rightarrow> 'c tq_call \<Rightarrow> bool" where
  "later now (QAdd n d c) \<longleftrightarrow> now < n + d"
| "later now (QAddRepeating n i c) \<longleftrightarrow> now < n + i"
| "later now (QErase i) \<longleftrightarrow> True"

definition all_later :: "int \<Rightarrow> 'c tqueue \<Rightarrow> bool" where
  "all_later now q \<longleftrightarrow> (\<forall>e \<in> set (timeouts q). now < expiration e)"

lemma later_step: "all_later now q \<Longrightarrow> later now c \<Longrightarrow> all_later now (tq_step c q)"
  by (cases c) (auto simp: all_later_def tq_add_def tq_addRepeating_def tq_erase_def Let_def
      set_timeouts_insert split: if_splits)

interpretation lt: op_invariant tq_step "all_later now" "later now"
  by unfold_locales (rule later_step)

lemma later_callbacks:
  assumes "\<And>c i w. list_all (later now) (snd (cbs c i now w))"
  shows "all_later now q \<Longrightarrow> all_later now (fst (fold (call_callback cbs now) es (q, w)))"
proof (induction es arbitrary: q w)
  case (Cons e es)
  obtain w' calls where c: "cbs (callback e) (ev_id e) now w = (w', calls)"
    by (cases "cbs (callback e) (ev_id e) now w")
  have "all_later now (fold tq_step calls q)"
    using lt.inv_run [OF Cons.prems] assms [of "callback e" "ev_id e" w] c by simp
  from Cons.IH [OF this] show ?case by (simp add: call_callback_def c)
qed simp

lemma later_reinsert:
  "\<forall>e \<in> set ts. now < expiration e \<Longrightarrow> \<forall>e \<in> set es. repeatInterval e \<noteq> 0 \<Longrightarrow>
     \<forall>e \<in> set (fold (reinsert now) es ts). now < expiration e"
proof (induction es arbitrary: ts)
  case (Cons e es)
  have "\<forall>x \<in> set (reinsert now e ts). now < expiration x"
    using Cons.prems by (auto simp: reinsert_def set_timeouts_insert split: if_splits)
  with Cons show ?case by simp
qed simp

lemma runLoop_spec:
  assumes ok: "tq_ok q" and rep: "\<forall>e \<in> set (due now q). repeatInterval e \<noteq> 0"
    and cb: "\<And>c i w. list_all (later now) (snd (cbs c i now w))" and now: "now < 2 ^ 63 - 1"
  shows "\<exists>q'. runLoop cbs now (q, w) = Some (nextExpiration q', q', fold (fire cbs now) (due now q) w) \<and>
    tq_ok q' \<and> all_later now q'"
proof -
  obtain q' w' where r: "run_round cbs now (q, w) = (q', w')" by (cases "run_round cbs now (q, w)")
  have "all_later now (after_expiry now q)"
    unfolding all_later_def timeouts_after_expiry by (rule later_reinsert [OF _ rep]) simp
  then have "all_later now (fst (fold (call_callback cbs now) (due now q) (after_expiry now q, w)))"
    using cb by (intro later_callbacks)
  then have l: "all_later now q'" using r run_round_eq [OF ok, of cbs now w] by simp
  then have "\<not> nextExpiration q' \<le> now"
    using now by (auto simp: nextExpiration_def all_later_def split: list.split)
  then have "runLoop cbs now (q, w) = Some (nextExpiration q', q', w')"
    unfolding runLoop_def by (subst runInternal.simps) (simp add: Let_def r)
  moreover have "tq_ok q'" "w' = fold (fire cbs now) (due now q) w"
    using round_ok [OF ok, of cbs now w] round_world [OF ok, of cbs now w] r by simp_all
  ultimately show ?thesis using l by blast
qed

text \<open>A due event with the repeat interval 0, whose callbacks leave the queue alone, runs forever.\<close>

definition stuck :: "int \<Rightarrow> 'c tqueue \<Rightarrow> bool" where
  "stuck now q \<longleftrightarrow> tq_ok q \<and> (\<exists>e \<in> set (timeouts q). expiration e \<le> now \<and> repeatInterval e = 0)"

lemma stuck_reinsert:
  "\<exists>e \<in> set ts. expiration e \<le> now \<and> repeatInterval e = 0 \<Longrightarrow>
     \<exists>e \<in> set (fold (reinsert now) es ts). expiration e \<le> now \<and> repeatInterval e = 0"
  by (induction es arbitrary: ts) (auto simp: reinsert_def set_timeouts_insert)

lemma reinsert_ids: "ev_id ` set (fold (reinsert now) es ts) \<subseteq> ev_id ` set es \<union> ev_id ` set ts"
proof (induction es arbitrary: ts)
  case (Cons e es)
  have "ev_id ` set (reinsert now e ts) \<subseteq> insert (ev_id e) (ev_id ` set ts)"
    by (auto simp: reinsert_def set_timeouts_insert)
  with Cons [of "reinsert now e ts"] show ?case by auto
qed simp

lemma stuck_expiry:
  assumes "stuck now q"
  shows "stuck now (after_expiry now q)"
proof -
  have ok: "tq_ok q" using assms by (simp add: stuck_def)
  then have inj: "inj_on ev_id (set (timeouts q))" by (simp add: tq_ok_def events_ok_def distinct_map)
  obtain e where e: "e \<in> set (due now q)" "repeatInterval e = 0" using assms by (auto simp: stuck_def)
  then obtain xs ys where x: "due now q = xs @ e # ys" "e \<notin> set xs" by (metis split_list_first)
  define ts where "ts = filter (\<lambda>e. now < expiration e) (timeouts q)"
  have sub: "set xs \<union> set ts \<subseteq> set (timeouts q) - {e}"
  proof -
    have "set xs \<subseteq> set (due now q)" using x(1) by auto
    then show ?thesis using x(2) e(1) by (auto simp: ts_def)
  qed
  then have "ev_id e \<notin> ev_id ` (set xs \<union> set ts)" using inj e(1) by (fastforce dest: inj_onD)
  then have "ev_id e \<notin> ev_id ` set (fold (reinsert now) xs ts)" using reinsert_ids [of now xs ts] by blast
  then have "\<exists>y \<in> set (reinsert now e (fold (reinsert now) xs ts)). expiration y \<le> now \<and> repeatInterval y = 0"
    using e(2) by (simp add: reinsert_def set_timeouts_insert)
  from stuck_reinsert [OF this, of ys] show ?thesis
    using after_expiry_ok [OF ok, of now] by (simp add: stuck_def after_expiry_def x(1) flip: ts_def)
qed

lemma runLoop_diverges:
  assumes stuck: "stuck now q" and quiet: "\<And>c i w. snd (cbs c i now w) = []"
  shows "runLoop cbs now (q, w) = None"
proof -
  have queue: "fst (fold (call_callback cbs now) es (q, w)) = q" for es q w
  proof (induction es arbitrary: w)
    case (Cons e es)
    then show ?case using quiet [of "callback e" "ev_id e" w]
      by (cases "cbs (callback e) (ev_id e) now w") (simp add: call_callback_def)
  qed simp
  have round: "stuck now (fst (run_round cbs now (q, w)))" if "stuck now q" for q w
    using that queue stuck_expiry [OF that] run_round_eq [of q cbs now w] by (simp add: stuck_def)
  have nxt: "nextExpiration q \<le> now" if "stuck now q" for q :: "'a tqueue"
    using that nextExpiration_least [of q now] by (fastforce simp: stuck_def)
  have "\<not> (cbs' = cbs \<and> now' = now \<and> \<not> onceOnly \<and> stuck now (fst st))"
    if "runInternal cbs' now' onceOnly st = Some r" for cbs' now' onceOnly st r
  proof (rule runInternal.raw_induct [where P = "\<lambda>cbs' now' onceOnly st r.
      \<not> (cbs' = cbs \<and> now' = now \<and> \<not> onceOnly \<and> stuck now (fst st))", OF _ that])
    fix f cbs' now' onceOnly st r
    assume IH: "\<And>cbs' now' onceOnly st r. f cbs' now' onceOnly st = Some r \<Longrightarrow>
        \<not> (cbs' = cbs \<and> now' = now \<and> \<not> onceOnly \<and> stuck now (fst st))"
      and body: "(let st = run_round cbs' now' st; nextExp = nextExpiration (fst st)
        in if \<not> onceOnly \<and> nextExp \<le> now' then f cbs' now' onceOnly st else Some (nextExp, st)) = Some r"
    show "\<not> (cbs' = cbs \<and> now' = now \<and> \<not> onceOnly \<and> stuck now (fst st))"
    proof
      assume h: "cbs' = cbs \<and> now' = now \<and> \<not> onceOnly \<and> stuck now (fst st)"
      then have s: "stuck now (fst (run_round cbs now st))" using round [of "fst st" "snd st"] by simp
      then have "f cbs now onceOnly (run_round cbs now st) = Some r"
        using body h nxt [OF s] by (simp add: Let_def)
      from IH [OF this] s h show False by blast
    qed
  qed
  then have "runInternal cbs now False (q, w) \<noteq> Some r" for r using stuck by fastforce
  then have "runInternal cbs now False (q, w) = None"
    by (metis not_Some_eq)
  then show ?thesis by (simp only: runLoop_def)
qed

end
