(* ===== verification/Folly_Bits.thy ===== *)
theory Folly_Bits
  imports Folly_Hash
begin

text \<open>
  \<open>folly/Bits.h\<close> and \<open>folly/detail/BitIteratorDetail.h\<close>: the first and the last bit set,
  powers of two, byte order, iteration over the bits of an array of integers, and the
  unaligned loads and stores that the other modules make. The compiler's \<open>__builtin_ffs\<close>,
  \<open>__builtin_clz\<close> and \<open>__builtin_bswap\<close> are modelled by what GCC documents of them; the overloads
  are the ones of a 64-bit little-endian GCC target, where \<open>unsigned long\<close> has 64 bits. A read or a
  write outside the bytes at hand, an iterator that is not dereferenceable and a shift by the
  width of the type are errors.
\<close>

section \<open>First and last bit set\<close>

definition builtin_ffs :: "'a :: len word \<Rightarrow> nat" where
  "builtin_ffs x = (case find (bit x) [0..<LENGTH('a)] of None \<Rightarrow> 0 | Some i \<Rightarrow> i + 1)"

definition builtin_clz :: "'a :: len word \<Rightarrow> nat" where
  "builtin_clz x = length (takeWhile (\<lambda>i. \<not> bit x i) (rev [0..<LENGTH('a)]))"

text \<open>The overload is chosen by the size of the type, and its argument is converted to the
  type of the builtin.\<close>

definition findFirstSet :: "'a :: len word \<Rightarrow> nat" where
  "findFirstSet x =
     (if LENGTH('a) \<le> 32 then builtin_ffs (ucast x :: u32) else builtin_ffs (ucast x :: u64))"

definition findLastSet :: "'a :: len word \<Rightarrow> nat" where
  "findLastSet x =
     (if x = 0 then 0
      else if LENGTH('a) \<le> 32 then 32 - builtin_clz (ucast x :: u32)
      else 64 - builtin_clz (ucast x :: u64))"

definition findFirstSet_signed :: "'a :: len word \<Rightarrow> nat" where
  "findFirstSet_signed x = findFirstSet x"

definition findLastSet_signed :: "'a :: len word \<Rightarrow> nat" where
  "findLastSet_signed x = findLastSet x"

text \<open>\<open>1ul << 64\<close> is undefined, and the result is narrowed to the type of the argument.\<close>

definition nextPowTwo :: "'a :: len word \<Rightarrow> 'a word option" where
  "nextPowTwo v =
     (if v \<noteq> 0
      then (let n = findLastSet (v - 1) in if n < 64 then Some (ucast (push_bit n (1 :: u64))) else None)
      else Some 1)"

definition isPowTwo :: "'a :: len word \<Rightarrow> bool" where
  "isPowTwo v \<longleftrightarrow> v \<noteq> 0 \<and> v AND (v - 1) = 0"

section \<open>Byte order\<close>

definition our_bswap16 :: "u16 \<Rightarrow> u16" where
  "our_bswap16 x = (drop_bit 8 x AND 0xff) OR push_bit 8 (x AND 0xff)"

fun load_le :: "u8 list \<Rightarrow> 'a :: len word" where
  "load_le [] = 0"
| "load_le (b # bs) = ucast b OR push_bit 8 (load_le bs)"

definition store_le :: "'a :: len word \<Rightarrow> u8 list" where
  "store_le w = map (\<lambda>i. ucast (drop_bit (8 * i) w)) [0..<LENGTH('a) div 8]"

definition builtin_bswap :: "'a :: len word \<Rightarrow> 'a word" where
  "builtin_bswap x = load_le (rev (store_le x))"

definition Endian_swap :: "'a :: len word \<Rightarrow> 'a word" where
  "Endian_swap x =
     (if LENGTH('a) = 8 then x
      else if LENGTH('a) = 16 then ucast (our_bswap16 (ucast x))
      else builtin_bswap x)"

definition Endian_big :: "'a :: len word \<Rightarrow> 'a word" where
  "Endian_big x = Endian_swap x"

definition Endian_little :: "'a :: len word \<Rightarrow> 'a word" where
  "Endian_little x = x"

section \<open>Unaligned access\<close>

text \<open>The accesses the model refuses; \<open>CheckFailed\<close> is a failed \<open>CHECK\<close> of the code that
  works on the bytes.\<close>

datatype mem_error = ReadPastEnd | WritePastEnd | OverlappingCopy | CheckFailed | Misaligned

definition loadUnaligned :: "u8 list \<Rightarrow> nat \<Rightarrow> mem_error + 'a :: len word" where
  "loadUnaligned buf p =
     (if p + LENGTH('a) div 8 \<le> length buf
      then Inr (load_le (take (LENGTH('a) div 8) (drop p buf))) else Inl ReadPastEnd)"

definition overwrite :: "u8 list \<Rightarrow> nat \<Rightarrow> u8 list \<Rightarrow> u8 list" where
  "overwrite buf p xs = take p buf @ xs @ drop (p + length xs) buf"

definition storeUnaligned :: "u8 list \<Rightarrow> nat \<Rightarrow> 'a :: len word \<Rightarrow> mem_error + u8 list" where
  "storeUnaligned buf p w =
     (if p + LENGTH('a) div 8 \<le> length buf then Inr (overwrite buf p (store_le w))
      else Inl WritePastEnd)"

section \<open>Iterating over bits\<close>

definition bit_ref :: "'a :: len word \<Rightarrow> nat \<Rightarrow> bool" where
  "bit_ref r b \<longleftrightarrow> r AND push_bit b 1 \<noteq> 0"

definition bit_ref_set :: "'a :: len word \<Rightarrow> nat \<Rightarrow> 'a word" where
  "bit_ref_set r b = r OR push_bit b 1"

definition bit_ref_clear :: "'a :: len word \<Rightarrow> nat \<Rightarrow> 'a word" where
  "bit_ref_clear r b = r AND NOT (push_bit b 1)"

definition bit_ref_flip :: "'a :: len word \<Rightarrow> nat \<Rightarrow> 'a word" where
  "bit_ref_flip r b = r XOR push_bit b 1"

definition bit_ref_assign :: "'a :: len word \<Rightarrow> nat \<Rightarrow> bool \<Rightarrow> 'a word" where
  "bit_ref_assign r b v = (if v then bit_ref_set r b else bit_ref_clear r b)"

text \<open>The base iterator is the index of a block; both are signed 64-bit numbers.\<close>

record bit_iter =
  base :: int
  bitOffset :: int

definition makeBitIterator :: "int \<Rightarrow> bit_iter" where
  "makeBitIterator i = \<lparr> base = i, bitOffset = 0 \<rparr>"

definition advanceToNextBlock :: "bit_iter \<Rightarrow> bit_iter" where
  "advanceToNextBlock it = it\<lparr> bitOffset := 0, base := base it + 1 \<rparr>"

definition advanceInBlock :: "int \<Rightarrow> bit_iter \<Rightarrow> bit_iter" where
  "advanceInBlock n it = it\<lparr> bitOffset := bitOffset it + n \<rparr>"

text \<open>In \<open>n / bpb\<close> and \<open>n % bpb\<close> the signed \<open>n\<close> meets a \<open>size_t\<close> and is converted to it.\<close>

definition bi_advance :: "int \<Rightarrow> int \<Rightarrow> bit_iter \<Rightarrow> bit_iter" where
  "bi_advance bpb n it =
     (let un = n mod 2 ^ 64;
          blocks = un div bpb;
          off = bitOffset it + un mod bpb
      in if off \<ge> bpb then \<lparr> base = base it + (blocks + 1), bitOffset = off - bpb \<rparr>
         else \<lparr> base = base it + blocks, bitOffset = off \<rparr>)"

definition bi_increment :: "int \<Rightarrow> bit_iter \<Rightarrow> bit_iter" where
  "bi_increment bpb it =
     (let it = it\<lparr> bitOffset := bitOffset it + 1 \<rparr>
      in if bitOffset it = bpb then advanceToNextBlock it else it)"

definition bi_decrement :: "int \<Rightarrow> bit_iter \<Rightarrow> bit_iter" where
  "bi_decrement bpb it =
     (if bitOffset it = 0 then \<lparr> base = base it - 1, bitOffset = bpb - 1 \<rparr>
      else it\<lparr> bitOffset := bitOffset it - 1 \<rparr>)"

definition bi_equal :: "bit_iter \<Rightarrow> bit_iter \<Rightarrow> bool" where
  "bi_equal a b \<longleftrightarrow> bitOffset a = bitOffset b \<and> base a = base b"

definition bi_distance_to :: "int \<Rightarrow> bit_iter \<Rightarrow> bit_iter \<Rightarrow> int" where
  "bi_distance_to bpb a b = (base b - base a) * bpb + (bitOffset b - bitOffset a)"

datatype bit_error = NotDereferenceable

definition block_at :: "'a :: len word list \<Rightarrow> int \<Rightarrow> bit_error + 'a word" where
  "block_at xs i = (if 0 \<le> i \<and> i < int (length xs) then Inr (xs ! nat i) else Inl NotDereferenceable)"

definition bi_dereference :: "'a :: len word list \<Rightarrow> bit_iter \<Rightarrow> bit_error + bool" where
  "bi_dereference xs it = rbind (block_at xs (base it)) (\<lambda>v. Inr (bit_ref v (nat (bitOffset it))))"

definition mask_below :: "int \<Rightarrow> 'a :: len word" where
  "mask_below off = push_bit (nat off) 1 - 1"

function findFirstSet_range ::
  "'a :: len word list \<Rightarrow> bit_iter \<Rightarrow> bit_iter \<Rightarrow> bit_error + bit_iter" where
  "findFirstSet_range xs b e =
     (if base b \<noteq> base e then
        (case block_at xs (base b) of
           Inl err \<Rightarrow> Inl err
         | Inr v \<Rightarrow>
             (let firstSet = findFirstSet (v AND NOT (mask_below (bitOffset b)))
              in if firstSet \<noteq> 0 then Inr (advanceInBlock (int (firstSet - 1) - bitOffset b) b)
                 else findFirstSet_range xs (advanceToNextBlock b) e))
      else if bitOffset e \<noteq> 0 then
        (case block_at xs (base b) of
           Inl err \<Rightarrow> Inl err
         | Inr v \<Rightarrow>
             (let firstSet = findFirstSet (v AND NOT (mask_below (bitOffset b)) AND mask_below (bitOffset e))
              in if firstSet \<noteq> 0 then Inr (advanceInBlock (int (firstSet - 1) - bitOffset b) b)
                 else Inr e))
      else Inr e)"
  by pat_completeness auto
termination
  by (relation "measure (\<lambda>(xs, b, e). nat (int (length xs) - base b))")
    (auto simp: block_at_def advanceToNextBlock_def split: if_splits)

declare findFirstSet_range.simps [simp del]

section \<open>What the bit searches find\<close>

lemma builtin_ffs_Suc: "builtin_ffs x = Suc i \<longleftrightarrow> bit x i \<and> (\<forall>j < i. \<not> bit x j)"
  for x :: "'a :: len word"
proof -
  have "builtin_ffs x = Suc i \<longleftrightarrow> find (bit x) [0..<LENGTH('a)] = Some i"
    by (auto simp: builtin_ffs_def split: option.splits)
  also have "\<dots> \<longleftrightarrow> i < LENGTH('a) \<and> bit x i \<and> (\<forall>j < i. \<not> bit x j)"
    by (auto simp: find_Some_iff)
  finally show ?thesis by (auto dest: bit_imp_le_length)
qed

lemma builtin_ffs_0: "builtin_ffs x = 0 \<longleftrightarrow> x = 0" for x :: "'a :: len word"
proof -
  have "builtin_ffs x = 0 \<longleftrightarrow> (\<forall>i < LENGTH('a). \<not> bit x i)"
    by (auto simp: builtin_ffs_def find_None_iff find_Some_iff split: option.splits)
  thus ?thesis by (auto intro!: bit_word_eqI)
qed

lemma takeWhile_rev_upt:
  "i < n \<Longrightarrow> P i \<Longrightarrow> (\<And>j. i < j \<Longrightarrow> j < n \<Longrightarrow> \<not> P j) \<Longrightarrow>
   length (takeWhile (\<lambda>j. \<not> P j) (rev [0..<n])) = n - 1 - i"
  by (induction n) (auto simp: less_Suc_eq)

lemma builtin_clz_top:
  "bit x i \<Longrightarrow> (\<And>j. i < j \<Longrightarrow> \<not> bit x j) \<Longrightarrow> builtin_clz x = LENGTH('a) - 1 - i"
  for x :: "'a :: len word"
  unfolding builtin_clz_def by (rule takeWhile_rev_upt) (auto dest: bit_imp_le_length)

lemma top_bit_exists: "x \<noteq> 0 \<Longrightarrow> \<exists>i. bit x i \<and> (\<forall>j. i < j \<longrightarrow> \<not> bit x j)"
  for x :: "'a :: len word"
proof -
  assume "x \<noteq> 0"
  hence ne: "{i. bit x i} \<noteq> {}" by (auto intro: bit_word_eqI)
  have fin: "finite {i. bit x i}"
    by (rule finite_subset [of _ "{..<LENGTH('a)}"]) (auto dest: bit_imp_le_length)
  have "bit x (Max {i. bit x i})" using Max_in [OF fin ne] by simp
  moreover have "\<not> bit x j" if "Max {i. bit x i} < j" for j
    using Max_ge [OF fin, of j] that by (metis linorder_not_le mem_Collect_eq)
  ultimately show ?thesis by blast
qed

lemma ucast_eq_0_up: "LENGTH('a) \<le> LENGTH('b) \<Longrightarrow> (ucast x :: 'b :: len word) = 0 \<longleftrightarrow> x = 0"
  for x :: "'a :: len word"
  by (metis ucast_0 ucast_up_ucast_id is_up)

lemma bit_ucast_up: "LENGTH('a) \<le> LENGTH('b) \<Longrightarrow> bit (ucast x :: 'b :: len word) i \<longleftrightarrow> bit x i"
  for x :: "'a :: len word"
  by (auto simp: bit_ucast_iff dest: bit_imp_le_length)

lemma findFirstSet_Suc:
  "LENGTH('a) \<le> 64 \<Longrightarrow> findFirstSet x = Suc i \<longleftrightarrow> bit x i \<and> (\<forall>j < i. \<not> bit x j)"
  for x :: "'a :: len word"
  by (simp add: findFirstSet_def builtin_ffs_Suc bit_ucast_up)

lemma findFirstSet_0: "LENGTH('a) \<le> 64 \<Longrightarrow> findFirstSet x = 0 \<longleftrightarrow> x = 0"
  for x :: "'a :: len word"
  by (simp add: findFirstSet_def builtin_ffs_0 ucast_eq_0_up)

lemma findLastSet_top:
  fixes x :: "'a :: len word"
  assumes "LENGTH('a) \<le> 64" "bit x i" "\<And>j. i < j \<Longrightarrow> \<not> bit x j"
  shows "findLastSet x = Suc i"
proof -
  have i: "i < LENGTH('a)" using assms(2) by (rule bit_imp_le_length)
  have x: "x \<noteq> 0" using assms(2) by auto
  show ?thesis
  proof (cases "LENGTH('a) \<le> 32")
    case True
    hence "builtin_clz (ucast x :: u32) = 32 - 1 - i"
      using assms by (subst builtin_clz_top [of _ i]) (auto simp: bit_ucast_up)
    thus ?thesis using True i x by (simp add: findLastSet_def)
  next
    case False
    hence "builtin_clz (ucast x :: u64) = 64 - 1 - i"
      using assms by (subst builtin_clz_top [of _ i]) (auto simp: bit_ucast_up)
    thus ?thesis using False i x assms(1) by (simp add: findLastSet_def)
  qed
qed

lemma unat_below_bits: "unat x < 2 ^ n \<longleftrightarrow> (\<forall>j \<ge> n. \<not> bit x j)" for x :: "'a :: len word"
proof -
  have "unat x < 2 ^ n \<longleftrightarrow> take_bit n x = x"
    by (simp add: word_unat_eq_iff unsigned_take_bit_eq take_bit_nat_eq_self_iff)
  also have "\<dots> \<longleftrightarrow> (\<forall>j \<ge> n. \<not> bit x j)"
    by (simp add: bit_eq_iff bit_take_bit_iff) (meson bit_imp_le_length leD leI)
  finally show ?thesis .
qed

lemma unat_bit_ge: "bit x i \<Longrightarrow> 2 ^ i \<le> unat x" for x :: "'a :: len word"
  using unat_below_bits [of x i] by (meson linorder_not_le order_refl)

lemma findLastSet_bounds:
  fixes x :: "'a :: len word"
  assumes "LENGTH('a) \<le> 64" "x \<noteq> 0"
  shows "0 < findLastSet x" "2 ^ (findLastSet x - 1) \<le> unat x" "unat x < 2 ^ findLastSet x"
    "findLastSet x \<le> LENGTH('a)"
proof -
  obtain i where i: "bit x i" "\<And>j. i < j \<Longrightarrow> \<not> bit x j"
    using top_bit_exists [OF assms(2)] by blast
  have f: "findLastSet x = Suc i" using findLastSet_top assms(1) i .
  show "0 < findLastSet x" "2 ^ (findLastSet x - 1) \<le> unat x" "findLastSet x \<le> LENGTH('a)"
    using f i(1) unat_bit_ge bit_imp_le_length by (auto simp: Suc_le_eq)
  show "unat x < 2 ^ findLastSet x"
    using i(2) by (simp add: f unat_below_bits del: power_Suc)
qed

lemma unat_pred: "v \<noteq> 0 \<Longrightarrow> unat (v - 1) = unat v - 1" for v :: "'a :: len word"
  by (simp add: unat_minus_one)

lemma top_bit_between:
  assumes "2 ^ i \<le> unat x" "unat x < 2 ^ Suc i"
  shows "bit x i"
proof (rule ccontr)
  assume "\<not> bit x i"
  moreover have "\<forall>j \<ge> Suc i. \<not> bit x j" using assms(2) by (simp only: unat_below_bits)
  ultimately have "\<forall>j \<ge> i. \<not> bit x j" by (metis not_less_eq_eq order_antisym)
  thus False using assms(1) by (simp add: unat_below_bits [symmetric])
qed

lemma isPowTwo_iff: "isPowTwo v \<longleftrightarrow> (\<exists>k. unat v = 2 ^ k)" for v :: "'a :: len word"
proof (cases "v = 0")
  case False
  obtain i where i: "bit v i" "\<And>j. i < j \<Longrightarrow> \<not> bit v j" using top_bit_exists [OF False] by blast
  have lo: "2 ^ i \<le> unat v" using i(1) by (rule unat_bit_ge)
  have hi: "unat v < 2 ^ Suc i" using i(2) unat_below_bits by (metis Suc_le_lessD)
  have iff: "(\<exists>k. unat v = 2 ^ k) \<longleftrightarrow> unat v = 2 ^ i"
  proof
    assume "\<exists>k. unat v = 2 ^ k"
    then obtain k where k: "unat v = 2 ^ k" ..
    have "i \<le> k" using lo unfolding k by simp
    moreover have "k < Suc i" using hi unfolding k by (rule power_less_imp_less_exp [rotated]) simp
    ultimately show "unat v = 2 ^ i" using k by (simp add: less_Suc_eq_le)
  qed blast
  show ?thesis
  proof (cases "unat v = 2 ^ i")
    case True
    have "unat (v - 1) < 2 ^ i" using True False by (simp add: unat_pred)
    hence low: "\<forall>j \<ge> i. \<not> bit (v - 1) j" by (simp only: unat_below_bits)
    have "\<not> bit v j" if "j < i" for j
    proof -
      have "v = push_bit i 1"
        using True of_nat_unat [of v, where 'a = "'a word"] by (simp add: push_bit_of_1)
      thus ?thesis using that by (simp add: push_bit_of_1 bit_exp_iff)
    qed
    hence "v AND (v - 1) = 0" using low i(2)
      by (intro bit_word_eqI) (metis bit_0_eq bit_and_iff bot_apply bot_bool_def leI)
    thus ?thesis using True False iff by (simp add: isPowTwo_def)
  next
    case neq: False
    have "bit (v - 1) i" using lo hi neq False by (intro top_bit_between) (auto simp: unat_pred)
    hence "bit (v AND (v - 1)) i" using i(1) by (simp add: bit_and_iff)
    hence "v AND (v - 1) \<noteq> 0" by auto
    thus ?thesis using iff neq by (simp add: isPowTwo_def)
  qed
qed (simp add: isPowTwo_def)

lemma unat_two_power: "n < LENGTH('a) \<Longrightarrow> unat (2 ^ n :: 'a :: len word) = 2 ^ n"
  by transfer (simp add: nat_power_eq nat_take_bit_eq take_bit_nat_eq_self_iff)

lemma unat_shifted_one: "n < LENGTH('a) \<Longrightarrow> n < 64 \<Longrightarrow> unat (ucast (push_bit n (1 :: u64)) :: 'a :: len word) = 2 ^ n"
proof -
  assume n: "n < LENGTH('a)" "n < 64"
  have "ucast (push_bit n (1 :: u64)) = (push_bit n 1 :: 'a word)"
    using n by (intro bit_word_eqI) (auto simp: bit_ucast_iff bit_exp_iff push_bit_of_1)
  thus ?thesis using n by (simp add: unat_two_power)
qed

lemma nextPowTwo_correct:
  fixes v :: "'a :: len word"
  assumes len: "LENGTH('a) \<le> 64" and v: "v \<noteq> 0" "unat v \<le> 2 ^ (LENGTH('a) - 1)"
  shows "\<exists>k. nextPowTwo v = Some (word_of_nat (2 ^ k)) \<and> k < LENGTH('a) \<and> unat v \<le> 2 ^ k \<and>
             (\<forall>m. unat v \<le> 2 ^ m \<longrightarrow> k \<le> m)"
proof (cases "v = 1")
  case True
  thus ?thesis by (intro exI [of _ 0]) (simp add: nextPowTwo_def findLastSet_def)
next
  case False
  define n where "n = findLastSet (v - 1)"
  have nz: "v - 1 \<noteq> 0" using False by simp
  note b = findLastSet_bounds [OF len nz, folded n_def]
  have u: "unat (v - 1) = unat v - 1" using v(1) by (rule unat_pred)
  have "2 ^ (n - 1) < (2 :: nat) ^ (LENGTH('a) - 1)" using b(2) u v unat_gt_0 [of v] by linarith
  hence n: "n < LENGTH('a)" using b(1) by (simp add: power_strict_increasing_iff)
  have le: "unat v \<le> 2 ^ n" using b(3) u by simp
  have least: "n \<le> m" if "unat v \<le> 2 ^ m" for m
  proof -
    have "2 ^ (n - 1) < (2 :: nat) ^ m" using b(2) u that v(1) unat_gt_0 [of v] by linarith
    thus ?thesis using b(1) by (simp add: power_strict_increasing_iff)
  qed
  have "nextPowTwo v = Some (ucast (push_bit n (1 :: u64)))"
    using v(1) n len by (simp add: nextPowTwo_def n_def [symmetric])
  also have "ucast (push_bit n (1 :: u64)) = (word_of_nat (2 ^ n) :: 'a word)"
    using n len by (intro word_unat_eq_iff [THEN iffD2]) (simp add: unat_shifted_one unat_two_power del: push_bit_of_1)
  finally show ?thesis using n le least by blast
qed

lemma nextPowTwo_overflow:
  fixes v :: "'a :: len word"
  assumes len: "LENGTH('a) \<le> 64" and v: "2 ^ (LENGTH('a) - 1) < unat v"
  shows "nextPowTwo v = (if LENGTH('a) = 64 then None else Some 0)"
proof -
  have "1 < unat v" using v by (rule order.strict_trans1 [rotated]) simp
  hence nz: "v \<noteq> 0" "v - 1 \<noteq> 0" by auto
  note b = findLastSet_bounds [OF len nz(2)]
  have "2 ^ (LENGTH('a) - 1) \<le> unat (v - 1)" using v nz(1) by (simp add: unat_pred)
  hence "(2 :: nat) ^ (LENGTH('a) - 1) < 2 ^ findLastSet (v - 1)" using b(3) by linarith
  hence "findLastSet (v - 1) = LENGTH('a)" using b(4) by (simp add: power_strict_increasing_iff)
  moreover have "(ucast (push_bit LENGTH('a) (1 :: u64)) :: 'a word) = 0"
    by (intro bit_word_eqI) (simp add: bit_ucast_iff bit_exp_iff push_bit_of_1)
  ultimately show ?thesis using nz(1) len by (simp add: nextPowTwo_def)
qed

section \<open>Positions of a bit iterator\<close>

definition bit_pos :: "int \<Rightarrow> bit_iter \<Rightarrow> int" where
  "bit_pos bpb it = base it * bpb + bitOffset it"

definition iter_ok :: "int \<Rightarrow> bit_iter \<Rightarrow> bool" where
  "iter_ok bpb it \<longleftrightarrow> 0 \<le> bitOffset it \<and> bitOffset it < bpb"

lemma bit_pos_div [simp]: "iter_ok bpb it \<Longrightarrow> bit_pos bpb it div bpb = base it"
  by (auto simp: iter_ok_def bit_pos_def)

lemma bit_pos_mod [simp]: "iter_ok bpb it \<Longrightarrow> bit_pos bpb it mod bpb = bitOffset it"
  by (auto simp: iter_ok_def bit_pos_def)

lemma bi_equal_iff: "bi_equal a b \<longleftrightarrow> a = b"
  by (cases a; cases b) (auto simp: bi_equal_def)

lemma bit_pos_inj: "iter_ok bpb a \<Longrightarrow> iter_ok bpb b \<Longrightarrow> bit_pos bpb a = bit_pos bpb b \<longleftrightarrow> a = b"
  using bit_pos_div [of bpb a] bit_pos_div [of bpb b] bit_pos_mod [of bpb a] bit_pos_mod [of bpb b]
  by (metis bi_equal_def bi_equal_iff)

lemma bi_advance_pos:
  assumes "iter_ok bpb it"
  shows "bit_pos bpb (bi_advance bpb n it) = bit_pos bpb it + n mod 2 ^ 64"
    "iter_ok bpb (bi_advance bpb n it)"
proof -
  let ?un = "n mod 2 ^ 64"
  have b: "0 \<le> bitOffset it" "bitOffset it < bpb" using assms by (auto simp: iter_ok_def)
  define r where "r = ?un mod bpb"
  have m: "0 \<le> r" "r < bpb" using b by (simp_all add: r_def)
  have d: "?un = ?un div bpb * bpb + ?un mod bpb" by simp
  show "iter_ok bpb (bi_advance bpb n it)"
    unfolding bi_advance_def Let_def iter_ok_def r_def [symmetric] using b m by simp
  show "bit_pos bpb (bi_advance bpb n it) = bit_pos bpb it + ?un"
    by (subst d) (simp add: bi_advance_def Let_def bit_pos_def algebra_simps)
qed

lemma bi_increment_pos:
  "iter_ok bpb it \<Longrightarrow> bit_pos bpb (bi_increment bpb it) = bit_pos bpb it + 1 \<and> iter_ok bpb (bi_increment bpb it)"
  by (auto simp: bi_increment_def advanceToNextBlock_def bit_pos_def iter_ok_def Let_def algebra_simps)

lemma bi_decrement_pos:
  "iter_ok bpb it \<Longrightarrow> bit_pos bpb (bi_decrement bpb it) = bit_pos bpb it - 1 \<and> iter_ok bpb (bi_decrement bpb it)"
  by (auto simp: bi_decrement_def bit_pos_def iter_ok_def algebra_simps)

lemma bi_distance_pos: "bi_distance_to bpb a b = bit_pos bpb b - bit_pos bpb a"
  by (simp add: bi_distance_to_def bit_pos_def algebra_simps)

definition bit_at :: "'a :: len word list \<Rightarrow> int \<Rightarrow> bool" where
  "bit_at xs q \<longleftrightarrow> bit (xs ! nat (q div int LENGTH('a))) (nat (q mod int LENGTH('a)))"

lemma bit_mask_below: "bit (mask_below off :: 'a :: len word) j \<longleftrightarrow> j < nat off \<and> j < LENGTH('a)"
proof -
  have "mask_below off = (mask (nat off) :: 'a word)" by (simp add: mask_below_def mask_eq_exp_minus_1)
  thus ?thesis by (auto simp: bit_mask_iff possible_bit_word)
qed

lemma bit_at_block:
  "0 \<le> j \<Longrightarrow> j < int LENGTH('a) \<Longrightarrow> bit_at xs (i * int LENGTH('a) + j) \<longleftrightarrow> bit (xs ! nat i) (nat j)"
  for xs :: "'a :: len word list"
  by (simp add: bit_at_def)

lemma bit_push_1: "bit (push_bit b 1 :: 'a :: len word) j \<longleftrightarrow> j = b \<and> b < LENGTH('a)"
  by (auto simp: push_bit_of_1 bit_exp_iff possible_bit_word)

lemma bit_ref_meaning: "b < LENGTH('a) \<Longrightarrow> bit_ref r b \<longleftrightarrow> bit r b" for r :: "'a :: len word"
proof -
  assume b: "b < LENGTH('a)"
  have "r AND push_bit b 1 = 0 \<longleftrightarrow> \<not> bit r b"
    unfolding bit_eq_iff [of "r AND push_bit b 1"] bit_and_iff bit_push_1 using b by (auto simp: possible_bit_word)
  thus ?thesis unfolding bit_ref_def by blast
qed

lemma bit_ref_assign_meaning:
  "b < LENGTH('a) \<Longrightarrow> bit (bit_ref_assign r b v) j \<longleftrightarrow> (if j = b then v else bit r j)"
  for r :: "'a :: len word"
  unfolding bit_ref_assign_def bit_ref_set_def bit_ref_clear_def
  by (auto simp: bit_or_iff bit_and_iff bit_not_iff bit_push_1 possible_bit_word simp del: push_bit_of_1
      dest: bit_imp_le_length)

lemma bit_ref_flip_meaning:
  "b < LENGTH('a) \<Longrightarrow> bit (bit_ref_flip r b) j \<longleftrightarrow> (if j = b then \<not> bit r j else bit r j)"
  for r :: "'a :: len word"
  unfolding bit_ref_flip_def by (auto simp: bit_xor_iff bit_push_1 simp del: push_bit_of_1)

lemma advanceInBlock_to:
  "iter_ok bpb b \<Longrightarrow> int j < bpb \<Longrightarrow> bitOffset b \<le> int j \<Longrightarrow>
   iter_ok bpb (advanceInBlock (int j - bitOffset b) b) \<and>
   bit_pos bpb (advanceInBlock (int j - bitOffset b) b) = base b * bpb + int j"
  by (auto simp: advanceInBlock_def iter_ok_def bit_pos_def)

text \<open>What the search promises: the first set bit of the range, or its end.\<close>

definition first_set :: "'a :: len word list \<Rightarrow> bit_iter \<Rightarrow> bit_iter \<Rightarrow> bit_iter \<Rightarrow> bool" where
  "first_set xs b e r \<longleftrightarrow>
     (let w = int LENGTH('a) in
      iter_ok w r \<and> bit_pos w b \<le> bit_pos w r \<and> bit_pos w r \<le> bit_pos w e \<and>
      (\<forall>q. bit_pos w b \<le> q \<and> q < bit_pos w r \<longrightarrow> \<not> bit_at xs q) \<and>
      (r = e \<or> bit_pos w r < bit_pos w e \<and> bit_at xs (bit_pos w r)))"

lemma pos_split:
  assumes "base b * w + off \<le> (q :: int)" "q < base b * w + hi" "0 \<le> off" "hi \<le> w"
  shows "\<exists>j. q = base b * w + int j \<and> off \<le> int j \<and> int j < hi"
  using assms by (intro exI [of _ "nat (q - base b * w)"]) auto

lemma first_set_here:
  fixes xs :: "'a :: len word list"
  assumes "iter_ok (int LENGTH('a)) b" "iter_ok (int LENGTH('a)) e"
    and j: "bit (xs ! nat (base b)) j" "bitOffset b \<le> int j"
    and before: "\<And>i. i < j \<Longrightarrow> bitOffset b \<le> int i \<Longrightarrow> \<not> bit (xs ! nat (base b)) i"
    and e: "base b * int LENGTH('a) + int j < bit_pos (int LENGTH('a)) e"
  shows "first_set xs b e (advanceInBlock (int j - bitOffset b) b)"
proof -
  have jl: "int j < int LENGTH('a)" using j(1) bit_imp_le_length by simp
  note r = advanceInBlock_to [OF assms(1) jl j(2)]
  have "\<not> bit_at xs q"
    if q: "bit_pos (int LENGTH('a)) b \<le> q" "q < base b * int LENGTH('a) + int j" for q
  proof -
    obtain i where i: "q = base b * int LENGTH('a) + int i" "bitOffset b \<le> int i" "int i < int j"
      using q pos_split [of b "int LENGTH('a)" "bitOffset b" q "int j"] jl assms(1)
      by (auto simp: bit_pos_def iter_ok_def)
    show ?thesis using i jl before by (simp add: bit_at_block)
  qed
  thus ?thesis using r e j(2) jl j(1) by (simp add: first_set_def Let_def bit_at_block) (simp add: bit_pos_def)
qed

lemma first_set_later:
  fixes xs :: "'a :: len word list"
  assumes "iter_ok (int LENGTH('a)) b" "iter_ok (int LENGTH('a)) b'"
    and none: "\<And>q. bit_pos (int LENGTH('a)) b \<le> q \<Longrightarrow> q < bit_pos (int LENGTH('a)) b' \<Longrightarrow> \<not> bit_at xs q"
    and le: "bit_pos (int LENGTH('a)) b \<le> bit_pos (int LENGTH('a)) b'"
    and r: "first_set xs b' e r"
  shows "first_set xs b e r"
proof -
  have "\<not> bit_at xs q" if "bit_pos (int LENGTH('a)) b \<le> q" "q < bit_pos (int LENGTH('a)) r" for q
    using that none [of q] r unfolding first_set_def Let_def
    by (cases "q < bit_pos (int LENGTH('a)) b'") auto
  thus ?thesis using r le unfolding first_set_def Let_def by auto
qed

lemma none_in_block:
  fixes xs :: "'a :: len word list"
  assumes "iter_ok (int LENGTH('a)) b" "hi \<le> int LENGTH('a)"
    and zero: "\<And>i. bitOffset b \<le> int i \<Longrightarrow> int i < hi \<Longrightarrow> \<not> bit (xs ! nat (base b)) i"
    and q: "bit_pos (int LENGTH('a)) b \<le> q" "q < base b * int LENGTH('a) + hi"
  shows "\<not> bit_at xs q"
proof -
  obtain i where "q = base b * int LENGTH('a) + int i" "bitOffset b \<le> int i" "int i < hi"
    using q pos_split [of b "int LENGTH('a)" "bitOffset b" q hi] assms(1,2)
    by (auto simp: bit_pos_def iter_ok_def)
  thus ?thesis using zero assms(2) by (simp add: bit_at_block)
qed

definition range_ok :: "'a :: len word list \<Rightarrow> bit_iter \<Rightarrow> bit_iter \<Rightarrow> bool" where
  "range_ok xs b e \<longleftrightarrow>
     (let w = int LENGTH('a) in
      iter_ok w b \<and> iter_ok w e \<and> 0 \<le> base b \<and> bit_pos w b \<le> bit_pos w e \<and>
      bit_pos w e \<le> int (length xs) * w)"

lemma range_ok_same: "range_ok xs b e \<Longrightarrow> base b = base e \<Longrightarrow> bitOffset b \<le> bitOffset e"
  by (auto simp: range_ok_def bit_pos_def Let_def)

lemma range_ok_base:
  assumes "range_ok xs b e"
  shows "base b \<le> base e" "base b \<noteq> base e \<or> bitOffset e \<noteq> 0 \<Longrightarrow> base b < int (length xs)"
proof -
  let ?w = "int LENGTH('a)"
  from assms have ok: "iter_ok ?w b" "iter_ok ?w e" and le: "bit_pos ?w b \<le> bit_pos ?w e"
    and len: "bit_pos ?w e \<le> int (length xs) * ?w"
    by (auto simp: range_ok_def Let_def)
  show be: "base b \<le> base e"
    using zdiv_mono1 [OF le, of ?w] ok by simp
  have "base e \<le> int (length xs)" using zdiv_mono1 [OF len, of ?w] ok by simp
  moreover have "base e \<noteq> int (length xs)" if "bitOffset e \<noteq> 0"
    using that len ok by (auto simp: bit_pos_def iter_ok_def)
  ultimately show "base b \<noteq> base e \<or> bitOffset e \<noteq> 0 \<Longrightarrow> base b < int (length xs)" using be by auto
qed

lemma next_block_pos:
  "iter_ok w b \<Longrightarrow> iter_ok w (advanceToNextBlock b) \<and> bit_pos w (advanceToNextBlock b) = base b * w + w \<and>
   base (advanceToNextBlock b) = base b + 1"
  by (auto simp: advanceToNextBlock_def iter_ok_def bit_pos_def algebra_simps)

lemma findFirstSet_range_finds:
  fixes xs :: "'a :: len word list"
  assumes "LENGTH('a) \<le> 64" "range_ok xs b e"
  shows "\<exists>r. findFirstSet_range xs b e = Inr r \<and> first_set xs b e r"
  using assms
proof (induction xs b e rule: findFirstSet_range.induct)
  case (1 xs b e)
  let ?w = "int LENGTH('a)"
  from 1(3) have ok: "iter_ok ?w b" "iter_ok ?w e" "0 \<le> base b" "bit_pos ?w b \<le> bit_pos ?w e"
    and len: "bit_pos ?w e \<le> int (length xs) * ?w"
    by (auto simp: range_ok_def Let_def)
  note be = range_ok_base [OF 1(3)]
  have off: "0 \<le> bitOffset b" using ok(1) by (simp add: iter_ok_def)
  show ?case
  proof (cases "base b = base e")
    case False
    define v where "v = xs ! nat (base b)"
    have blk: "block_at xs (base b) = Inr v" using be(2) False ok(3) by (simp add: block_at_def v_def)
    define m where "m = v AND NOT (mask_below (bitOffset b))"
    have m: "bit m j \<longleftrightarrow> bit v j \<and> bitOffset b \<le> int j" for j
      using off unfolding m_def by (auto simp: bit_and_iff bit_not_iff bit_mask_below possible_bit_word dest: bit_imp_le_length)
    have "(base b + 1) * ?w \<le> base e * ?w" using be(1) False by (intro mult_right_mono) auto
    hence room: "base b * ?w + ?w \<le> bit_pos ?w e"
      using ok(2) by (simp add: bit_pos_def iter_ok_def algebra_simps)
    show ?thesis
    proof (cases "findFirstSet m")
      case (Suc j)
      hence j: "bit m j" "\<And>i. i < j \<Longrightarrow> \<not> bit m i" using 1(2) by (simp_all add: findFirstSet_Suc)
      have "first_set xs b e (advanceInBlock (int j - bitOffset b) b)"
        using j m room bit_imp_le_length [of v j] ok(1,2)
        by (intro first_set_here) (auto simp: v_def [symmetric])
      thus ?thesis using False blk Suc by (simp add: findFirstSet_range.simps [of xs b e] m_def [symmetric])
    next
      case 0
      hence z: "\<not> bit v j" if "bitOffset b \<le> int j" for j
        using 1(2) m [of j] that by (simp add: findFirstSet_0)
      note nb = next_block_pos [OF ok(1)]
      have rok: "range_ok xs (advanceToNextBlock b) e" using nb ok room len by (simp add: range_ok_def Let_def)
      obtain r where r: "findFirstSet_range xs (advanceToNextBlock b) e = Inr r" "first_set xs (advanceToNextBlock b) e r"
        using 1(1) [OF False blk, of "findFirstSet m"] 0 1(2) rok unfolding m_def by blast
      have "first_set xs b e r"
      proof (rule first_set_later [OF ok(1) nb [THEN conjunct1] _ _ r(2)])
        show "\<not> bit_at xs q" if "bit_pos ?w b \<le> q" "q < bit_pos ?w (advanceToNextBlock b)" for q
          using that nb z by (intro none_in_block [OF ok(1), of ?w]) (auto simp: v_def [symmetric])
        have "bit_pos ?w b \<le> base b * ?w + ?w" using ok(1) by (simp add: bit_pos_def iter_ok_def)
        thus "bit_pos ?w b \<le> bit_pos ?w (advanceToNextBlock b)" using nb by (simp only:)
      qed
      thus ?thesis using False blk 0 r(1) by (simp add: findFirstSet_range.simps [of xs b e] m_def [symmetric])
    qed
  next
    case True
    show ?thesis
    proof (cases "bitOffset e = 0")
      case zero: True
      hence "bitOffset b = 0" using range_ok_same [OF 1(3) True] off by simp
      hence "first_set xs b e e" using ok True zero by (auto simp: first_set_def Let_def bit_pos_def)
      thus ?thesis using True zero by (simp add: findFirstSet_range.simps [of xs b e])
    next
      case nz: False
      define v where "v = xs ! nat (base b)"
      have blk: "block_at xs (base b) = Inr v" using be(2) nz ok(3) by (simp add: block_at_def v_def)
      define m where "m = v AND NOT (mask_below (bitOffset b)) AND mask_below (bitOffset e)"
      have m: "bit m j \<longleftrightarrow> bit v j \<and> bitOffset b \<le> int j \<and> int j < bitOffset e" for j
        using off unfolding m_def by (auto simp: bit_and_iff bit_not_iff bit_mask_below possible_bit_word dest: bit_imp_le_length)
      show ?thesis
      proof (cases "findFirstSet m")
        case (Suc j)
        hence j: "bit m j" "\<And>i. i < j \<Longrightarrow> \<not> bit m i" using 1(2) by (simp_all add: findFirstSet_Suc)
        have "first_set xs b e (advanceInBlock (int j - bitOffset b) b)"
          using j m ok(1,2) True
          by (intro first_set_here) (auto simp: v_def bit_pos_def)
        thus ?thesis using True nz blk Suc by (simp add: findFirstSet_range.simps [of xs b e] m_def [symmetric])
      next
        case 0
        hence z: "\<not> bit v j" if "bitOffset b \<le> int j" "int j < bitOffset e" for j
          using 1(2) m [of j] that by (simp add: findFirstSet_0)
        have "first_set xs b e e"
          using ok none_in_block [OF ok(1), of "bitOffset e"] z True
          by (auto simp: first_set_def Let_def v_def bit_pos_def iter_ok_def)
        thus ?thesis using True nz blk 0 by (simp add: findFirstSet_range.simps [of xs b e] m_def [symmetric])
      qed
    qed
  qed
qed

section \<open>Loads and stores\<close>

lemma bit_load_le:
  "bit (load_le bs :: 'a :: len word) n \<longleftrightarrow>
   n < LENGTH('a) \<and> n < 8 * length bs \<and> bit (bs ! (n div 8)) (n mod 8)"
proof (induction bs arbitrary: n)
  case (Cons b bs)
  show ?case
  proof (cases "n < 8")
    case True
    thus ?thesis by (auto simp: bit_or_iff bit_ucast_iff bit_push_bit_iff possible_bit_word)
  next
    case False
    then obtain k where k: "n = k + 8" by (metis le_add_diff_inverse2 not_less)
    have "\<not> bit b n" using False bit_imp_le_length [of b n] by auto
    moreover have "(k + 8) div 8 = Suc (k div 8)" by simp
    ultimately show ?thesis using Cons [of k] unfolding k
      by (auto simp: bit_or_iff bit_ucast_iff bit_push_bit_iff possible_bit_word)
  qed
qed simp

lemma length_store_le [simp]: "length (store_le (w :: 'a :: len word)) = LENGTH('a) div 8"
  by (simp add: store_le_def)

lemma bit_store_le: "i < LENGTH('a) div 8 \<Longrightarrow> bit (store_le w ! i) j \<longleftrightarrow> j < 8 \<and> bit w (8 * i + j)"
  for w :: "'a :: len word"
  by (auto simp: store_le_def bit_ucast_iff bit_drop_bit_eq)

lemma load_store_le: "8 dvd LENGTH('a) \<Longrightarrow> load_le (store_le w) = w" for w :: "'a :: len word"
  by (intro bit_word_eqI) (auto simp: bit_load_le bit_store_le less_mult_imp_div_less mult.commute)

lemma length_overwrite [simp]: "p + length xs \<le> length buf \<Longrightarrow> length (overwrite buf p xs) = length buf"
  by (simp add: overwrite_def)

lemma take_overwrite:
  "p + length xs \<le> length buf \<Longrightarrow> k \<le> length xs \<Longrightarrow>
   take (p + k) (overwrite buf p xs) = take p buf @ take k xs"
  by (simp add: overwrite_def)

lemma storeUnaligned_ok:
  "p + LENGTH('a) div 8 \<le> length buf \<Longrightarrow> storeUnaligned buf p w = Inr (overwrite buf p (store_le w))"
  for w :: "'a :: len word"
  by (simp add: storeUnaligned_def)

lemma load_after_store:
  fixes w :: "'a :: len word"
  assumes "8 dvd LENGTH('a)" "storeUnaligned buf p w = Inr buf'"
  shows "loadUnaligned buf' p = Inr w"
proof -
  from assms(2) have p: "p + LENGTH('a) div 8 \<le> length buf" and b: "buf' = overwrite buf p (store_le w)"
    by (auto simp: storeUnaligned_def split: if_splits)
  have "take (LENGTH('a) div 8) (drop p buf') = store_le w" using p by (simp add: b overwrite_def)
  thus ?thesis using p load_store_le [OF assms(1), of w] by (simp add: loadUnaligned_def b)
qed

lemma bit_our_bswap16: "bit (our_bswap16 x) n \<longleftrightarrow> n < 16 \<and> bit x (if n < 8 then n + 8 else n - 8)"
proof -
  have m: "y AND 0xff = take_bit 8 y" for y :: u16 by (simp add: take_bit_eq_mask mask_eq_exp_minus_1)
  show ?thesis unfolding our_bswap16_def m
    by (cases "n < 8")
      (auto simp: bit_or_iff bit_take_bit_iff bit_drop_bit_eq bit_push_bit_iff possible_bit_word add.commute
        dest: bit_imp_le_length)
qed

lemma bswap_bytes: "8 dvd LENGTH('a) \<Longrightarrow> store_le (builtin_bswap x) = rev (store_le x)" for x :: "'a :: len word"
proof (intro nth_equalityI bit_word_eqI)
  fix i n assume d: "8 dvd LENGTH('a)" and i: "i < length (store_le (builtin_bswap x))" and n: "n < LENGTH(8)"
  hence "8 * i + n < LENGTH('a)" by (auto elim!: dvdE)
  thus "bit (store_le (builtin_bswap x) ! i) n \<longleftrightarrow> bit (rev (store_le x) ! i) n"
    using i n by (simp add: bit_store_le builtin_bswap_def bit_load_le)
qed simp

lemma swap16_bytes:
  "LENGTH('a) = 16 \<Longrightarrow> store_le (ucast (our_bswap16 (ucast x)) :: 'a word) = rev (store_le x)"
  for x :: "'a :: len word"
proof (intro nth_equalityI bit_word_eqI)
  fix i n
  assume w: "LENGTH('a) = 16"
    and i: "i < length (store_le (ucast (our_bswap16 (ucast x)) :: 'a word))" and n: "n < LENGTH(8)"
  hence "i = 0 \<or> i = 1" by auto
  thus "bit (store_le (ucast (our_bswap16 (ucast x)) :: 'a word) ! i) n \<longleftrightarrow> bit (rev (store_le x) ! i) n"
    using w n by (auto simp: bit_store_le rev_nth bit_ucast_iff bit_our_bswap16 add.commute)
qed simp

lemma Endian_swap_bytes:
  "LENGTH('a) \<in> {8, 16, 32, 64} \<Longrightarrow> store_le (Endian_swap x) = rev (store_le x)"
  for x :: "'a :: len word"
  by (auto simp: Endian_swap_def swap16_bytes bswap_bytes) (simp add: store_le_def)

lemma store_le_inject: "8 dvd LENGTH('a) \<Longrightarrow> store_le x = store_le y \<Longrightarrow> x = y" for x y :: "'a :: len word"
  by (metis load_store_le)

lemma Endian_swap_swap: "LENGTH('a) \<in> {8, 16, 32, 64} \<Longrightarrow> Endian_swap (Endian_swap x) = x"
  for x :: "'a :: len word"
  by (rule store_le_inject) (auto simp: Endian_swap_bytes)

section \<open>Properties\<close>

text \<open>
  \<open>findFirstSet\<close> over a range of bits within an array reads only blocks of the array and stops at
  the first bit that is set, or at the end of the range if there is none.
\<close>

lemma bit_range_search:
  fixes xs :: "'a :: len word list"
  assumes "LENGTH('a) \<le> 64" "range_ok xs b e"
  shows "\<exists>r. findFirstSet_range xs b e = Inr r \<and> first_set xs b e r"
  using assms by (rule findFirstSet_range_finds)

lemma bit_range_search_example:
  "\<exists>r. findFirstSet_range [0x03, 0x90 :: u8] \<lparr> base = 0, bitOffset = 2 \<rparr> \<lparr> base = 2, bitOffset = 0 \<rparr> = Inr r \<and>
     first_set [0x03, 0x90 :: u8] \<lparr> base = 0, bitOffset = 2 \<rparr> \<lparr> base = 2, bitOffset = 0 \<rparr> r"
  by (rule bit_range_search) (simp_all add: range_ok_def iter_ok_def bit_pos_def)

text \<open>
  \<open>nextPowTwo\<close> of a positive number gives the least power of two that is not below it, as long as
  one fits the type; otherwise it shifts a 64-bit one past the end, which is undefined, or gives 0 for
  narrower types.
\<close>

lemma next_power_of_two:
  fixes v :: "'a :: len word"
  assumes "LENGTH('a) \<le> 64" "v \<noteq> 0"
  shows "if unat v \<le> 2 ^ (LENGTH('a) - 1)
    then \<exists>k. nextPowTwo v = Some (word_of_nat (2 ^ k)) \<and> k < LENGTH('a) \<and> unat v \<le> 2 ^ k \<and>
           (\<forall>m. unat v \<le> 2 ^ m \<longrightarrow> k \<le> m)
    else nextPowTwo v = (if LENGTH('a) = 64 then None else Some 0)"
  using nextPowTwo_correct [OF assms] nextPowTwo_overflow [OF assms(1), of v] by (simp add: not_le)

lemma next_power_of_two_example:
  "(\<exists>k. nextPowTwo (200 :: u32) = Some (word_of_nat (2 ^ k)) \<and> 200 \<le> (2 :: nat) ^ k) \<and>
   nextPowTwo (200 :: u8) = Some 0"
  using next_power_of_two [of "200 :: u32"] next_power_of_two [of "200 :: u8"] by auto

end
