(* ===== verification/Group_Varint.thy ===== *)
theory Group_Varint
  imports Folly_Bits
begin

text \<open>
  \<open>folly/GroupVarint.h\<close>, \<open>GroupVarint.cpp\<close> and \<open>detail/GroupVarintDetail.h\<close>: groups of four 32-bit
  or five 64-bit numbers, written as a header with their lengths followed by the significant bytes
  of each. Encoding stores whole words that overlap, decoding loads whole words and masks them;
  buffers are byte lists and an access past their end is an error. The tables
  \<open>groupVarintLengths\<close> and \<open>groupVarintSSEMasks\<close> are what \<open>folly/build/generate_varint_tables.py\<close>
  writes; the SSSE3 shuffle is modelled by its documented effect on the sixteen bytes.
\<close>

section \<open>Traits and sizes\<close>

definition kGroupSize32 :: nat where "kGroupSize32 = 4"
definition kHeaderSize32 :: nat where "kHeaderSize32 = 1"
definition kGroupSize64 :: nat where "kGroupSize64 = 5"
definition kHeaderSize64 :: nat where "kHeaderSize64 = 2"

definition kMaxSize32 :: nat where "kMaxSize32 = kHeaderSize32 + 4 * kGroupSize32"
definition kMaxSize64 :: nat where "kMaxSize64 = kHeaderSize64 + 8 * kGroupSize64"

text \<open>The group size is positive in both traits. \<open>maxSize\<close> and \<open>totalSize\<close> of the base class, over the traits, \<open>sizeof(type)\<close> and the sizes of
  the derived class.\<close>

definition maxSize :: "nat \<Rightarrow> nat \<Rightarrow> nat \<Rightarrow> nat \<Rightarrow> nat" where
  "maxSize kGroupSize kHeaderSize sz n =
     (let kFullGroupSize = kHeaderSize + kGroupSize * sz;
          t = (n div kGroupSize) * kFullGroupSize;
          n = n mod kGroupSize
      in if n \<noteq> 0 then t + (kHeaderSize + n * sz) else t)"

function totalSize_loop ::
  "nat \<Rightarrow> ('v list \<Rightarrow> nat) \<Rightarrow> ('v list \<Rightarrow> nat \<Rightarrow> nat) \<Rightarrow> 'v list \<Rightarrow> nat \<Rightarrow> nat \<Rightarrow> nat" where
  "totalSize_loop kGroupSize sz psz p n t =
     (if n \<ge> kGroupSize \<and> kGroupSize > 0
      then totalSize_loop kGroupSize sz psz (drop kGroupSize p) (n - kGroupSize) (t + sz p)
      else if n \<noteq> 0 then t + psz p n else t)"
  by pat_completeness auto
termination by (relation "measure (\<lambda>(g, sz, psz, p, n, t). n)") auto

declare totalSize_loop.simps [simp del]

definition totalSize :: "nat \<Rightarrow> ('v list \<Rightarrow> nat) \<Rightarrow> ('v list \<Rightarrow> nat \<Rightarrow> nat) \<Rightarrow> 'v list \<Rightarrow> nat \<Rightarrow> nat" where
  "totalSize kGroupSize sz psz p n = totalSize_loop kGroupSize sz psz p n 0"

section \<open>Steps that both widths share\<close>

text \<open>\<open>storeUnaligned(p, a); p += key + 1\<close>, a load with its mask and \<open>p += key + 1\<close>, and the loop
  of \<open>partialSize\<close>.\<close>

definition put_val :: "u8 list \<Rightarrow> nat \<Rightarrow> 'a :: len word \<Rightarrow> nat \<Rightarrow> mem_error + u8 list \<times> nat" where
  "put_val buf p w k = rbind (storeUnaligned buf p w) (\<lambda>buf. Inr (buf, p + (k + 1)))"

definition get_val :: "u8 list \<Rightarrow> nat \<Rightarrow> 'a :: len word \<Rightarrow> nat \<Rightarrow> mem_error + 'a word \<times> nat" where
  "get_val buf p msk k = rbind (loadUnaligned buf p) (\<lambda>w. Inr (w AND msk, p + (k + 1)))"

fun add_keys :: "('v \<Rightarrow> nat) \<Rightarrow> nat \<Rightarrow> 'v list \<Rightarrow> nat \<Rightarrow> nat" where
  "add_keys key s p 0 = s"
| "add_keys key s p (Suc c) = add_keys key (s + key (hd p)) (tl p) c"

section \<open>32-bit groups\<close>

definition key32 :: "u32 \<Rightarrow> nat" where
  "key32 x = 3 - builtin_clz (x OR 1) div 8"

definition b0key32 :: "u64 \<Rightarrow> nat" where "b0key32 x = unat (x AND 3)"
definition b1key32 :: "u64 \<Rightarrow> nat" where "b1key32 x = unat (drop_bit 2 x AND 3)"
definition b2key32 :: "u64 \<Rightarrow> nat" where "b2key32 x = unat (drop_bit 4 x AND 3)"
definition b3key32 :: "u64 \<Rightarrow> nat" where "b3key32 x = unat (drop_bit 6 x AND 3)"

definition kMask32 :: "u32 list" where
  "kMask32 = [0xff, 0xffff, 0xffffff, 0xffffffff]"

definition size32 :: "u32 \<Rightarrow> u32 \<Rightarrow> u32 \<Rightarrow> u32 \<Rightarrow> nat" where
  "size32 a b c d = kHeaderSize32 + kGroupSize32 + key32 a + key32 b + key32 c + key32 d"

definition size32_array :: "u32 list \<Rightarrow> nat" where
  "size32_array p = size32 (p ! 0) (p ! 1) (p ! 2) (p ! 3)"

definition partialSize32 :: "u32 list \<Rightarrow> nat \<Rightarrow> nat" where
  "partialSize32 p c = add_keys key32 (kHeaderSize32 + c) p c"

text \<open>The header byte is read through a signed \<open>char\<close> here.\<close>

definition partialCount32 :: "u8 list \<Rightarrow> nat \<Rightarrow> nat \<Rightarrow> mem_error + nat" where
  "partialCount32 buf p sz =
     rbind (loadUnaligned buf p :: mem_error + u8) (\<lambda>c.
       let v = scast c :: u64;
           s0 = kHeaderSize32 + (1 + b0key32 v);
           s1 = s0 + (1 + b1key32 v);
           s2 = s1 + (1 + b2key32 v);
           s3 = s2 + (1 + b3key32 v)
       in Inr (if s0 > sz then 0 else if s1 > sz then 1 else if s2 > sz then 2
               else if s3 > sz then 3 else 4))"

definition encodedSize32 :: "u8 list \<Rightarrow> nat \<Rightarrow> mem_error + nat" where
  "encodedSize32 buf p =
     rbind (loadUnaligned buf p :: mem_error + u8) (\<lambda>c.
       let v = scast c :: u64
       in Inr (kHeaderSize32 + kGroupSize32 + b0key32 v + b1key32 v + b2key32 v + b3key32 v))"

definition header32 :: "nat \<Rightarrow> nat \<Rightarrow> nat \<Rightarrow> nat \<Rightarrow> u8" where
  "header32 k0 k1 k2 k3 =
     push_bit 6 (of_nat k3) OR push_bit 4 (of_nat k2) OR push_bit 2 (of_nat k1) OR of_nat k0"

definition encode32 :: "u8 list \<Rightarrow> nat \<Rightarrow> u32 \<Rightarrow> u32 \<Rightarrow> u32 \<Rightarrow> u32 \<Rightarrow> mem_error + u8 list \<times> nat" where
  "encode32 buf p a b c d =
     (let k0 = key32 a; k1 = key32 b; k2 = key32 c; k3 = key32 d in
      rbind (storeUnaligned buf p (header32 k0 k1 k2 k3)) (\<lambda>buf.
      rbind (put_val buf (p + 1) a k0) (\<lambda>(buf, p).
      rbind (put_val buf p b k1) (\<lambda>(buf, p).
      rbind (put_val buf p c k2) (\<lambda>(buf, p).
      put_val buf p d k3)))))"

definition encode32_array :: "u8 list \<Rightarrow> nat \<Rightarrow> u32 list \<Rightarrow> mem_error + u8 list \<times> nat" where
  "encode32_array buf p src = encode32 buf p (src ! 0) (src ! 1) (src ! 2) (src ! 3)"

text \<open>The generated tables: the length of a group by its header byte, and its shuffle mask, whose
  j-th 32-bit value is put together byte by byte.\<close>

definition group_field :: "nat \<Rightarrow> nat \<Rightarrow> nat" where
  "group_field i j = 1 + (i div 2 ^ (2 * j)) mod 4"

definition groupVarintLengths :: "nat \<Rightarrow> nat" where
  "groupVarintLengths i = foldl (\<lambda>offset j. offset + group_field i j) 1 [0..<4]"

definition sse_mask_val :: "nat \<Rightarrow> nat \<Rightarrow> u32" where
  "sse_mask_val d offset =
     foldl (OR) (foldl (OR) 0 (map (\<lambda>k. push_bit (8 * k) (of_nat (offset + k))) [0..<d]))
       (map (\<lambda>k. push_bit (8 * k) 0xff) [d..<4])"

definition groupVarintSSEMasks :: "nat \<Rightarrow> u8 list" where
  "groupVarintSSEMasks i =
     snd (foldl (\<lambda>(offset, vals) j.
             (offset + group_field i j, vals @ store_le (sse_mask_val (group_field i j) offset)))
           (0, []) [0..<4])"

definition decode_simple32 :: "u8 list \<Rightarrow> nat \<Rightarrow> mem_error + nat \<times> u32 \<times> u32 \<times> u32 \<times> u32" where
  "decode_simple32 buf p =
     rbind (loadUnaligned buf p :: mem_error + u8) (\<lambda>h.
       let k = ucast h :: u64;
           n = p + groupVarintLengths (unat k);
           k0 = b0key32 k; k1 = b1key32 k; k2 = b2key32 k; k3 = b3key32 k
       in rbind (get_val buf (p + 1) (kMask32 ! k0) k0) (\<lambda>(a, p).
          rbind (get_val buf p (kMask32 ! k1) k1) (\<lambda>(b, p).
          rbind (get_val buf p (kMask32 ! k2) k2) (\<lambda>(c, p).
          rbind (get_val buf p (kMask32 ! k3) k3) (\<lambda>(d, p).
          Inr (n, a, b, c, d))))))"

definition decode_simple32_array :: "u8 list \<Rightarrow> nat \<Rightarrow> mem_error + nat \<times> u32 list" where
  "decode_simple32_array buf p = rbind (decode_simple32 buf p) (\<lambda>(n, a, b, c, d). Inr (n, [a, b, c, d]))"

text \<open>The SSSE3 decoder. A register is its sixteen bytes; \<open>_mm_shuffle_epi8\<close> takes for each byte of
  the mask the byte it selects by its low four bits, or zero where bit 7 is set.\<close>

definition mm_loadu_si128 :: "u8 list \<Rightarrow> nat \<Rightarrow> mem_error + u8 list" where
  "mm_loadu_si128 buf p = (if p + 16 \<le> length buf then Inr (take 16 (drop p buf)) else Inl ReadPastEnd)"

definition mm_shuffle_epi8 :: "u8 list \<Rightarrow> u8 list \<Rightarrow> u8 list" where
  "mm_shuffle_epi8 val msk = map (\<lambda>m. if bit m 7 then 0 else val ! unat (m AND 15)) msk"

definition decode_sse32 :: "u8 list \<Rightarrow> nat \<Rightarrow> mem_error + nat \<times> u32 list" where
  "decode_sse32 buf p =
     rbind (loadUnaligned buf p :: mem_error + u8) (\<lambda>key.
     rbind (mm_loadu_si128 buf (p + 1)) (\<lambda>val.
       let msk = groupVarintSSEMasks (unat key);
           r = mm_shuffle_epi8 val msk
       in Inr (p + groupVarintLengths (unat key),
               map (\<lambda>j. load_le (take 4 (drop (4 * j) r))) [0..<4])))"

section \<open>64-bit groups\<close>

definition key64 :: "u64 \<Rightarrow> nat" where
  "key64 x = 7 - builtin_clz (x OR 1) div 8"

definition b0key64 :: "u16 \<Rightarrow> nat" where "b0key64 x = unat (x AND 7)"
definition b1key64 :: "u16 \<Rightarrow> nat" where "b1key64 x = unat (drop_bit 3 x AND 7)"
definition b2key64 :: "u16 \<Rightarrow> nat" where "b2key64 x = unat (drop_bit 6 x AND 7)"
definition b3key64 :: "u16 \<Rightarrow> nat" where "b3key64 x = unat (drop_bit 9 x AND 7)"
definition b4key64 :: "u16 \<Rightarrow> nat" where "b4key64 x = unat (drop_bit 12 x AND 7)"

definition kMask64 :: "u64 list" where
  "kMask64 = [0xff, 0xffff, 0xffffff, 0xffffffff, 0xffffffffff, 0xffffffffffff, 0xffffffffffffff,
     0xffffffffffffffff]"

definition size64 :: "u64 \<Rightarrow> u64 \<Rightarrow> u64 \<Rightarrow> u64 \<Rightarrow> u64 \<Rightarrow> nat" where
  "size64 a b c d e =
     kHeaderSize64 + kGroupSize64 + key64 a + key64 b + key64 c + key64 d + key64 e"

definition size64_array :: "u64 list \<Rightarrow> nat" where
  "size64_array p = size64 (p ! 0) (p ! 1) (p ! 2) (p ! 3) (p ! 4)"

definition partialSize64 :: "u64 list \<Rightarrow> nat \<Rightarrow> nat" where
  "partialSize64 p c = add_keys key64 (kHeaderSize64 + c) p c"

definition partialCount64 :: "u8 list \<Rightarrow> nat \<Rightarrow> nat \<Rightarrow> mem_error + nat" where
  "partialCount64 buf p sz =
     rbind (loadUnaligned buf p) (\<lambda>v.
       let s0 = kHeaderSize64 + (1 + b0key64 v);
           s1 = s0 + (1 + b1key64 v);
           s2 = s1 + (1 + b2key64 v);
           s3 = s2 + (1 + b3key64 v);
           s4 = s3 + (1 + b4key64 v)
       in Inr (if s0 > sz then 0 else if s1 > sz then 1 else if s2 > sz then 2
               else if s3 > sz then 3 else if s4 > sz then 4 else 5))"

definition encodedSize64 :: "u8 list \<Rightarrow> nat \<Rightarrow> mem_error + nat" where
  "encodedSize64 buf p =
     rbind (loadUnaligned buf p) (\<lambda>n.
       Inr (kHeaderSize64 + kGroupSize64 + b0key64 n + b1key64 n + b2key64 n + b3key64 n + b4key64 n))"

definition header64 :: "nat \<Rightarrow> nat \<Rightarrow> nat \<Rightarrow> nat \<Rightarrow> nat \<Rightarrow> u16" where
  "header64 k0 k1 k2 k3 k4 =
     push_bit 12 (of_nat k4) OR push_bit 9 (of_nat k3) OR push_bit 6 (of_nat k2) OR
     push_bit 3 (of_nat k1) OR of_nat k0"

definition encode64 ::
  "u8 list \<Rightarrow> nat \<Rightarrow> u64 \<Rightarrow> u64 \<Rightarrow> u64 \<Rightarrow> u64 \<Rightarrow> u64 \<Rightarrow> mem_error + u8 list \<times> nat" where
  "encode64 buf p a b c d e =
     (let k0 = key64 a; k1 = key64 b; k2 = key64 c; k3 = key64 d; k4 = key64 e in
      rbind (storeUnaligned buf p (header64 k0 k1 k2 k3 k4)) (\<lambda>buf.
      rbind (put_val buf (p + 2) a k0) (\<lambda>(buf, p).
      rbind (put_val buf p b k1) (\<lambda>(buf, p).
      rbind (put_val buf p c k2) (\<lambda>(buf, p).
      rbind (put_val buf p d k3) (\<lambda>(buf, p).
      put_val buf p e k4))))))"

definition encode64_array :: "u8 list \<Rightarrow> nat \<Rightarrow> u64 list \<Rightarrow> mem_error + u8 list \<times> nat" where
  "encode64_array buf p src = encode64 buf p (src ! 0) (src ! 1) (src ! 2) (src ! 3) (src ! 4)"

definition decode64 :: "u8 list \<Rightarrow> nat \<Rightarrow> mem_error + nat \<times> u64 \<times> u64 \<times> u64 \<times> u64 \<times> u64" where
  "decode64 buf p =
     rbind (loadUnaligned buf p) (\<lambda>k.
       let k0 = b0key64 k; k1 = b1key64 k; k2 = b2key64 k; k3 = b3key64 k; k4 = b4key64 k
       in rbind (get_val buf (p + 2) (kMask64 ! k0) k0) (\<lambda>(a, p).
          rbind (get_val buf p (kMask64 ! k1) k1) (\<lambda>(b, p).
          rbind (get_val buf p (kMask64 ! k2) k2) (\<lambda>(c, p).
          rbind (get_val buf p (kMask64 ! k3) k3) (\<lambda>(d, p).
          rbind (get_val buf p (kMask64 ! k4) k4) (\<lambda>(e, p).
          Inr (p, a, b, c, d, e)))))))"

definition decode64_array :: "u8 list \<Rightarrow> nat \<Rightarrow> mem_error + nat \<times> u64 list" where
  "decode64_array buf p = rbind (decode64 buf p) (\<lambda>(n, a, b, c, d, e). Inr (n, [a, b, c, d, e]))"

section \<open>The number of significant bytes\<close>

lemma key_is_top_byte:
  fixes x :: "'a :: len word"
  assumes w: "LENGTH('a) = 8 * (K + 1)"
  shows "\<exists>i. bit (x OR 1) i \<and> (\<forall>j > i. \<not> bit (x OR 1) j) \<and> K - builtin_clz (x OR 1) div 8 = i div 8 \<and>
             i < 8 * (K + 1)"
proof -
  have "bit (x OR 1) 0" by (simp add: bit_or_iff)
  hence "x OR 1 \<noteq> 0" by (metis bit_0_eq bot_apply bot_bool_def)
  then obtain i where i: "bit (x OR 1) i" "\<And>j. i < j \<Longrightarrow> \<not> bit (x OR 1) j"
    using top_bit_exists [of "x OR 1"] by blast
  have il: "i < 8 * (K + 1)" using i(1) w bit_imp_le_length by metis
  have "builtin_clz (x OR 1) = 8 * (K + 1) - 1 - i" using builtin_clz_top [OF i] w by simp
  moreover have "K - (8 * (K + 1) - 1 - i) div 8 = i div 8"
  proof -
    obtain q r where qr: "i = 8 * q + r" "r < 8" by (metis mult_div_mod_eq mod_less_divisor zero_less_numeral)
    hence "8 * q < 8 * (K + 1)" using il by linarith
    hence q: "q \<le> K" by simp
    then obtain m where m: "K = q + m" using le_Suc_ex by blast
    have "8 * (K + 1) - 1 - i = (7 - r) + 8 * m" using qr m by simp
    hence "(8 * (K + 1) - 1 - i) div 8 = m" using qr by simp
    moreover have "i div 8 = q" using qr by simp
    ultimately show ?thesis using m by simp
  qed
  ultimately show ?thesis using i il by auto
qed

lemma key_covers:
  fixes x :: "'a :: len word"
  assumes "LENGTH('a) = 8 * (K + 1)"
  shows "bit x n \<Longrightarrow> n < 8 * (K - builtin_clz (x OR 1) div 8 + 1)" "K - builtin_clz (x OR 1) div 8 < K + 1"
proof -
  obtain i where i: "\<forall>j > i. \<not> bit (x OR 1) j" "K - builtin_clz (x OR 1) div 8 = i div 8" "i < 8 * (K + 1)"
    using key_is_top_byte [OF assms] by blast
  show "n < 8 * (K - builtin_clz (x OR 1) div 8 + 1)" if "bit x n"
  proof -
    have "n \<le> i" using that i(1) by (meson bit_or_iff not_le)
    hence "n < 8 * (i div 8 + 1)" by presburger
    thus ?thesis by (simp only: i(2))
  qed
qed simp

lemma key_minimal:
  fixes x :: "'a :: len word"
  assumes "LENGTH('a) = 8 * (K + 1)" "0 < K - builtin_clz (x OR 1) div 8"
  shows "\<exists>n \<ge> 8 * (K - builtin_clz (x OR 1) div 8). bit x n"
proof -
  obtain i where i: "bit (x OR 1) i" "K - builtin_clz (x OR 1) div 8 = i div 8"
    using key_is_top_byte [OF assms(1)] by blast
  have "i \<noteq> 0" using assms(2) i(2) by auto
  hence "bit x i" using i(1) by (auto simp: bit_or_iff bit_1_iff)
  moreover have "8 * (i div 8) \<le> i" by simp
  ultimately show ?thesis unfolding i(2) by blast
qed

lemma key32_less: "key32 x < 4" and key32_covers: "bit x n \<Longrightarrow> n < 8 * (key32 x + 1)"
  using key_covers [of 3 x] by (simp_all add: key32_def)

lemma key64_less: "key64 x < 8" and key64_covers: "bit x n \<Longrightarrow> n < 8 * (key64 x + 1)"
  using key_covers [of 7 x] by (simp_all add: key64_def)

section \<open>Headers\<close>

lemma bit_small_nat: "k < 2 ^ m \<Longrightarrow> bit (of_nat k :: 'a :: len word) n \<Longrightarrow> n < m"
proof -
  assume k: "k < 2 ^ m" and b: "bit (of_nat k :: 'a word) n"
  hence "bit k n" by (simp add: bit_of_nat_iff)
  moreover have "take_bit m k = k" using k by (simp add: take_bit_nat_eq_self)
  ultimately show "n < m" by (metis bit_take_bit_iff)
qed

lemma unat_small: "k < 2 ^ m \<Longrightarrow> m \<le> LENGTH('a) \<Longrightarrow> unat (of_nat k :: 'a :: len word) = k"
proof -
  assume "k < 2 ^ m" "m \<le> LENGTH('a)"
  hence "k < 2 ^ LENGTH('a)" by (meson less_le_trans one_le_numeral power_increasing)
  thus ?thesis by (simp add: unat_of_nat take_bit_nat_eq_self)
qed

lemma and_mask_literals: "x AND 3 = take_bit 2 (x :: 'a :: len word)" "x AND 7 = take_bit 3 x" "y AND 15 = take_bit 4 (y :: u8)"
  by (simp_all add: take_bit_eq_mask mask_eq_exp_minus_1)

lemma header_fields32:
  assumes k: "k0 < 4" "k1 < 4" "k2 < 4" "k3 < 4"
  shows "b0key32 (ucast (header32 k0 k1 k2 k3)) = k0" "b1key32 (ucast (header32 k0 k1 k2 k3)) = k1"
    "b2key32 (ucast (header32 k0 k1 k2 k3)) = k2" "b3key32 (ucast (header32 k0 k1 k2 k3)) = k3"
proof -
  let ?h = "ucast (header32 k0 k1 k2 k3) :: u64"
  have b: "bit (of_nat k0 :: u8) n \<Longrightarrow> n < 2" "bit (of_nat k1 :: u8) n \<Longrightarrow> n < 2"
    "bit (of_nat k2 :: u8) n \<Longrightarrow> n < 2" "bit (of_nat k3 :: u8) n \<Longrightarrow> n < 2"
    "bit (of_nat k0 :: u64) n \<longleftrightarrow> n < 2 \<and> bit (of_nat k0 :: u8) n" 
    "bit (of_nat k1 :: u64) n \<longleftrightarrow> n < 2 \<and> bit (of_nat k1 :: u8) n" 
    "bit (of_nat k2 :: u64) n \<longleftrightarrow> n < 2 \<and> bit (of_nat k2 :: u8) n" 
    "bit (of_nat k3 :: u64) n \<longleftrightarrow> n < 2 \<and> bit (of_nat k3 :: u8) n" for n
    using k bit_small_nat [of _ 2 n] by (fastforce simp: bit_of_nat_iff possible_bit_word)+
  have "take_bit 2 ?h = of_nat k0" "take_bit 2 (drop_bit 2 ?h) = of_nat k1"
    "take_bit 2 (drop_bit 4 ?h) = of_nat k2" "take_bit 2 (drop_bit 6 ?h) = of_nat k3"
    by (rule bit_word_eqI; auto simp: bit_take_bit_iff bit_drop_bit_eq bit_ucast_iff header32_def bit_or_iff
      bit_push_bit_iff b(5-8) possible_bit_word dest: b(1-4))+
  thus "b0key32 ?h = k0" "b1key32 ?h = k1" "b2key32 ?h = k2" "b3key32 ?h = k3"
    using k by (simp_all add: b0key32_def b1key32_def b2key32_def b3key32_def and_mask_literals unat_small [of _ 2])
qed

lemma header_fields64:
  assumes k: "k0 < 8" "k1 < 8" "k2 < 8" "k3 < 8" "k4 < 8"
  shows "b0key64 (header64 k0 k1 k2 k3 k4) = k0" "b1key64 (header64 k0 k1 k2 k3 k4) = k1"
    "b2key64 (header64 k0 k1 k2 k3 k4) = k2" "b3key64 (header64 k0 k1 k2 k3 k4) = k3"
    "b4key64 (header64 k0 k1 k2 k3 k4) = k4"
proof -
  let ?h = "header64 k0 k1 k2 k3 k4"
  have b: "bit (of_nat k0 :: u16) n \<Longrightarrow> n < 3" "bit (of_nat k1 :: u16) n \<Longrightarrow> n < 3"
    "bit (of_nat k2 :: u16) n \<Longrightarrow> n < 3" "bit (of_nat k3 :: u16) n \<Longrightarrow> n < 3"
    "bit (of_nat k4 :: u16) n \<Longrightarrow> n < 3" for n
    using k bit_small_nat [of _ 3 n] by fastforce+
  have "take_bit 3 ?h = of_nat k0" "take_bit 3 (drop_bit 3 ?h) = of_nat k1"
    "take_bit 3 (drop_bit 6 ?h) = of_nat k2" "take_bit 3 (drop_bit 9 ?h) = of_nat k3"
    "take_bit 3 (drop_bit 12 ?h) = of_nat k4"
    by (rule bit_word_eqI; auto simp: bit_take_bit_iff bit_drop_bit_eq header64_def bit_or_iff
      bit_push_bit_iff possible_bit_word dest: b)+
  thus "b0key64 ?h = k0" "b1key64 ?h = k1" "b2key64 ?h = k2" "b3key64 ?h = k3" "b4key64 ?h = k4"
    using k by (simp_all add: b0key64_def b1key64_def b2key64_def b3key64_def b4key64_def
        and_mask_literals unat_small [of _ 3])
qed

lemma unat_take_bit_less: "unat (take_bit m w) < 2 ^ m" for w :: "'a :: len word"
  by (simp add: unsigned_take_bit_eq)

lemma fields32_less: "b0key32 x < 4" "b1key32 x < 4" "b2key32 x < 4" "b3key32 x < 4"
  using unat_take_bit_less [of 2]
  by (simp_all add: b0key32_def b1key32_def b2key32_def b3key32_def and_mask_literals)

lemma fields64_less: "b0key64 x < 8" "b1key64 x < 8" "b2key64 x < 8" "b3key64 x < 8" "b4key64 x < 8"
  using unat_take_bit_less [of 3]
  by (simp_all add: b0key64_def b1key64_def b2key64_def b3key64_def b4key64_def and_mask_literals)

text \<open>Reading the header byte as a signed \<open>char\<close> gives the same fields.\<close>

lemma fields32_signed:
  "b0key32 (scast (c :: u8)) = b0key32 (ucast c)" "b1key32 (scast c) = b1key32 (ucast c)"
  "b2key32 (scast c) = b2key32 (ucast c)" "b3key32 (scast c) = b3key32 (ucast c)"
proof -
  have "take_bit 2 (drop_bit m (scast c :: u64)) = take_bit 2 (drop_bit m (ucast c))" if "m \<le> 6" for m
    using that by (intro bit_word_eqI) (auto simp: bit_take_bit_iff bit_drop_bit_eq bit_ucast_iff bit_signed_iff)
  from this [of 0] this [of 2] this [of 4] this [of 6]
  show "b0key32 (scast c) = b0key32 (ucast c)" "b1key32 (scast c) = b1key32 (ucast c)"
    "b2key32 (scast c) = b2key32 (ucast c)" "b3key32 (scast c) = b3key32 (ucast c)"
    by (simp_all add: b0key32_def b1key32_def b2key32_def b3key32_def and_mask_literals)
qed

section \<open>Runs of values\<close>

text \<open>The unrolled statements of \<open>encode\<close> and \<open>decode\<close>, as a run over a list.\<close>

fun put_all :: "u8 list \<Rightarrow> nat \<Rightarrow> ('a :: len word \<times> nat) list \<Rightarrow> mem_error + u8 list \<times> nat" where
  "put_all buf p [] = Inr (buf, p)"
| "put_all buf p ((w, k) # xs) = rbind (put_val buf p w k) (\<lambda>(buf, p). put_all buf p xs)"

fun get_all :: "(nat \<Rightarrow> 'a :: len word) \<Rightarrow> u8 list \<Rightarrow> nat \<Rightarrow> nat list \<Rightarrow> mem_error + 'a word list \<times> nat" where
  "get_all msk buf p [] = Inr ([], p)"
| "get_all msk buf p (k # ks) =
     rbind (get_val buf p (msk k) k) (\<lambda>(w, p). rbind (get_all msk buf p ks) (\<lambda>(ws, p). Inr (w # ws, p)))"

definition body :: "'a :: len word \<Rightarrow> nat \<Rightarrow> u8 list" where
  "body w k = take (k + 1) (store_le w)"

abbreviation bytes_in :: "nat list \<Rightarrow> nat" where
  "bytes_in ks \<equiv> sum_list (map Suc ks)"

lemma put_val_writes:
  fixes w :: "'a :: len word"
  assumes "p + LENGTH('a) div 8 \<le> length buf" "k < LENGTH('a) div 8"
  shows "\<exists>buf'. put_val buf p w k = Inr (buf', p + Suc k) \<and> length buf' = length buf \<and>
           take (p + Suc k) buf' = take p buf @ body w k"
  using assms take_overwrite [of p "store_le w" buf "Suc k"]
  by (auto simp: put_val_def storeUnaligned_ok body_def Suc_le_eq)

lemma put_all_writes:
  fixes xs :: "('a :: len word \<times> nat) list"
  assumes "p + LENGTH('a) div 8 * length xs \<le> length buf" "\<forall>(w, k) \<in> set xs. k < LENGTH('a) div 8"
  shows "\<exists>buf'. put_all buf p xs = Inr (buf', p + bytes_in (map snd xs)) \<and> length buf' = length buf \<and>
           take (p + bytes_in (map snd xs)) buf' = take p buf @ concat (map (\<lambda>(w, k). body w k) xs)"
  using assms
proof (induction xs arbitrary: buf p)
  case (Cons x xs)
  obtain w k where x: "x = (w, k)" by (cases x)
  have k: "k < LENGTH('a) div 8" using Cons.prems(2) x by simp
  obtain buf1 where b1: "put_val buf p w k = Inr (buf1, p + Suc k)" "length buf1 = length buf"
    "take (p + Suc k) buf1 = take p buf @ body w k"
    using put_val_writes [of p buf k w] Cons.prems(1) k by auto
  have "(p + Suc k) + LENGTH('a) div 8 * length xs \<le> length buf1" using Cons.prems(1) k b1(2) by simp
  then obtain buf2 where "put_all buf1 (p + Suc k) xs = Inr (buf2, (p + Suc k) + bytes_in (map snd xs))"
    "length buf2 = length buf1"
    "take ((p + Suc k) + bytes_in (map snd xs)) buf2 = take (p + Suc k) buf1 @ concat (map (\<lambda>(w, k). body w k) xs)"
    using Cons.IH [of "p + Suc k" buf1] Cons.prems(2) by auto
  thus ?case using b1 x by (simp add: algebra_simps)
qed simp

lemma get_val_total:
  "p + LENGTH('a) div 8 \<le> length buf \<Longrightarrow> \<exists>w. get_val buf p (m :: 'a :: len word) k = Inr (w, p + Suc k)"
  by (simp add: get_val_def loadUnaligned_def)

lemma get_all_total:
  fixes msk :: "nat \<Rightarrow> 'a :: len word"
  assumes "p + LENGTH('a) div 8 * length ks \<le> length buf" "\<forall>k \<in> set ks. k < LENGTH('a) div 8"
  shows "\<exists>ws. get_all msk buf p ks = Inr (ws, p + bytes_in ks) \<and> length ws = length ks"
  using assms
proof (induction ks arbitrary: p)
  case (Cons k ks)
  obtain w where w: "get_val buf p (msk k) k = Inr (w, p + Suc k)"
    using get_val_total [of p buf "msk k" k] Cons.prems(1) by auto
  have "(p + Suc k) + LENGTH('a) div 8 * length ks \<le> length buf" using Cons.prems by simp
  thus ?case using Cons.IH [of "p + Suc k"] Cons.prems(2) w by (auto simp: algebra_simps)
qed simp

lemma get_val_reads:
  fixes w :: "'a :: len word"
  assumes "p + LENGTH('a) div 8 \<le> length buf" "k < LENGTH('a) div 8"
    and d: "drop p buf = body w k @ rest" and w: "\<And>n. bit w n \<Longrightarrow> n < 8 * (k + 1)"
  shows "get_val buf p (mask (8 * (k + 1))) k = Inr (w, p + Suc k)"
proof -
  let ?S = "LENGTH('a) div 8"
  have "bit (load_le (take ?S (drop p buf)) AND mask (8 * (k + 1)) :: 'a word) n \<longleftrightarrow> bit w n" if "n < LENGTH('a)" for n
  proof (cases "n < 8 * (k + 1)")
    case True
    hence "n div 8 < k + 1" by (simp add: less_mult_imp_div_less mult.commute)
    hence "take ?S (drop p buf) ! (n div 8) = store_le w ! (n div 8)"
      using assms(2) by (simp add: d body_def nth_append)
    moreover have "n < 8 * length (take ?S (drop p buf))" using True assms(1,2) by simp
    moreover have "n div 8 < ?S" using \<open>n div 8 < k + 1\<close> assms(2) by simp
    ultimately show ?thesis using True that
      by (simp add: bit_and_iff bit_load_le bit_mask_iff possible_bit_word bit_store_le)
  next
    case False
    thus ?thesis using w by (auto simp: bit_and_iff bit_mask_iff)
  qed
  hence "load_le (take ?S (drop p buf)) AND mask (8 * (k + 1)) = w" by (intro bit_word_eqI) simp
  thus ?thesis using assms(1) by (simp add: get_val_def loadUnaligned_def del: take_drop)
qed

lemma length_body [simp]: "k < LENGTH('a) div 8 \<Longrightarrow> length (body (w :: 'a :: len word) k) = Suc k"
  by (simp add: body_def)

lemma get_all_reads:
  fixes vs :: "'a :: len word list"
  assumes "p + LENGTH('a) div 8 * length vs \<le> length buf"
    and msk: "\<And>k. k < LENGTH('a) div 8 \<Longrightarrow> msk k = mask (8 * (k + 1))"
    and key: "\<And>w. key w < LENGTH('a) div 8" "\<And>w n. bit w n \<Longrightarrow> n < 8 * (key w + 1)"
    and d: "drop p buf = concat (map (\<lambda>w. body w (key w)) (take c vs)) @ rest" and c: "c \<le> length vs"
  shows "\<exists>ws. get_all msk buf p (map key vs) = Inr (ws, p + bytes_in (map key vs)) \<and>
           length ws = length vs \<and> take c ws = take c vs"
  using assms(1) d c
proof (induction vs arbitrary: p c)
  case (Cons v vs)
  show ?case
  proof (cases c)
    case 0
    thus ?thesis using get_all_total [of p "map key (v # vs)" buf msk] Cons.prems(1) key(1) by auto
  next
    case (Suc c')
    have room: "(p + Suc (key v)) + LENGTH('a) div 8 * length vs \<le> length buf"
      using Cons.prems(1) key(1) [of v] by simp
    have v: "get_val buf p (msk (key v)) (key v) = Inr (v, p + Suc (key v))"
      using Cons.prems(1,2) key Suc msk [OF key(1)] get_val_reads [of p buf "key v" v] by simp
    have "drop (p + Suc (key v)) buf = concat (map (\<lambda>w. body w (key w)) (take c' vs)) @ rest"
      using arg_cong [OF Cons.prems(2), of "drop (Suc (key v))"] Suc key(1)
      by (simp add: add.commute)
    then obtain ws where "get_all msk buf (p + Suc (key v)) (map key vs) =
        Inr (ws, p + Suc (key v) + bytes_in (map key vs))" "length ws = length vs" "take c' ws = take c' vs"
      using Cons.IH [OF room] Cons.prems(3) Suc by auto
    thus ?thesis using v Suc by (simp add: algebra_simps)
  qed
qed simp

lemma add_keys_sum: "c \<le> length p \<Longrightarrow> add_keys key s p c = s + sum_list (map key (take c p))"
  by (induction key s p c rule: add_keys.induct) (auto simp: neq_Nil_conv Suc_le_length_iff)

lemma partial_bytes: "length ks = c \<Longrightarrow> sum_list ks + c = bytes_in ks"
  by (induction ks arbitrary: c) auto

lemma kMask32_mask: "k < 4 \<Longrightarrow> kMask32 ! k = mask (8 * (k + 1))"
  by (auto simp: kMask32_def mask_eq_exp_minus_1 less_Suc_eq numeral_eq_Suc nth_Cons')

lemma kMask64_mask: "k < 8 \<Longrightarrow> kMask64 ! k = mask (8 * (k + 1))"
  by (auto simp: kMask64_def mask_eq_exp_minus_1 less_Suc_eq numeral_eq_Suc nth_Cons')

section \<open>Groups as runs\<close>

lemma rbind_return: "rbind m Inr = m"
  by (cases m) auto

lemma encode32_array_run:
  "length vs = 4 \<Longrightarrow> encode32_array buf p vs =
     rbind (storeUnaligned buf p (header32 (key32 (vs ! 0)) (key32 (vs ! 1)) (key32 (vs ! 2)) (key32 (vs ! 3))))
       (\<lambda>buf. put_all buf (p + 1) (map (\<lambda>v. (v, key32 v)) vs))"
  by (auto simp: encode32_array_def encode32_def Let_def rbind_return numeral_eq_Suc length_Suc_conv)

lemma encode64_array_run:
  "length vs = 5 \<Longrightarrow> encode64_array buf p vs =
     rbind (storeUnaligned buf p
         (header64 (key64 (vs ! 0)) (key64 (vs ! 1)) (key64 (vs ! 2)) (key64 (vs ! 3)) (key64 (vs ! 4))))
       (\<lambda>buf. put_all buf (p + 2) (map (\<lambda>v. (v, key64 v)) vs))"
  by (auto simp: encode64_array_def encode64_def Let_def rbind_return numeral_eq_Suc length_Suc_conv)

definition fields32 :: "u8 \<Rightarrow> nat list" where
  "fields32 h = [b0key32 (ucast h), b1key32 (ucast h), b2key32 (ucast h), b3key32 (ucast h)]"

definition fields64 :: "u16 \<Rightarrow> nat list" where
  "fields64 h = [b0key64 h, b1key64 h, b2key64 h, b3key64 h, b4key64 h]"

lemma rbind_prod_assoc: "rbind (rbind m f) g = rbind m (\<lambda>x. rbind (f x) g)"
  by (cases m) auto

lemma unat_ucast_u8: "unat (ucast (h :: u8) :: u64) = unat h"
proof -
  have "unat h < 2 ^ LENGTH(8)" by (rule unsigned_less)
  thus ?thesis by (simp add: unsigned_ucast_eq take_bit_nat_eq_self)
qed

lemma fields32_nat:
  "b0key32 (ucast (h :: u8)) = unat h mod 4" "b1key32 (ucast h) = unat h div 4 mod 4"
  "b2key32 (ucast h) = unat h div 16 mod 4" "b3key32 (ucast h) = unat h div 64 mod 4"
  unfolding b0key32_def b1key32_def b2key32_def b3key32_def and_mask_literals unsigned_take_bit_eq
    unsigned_drop_bit_eq unat_ucast_u8
  using unsigned_less [of h, where 'a = nat]
  by (simp_all add: take_bit_eq_mod drop_bit_eq_div)

lemma lengths_are_sums: "groupVarintLengths (unat h) = 1 + bytes_in (fields32 h)"
  by (simp add: groupVarintLengths_def group_field_def upt_rec fields32_def fields32_nat)

lemma decode32_array_run:
  "decode_simple32_array buf p =
     rbind (loadUnaligned buf p) (\<lambda>h. rbind (get_all ((!) kMask32) buf (p + 1) (fields32 h))
       (\<lambda>(ws, n). Inr (p + groupVarintLengths (unat h), ws)))"
  by (cases "loadUnaligned buf p :: mem_error + u8")
    (simp_all add: decode_simple32_array_def decode_simple32_def fields32_def rbind_prod_assoc Let_def
      split_beta unat_ucast_u8)

lemma decode64_array_run:
  "decode64_array buf p =
     rbind (loadUnaligned buf p) (\<lambda>h. rbind (get_all ((!) kMask64) buf (p + 2) (fields64 h))
       (\<lambda>(ws, n). Inr (n, ws)))"
  by (cases "loadUnaligned buf p :: mem_error + u16")
    (simp_all add: decode64_array_def decode64_def fields64_def rbind_prod_assoc Let_def split_beta)

section \<open>The shuffle decodes like the loads\<close>

definition sse_segment :: "nat \<Rightarrow> nat \<Rightarrow> u8 list" where
  "sse_segment d off = map (\<lambda>k. if k < d then of_nat (off + k) else 0xff) [0..<4]"

lemma bit_foldl_or: "bit (foldl (OR) a xs) n \<longleftrightarrow> bit a n \<or> (\<exists>x \<in> set xs. bit x n)" for a :: "'a :: len word"
  by (induction xs arbitrary: a) (auto simp: bit_or_iff)

lemma bit_ff: "bit (0xff :: u32) n \<longleftrightarrow> n < 8" "bit (0xff :: u8) n \<longleftrightarrow> n < 8"
  using bit_mask_iff [where 'a = u32, of 8 n] bit_mask_iff [where 'a = u8, of 8 n]
  by (auto simp: mask_eq_exp_minus_1 possible_bit_word)

lemma same_byte: "j < 8 \<Longrightarrow> j' < 8 \<Longrightarrow> 8 * i + j = 8 * k + j' \<Longrightarrow> (i :: nat) = k \<and> j = j'"
  by (metis add_left_cancel div_less div_mult_self4 plus_nat.add_0 zero_neq_numeral add.commute)

lemma bit_byte_of_word:
  assumes "\<And>n. bit w n \<Longrightarrow> n < 8" "j < 8" "k < 4" "i < 4"
  shows "bit (push_bit (8 * k) (w :: u32)) (8 * i + j) \<longleftrightarrow> k = i \<and> bit w j"
proof
  assume "bit (push_bit (8 * k) w) (8 * i + j)"
  hence b: "8 * k \<le> 8 * i + j" "bit w (8 * i + j - 8 * k)" by (simp_all add: bit_push_bit_iff)
  have "8 * i + j = 8 * k + (8 * i + j - 8 * k)" using b(1) by simp
  hence "i = k \<and> j = 8 * i + j - 8 * k" using assms(1) [OF b(2)] assms(2) by (intro same_byte)
  thus "k = i \<and> bit w j" using b(2) by metis
next
  assume "k = i \<and> bit w j"
  moreover have "8 * i + j < 32" using assms by simp
  ultimately show "bit (push_bit (8 * k) w) (8 * i + j)" by (simp add: bit_push_bit_iff possible_bit_word)
qed

lemma sse_mask_bytes:
  assumes "k < 4" "off \<le> 12"
  shows "store_le (sse_mask_val (Suc k) off) = sse_segment (Suc k) off"
proof (intro nth_equalityI bit_word_eqI)
  fix i j assume ij: "i < length (store_le (sse_mask_val (Suc k) off))" "j < LENGTH(8)"
  hence i: "i < 4" "j < 8" by simp_all
  have small: "n < 8" if "m \<le> k" "bit (of_nat (off + m) :: u32) n" for m n
    using bit_small_nat [of "off + m" 4 n, where 'a = 32] that assms by simp
  have e1: "bit (push_bit (8 * m) (of_nat (off + m) :: u32)) (8 * i + j) \<longleftrightarrow> m = i \<and> bit (of_nat (off + m) :: u32) j"
    if "m \<le> k" for m
    by (rule bit_byte_of_word [OF small [OF that]]) (use i that assms(1) in simp_all)
  have e2: "bit (push_bit (8 * m) (0xff :: u32)) (8 * i + j) \<longleftrightarrow> m = i \<and> bit (0xff :: u32) j" if "m < 4" for m
    by (rule bit_byte_of_word) (use i that bit_ff(1) in auto)
  have "bit (sse_mask_val (Suc k) off) (8 * i + j) \<longleftrightarrow>
      (\<exists>m \<le> k. m = i \<and> bit (of_nat (off + m) :: u32) j) \<or> (\<exists>m \<in> {Suc k..<4}. m = i \<and> bit (0xff :: u32) j)"
    unfolding sse_mask_val_def bit_foldl_or
    by (auto simp: e1 e2 less_Suc_eq_le simp del: of_nat_add upt_Suc)
  also have "\<dots> \<longleftrightarrow> bit (sse_segment (Suc k) off ! i) j"
    using i by (auto simp: sse_segment_def bit_ff less_Suc_eq_le bit_of_nat_iff possible_bit_word simp del: of_nat_add)
  finally show "bit (store_le (sse_mask_val (Suc k) off) ! i) j \<longleftrightarrow> bit (sse_segment (Suc k) off ! i) j"
    using i by (simp add: bit_store_le)
qed (simp add: sse_segment_def)

lemma shuffle_segment:
  assumes "k < 4" "off \<le> 12" "length val = 16"
  shows "load_le (mm_shuffle_epi8 val (sse_segment (Suc k) off)) =
    (load_le (take 4 (drop off val)) AND mask (8 * (k + 1)) :: u32)"
proof (rule bit_word_eqI)
  fix n assume "n < LENGTH(32)"
  hence n: "n < 32" "n div 8 < 4" by simp_all
  have byte: "mm_shuffle_epi8 val (sse_segment (Suc k) off) ! (n div 8) =
      (if n div 8 < Suc k then val ! (off + n div 8) else 0)"
  proof (cases "n div 8 < Suc k")
    case True
    have s: "off + n div 8 < 16" using n assms(2) by simp
    have "\<not> bit (of_nat (off + n div 8) :: u8) 7" using bit_small_nat [of "off + n div 8" 4 7] s by auto
    moreover have "unat (of_nat (off + n div 8) AND 15 :: u8) = off + n div 8"
      using s by (simp add: and_mask_literals unsigned_take_bit_eq unat_small [of _ 4] take_bit_nat_eq_self del: of_nat_add)
    ultimately show ?thesis using True n by (simp add: mm_shuffle_epi8_def sse_segment_def del: of_nat_add)
  qed (use n in \<open>simp add: mm_shuffle_epi8_def sse_segment_def\<close>)
  have "take 4 (drop off val) ! (n div 8) = val ! (off + n div 8)" using n assms(2,3) by simp
  moreover have "n div 8 < Suc k \<longleftrightarrow> n < 8 * (k + 1)" by (simp add: div_less_iff_less_mult mult.commute)
  moreover have "length (mm_shuffle_epi8 val (sse_segment (Suc k) off)) = 4"
    by (simp add: mm_shuffle_epi8_def sse_segment_def)
  ultimately show "bit (load_le (mm_shuffle_epi8 val (sse_segment (Suc k) off)) :: u32) n \<longleftrightarrow>
      bit (load_le (take 4 (drop off val)) AND mask (8 * (k + 1)) :: u32) n"
    using n assms(2,3) by (simp add: bit_and_iff bit_load_le bit_mask_iff possible_bit_word byte del: take_drop)
qed

lemma length_sse_segment [simp]: "length (sse_segment d off) = 4"
  by (simp add: sse_segment_def)

lemma shuffle_append: "mm_shuffle_epi8 val (xs @ ys) = mm_shuffle_epi8 val xs @ mm_shuffle_epi8 val ys"
  by (simp add: mm_shuffle_epi8_def)

lemma length_shuffle [simp]: "length (mm_shuffle_epi8 val xs) = length xs"
  by (simp add: mm_shuffle_epi8_def)

lemma length_fields32 [simp]: "length (fields32 h) = 4"
  by (simp add: fields32_def)

lemma length_fields64 [simp]: "length (fields64 h) = 5"
  by (simp add: fields64_def)

lemma fields32_bound: "k \<in> set (fields32 h) \<Longrightarrow> k < 4"
  using fields32_less [of "ucast h"] by (auto simp: fields32_def)

lemma fields64_bound: "k \<in> set (fields64 h) \<Longrightarrow> k < 8"
  using fields64_less [of h] by (auto simp: fields64_def)

lemma masks_are_segments:
  assumes "fields32 h = [k0, k1, k2, k3]"
  shows "groupVarintSSEMasks (unat h) =
    sse_segment (Suc k0) 0 @ sse_segment (Suc k1) (Suc k0) @
    sse_segment (Suc k2) (Suc k0 + Suc k1) @ sse_segment (Suc k3) (Suc k0 + Suc k1 + Suc k2)"
proof -
  have k: "k0 < 4" "k1 < 4" "k2 < 4" "k3 < 4" using fields32_bound [of _ h] by (auto simp: assms)
  have f: "group_field (unat h) 0 = Suc k0" "group_field (unat h) 1 = Suc k1"
    "group_field (unat h) 2 = Suc k2" "group_field (unat h) 3 = Suc k3"
    using assms by (auto simp: group_field_def fields32_def fields32_nat)
  have "groupVarintSSEMasks (unat h) = store_le (sse_mask_val (Suc k0) 0) @
      store_le (sse_mask_val (Suc k1) (Suc k0)) @ store_le (sse_mask_val (Suc k2) (Suc k0 + Suc k1)) @
      store_le (sse_mask_val (Suc k3) (Suc k0 + Suc k1 + Suc k2))"
    using f by (simp add: groupVarintSSEMasks_def upt_rec numeral_eq_Suc)
  thus ?thesis using k by (simp add: sse_mask_bytes del: of_nat_add)
qed

lemma get_val_at:
  fixes val :: "u8 list"
  assumes "length val = 16" "take 16 (drop p buf) = val" "off \<le> 12" "k < 4"
  shows "get_val buf (p + off) (kMask32 ! k) k =
    Inr (load_le (mm_shuffle_epi8 val (sse_segment (Suc k) off)), p + off + Suc k)"
proof -
  have len: "p + 16 \<le> length buf" using assms(1,2) by auto
  have "take 4 (drop off val) = take 4 (drop (p + off) buf)"
    using assms(3) unfolding assms(2) [symmetric] by (simp add: drop_take add.commute)
  thus ?thesis using len assms(1,3,4) shuffle_segment [of k off val]
    by (simp add: get_val_def loadUnaligned_def kMask32_mask)
qed

lemma decode_sse32_eq: "p + 17 \<le> length buf \<Longrightarrow> decode_sse32 buf p = decode_simple32_array buf p"
proof -
  assume len: "p + 17 \<le> length buf"
  define h where "h = (load_le (take 1 (drop p buf)) :: u8)"
  have ld: "loadUnaligned buf p = Inr h" using len by (simp add: loadUnaligned_def h_def)
  obtain k0 k1 k2 k3 where f: "fields32 h = [k0, k1, k2, k3]" by (simp add: fields32_def)
  have k: "k0 < 4" "k1 < 4" "k2 < 4" "k3 < 4" using fields32_bound [of _ h] by (auto simp: f)
  define val where "val = take 16 (drop (p + 1) buf)"
  have v: "length val = 16" "take 16 (drop (p + 1) buf) = val" using len by (simp_all add: val_def)
  have mm: "mm_loadu_si128 buf (p + 1) = Inr val" using len by (simp add: mm_loadu_si128_def val_def)
  note g = get_val_at [OF v, of 0 k0] get_val_at [OF v, of "Suc k0" k1]
    get_val_at [OF v, of "Suc k0 + Suc k1" k2] get_val_at [OF v, of "Suc k0 + Suc k1 + Suc k2" k3]
  have "get_all ((!) kMask32) buf (p + 1) (fields32 h) =
    Inr ([load_le (mm_shuffle_epi8 val (sse_segment (Suc k0) 0)),
          load_le (mm_shuffle_epi8 val (sse_segment (Suc k1) (Suc k0))),
          load_le (mm_shuffle_epi8 val (sse_segment (Suc k2) (Suc k0 + Suc k1))),
          load_le (mm_shuffle_epi8 val (sse_segment (Suc k3) (Suc k0 + Suc k1 + Suc k2)))],
         p + 1 + Suc k0 + Suc k1 + Suc k2 + Suc k3)"
    using g k by (simp add: f algebra_simps)
  thus ?thesis
    unfolding decode32_array_run decode_sse32_def ld mm rbind.simps Let_def masks_are_segments [OF f]
    by (simp add: shuffle_append upt_rec)
qed

section \<open>Partial groups\<close>

text \<open>How many values, with these keys, fit into \<open>sz\<close> bytes after the first \<open>s\<close>.\<close>

fun fit :: "nat \<Rightarrow> nat \<Rightarrow> nat list \<Rightarrow> nat" where
  "fit s sz [] = 0"
| "fit s sz (k # ks) = (if s + Suc k > sz then 0 else Suc (fit (s + Suc k) sz ks))"

lemma partialCount32_fit:
  "partialCount32 buf p sz = rbind (loadUnaligned buf p) (\<lambda>h. Inr (fit kHeaderSize32 sz (fields32 h)))"
  by (cases "loadUnaligned buf p :: mem_error + u8")
    (simp_all add: partialCount32_def fields32_def fields32_signed Let_def)

lemma partialCount64_fit:
  "partialCount64 buf p sz = rbind (loadUnaligned buf p) (\<lambda>h. Inr (fit kHeaderSize64 sz (fields64 h)))"
  by (cases "loadUnaligned buf p :: mem_error + u16")
    (simp_all add: partialCount64_def fields64_def Let_def)

lemma fit_exact: "c \<le> length ks \<Longrightarrow> fit s (s + bytes_in (take c ks)) ks = c"
proof (induction ks arbitrary: s c)
  case (Cons k ks)
  show ?case
  proof (cases c)
    case (Suc c')
    thus ?thesis using Cons.IH [of c' "s + Suc k"] Cons.prems by (simp add: add.assoc)
  qed simp
qed simp

lemma fit_le: "fit s sz ks \<le> length ks"
  by (induction ks arbitrary: s) auto

lemma fit_fits: "i \<le> fit s sz ks \<Longrightarrow> 0 < fit s sz ks \<Longrightarrow> s + bytes_in (take i ks) \<le> sz"
proof (induction ks arbitrary: s i)
  case (Cons k ks)
  show ?case
  proof (cases i)
    case (Suc i')
    thus ?thesis using Cons.IH [of i' "s + Suc k"] Cons.prems
      by (cases "fit (s + Suc k) sz ks = 0") (auto split: if_splits)
  qed (use Cons.prems in \<open>auto split: if_splits\<close>)
qed simp

lemma bytes_in_mono: "list_all2 (\<le>) ks js \<Longrightarrow> bytes_in (take i ks) \<le> bytes_in (take i js)"
proof (induction arbitrary: i rule: list_all2_induct)
  case (Cons k ks j js)
  thus ?case by (cases i) (auto simp: add_mono)
qed simp

lemma key_of_masked:
  fixes w :: "'a :: len word"
  assumes "LENGTH('a) = 8 * (K + 1)"
  shows "K - builtin_clz ((w AND mask (8 * (k + 1))) OR 1) div 8 \<le> k"
proof -
  let ?v = "w AND mask (8 * (k + 1))"
  obtain i where i: "bit (?v OR 1) i" "K - builtin_clz (?v OR 1) div 8 = i div 8"
    using key_is_top_byte [OF assms] by blast
  have "i < 8 * (k + 1)" using i(1) by (auto simp: bit_or_iff bit_and_iff bit_mask_iff bit_1_iff)
  hence "i div 8 \<le> k" by (simp add: less_Suc_eq_le [symmetric] div_less_iff_less_mult mult.commute)
  thus ?thesis using i(2) by simp
qed

lemma get_all_keys:
  fixes msk :: "nat \<Rightarrow> 'a :: len word"
  assumes "\<And>w k. k < LENGTH('a) div 8 \<Longrightarrow> key (w AND msk k) \<le> k" "\<forall>k \<in> set ks. k < LENGTH('a) div 8"
  shows "get_all msk buf p ks = Inr (ws, n) \<Longrightarrow> list_all2 (\<le>) (map key ws) ks"
  using assms(2)
proof (induction ks arbitrary: p ws)
  case (Cons k ks)
  from Cons.prems obtain x ws' where "ws = (x AND msk k) # ws'" "get_all msk buf (p + Suc k) ks = Inr (ws', n)"
    by (auto simp: get_val_def rbind_Inr_iff)
  thus ?case using Cons assms(1) by auto
qed simp

lemma key32_masked: "k < 4 \<Longrightarrow> key32 (w AND kMask32 ! k) \<le> k"
  using key_of_masked [of 3 w k] by (simp add: key32_def kMask32_mask)

lemma key64_masked: "k < 8 \<Longrightarrow> key64 (w AND kMask64 ! k) \<le> k"
  using key_of_masked [of 7 w k] by (simp add: key64_def kMask64_mask)

section \<open>Groups\<close>

text \<open>The header of a group and the bytes of a value.\<close>

definition hdr32 :: "u32 list \<Rightarrow> u8 list" where
  "hdr32 vs = [header32 (key32 (vs ! 0)) (key32 (vs ! 1)) (key32 (vs ! 2)) (key32 (vs ! 3))]"

definition hdr64 :: "u64 list \<Rightarrow> u8 list" where
  "hdr64 vs = store_le (header64 (key64 (vs ! 0)) (key64 (vs ! 1)) (key64 (vs ! 2)) (key64 (vs ! 3)) (key64 (vs ! 4)))"

definition bytes32 :: "u32 \<Rightarrow> u8 list" where
  "bytes32 v = body v (key32 v)"

definition bytes64 :: "u64 \<Rightarrow> u8 list" where
  "bytes64 v = body v (key64 v)"

lemma length_bytes32 [simp]: "length (bytes32 v) = Suc (key32 v)"
  using key32_less [of v] by (simp add: bytes32_def)

lemma length_bytes64 [simp]: "length (bytes64 v) = Suc (key64 v)"
  using key64_less [of v] by (simp add: bytes64_def)

lemma length_all_bytes:
  "length (concat (map bytes32 vs)) = bytes_in (map key32 vs)"
  "length (concat (map bytes64 ws)) = bytes_in (map key64 ws)"
  by (induction vs, simp_all) (induction ws, simp_all)

lemma store_le_u8: "store_le (h :: u8) = [h]"
  by (simp add: store_le_def)

lemmas key_fields =
  header_fields32 [OF key32_less key32_less key32_less key32_less]
  header_fields64 [OF key64_less key64_less key64_less key64_less key64_less]

lemma fields_of_header:
  "length vs = 4 \<Longrightarrow> fields32 (header32 (key32 (vs ! 0)) (key32 (vs ! 1)) (key32 (vs ! 2)) (key32 (vs ! 3))) = map key32 vs"
  "length ws = 5 \<Longrightarrow> fields64 (header64 (key64 (ws ! 0)) (key64 (ws ! 1)) (key64 (ws ! 2)) (key64 (ws ! 3)) (key64 (ws ! 4))) = map key64 ws"
  by (auto simp: fields32_def fields64_def key_fields numeral_eq_Suc length_Suc_conv)

lemma encode32_writes:
  assumes "length vs = 4" "p + 17 \<le> length buf"
  shows "\<exists>buf'. encode32_array buf p vs = Inr (buf', p + 1 + length (concat (map bytes32 vs))) \<and>
    length buf' = length buf \<and>
    take (p + 1 + length (concat (map bytes32 vs))) buf' = take p buf @ hdr32 vs @ concat (map bytes32 vs)"
proof -
  let ?buf = "overwrite buf p (hdr32 vs)"
  have st: "storeUnaligned buf p (header32 (key32 (vs ! 0)) (key32 (vs ! 1)) (key32 (vs ! 2)) (key32 (vs ! 3))) = Inr ?buf"
    using assms(2) by (simp add: storeUnaligned_def store_le_u8 hdr32_def)
  have l: "length ?buf = length buf" "take (p + 1) ?buf = take p buf @ hdr32 vs"
    using assms(2) take_overwrite [of p "hdr32 vs" buf 1] by (simp_all add: hdr32_def)
  have "p + 1 + 4 * length (map (\<lambda>v. (v, key32 v)) vs) \<le> length ?buf" using assms l(1) by simp
  then obtain buf' where "put_all ?buf (p + 1) (map (\<lambda>v. (v, key32 v)) vs) = Inr (buf', p + 1 + bytes_in (map key32 vs))"
    "length buf' = length ?buf"
    "take (p + 1 + bytes_in (map key32 vs)) buf' = take (p + 1) ?buf @ concat (map bytes32 vs)"
    using put_all_writes [of "p + 1" "map (\<lambda>v. (v, key32 v)) vs" ?buf] key32_less
    by (auto simp: comp_def bytes32_def [abs_def])
  thus ?thesis using assms(1) st l by (simp add: encode32_array_run length_all_bytes)
qed

lemma encode64_writes:
  assumes "length vs = 5" "p + 42 \<le> length buf"
  shows "\<exists>buf'. encode64_array buf p vs = Inr (buf', p + 2 + length (concat (map bytes64 vs))) \<and>
    length buf' = length buf \<and>
    take (p + 2 + length (concat (map bytes64 vs))) buf' = take p buf @ hdr64 vs @ concat (map bytes64 vs)"
proof -
  let ?buf = "overwrite buf p (hdr64 vs)"
  have st: "storeUnaligned buf p (header64 (key64 (vs ! 0)) (key64 (vs ! 1)) (key64 (vs ! 2)) (key64 (vs ! 3)) (key64 (vs ! 4))) = Inr ?buf"
    using assms(2) by (simp add: storeUnaligned_def hdr64_def)
  have l: "length ?buf = length buf" "take (p + 2) ?buf = take p buf @ hdr64 vs"
    using assms(2) take_overwrite [of p "hdr64 vs" buf 2] by (simp_all add: hdr64_def)
  have "p + 2 + 8 * length (map (\<lambda>v. (v, key64 v)) vs) \<le> length ?buf" using assms l(1) by simp
  then obtain buf' where "put_all ?buf (p + 2) (map (\<lambda>v. (v, key64 v)) vs) = Inr (buf', p + 2 + bytes_in (map key64 vs))"
    "length buf' = length ?buf"
    "take (p + 2 + bytes_in (map key64 vs)) buf' = take (p + 2) ?buf @ concat (map bytes64 vs)"
    using put_all_writes [of "p + 2" "map (\<lambda>v. (v, key64 v)) vs" ?buf] key64_less
    by (auto simp: comp_def bytes64_def [abs_def])
  thus ?thesis using assms(1) st l by (simp add: encode64_array_run length_all_bytes)
qed

lemma load_header32:
  "drop p buf = hdr32 vs @ rest \<Longrightarrow>
   loadUnaligned buf p = Inr (header32 (key32 (vs ! 0)) (key32 (vs ! 1)) (key32 (vs ! 2)) (key32 (vs ! 3)))"
proof -
  assume d: "drop p buf = hdr32 vs @ rest"
  hence "p + 1 \<le> length buf" by (metis Suc_eq_plus1 append_is_Nil_conv drop_eq_Nil hdr32_def not_Cons_self2 not_less_eq_eq)
  thus ?thesis using d load_store_le [of "header32 (key32 (vs ! 0)) (key32 (vs ! 1)) (key32 (vs ! 2)) (key32 (vs ! 3))"]
    by (simp add: loadUnaligned_def hdr32_def store_le_u8)
qed

lemma load_header64:
  "drop p buf = hdr64 vs @ rest \<Longrightarrow>
   loadUnaligned buf p = Inr (header64 (key64 (vs ! 0)) (key64 (vs ! 1)) (key64 (vs ! 2)) (key64 (vs ! 3)) (key64 (vs ! 4)))"
proof -
  assume d: "drop p buf = hdr64 vs @ rest"
  have "length (drop p buf) = 2 + length rest" using d by (simp add: hdr64_def)
  hence "p + 2 \<le> length buf" by simp
  thus ?thesis using d load_store_le
      [of "header64 (key64 (vs ! 0)) (key64 (vs ! 1)) (key64 (vs ! 2)) (key64 (vs ! 3)) (key64 (vs ! 4))"]
    by (simp add: loadUnaligned_def hdr64_def)
qed

lemma decode32_reads:
  assumes "length vs = 4" "c \<le> 4" "p + 17 \<le> length buf"
    and d: "drop p buf = hdr32 vs @ concat (map bytes32 (take c vs)) @ rest"
  shows "\<exists>ws. decode_simple32_array buf p = Inr (p + 1 + length (concat (map bytes32 vs)), ws) \<and>
    length ws = 4 \<and> take c ws = take c vs"
proof -
  have "drop (p + 1) buf = concat (map (\<lambda>w. body w (key32 w)) (take c vs)) @ rest"
    using arg_cong [OF d, of "drop 1"] by (simp add: hdr32_def bytes32_def [abs_def])
  then obtain ws where "get_all ((!) kMask32) buf (p + 1) (map key32 vs) = Inr (ws, p + 1 + bytes_in (map key32 vs))"
    "length ws = 4" "take c ws = take c vs"
    using get_all_reads [of "p + 1" vs buf "(!) kMask32" key32 c rest] assms(1-3) kMask32_mask key32_less key32_covers
    by auto
  thus ?thesis using assms(1) load_header32 [OF d]
    by (simp add: decode32_array_run fields_of_header [unfolded One_nat_def] lengths_are_sums length_all_bytes)
qed

lemma decode64_reads:
  assumes "length vs = 5" "c \<le> 5" "p + 42 \<le> length buf"
    and d: "drop p buf = hdr64 vs @ concat (map bytes64 (take c vs)) @ rest"
  shows "\<exists>ws. decode64_array buf p = Inr (p + 2 + length (concat (map bytes64 vs)), ws) \<and>
    length ws = 5 \<and> take c ws = take c vs"
proof -
  have "drop (p + 2) buf = concat (map (\<lambda>w. body w (key64 w)) (take c vs)) @ rest"
    using arg_cong [OF d, of "drop 2"] by (simp add: hdr64_def bytes64_def [abs_def])
  then obtain ws where "get_all ((!) kMask64) buf (p + 2) (map key64 vs) = Inr (ws, p + 2 + bytes_in (map key64 vs))"
    "length ws = 5" "take c ws = take c vs"
    using get_all_reads [of "p + 2" vs buf "(!) kMask64" key64 c rest] assms(1-3) kMask64_mask key64_less key64_covers
    by auto
  thus ?thesis using assms(1) load_header64 [OF d]
    by (simp add: decode64_array_run fields_of_header [unfolded One_nat_def] length_all_bytes)
qed

lemma partialSize_bytes:
  "c \<le> length vs \<Longrightarrow> partialSize32 vs c = 1 + length (concat (map bytes32 (take c vs)))"
  "c \<le> length ws \<Longrightarrow> partialSize64 ws c = 2 + length (concat (map bytes64 (take c ws)))"
  using partial_bytes [of "map key32 (take c vs)" c] partial_bytes [of "map key64 (take c ws)" c]
  by (simp_all add: partialSize32_def partialSize64_def add_keys_sum kHeaderSize32_def kHeaderSize64_def
      length_all_bytes)

lemma partialCount_reads:
  "length vs = 4 \<Longrightarrow> c \<le> 4 \<Longrightarrow> drop p buf = hdr32 vs @ rest \<Longrightarrow>
   partialCount32 buf p (1 + length (concat (map bytes32 (take c vs)))) = Inr c"
  "length ws = 5 \<Longrightarrow> c \<le> 5 \<Longrightarrow> drop p buf = hdr64 ws @ rest \<Longrightarrow>
   partialCount64 buf p (2 + length (concat (map bytes64 (take c ws)))) = Inr c"
  using fit_exact [of c "map key32 vs" 1] fit_exact [of c "map key64 ws" 2]
  by (simp_all add: partialCount32_fit partialCount64_fit load_header32 load_header64 kHeaderSize32_def
      kHeaderSize64_def length_all_bytes fields_of_header [unfolded One_nat_def] take_map)

lemma decode32_total:
  assumes "p + 17 \<le> length buf"
  shows "\<exists>n ws. decode_simple32_array buf p = Inr (n, ws) \<and> length ws = 4 \<and> p < n \<and> p + partialSize32 ws 4 \<le> n \<and>
    (\<forall>sz. \<exists>c. partialCount32 buf p sz = Inr c \<and> c \<le> 4 \<and> (\<forall>i. i \<le> c \<and> 0 < c \<longrightarrow> partialSize32 ws i \<le> sz))"
proof -
  obtain h where h: "loadUnaligned buf p = Inr (h :: u8)" using assms by (auto simp: loadUnaligned_def)
  have b: "\<forall>k \<in> set (fields32 h). k < 4" using fields32_bound by blast
  obtain ws where ws: "get_all ((!) kMask32) buf (p + 1) (fields32 h) = Inr (ws, p + 1 + bytes_in (fields32 h))"
    "length ws = 4"
    using get_all_total [of "p + 1" "fields32 h" buf "(!) kMask32"] assms b by auto
  have "list_all2 (\<le>) (map key32 ws) (fields32 h)"
    using get_all_keys [of key32 "(!) kMask32" "fields32 h"] key32_masked b ws(1) by simp
  hence le: "partialSize32 ws i \<le> 1 + bytes_in (take i (fields32 h))" if "i \<le> 4" for i
    using bytes_in_mono [of "map key32 ws" "fields32 h" i] that ws(2)
    by (simp add: partialSize_bytes length_all_bytes take_map)
  have "decode_simple32_array buf p = Inr (p + 1 + bytes_in (fields32 h), ws)"
    using h ws(1) by (simp add: decode32_array_run lengths_are_sums)
  moreover have "p + partialSize32 ws 4 \<le> p + 1 + bytes_in (fields32 h)" using le [of 4] by simp
  moreover have "partialSize32 ws i \<le> sz" if "i \<le> fit 1 sz (fields32 h)" "0 < fit 1 sz (fields32 h)" for i sz
    using fit_fits [OF that] le [of i] fit_le [of 1 sz "fields32 h"] that(1) by simp
  ultimately show ?thesis
    using ws(2) h fit_le [of 1 _ "fields32 h"] by (simp add: partialCount32_fit kHeaderSize32_def)
qed

lemma decode64_total:
  assumes "p + 42 \<le> length buf"
  shows "\<exists>n ws. decode64_array buf p = Inr (n, ws) \<and> length ws = 5 \<and> p < n \<and> p + partialSize64 ws 5 \<le> n \<and>
    (\<forall>sz. \<exists>c. partialCount64 buf p sz = Inr c \<and> c \<le> 5 \<and> (\<forall>i. i \<le> c \<and> 0 < c \<longrightarrow> partialSize64 ws i \<le> sz))"
proof -
  obtain h where h: "loadUnaligned buf p = Inr (h :: u16)" using assms by (auto simp: loadUnaligned_def)
  have b: "\<forall>k \<in> set (fields64 h). k < 8" using fields64_bound by blast
  obtain ws where ws: "get_all ((!) kMask64) buf (p + 2) (fields64 h) = Inr (ws, p + 2 + bytes_in (fields64 h))"
    "length ws = 5"
    using get_all_total [of "p + 2" "fields64 h" buf "(!) kMask64"] assms b by auto
  have "list_all2 (\<le>) (map key64 ws) (fields64 h)"
    using get_all_keys [of key64 "(!) kMask64" "fields64 h"] key64_masked b ws(1) by simp
  hence le: "partialSize64 ws i \<le> 2 + bytes_in (take i (fields64 h))" if "i \<le> 5" for i
    using bytes_in_mono [of "map key64 ws" "fields64 h" i] that ws(2)
    by (simp add: partialSize_bytes length_all_bytes take_map)
  have "decode64_array buf p = Inr (p + 2 + bytes_in (fields64 h), ws)"
    using h ws(1) by (simp add: decode64_array_run)
  moreover have "p + partialSize64 ws 5 \<le> p + 2 + bytes_in (fields64 h)" using le [of 5] by simp
  moreover have "partialSize64 ws i \<le> sz" if "i \<le> fit 2 sz (fields64 h)" "0 < fit 2 sz (fields64 h)" for i sz
    using fit_fits [OF that] le [of i] fit_le [of 2 sz "fields64 h"] that(1) by simp
  ultimately show ?thesis
    using ws(2) h fit_le [of 2 _ "fields64 h"] by (simp add: partialCount64_fit kHeaderSize64_def)
qed

section \<open>Properties\<close>

text \<open>
  C26: the SSSE3 decoder of 32-bit groups, which loads sixteen bytes and shuffles them with a table of
  masks, gives the same values and the same next position as the portable one, on any bytes, wherever
  its load stays within the buffer.
\<close>

theorem sse_decode_is_plain_decode:
  assumes "p + 17 \<le> length buf"
  shows "decode_sse32 buf p = decode_simple32_array buf p"
  using assms by (rule decode_sse32_eq)

theorem sse_decode_is_plain_decode_witness:
  "decode_sse32 ([0x1B, 7, 9] @ replicate 20 0xAB) 0 = decode_simple32_array ([0x1B, 7, 9] @ replicate 20 0xAB) 0"
  by (rule sse_decode_is_plain_decode) simp

end
