(* ===== verification/Group_Varint_Stream.thy ===== *)
theory Group_Varint_Stream
  imports Group_Varint
begin

text \<open>
  \<open>GroupVarintEncoder\<close> and \<open>GroupVarintDecoder\<close> of \<open>folly/GroupVarint.h\<close>: values one at a time on
  top of groups. Both are templates over \<open>Base = GroupVarint<T>\<close>, here a record of the members they
  use, and what they rely on of them is the locale \<open>group_codec\<close>, interpreted for the portable and the
  SSSE3 decoder of 32-bit groups and for 64-bit groups. The output of the encoder is the bytes
  appended so far. The decoder's pointers are offsets into the caller's data or into \<open>tmp_\<close>.
\<close>

section \<open>The template parameter\<close>

record 'v group_base =
  kGroupSize :: nat
  kMaxSize :: nat
  Encode :: "u8 list \<Rightarrow> nat \<Rightarrow> 'v list \<Rightarrow> mem_error + u8 list \<times> nat"
  Decode :: "u8 list \<Rightarrow> nat \<Rightarrow> mem_error + nat \<times> 'v list"
  PartialSize :: "'v list \<Rightarrow> nat \<Rightarrow> nat"
  PartialCount :: "u8 list \<Rightarrow> nat \<Rightarrow> nat \<Rightarrow> mem_error + nat"

definition GroupVarint32 :: "u32 group_base" where
  "GroupVarint32 = \<lparr> kGroupSize = kGroupSize32, kMaxSize = kMaxSize32, Encode = encode32_array,
     Decode = decode_simple32_array, PartialSize = partialSize32, PartialCount = partialCount32 \<rparr>"

definition GroupVarint32_ssse3 :: "u32 group_base" where
  "GroupVarint32_ssse3 = GroupVarint32\<lparr> Decode := decode_sse32 \<rparr>"

definition GroupVarint64 :: "u64 group_base" where
  "GroupVarint64 = \<lparr> kGroupSize = kGroupSize64, kMaxSize = kMaxSize64, Encode = encode64_array,
     Decode = decode64_array, PartialSize = partialSize64, PartialCount = partialCount64 \<rparr>"

section \<open>The encoder\<close>

record 'v gv_encoder =
  enc_out :: "u8 list"
  enc_tmp :: "u8 list"
  enc_buf :: "'v list"
  enc_count :: nat

definition GroupVarintEncoder :: "u8 list \<Rightarrow> u8 list \<Rightarrow> 'v list \<Rightarrow> 'v gv_encoder" where
  "GroupVarintEncoder out tmp0 buf0 = \<lparr> enc_out = out, enc_tmp = tmp0, enc_buf = buf0, enc_count = 0 \<rparr>"

definition encoder_add :: "'v group_base \<Rightarrow> 'v \<Rightarrow> 'v gv_encoder \<Rightarrow> mem_error + 'v gv_encoder" where
  "encoder_add B val e =
     (if enc_count e < length (enc_buf e) then
        (let e = e\<lparr> enc_buf := (enc_buf e)[enc_count e := val], enc_count := enc_count e + 1 \<rparr>
         in if enc_count e = kGroupSize B
            then rbind (Encode B (enc_tmp e) 0 (enc_buf e)) (\<lambda>(tmp, p).
                   Inr (e\<lparr> enc_tmp := tmp, enc_out := enc_out e @ take p tmp, enc_count := 0 \<rparr>))
            else Inr e)
      else Inl WritePastEnd)"

definition encoder_finish :: "'v :: zero group_base \<Rightarrow> 'v gv_encoder \<Rightarrow> mem_error + 'v gv_encoder" where
  "encoder_finish B e =
     (if enc_count e \<noteq> 0 then
        (let buf = foldl (\<lambda>b i. b[i := 0]) (enc_buf e) [enc_count e..<kGroupSize B]
         in rbind (Encode B (enc_tmp e) 0 buf) (\<lambda>(tmp, p).
              Inr (e\<lparr> enc_buf := buf, enc_tmp := tmp,
                      enc_out := enc_out e @ take (PartialSize B buf (enc_count e)) tmp, enc_count := 0 \<rparr>)))
      else Inr e)"

definition encoder_clear :: "'v gv_encoder \<Rightarrow> 'v gv_encoder" where
  "encoder_clear e = e\<lparr> enc_count := 0 \<rparr>"

fun encoder_add_all :: "'v group_base \<Rightarrow> 'v list \<Rightarrow> 'v gv_encoder \<Rightarrow> mem_error + 'v gv_encoder" where
  "encoder_add_all B [] e = Inr e"
| "encoder_add_all B (v # vs) e = rbind (encoder_add B v e) (encoder_add_all B vs)"

section \<open>The decoder\<close>

text \<open>\<open>dec_data\<close> is the caller's data, at whose end \<open>rrest_\<close> points; \<open>in_tmp\<close> says which of the two
  arrays \<open>dec_p\<close>, \<open>dec_end\<close> and \<open>dec_limit\<close> point into.\<close>

record 'v gv_decoder =
  dec_data :: "u8 list"
  in_tmp :: bool
  dec_p :: nat
  dec_end :: nat
  dec_limit :: nat
  dec_tmp :: "u8 list"
  dec_buf :: "'v list"
  dec_pos :: nat
  dec_count :: nat
  dec_remaining :: nat

definition GroupVarintDecoder :: "u8 list \<Rightarrow> 'v list \<Rightarrow> u8 list \<Rightarrow> nat \<Rightarrow> 'v gv_decoder" where
  "GroupVarintDecoder tmp0 buf0 bs maxCount =
     \<lparr> dec_data = bs, in_tmp = False, dec_p = 0, dec_end = length bs, dec_limit = length bs, dec_tmp = tmp0,
       dec_buf = buf0, dec_pos = 0, dec_count = 0, dec_remaining = maxCount \<rparr>"

definition decoder_reset :: "u8 list \<Rightarrow> nat \<Rightarrow> 'v gv_decoder \<Rightarrow> 'v gv_decoder" where
  "decoder_reset bs maxCount d =
     d\<lparr> dec_data := bs, in_tmp := False, dec_p := 0, dec_end := length bs, dec_limit := length bs,
        dec_pos := 0, dec_count := 0, dec_remaining := maxCount \<rparr>"

definition region :: "'v gv_decoder \<Rightarrow> u8 list" where
  "region d = (if in_tmp d then dec_tmp d else dec_data d)"

definition copy_to_tmp :: "'v group_base \<Rightarrow> 'v gv_decoder \<Rightarrow> mem_error + 'v gv_decoder" where
  "copy_to_tmp B d =
     (let rem = dec_end d - dec_p d in
      if dec_limit d - dec_p d < kMaxSize B then
        (if in_tmp d then Inl OverlappingCopy
         else if length (dec_tmp d) < rem then Inl WritePastEnd
         else Inr (d\<lparr> dec_tmp := overwrite (dec_tmp d) 0 (take rem (drop (dec_p d) (dec_data d))), in_tmp := True,
                      dec_p := 0, dec_end := rem, dec_limit := length (dec_tmp d) \<rparr>))
      else Inr d)"

text \<open>The refill of \<open>next\<close>, with whether it goes on to return a value.\<close>

definition decoder_refill :: "'v group_base \<Rightarrow> 'v gv_decoder \<Rightarrow> mem_error + bool \<times> 'v gv_decoder" where
  "decoder_refill B d =
     rbind (copy_to_tmp B d) (\<lambda>d.
     rbind (Decode B (region d) (dec_p d)) (\<lambda>(n, ws).
       let d = d\<lparr> dec_pos := 0, dec_buf := ws \<rparr> in
       if n \<le> dec_end d then
         (if dec_remaining d \<ge> kGroupSize B
          then Inr (True, d\<lparr> dec_count := kGroupSize B, dec_remaining := dec_remaining d - kGroupSize B,
                             dec_p := n \<rparr>)
          else Inr (True, d\<lparr> dec_count := dec_remaining d, dec_remaining := 0,
                             dec_p := dec_p d + PartialSize B ws (dec_remaining d) \<rparr>))
       else
         rbind (PartialCount B (region d) (dec_p d) (dec_end d - dec_p d)) (\<lambda>c.
           let d = (if dec_remaining d \<ge> c
                    then d\<lparr> dec_count := c, dec_remaining := dec_remaining d - c, dec_p := dec_end d \<rparr>
                    else d\<lparr> dec_count := dec_remaining d, dec_remaining := 0,
                            dec_p := dec_p d + PartialSize B ws (dec_remaining d) \<rparr>)
           in Inr (dec_count d \<noteq> 0, d))))"

definition decoder_next :: "'v group_base \<Rightarrow> 'v gv_decoder \<Rightarrow> mem_error + 'v option \<times> 'v gv_decoder" where
  "decoder_next B d =
     (if dec_pos d = dec_count d then
        (if dec_end d - dec_p d = 0 \<or> dec_remaining d = 0 then Inr (None, d)
         else rbind (decoder_refill B d) (\<lambda>(go, d).
           if go then Inr (Some (dec_buf d ! dec_pos d), d\<lparr> dec_pos := dec_pos d + 1 \<rparr>)
           else Inr (None, d)))
      else Inr (Some (dec_buf d ! dec_pos d), d\<lparr> dec_pos := dec_pos d + 1 \<rparr>))"

definition decoder_rest :: "'v gv_decoder \<Rightarrow> mem_error + u8 list" where
  "decoder_rest d =
     (if dec_pos d = dec_count d \<and> (dec_p d = dec_end d \<or> dec_remaining d = 0)
      then Inr (drop (length (dec_data d) - (dec_end d - dec_p d)) (dec_data d)) else Inl CheckFailed)"

text \<open>Calling \<open>next\<close> until it returns false, at most \<open>n\<close> times; \<open>None\<close> when it is still returning
  values.\<close>

fun decoder_drain ::
  "'v group_base \<Rightarrow> nat \<Rightarrow> 'v gv_decoder \<Rightarrow> mem_error + ('v list \<times> 'v gv_decoder) option" where
  "decoder_drain B 0 d = Inr None"
| "decoder_drain B (Suc n) d =
     rbind (decoder_next B d) (\<lambda>(r, d).
       case r of None \<Rightarrow> Inr (Some ([], d))
       | Some v \<Rightarrow> rbind (decoder_drain B n d) (\<lambda>q. Inr (map_option (\<lambda>(vs, d). (v # vs, d)) q)))"

lemma zero_fill:
  "c \<le> n \<Longrightarrow> n \<le> length buf \<Longrightarrow>
   foldl (\<lambda>b i. b[i := z]) buf [c..<n] = take c buf @ replicate (n - c) z @ drop n buf"
proof (induction n)
  case (Suc n)
  show ?case
  proof (cases "c = Suc n")
    case False
    hence c: "c \<le> n" using Suc.prems(1) by simp
    have "drop n buf = buf ! n # drop (Suc n) buf" using Suc.prems(2) by (simp add: Cons_nth_drop_Suc)
    thus ?thesis using Suc c by (simp add: list_update_append Suc_diff_le replicate_append_same)
  qed simp
qed simp

lemma take_split: "take m xs = take m (take n xs) @ take (m - length (take m (take n xs))) (drop n xs)"
proof -
  have "take m xs = take m (take n xs @ drop n xs)" by simp
  also have "\<dots> = take m (take n xs) @ take (m - length (take n xs)) (drop n xs)" by (rule take_append)
  also have "m - length (take n xs) = m - length (take m (take n xs))" by simp
  finally show ?thesis .
qed

section \<open>What the streams rely on\<close>

text \<open>A group of values is a header and the bytes of each value. Encoding writes that and stays within
  \<open>kMaxSize\<close>; decoding reads no more than \<open>kMaxSize\<close> bytes, whatever they are, and gives back the values
  whose bytes are there; the sizes and counts of partial groups agree with it.\<close>

locale group_codec =
  fixes B :: "'v :: zero group_base"
    and H :: nat
    and hdr :: "'v list \<Rightarrow> u8 list"
    and bytes :: "'v \<Rightarrow> u8 list"
  assumes G_pos: "0 < kGroupSize B" and H_pos: "0 < H" and M_ge: "H \<le> kMaxSize B"
    and hdr_length: "length vs = kGroupSize B \<Longrightarrow> length (hdr vs) = H"
    and bytes_pos: "0 < length (bytes v)"
    and enc_writes: "length vs = kGroupSize B \<Longrightarrow> kMaxSize B \<le> length buf \<Longrightarrow>
      \<exists>buf'. Encode B buf 0 vs = Inr (buf', H + length (concat (map bytes vs))) \<and> length buf' = length buf \<and>
        take (H + length (concat (map bytes vs))) buf' = hdr vs @ concat (map bytes vs)"
    and psize: "c \<le> length vs \<Longrightarrow> PartialSize B vs c = H + length (concat (map bytes (take c vs)))"
    and dec_reads: "length vs = kGroupSize B \<Longrightarrow> c \<le> kGroupSize B \<Longrightarrow> p + kMaxSize B \<le> length reg \<Longrightarrow>
      drop p reg = hdr vs @ concat (map bytes (take c vs)) @ rest \<Longrightarrow>
      \<exists>ws. Decode B reg p = Inr (p + H + length (concat (map bytes vs)), ws) \<and> length ws = kGroupSize B \<and>
        take c ws = take c vs"
    and pcount_reads: "length vs = kGroupSize B \<Longrightarrow> c \<le> kGroupSize B \<Longrightarrow> drop p reg = hdr vs @ rest \<Longrightarrow>
      PartialCount B reg p (H + length (concat (map bytes (take c vs)))) = Inr c"
    and dec_total: "p + kMaxSize B \<le> length reg \<Longrightarrow>
      \<exists>n ws. Decode B reg p = Inr (n, ws) \<and> length ws = kGroupSize B \<and> p < n \<and>
        p + PartialSize B ws (kGroupSize B) \<le> n \<and>
        (\<forall>sz. \<exists>c. PartialCount B reg p sz = Inr c \<and> c \<le> kGroupSize B \<and>
           (\<forall>i. i \<le> c \<and> 0 < c \<longrightarrow> PartialSize B ws i \<le> sz))"
begin

lemma psize_mono: "i \<le> j \<Longrightarrow> j \<le> length ws \<Longrightarrow> PartialSize B ws i \<le> PartialSize B ws j"
proof -
  assume ij: "i \<le> j" "j \<le> length ws"
  have "take j ws = take i ws @ take (j - i) (drop i ws)" using ij take_add [of i "j - i" ws] by simp
  thus ?thesis using ij by (simp add: psize)
qed

section \<open>The bytes of a stream\<close>

function stream_bytes :: "'v list \<Rightarrow> u8 list" where
  "stream_bytes xs =
     (if xs = [] then []
      else if length xs < kGroupSize B
      then hdr (xs @ replicate (kGroupSize B - length xs) 0) @ concat (map bytes xs)
      else hdr (take (kGroupSize B) xs) @ concat (map bytes (take (kGroupSize B) xs)) @
           stream_bytes (drop (kGroupSize B) xs))"
  by pat_completeness auto
termination using G_pos by (relation "measure length") auto

declare stream_bytes.simps [simp del]

lemma stream_bytes_Nil [simp]: "stream_bytes [] = []"
  by (simp add: stream_bytes.simps)

lemma stream_bytes_short:
  "xs \<noteq> [] \<Longrightarrow> length xs < kGroupSize B \<Longrightarrow>
   stream_bytes xs = hdr (xs @ replicate (kGroupSize B - length xs) 0) @ concat (map bytes xs)"
  by (simp add: stream_bytes.simps)

lemma stream_bytes_group:
  "length g = kGroupSize B \<Longrightarrow> stream_bytes (g @ xs) = hdr g @ concat (map bytes g) @ stream_bytes xs"
  using G_pos by (subst stream_bytes.simps) auto

lemma stream_bytes_pos: "xs \<noteq> [] \<Longrightarrow> 0 < length (stream_bytes xs)"
  using H_pos hdr_length [of "xs @ replicate (kGroupSize B - length xs) 0"] hdr_length [of "take (kGroupSize B) xs"]
  by (subst stream_bytes.simps) (auto simp: not_less min_absorb2)

section \<open>The encoder writes the bytes of the stream\<close>

definition enc_ok :: "'v gv_encoder \<Rightarrow> bool" where
  "enc_ok e \<longleftrightarrow> length (enc_buf e) = kGroupSize B \<and> kMaxSize B \<le> length (enc_tmp e) \<and>
     enc_count e < kGroupSize B"

lemma encoder_add_full:
  assumes e: "enc_ok e" "enc_count e + 1 = kGroupSize B"
  shows "\<exists>e'. encoder_add B v e = Inr e' \<and> enc_ok e' \<and> enc_count e' = 0 \<and>
    enc_out e' = enc_out e @ hdr (take (enc_count e) (enc_buf e) @ [v]) @
      concat (map bytes (take (enc_count e) (enc_buf e) @ [v]))"
proof -
  let ?vs = "take (enc_count e) (enc_buf e) @ [v]"
  have len: "length (enc_buf e) = kGroupSize B" "enc_count e < length (enc_buf e)"
    "kMaxSize B \<le> length (enc_tmp e)" using e by (auto simp: enc_ok_def)
  have vs: "(enc_buf e)[enc_count e := v] = ?vs"
    using len e(2) by (simp add: upd_conv_take_nth_drop)
  have "length ?vs = kGroupSize B" using len e(2) by simp
  then obtain tmp where tmp: "Encode B (enc_tmp e) 0 ?vs = Inr (tmp, H + length (concat (map bytes ?vs)))"
    "length tmp = length (enc_tmp e)" "take (H + length (concat (map bytes ?vs))) tmp = hdr ?vs @ concat (map bytes ?vs)"
    using enc_writes [of ?vs "enc_tmp e"] len(3) by blast
  show ?thesis
    using len e(2) tmp G_pos unfolding encoder_add_def Let_def vs by (auto simp: enc_ok_def vs)
qed

lemma encoder_add_room:
  "enc_ok e \<Longrightarrow> enc_count e + 1 < kGroupSize B \<Longrightarrow>
   \<exists>e'. encoder_add B v e = Inr e' \<and> enc_ok e' \<and> enc_out e' = enc_out e \<and> enc_count e' = enc_count e + 1 \<and>
     take (enc_count e') (enc_buf e') = take (enc_count e) (enc_buf e) @ [v]"
  by (auto simp: encoder_add_def enc_ok_def Let_def take_Suc_conv_app_nth)

lemma encoder_finish_writes:
  assumes "enc_ok e"
  shows "\<exists>e'. encoder_finish B e = Inr e' \<and> enc_ok e' \<and> enc_count e' = 0 \<and>
    enc_out e' = enc_out e @ stream_bytes (take (enc_count e) (enc_buf e))"
proof (cases "enc_count e = 0")
  case True
  thus ?thesis using assms by (simp add: encoder_finish_def)
next
  case False
  let ?xs = "take (enc_count e) (enc_buf e)"
  let ?vs = "?xs @ replicate (kGroupSize B - enc_count e) 0"
  have len: "length (enc_buf e) = kGroupSize B" "enc_count e < kGroupSize B" "kMaxSize B \<le> length (enc_tmp e)"
    using assms by (auto simp: enc_ok_def)
  have vs: "foldl (\<lambda>b i. b[i := 0]) (enc_buf e) [enc_count e..<kGroupSize B] = ?vs"
    using len by (simp add: zero_fill)
  have lvs: "length ?vs = kGroupSize B" using len by simp
  then obtain tmp where tmp: "Encode B (enc_tmp e) 0 ?vs = Inr (tmp, H + length (concat (map bytes ?vs)))"
    "length tmp = length (enc_tmp e)" "take (H + length (concat (map bytes ?vs))) tmp = hdr ?vs @ concat (map bytes ?vs)"
    using enc_writes [of ?vs "enc_tmp e"] len(3) by blast
  have ps: "PartialSize B ?vs (enc_count e) = H + length (concat (map bytes ?xs))"
    using psize [of "enc_count e" ?vs] len by (simp add: min_absorb2)
  have "take (H + length (concat (map bytes ?xs))) (take (H + length (concat (map bytes ?vs))) tmp) =
      hdr ?vs @ concat (map bytes ?xs)"
    unfolding tmp(3) using hdr_length [OF lvs] by simp
  hence "take (PartialSize B ?vs (enc_count e)) tmp = hdr ?vs @ concat (map bytes ?xs)"
    unfolding ps by (simp add: min_def)
  moreover have "enc_buf e \<noteq> []" using len by auto
  hence "stream_bytes ?xs = hdr ?vs @ concat (map bytes ?xs)"
    using stream_bytes_short [of ?xs] False len by (auto simp: min_absorb2)
  ultimately show ?thesis
    using False len tmp(1,2) unfolding encoder_finish_def Let_def vs by (auto simp: enc_ok_def)
qed

lemma encoder_stream:
  assumes "enc_ok e"
  shows "\<exists>e'. rbind (encoder_add_all B xs e) (encoder_finish B) = Inr e' \<and> enc_ok e' \<and> enc_count e' = 0 \<and>
    enc_out e' = enc_out e @ stream_bytes (take (enc_count e) (enc_buf e) @ xs)"
  using assms
proof (induction xs arbitrary: e)
  case Nil
  thus ?case using encoder_finish_writes by simp
next
  case (Cons v xs)
  let ?t = "take (enc_count e) (enc_buf e)"
  show ?case
  proof (cases "enc_count e + 1 = kGroupSize B")
    case True
    obtain e1 where e1: "encoder_add B v e = Inr e1" "enc_ok e1" "enc_count e1 = 0"
      "enc_out e1 = enc_out e @ hdr (?t @ [v]) @ concat (map bytes (?t @ [v]))"
      using encoder_add_full [OF Cons.prems True] by blast
    have "length (?t @ [v]) = kGroupSize B" using True Cons.prems by (auto simp: enc_ok_def)
    hence "stream_bytes ((?t @ [v]) @ xs) = hdr (?t @ [v]) @ concat (map bytes (?t @ [v])) @ stream_bytes xs"
      by (rule stream_bytes_group)
    thus ?thesis using Cons.IH [OF e1(2)] e1 by auto
  next
    case False
    hence "enc_count e + 1 < kGroupSize B" using Cons.prems by (auto simp: enc_ok_def)
    then obtain e1 where e1: "encoder_add B v e = Inr e1" "enc_ok e1" "enc_out e1 = enc_out e"
      "take (enc_count e1) (enc_buf e1) = ?t @ [v]"
      using encoder_add_room [OF Cons.prems] by blast
    thus ?thesis using Cons.IH [OF e1(2)] by auto
  qed
qed

section \<open>The decoder stays within its arrays\<close>

definition dec_ok :: "'v gv_decoder \<Rightarrow> bool" where
  "dec_ok d \<longleftrightarrow> length (dec_buf d) = kGroupSize B \<and> length (dec_tmp d) = 2 * kMaxSize B \<and>
     dec_pos d \<le> dec_count d \<and> dec_count d \<le> kGroupSize B \<and> dec_p d \<le> dec_end d \<and>
     dec_end d - dec_p d \<le> length (dec_data d) \<and>
     (if in_tmp d then dec_end d < kMaxSize B \<and> dec_limit d = 2 * kMaxSize B
      else dec_end d = length (dec_data d) \<and> dec_limit d = length (dec_data d))"

definition avail :: "'v gv_decoder \<Rightarrow> u8 list" where
  "avail d = take (dec_end d - dec_p d) (drop (dec_p d) (region d))"

lemma dec_ok_init: "length buf0 = kGroupSize B \<Longrightarrow> length tmp0 = 2 * kMaxSize B \<Longrightarrow> dec_ok (GroupVarintDecoder tmp0 buf0 bs m)"
  by (simp add: dec_ok_def GroupVarintDecoder_def)

lemma avail_length: "dec_ok d \<Longrightarrow> length (avail d) = dec_end d - dec_p d"
  by (auto simp: avail_def dec_ok_def region_def split: if_splits)

lemma copy_to_tmp_ok:
  assumes ok: "dec_ok d"
  shows "\<exists>d'. copy_to_tmp B d = Inr d' \<and> dec_ok d' \<and> avail d' = avail d \<and>
    dec_p d' + kMaxSize B \<le> length (region d') \<and> dec_end d' - dec_p d' = dec_end d - dec_p d \<and>
    dec_remaining d' = dec_remaining d"
proof (cases "dec_limit d - dec_p d < kMaxSize B")
  case False
  thus ?thesis using ok H_pos M_ge by (auto simp: copy_to_tmp_def dec_ok_def region_def Let_def split: if_splits)
next
  case True
  hence nt: "\<not> in_tmp d" using ok by (auto simp: dec_ok_def)
  let ?rem = "dec_end d - dec_p d"
  let ?bs = "take ?rem (drop (dec_p d) (dec_data d))"
  have e: "dec_end d = length (dec_data d)" "dec_limit d = length (dec_data d)" "dec_p d \<le> dec_end d"
    "length (dec_tmp d) = 2 * kMaxSize B"
    using ok nt by (auto simp: dec_ok_def)
  have r: "?rem < kMaxSize B" "length ?bs = ?rem" using True e by simp_all
  let ?d = "d\<lparr> dec_tmp := overwrite (dec_tmp d) 0 ?bs, in_tmp := True, dec_p := 0, dec_end := ?rem,
      dec_limit := length (dec_tmp d) \<rparr>"
  have c: "copy_to_tmp B d = Inr ?d" using True nt e r by (simp add: copy_to_tmp_def Let_def)
  have lt: "length (overwrite (dec_tmp d) 0 ?bs) = 2 * kMaxSize B" using r e by simp
  have "take ?rem (overwrite (dec_tmp d) 0 ?bs) = ?bs" using r(2) by (simp add: overwrite_def)
  hence "avail ?d = avail d" using nt by (simp add: avail_def region_def)
  moreover have "dec_ok ?d" using ok r lt e by (auto simp: dec_ok_def)
  ultimately show ?thesis using c lt by (intro exI [of _ ?d]) (simp add: region_def)
qed

lemma dec_ok_step:
  "dec_ok d \<Longrightarrow> length ws = kGroupSize B \<Longrightarrow> c \<le> kGroupSize B \<Longrightarrow> dec_p d < p \<Longrightarrow> p \<le> dec_end d \<Longrightarrow>
   dec_ok (d\<lparr> dec_pos := 0, dec_buf := ws, dec_count := c, dec_remaining := m, dec_p := p \<rparr>)"
  by (auto simp: dec_ok_def)

lemma decoder_refill_ok:
  assumes ok: "dec_ok d" and go: "dec_end d - dec_p d \<noteq> 0" "dec_remaining d \<noteq> 0"
  shows "\<exists>b d'. decoder_refill B d = Inr (b, d') \<and> dec_ok d' \<and> dec_pos d' = 0 \<and> (b \<longleftrightarrow> dec_count d' \<noteq> 0) \<and>
    dec_end d' - dec_p d' < dec_end d - dec_p d"
proof -
  obtain d1 where d1: "copy_to_tmp B d = Inr d1" "dec_ok d1" "dec_p d1 + kMaxSize B \<le> length (region d1)"
    "dec_end d1 - dec_p d1 = dec_end d - dec_p d" "dec_remaining d1 = dec_remaining d"
    using copy_to_tmp_ok [OF ok] by blast
  obtain n ws where n: "Decode B (region d1) (dec_p d1) = Inr (n, ws)" "length ws = kGroupSize B" "dec_p d1 < n"
    "dec_p d1 + PartialSize B ws (kGroupSize B) \<le> n"
    and pc: "\<And>sz. \<exists>c. PartialCount B (region d1) (dec_p d1) sz = Inr c \<and> c \<le> kGroupSize B \<and>
      (\<forall>i. i \<le> c \<and> 0 < c \<longrightarrow> PartialSize B ws i \<le> sz)"
    using dec_total [OF d1(3)] by blast
  obtain c where c: "PartialCount B (region d1) (dec_p d1) (dec_end d1 - dec_p d1) = Inr c" "c \<le> kGroupSize B"
    "\<And>i. i \<le> c \<Longrightarrow> 0 < c \<Longrightarrow> PartialSize B ws i \<le> dec_end d1 - dec_p d1"
    using pc by meson
  have ps: "0 < PartialSize B ws i" if "i \<le> kGroupSize B" for i using psize [of i ws] n(2) H_pos that by simp
  have le: "dec_p d1 + PartialSize B ws i \<le> n" if "i \<le> kGroupSize B" for i
    using psize_mono [of i "kGroupSize B" ws] that n(2,4) by simp
  have reg: "region (d1\<lparr> dec_pos := 0, dec_buf := ws \<rparr>) = region d1" by (simp add: region_def)
  note refill = decoder_refill_def d1(1) n(1) c(1) c(1) [unfolded d1(4)] reg rbind.simps Let_def
  have step: "\<exists>b d'. Inr (b0, d1\<lparr> dec_pos := 0, dec_buf := ws, dec_count := c', dec_remaining := m, dec_p := p \<rparr>) =
      (Inr (b, d') :: mem_error + _) \<and> dec_ok d' \<and> dec_pos d' = 0 \<and> (b \<longleftrightarrow> dec_count d' \<noteq> 0) \<and>
      dec_end d' - dec_p d' < dec_end d - dec_p d"
    if "c' \<le> kGroupSize B" "dec_p d1 < p" "p \<le> dec_end d1" "b0 \<longleftrightarrow> c' \<noteq> 0" for b0 c' m p
    using dec_ok_step [OF d1(2) n(2) that(1-3)] d1(4) that by simp
  show ?thesis
  proof (cases "n \<le> dec_end d1")
    case True
    show ?thesis
    proof (cases "kGroupSize B \<le> dec_remaining d1")
      case r: True
      thus ?thesis using step [of "kGroupSize B" n True "dec_remaining d1 - kGroupSize B"] True n(3) G_pos
        by (simp add: refill)
    next
      case r: False
      thus ?thesis
        using step [of "dec_remaining d1" "dec_p d1 + PartialSize B ws (dec_remaining d1)" True 0] True
          ps [of "dec_remaining d1"] le [of "dec_remaining d1"] go(2) d1(5)
        by (simp add: refill)
    qed
  next
    case False
    show ?thesis
    proof (cases "c \<le> dec_remaining d1")
      case r: True
      thus ?thesis using step [of c "dec_end d1" "c \<noteq> 0" "dec_remaining d1 - c"] False c(2) go(1) d1(4)
        by (simp add: refill)
    next
      case r: False
      thus ?thesis
        using step [of "dec_remaining d1" "dec_p d1 + PartialSize B ws (dec_remaining d1)" True 0] False
          ps [of "dec_remaining d1"] c(2) c(3) [of "dec_remaining d1"] go d1(4,5)
        by (simp add: refill)
    qed
  qed
qed

definition dec_left :: "'v gv_decoder \<Rightarrow> nat" where
  "dec_left d = (dec_end d - dec_p d) * kGroupSize B + (dec_count d - dec_pos d)"

lemma decoder_take_ok:
  "dec_ok d \<Longrightarrow> dec_pos d < dec_count d \<Longrightarrow>
   dec_ok (d\<lparr> dec_pos := dec_pos d + 1 \<rparr>) \<and> dec_left (d\<lparr> dec_pos := dec_pos d + 1 \<rparr>) < dec_left d"
  by (auto simp: dec_ok_def dec_left_def)

lemma decoder_refill_left:
  assumes "dec_ok d'" "dec_pos d' = 0" "dec_end d' - dec_p d' < dec_end d - dec_p d"
  shows "dec_left d' \<le> dec_left d"
proof -
  have "(Suc (dec_end d' - dec_p d')) * kGroupSize B \<le> (dec_end d - dec_p d) * kGroupSize B"
    using assms(3) by (intro mult_le_mono1) simp
  moreover have "dec_count d' \<le> kGroupSize B" using assms(1) by (simp add: dec_ok_def)
  ultimately show ?thesis using assms(2) by (simp add: dec_left_def)
qed

lemma decoder_next_ok:
  assumes ok: "dec_ok d"
  shows "\<exists>r d'. decoder_next B d = Inr (r, d') \<and> dec_ok d' \<and> (r = None \<longrightarrow> dec_pos d' = dec_count d') \<and>
    (r \<noteq> None \<longrightarrow> dec_left d' < dec_left d)"
proof (cases "dec_pos d = dec_count d")
  case False
  hence "dec_pos d < dec_count d" using ok by (auto simp: dec_ok_def)
  thus ?thesis using False decoder_take_ok [OF ok] by (simp add: decoder_next_def)
next
  case True
  show ?thesis
  proof (cases "dec_end d - dec_p d = 0 \<or> dec_remaining d = 0")
    case stop: True
    thus ?thesis using True ok by (auto simp: decoder_next_def)
  next
    case False
    then obtain b d1 where d1: "decoder_refill B d = Inr (b, d1)" "dec_ok d1" "dec_pos d1 = 0"
      "b \<longleftrightarrow> dec_count d1 \<noteq> 0" "dec_end d1 - dec_p d1 < dec_end d - dec_p d"
      using decoder_refill_ok [OF ok] by blast
    show ?thesis
    proof (cases b)
      case go: True
      hence "dec_pos d1 < dec_count d1" using d1(3,4) by simp
      thus ?thesis
        using go True False d1 decoder_take_ok [OF d1(2)] decoder_refill_left [OF d1(2,3,5)]
        by (simp add: decoder_next_def)
    next
      case stop: False
      thus ?thesis using True False d1 by (simp add: decoder_next_def)
    qed
  qed
qed

lemma decoder_drain_total:
  "dec_ok d \<Longrightarrow> dec_left d < n \<Longrightarrow> \<exists>vs d'. decoder_drain B n d = Inr (Some (vs, d')) \<and> dec_ok d' \<and> length vs \<le> dec_left d"
proof (induction n arbitrary: d)
  case (Suc n)
  obtain r d1 where r: "decoder_next B d = Inr (r, d1)" "dec_ok d1" "r \<noteq> None \<Longrightarrow> dec_left d1 < dec_left d"
    using decoder_next_ok [OF Suc.prems(1)] by blast
  show ?case
  proof (cases r)
    case None
    thus ?thesis using r by simp
  next
    case (Some v)
    hence "dec_left d1 < n" using r(3) Suc.prems(2) by simp
    then obtain vs d2 where "decoder_drain B n d1 = Inr (Some (vs, d2))" "dec_ok d2" "length vs \<le> dec_left d1"
      using Suc.IH [OF r(2)] by blast
    thus ?thesis using Some r by simp
  qed
qed simp

section \<open>The decoder reads back what the encoder wrote\<close>

definition pending :: "'v gv_decoder \<Rightarrow> 'v list" where
  "pending d = take (dec_count d - dec_pos d) (drop (dec_pos d) (dec_buf d))"

definition to_come :: "'v gv_decoder \<Rightarrow> 'v list \<Rightarrow> bool" where
  "to_come d ys \<longleftrightarrow> (\<exists>xs. (dec_remaining d = 0 \<or> avail d = stream_bytes xs) \<and>
     ys = pending d @ take (dec_remaining d) xs)"

lemma concat_bytes_pos: "vs \<noteq> [] \<Longrightarrow> 0 < length (concat (map bytes vs))"
  using bytes_pos by (cases vs) auto

lemma avail_prefix: "dec_ok d \<Longrightarrow> \<exists>rest. drop (dec_p d) (region d) = avail d @ rest"
  unfolding avail_def by (metis append_take_drop_id)

lemma avail_after:
  assumes "dec_ok d" "avail d = xs @ ys" "region d' = region d" "dec_end d' = dec_end d"
    "dec_p d' = dec_p d + length xs"
  shows "avail d' = ys"
proof -
  have "avail d' = drop (length xs) (avail d)"
    using assms(3-5) by (simp add: avail_def drop_take add.commute)
  thus ?thesis using assms(2) by simp
qed

lemma refill_full_group:
  assumes d1: "copy_to_tmp B d = Inr d1" "dec_ok d1" "dec_p d1 + kMaxSize B \<le> length (region d1)"
    and g: "length g = kGroupSize B" "avail d1 = hdr g @ concat (map bytes g) @ stream_bytes xs"
    and m: "dec_remaining d1 \<noteq> 0"
  shows "\<exists>d'. decoder_refill B d = Inr (True, d') \<and> dec_pos d' = 0 \<and> pending d' = take (dec_remaining d1) g \<and>
    dec_remaining d' = dec_remaining d1 - length (pending d') \<and>
    (dec_remaining d' = 0 \<or> avail d' = stream_bytes xs)"
proof -
  let ?n = "dec_p d1 + H + length (concat (map bytes g))"
  obtain rest where "drop (dec_p d1) (region d1) = avail d1 @ rest" using avail_prefix [OF d1(2)] by blast
  then obtain ws where ws: "Decode B (region d1) (dec_p d1) = Inr (?n, ws)" "length ws = kGroupSize B"
    "take (kGroupSize B) ws = take (kGroupSize B) g"
    using dec_reads [of g "kGroupSize B" "dec_p d1" "region d1" "stream_bytes xs @ rest"] d1(3) g by auto
  have eq: "ws = g" using ws(2,3) g(1) by simp
  have le: "?n \<le> dec_end d1" using avail_length [OF d1(2)] hdr_length [OF g(1)] d1(2) unfolding g(2)
    by (auto simp: dec_ok_def)
  show ?thesis
  proof (cases "kGroupSize B \<le> dec_remaining d1")
    case True
    let ?d = "d1\<lparr> dec_pos := 0, dec_buf := g, dec_count := kGroupSize B,
      dec_remaining := dec_remaining d1 - kGroupSize B, dec_p := ?n \<rparr>"
    have "decoder_refill B d = Inr (True, ?d)"
      using True le by (simp add: decoder_refill_def d1(1) ws(1) eq Let_def)
    moreover have "avail ?d = stream_bytes xs"
      by (rule avail_after [OF d1(2), of "hdr g @ concat (map bytes g)"])
        (simp_all add: g(2) region_def hdr_length [OF g(1)])
    ultimately show ?thesis using True g(1) by (intro exI [of _ ?d]) (simp add: pending_def)
  next
    case False
    let ?d = "d1\<lparr> dec_pos := 0, dec_buf := g, dec_count := dec_remaining d1, dec_remaining := 0,
      dec_p := dec_p d1 + PartialSize B g (dec_remaining d1) \<rparr>"
    have "decoder_refill B d = Inr (True, ?d)"
      using False le by (simp add: decoder_refill_def d1(1) ws(1) eq Let_def)
    thus ?thesis using False g(1) by (intro exI [of _ ?d]) (simp add: pending_def)
  qed
qed

lemma refill_last_group:
  assumes d1: "copy_to_tmp B d = Inr d1" "dec_ok d1" "dec_p d1 + kMaxSize B \<le> length (region d1)"
    and xs: "xs \<noteq> []" "length xs < kGroupSize B" "avail d1 = stream_bytes xs"
    and m: "dec_remaining d1 \<noteq> 0"
  shows "\<exists>d'. decoder_refill B d = Inr (True, d') \<and> dec_pos d' = 0 \<and> pending d' = take (dec_remaining d1) xs \<and>
    dec_remaining d' = dec_remaining d1 - length (pending d') \<and>
    (dec_remaining d' = 0 \<or> avail d' = [])"
proof -
  let ?z = "replicate (kGroupSize B - length xs) (0 :: 'v)"
  let ?vs = "xs @ ?z"
  let ?c = "length xs"
  have lvs: "length ?vs = kGroupSize B" "take ?c ?vs = xs" using xs(2) by simp_all
  have av: "avail d1 = hdr ?vs @ concat (map bytes xs)" using xs stream_bytes_short by simp
  let ?n = "dec_p d1 + H + length (concat (map bytes ?vs))"
  obtain rest where dr: "drop (dec_p d1) (region d1) = avail d1 @ rest" using avail_prefix [OF d1(2)] by blast
  then obtain ws where ws: "Decode B (region d1) (dec_p d1) = Inr (?n, ws)" "length ws = kGroupSize B"
    "take ?c ws = xs"
    using dec_reads [of ?vs ?c "dec_p d1" "region d1" rest] d1(3) lvs xs(2) av by auto
  have sz: "dec_end d1 - dec_p d1 = H + length (concat (map bytes xs))"
    using avail_length [OF d1(2)] hdr_length [OF lvs(1)] unfolding av by simp
  have "0 < length (concat (map bytes ?z))" using xs(2) by (intro concat_bytes_pos) simp
  moreover have "dec_p d1 \<le> dec_end d1" using d1(2) by (simp add: dec_ok_def)
  ultimately have gt: "\<not> ?n \<le> dec_end d1"
    using sz unfolding map_append concat_append length_append by linarith
  have pc: "PartialCount B (region d1) (dec_p d1) (dec_end d1 - dec_p d1) = Inr ?c"
    using pcount_reads [of ?vs ?c "dec_p d1" "region d1" "concat (map bytes xs) @ rest"] lvs xs(2) dr av sz by simp
  have reg: "region (d1\<lparr> dec_pos := 0, dec_buf := ws \<rparr>) = region d1" by (simp add: region_def)
  note refill = decoder_refill_def d1(1) ws(1) pc reg rbind.simps Let_def
  show ?thesis
  proof (cases "?c \<le> dec_remaining d1")
    case True
    let ?d = "d1\<lparr> dec_pos := 0, dec_buf := ws, dec_count := ?c, dec_remaining := dec_remaining d1 - ?c,
      dec_p := dec_end d1 \<rparr>"
    have "decoder_refill B d = Inr (True, ?d)" using True gt xs(1) by (simp add: refill)
    thus ?thesis using True ws(3) by (intro exI [of _ ?d]) (simp add: pending_def avail_def)
  next
    case False
    let ?d = "d1\<lparr> dec_pos := 0, dec_buf := ws, dec_count := dec_remaining d1, dec_remaining := 0,
      dec_p := dec_p d1 + PartialSize B ws (dec_remaining d1) \<rparr>"
    have "decoder_refill B d = Inr (True, ?d)" using False gt m by (simp add: refill)
    moreover have "take (dec_remaining d1) (take ?c ws) = take (dec_remaining d1) ws" using False by simp
    hence "take (dec_remaining d1) ws = take (dec_remaining d1) xs" using ws(3) by simp
    ultimately show ?thesis using False xs(2) by (intro exI [of _ ?d]) (simp add: pending_def)
  qed
qed

lemma refill_stream:
  assumes ok: "dec_ok d" and av: "avail d = stream_bytes xs" and xs: "xs \<noteq> []" and m: "dec_remaining d \<noteq> 0"
  shows "\<exists>d'. decoder_refill B d = Inr (True, d') \<and> dec_pos d' = 0 \<and>
    pending d' = take (dec_remaining d) (take (kGroupSize B) xs) \<and>
    dec_remaining d' = dec_remaining d - length (pending d') \<and>
    (dec_remaining d' = 0 \<or> avail d' = stream_bytes (drop (kGroupSize B) xs))"
proof -
  obtain d1 where d1: "copy_to_tmp B d = Inr d1" "dec_ok d1" "avail d1 = avail d"
    "dec_p d1 + kMaxSize B \<le> length (region d1)" "dec_remaining d1 = dec_remaining d"
    using copy_to_tmp_ok [OF ok] by blast
  show ?thesis
  proof (cases "length xs < kGroupSize B")
    case True
    thus ?thesis using refill_last_group [OF d1(1,2,4) xs True] d1(3,5) av m by simp
  next
    case False
    hence g: "length (take (kGroupSize B) xs) = kGroupSize B" by simp
    have "avail d1 = hdr (take (kGroupSize B) xs) @ concat (map bytes (take (kGroupSize B) xs)) @
        stream_bytes (drop (kGroupSize B) xs)"
      using stream_bytes_group [OF g, of "drop (kGroupSize B) xs"] d1(3) av by simp
    thus ?thesis using refill_full_group [OF d1(1,2,4) g] d1(5) m by simp
  qed
qed

lemma pending_cons:
  "dec_ok d \<Longrightarrow> dec_pos d < dec_count d \<Longrightarrow>
   pending d = dec_buf d ! dec_pos d # pending (d\<lparr> dec_pos := dec_pos d + 1 \<rparr>)"
  by (auto simp: pending_def dec_ok_def Suc_diff_Suc [symmetric] Cons_nth_drop_Suc [symmetric])

lemma avail_pos: "avail (d\<lparr> dec_pos := n \<rparr>) = avail d"
  by (simp add: avail_def region_def)

lemma next_takes:
  assumes "dec_ok d" "dec_pos d < dec_count d" "to_come d ys"
  shows "\<exists>zs. ys = dec_buf d ! dec_pos d # zs \<and> to_come (d\<lparr> dec_pos := dec_pos d + 1 \<rparr>) zs"
  using assms(3) unfolding to_come_def pending_cons [OF assms(1,2)] by (auto simp: avail_pos)

lemma decoder_next_stream:
  assumes ok: "dec_ok d" and ys: "to_come d ys"
  shows "\<exists>d'. decoder_next B d = Inr (if ys = [] then None else Some (hd ys), d') \<and> dec_ok d' \<and>
    to_come d' (tl ys) \<and> (ys = [] \<longrightarrow> d' = d)"
proof (cases "dec_pos d = dec_count d")
  case False
  hence "dec_pos d < dec_count d" using ok by (auto simp: dec_ok_def)
  thus ?thesis using False decoder_take_ok [OF ok] next_takes [OF ok _ ys] by (auto simp: decoder_next_def)
next
  case True
  hence p: "pending d = []" by (simp add: pending_def)
  obtain xs where xs: "dec_remaining d = 0 \<or> avail d = stream_bytes xs" "ys = take (dec_remaining d) xs"
    using ys p by (auto simp: to_come_def)
  show ?thesis
  proof (cases "ys = []")
    case empty: True
    have "dec_end d - dec_p d = 0 \<or> dec_remaining d = 0"
      using xs empty avail_length [OF ok] by auto
    thus ?thesis using True empty ok ys by (simp add: decoder_next_def)
  next
    case ne: False
    hence m: "dec_remaining d \<noteq> 0" "xs \<noteq> []" "avail d = stream_bytes xs" using xs by auto
    hence more: "dec_end d - dec_p d \<noteq> 0" using stream_bytes_pos [OF m(2)] avail_length [OF ok] by auto
    obtain b d0 where ok0: "decoder_refill B d = Inr (b, d0)" "dec_ok d0" "b \<longleftrightarrow> dec_count d0 \<noteq> 0"
      using decoder_refill_ok [OF ok more m(1)] by blast
    obtain d1 where d1: "decoder_refill B d = Inr (True, d1)" "dec_pos d1 = 0"
      "pending d1 = take (dec_remaining d) (take (kGroupSize B) xs)"
      "dec_remaining d1 = dec_remaining d - length (pending d1)"
      "dec_remaining d1 = 0 \<or> avail d1 = stream_bytes (drop (kGroupSize B) xs)"
      using refill_stream [OF ok m(3,2,1)] by blast
    hence ok1: "dec_ok d1" "dec_pos d1 < dec_count d1" using ok0 by auto
    have "to_come d1 ys"
      unfolding to_come_def xs(2)
    proof (intro exI [of _ "drop (kGroupSize B) xs"] conjI)
      show "take (dec_remaining d) xs = pending d1 @ take (dec_remaining d1) (drop (kGroupSize B) xs)"
        using take_split [of "dec_remaining d" xs "kGroupSize B"] by (simp only: d1(3,4))
    qed (rule d1(5))
    thus ?thesis
      using True more m(1) ne d1(1) decoder_take_ok [OF ok1] next_takes [OF ok1 \<open>to_come d1 ys\<close>]
      by (auto simp: decoder_next_def)
  qed
qed

lemma decoder_drain_stream:
  "dec_ok d \<Longrightarrow> to_come d ys \<Longrightarrow> length ys < n \<Longrightarrow>
   \<exists>d'. decoder_drain B n d = Inr (Some (ys, d')) \<and> dec_ok d' \<and> to_come d' [] \<and> decoder_next B d' = Inr (None, d')"
proof (induction n arbitrary: d ys)
  case (Suc n)
  obtain d1 where d1: "decoder_next B d = Inr (if ys = [] then None else Some (hd ys), d1)" "dec_ok d1"
    "to_come d1 (tl ys)" "ys = [] \<Longrightarrow> d1 = d"
    using decoder_next_stream [OF Suc.prems(1,2)] by blast
  show ?case
  proof (cases ys)
    case Nil
    thus ?thesis using d1 by simp
  next
    case (Cons y zs)
    then obtain d2 where "decoder_drain B n d1 = Inr (Some (zs, d2))" "dec_ok d2" "to_come d2 []"
      "decoder_next B d2 = Inr (None, d2)"
      using Suc.IH [OF d1(2), of zs] d1(3) Suc.prems(3) by auto
    thus ?thesis using Cons d1(1) by simp
  qed
qed simp

lemma to_come_init: "to_come (GroupVarintDecoder tmp0 buf0 (stream_bytes xs) m) (take m xs)"
  unfolding to_come_def
  by (rule exI [of _ xs]) (simp add: GroupVarintDecoder_def avail_def region_def pending_def)

theorem stream_round_trip:
  assumes "length tmp0 = kMaxSize B" "length buf0 = kGroupSize B"
    and "length dtmp0 = 2 * kMaxSize B" "length dbuf0 = kGroupSize B"
  shows "\<exists>e d. rbind (encoder_add_all B xs (GroupVarintEncoder [] tmp0 buf0)) (encoder_finish B) = Inr e \<and>
    decoder_drain B (length xs + 1) (GroupVarintDecoder dtmp0 dbuf0 (enc_out e) m) = Inr (Some (take m xs, d)) \<and>
    decoder_next B d = Inr (None, d)"
proof -
  have "enc_ok (GroupVarintEncoder [] tmp0 buf0)"
    using assms(1,2) G_pos by (simp add: enc_ok_def GroupVarintEncoder_def)
  then obtain e where e: "rbind (encoder_add_all B xs (GroupVarintEncoder [] tmp0 buf0)) (encoder_finish B) = Inr e"
    "enc_out e = stream_bytes xs"
    using encoder_stream [of "GroupVarintEncoder [] tmp0 buf0" xs] by (auto simp: GroupVarintEncoder_def)
  have "length (take m xs) < length xs + 1" by simp
  then obtain d where "decoder_drain B (length xs + 1) (GroupVarintDecoder dtmp0 dbuf0 (stream_bytes xs) m) =
      Inr (Some (take m xs, d))" "decoder_next B d = Inr (None, d)"
    using decoder_drain_stream [OF dec_ok_init [OF assms(4,3)] to_come_init] by blast
  thus ?thesis using e by auto
qed

end

section \<open>Sizes\<close>

context group_codec
begin

lemma length_stream_group:
  "kGroupSize B \<le> length xs \<Longrightarrow>
   length (stream_bytes xs) = H + length (concat (map bytes (take (kGroupSize B) xs))) +
     length (stream_bytes (drop (kGroupSize B) xs))"
  using stream_bytes_group [of "take (kGroupSize B) xs" "drop (kGroupSize B) xs"]
    hdr_length [of "take (kGroupSize B) xs"] by simp

lemma length_stream_short:
  "xs \<noteq> [] \<Longrightarrow> length xs < kGroupSize B \<Longrightarrow> length (stream_bytes xs) = H + length (concat (map bytes xs))"
  using stream_bytes_short [of xs] hdr_length [of "xs @ replicate (kGroupSize B - length xs) 0"] by simp

lemma totalSize_stream:
  assumes "\<And>p. kGroupSize B \<le> length p \<Longrightarrow> sz p = H + length (concat (map bytes (take (kGroupSize B) p)))"
  shows "totalSize_loop (kGroupSize B) sz (PartialSize B) xs (length xs) t = t + length (stream_bytes xs)"
proof (induction "length xs" arbitrary: xs t rule: less_induct)
  case less
  show ?case
  proof (cases "kGroupSize B \<le> length xs")
    case True
    hence "totalSize_loop (kGroupSize B) sz (PartialSize B) (drop (kGroupSize B) xs)
        (length (drop (kGroupSize B) xs)) (t + sz xs) = t + sz xs + length (stream_bytes (drop (kGroupSize B) xs))"
      using G_pos by (intro less) simp
    thus ?thesis using True G_pos assms [OF True] length_stream_group [OF True]
      by (subst totalSize_loop.simps) simp
  next
    case False
    thus ?thesis using psize [of "length xs" xs] length_stream_short [of xs]
      by (subst totalSize_loop.simps) auto
  qed
qed

lemma concat_bytes_le:
  "(\<And>v. length (bytes v) \<le> S) \<Longrightarrow> length (concat (map bytes vs)) \<le> length vs * S"
  by (induction vs) (auto simp: add_mono)

lemma stream_maxSize:
  assumes S: "\<And>v. length (bytes v) \<le> S"
  shows "length (stream_bytes xs) \<le> maxSize (kGroupSize B) H S (length xs)"
proof (induction "length xs" arbitrary: xs rule: less_induct)
  case less
  show ?case
  proof (cases "kGroupSize B \<le> length xs")
    case True
    let ?r = "drop (kGroupSize B) xs"
    have "length (stream_bytes ?r) \<le> maxSize (kGroupSize B) H S (length ?r)"
      using G_pos True by (intro less) simp
    moreover have "maxSize (kGroupSize B) H S (length xs) = H + kGroupSize B * S + maxSize (kGroupSize B) H S (length ?r)"
      using G_pos True by (simp add: maxSize_def Let_def le_div_geq le_mod_geq)
    moreover have "length (concat (map bytes (take (kGroupSize B) xs))) \<le> kGroupSize B * S"
      using concat_bytes_le [OF S, of "take (kGroupSize B) xs"] True by (simp add: min_absorb2)
    ultimately show ?thesis using length_stream_group [OF True] by simp
  next
    case False
    thus ?thesis using concat_bytes_le [OF S, of xs] length_stream_short [of xs]
      by (cases "xs = []") (auto simp: maxSize_def Let_def)
  qed
qed

end

section \<open>The groups of both widths\<close>

lemmas group_sizes = kGroupSize32_def kGroupSize64_def kHeaderSize32_def kHeaderSize64_def kMaxSize32_def
  kMaxSize64_def

interpretation gv32: group_codec GroupVarint32 kHeaderSize32 hdr32 bytes32
proof unfold_locales
  show "\<exists>buf'. Encode GroupVarint32 buf 0 vs = Inr (buf', kHeaderSize32 + length (concat (map bytes32 vs))) \<and>
      length buf' = length buf \<and>
      take (kHeaderSize32 + length (concat (map bytes32 vs))) buf' = hdr32 vs @ concat (map bytes32 vs)"
    if "length vs = kGroupSize GroupVarint32" "kMaxSize GroupVarint32 \<le> length buf" for vs buf
    using encode32_writes [of vs 0 buf] that by (simp add: GroupVarint32_def group_sizes)
  show "\<exists>ws. Decode GroupVarint32 reg p = Inr (p + kHeaderSize32 + length (concat (map bytes32 vs)), ws) \<and>
      length ws = kGroupSize GroupVarint32 \<and> take c ws = take c vs"
    if "length vs = kGroupSize GroupVarint32" "c \<le> kGroupSize GroupVarint32"
      "p + kMaxSize GroupVarint32 \<le> length reg" "drop p reg = hdr32 vs @ concat (map bytes32 (take c vs)) @ rest"
    for vs c p reg rest
    using decode32_reads [of vs c p reg rest] that by (simp add: GroupVarint32_def group_sizes)
  show "PartialCount GroupVarint32 reg p (kHeaderSize32 + length (concat (map bytes32 (take c vs)))) = Inr c"
    if "length vs = kGroupSize GroupVarint32" "c \<le> kGroupSize GroupVarint32" "drop p reg = hdr32 vs @ rest"
    for vs c p reg rest
    using partialCount_reads(1) [of vs c p reg rest] that by (simp add: GroupVarint32_def group_sizes)
  show "\<exists>n ws. Decode GroupVarint32 reg p = Inr (n, ws) \<and> length ws = kGroupSize GroupVarint32 \<and> p < n \<and>
      p + PartialSize GroupVarint32 ws (kGroupSize GroupVarint32) \<le> n \<and>
      (\<forall>sz. \<exists>c. PartialCount GroupVarint32 reg p sz = Inr c \<and> c \<le> kGroupSize GroupVarint32 \<and>
         (\<forall>i. i \<le> c \<and> 0 < c \<longrightarrow> PartialSize GroupVarint32 ws i \<le> sz))"
    if "p + kMaxSize GroupVarint32 \<le> length reg" for p reg
    using decode32_total [of p reg] that by (simp add: GroupVarint32_def group_sizes)
qed (simp_all add: GroupVarint32_def group_sizes hdr32_def partialSize_bytes)

interpretation gv32_ssse3: group_codec GroupVarint32_ssse3 kHeaderSize32 hdr32 bytes32
proof unfold_locales
  show "\<exists>buf'. Encode GroupVarint32_ssse3 buf 0 vs = Inr (buf', kHeaderSize32 + length (concat (map bytes32 vs))) \<and>
      length buf' = length buf \<and>
      take (kHeaderSize32 + length (concat (map bytes32 vs))) buf' = hdr32 vs @ concat (map bytes32 vs)"
    if "length vs = kGroupSize GroupVarint32_ssse3" "kMaxSize GroupVarint32_ssse3 \<le> length buf" for vs buf
    using encode32_writes [of vs 0 buf] that by (simp add: GroupVarint32_ssse3_def GroupVarint32_def group_sizes)
  show "\<exists>ws. Decode GroupVarint32_ssse3 reg p = Inr (p + kHeaderSize32 + length (concat (map bytes32 vs)), ws) \<and>
      length ws = kGroupSize GroupVarint32_ssse3 \<and> take c ws = take c vs"
    if "length vs = kGroupSize GroupVarint32_ssse3" "c \<le> kGroupSize GroupVarint32_ssse3"
      "p + kMaxSize GroupVarint32_ssse3 \<le> length reg" "drop p reg = hdr32 vs @ concat (map bytes32 (take c vs)) @ rest"
    for vs c p reg rest
    using decode32_reads [of vs c p reg rest] that by (simp add: GroupVarint32_ssse3_def GroupVarint32_def group_sizes decode_sse32_eq)
  show "PartialCount GroupVarint32_ssse3 reg p (kHeaderSize32 + length (concat (map bytes32 (take c vs)))) = Inr c"
    if "length vs = kGroupSize GroupVarint32_ssse3" "c \<le> kGroupSize GroupVarint32_ssse3" "drop p reg = hdr32 vs @ rest"
    for vs c p reg rest
    using partialCount_reads(1) [of vs c p reg rest] that by (simp add: GroupVarint32_ssse3_def GroupVarint32_def group_sizes)
  show "\<exists>n ws. Decode GroupVarint32_ssse3 reg p = Inr (n, ws) \<and> length ws = kGroupSize GroupVarint32_ssse3 \<and> p < n \<and>
      p + PartialSize GroupVarint32_ssse3 ws (kGroupSize GroupVarint32_ssse3) \<le> n \<and>
      (\<forall>sz. \<exists>c. PartialCount GroupVarint32_ssse3 reg p sz = Inr c \<and> c \<le> kGroupSize GroupVarint32_ssse3 \<and>
         (\<forall>i. i \<le> c \<and> 0 < c \<longrightarrow> PartialSize GroupVarint32_ssse3 ws i \<le> sz))"
    if "p + kMaxSize GroupVarint32_ssse3 \<le> length reg" for p reg
    using decode32_total [of p reg] that by (simp add: GroupVarint32_ssse3_def GroupVarint32_def group_sizes decode_sse32_eq)
qed (simp_all add: GroupVarint32_ssse3_def GroupVarint32_def group_sizes hdr32_def partialSize_bytes)

interpretation gv64: group_codec GroupVarint64 kHeaderSize64 hdr64 bytes64
proof unfold_locales
  show "\<exists>buf'. Encode GroupVarint64 buf 0 vs = Inr (buf', kHeaderSize64 + length (concat (map bytes64 vs))) \<and>
      length buf' = length buf \<and>
      take (kHeaderSize64 + length (concat (map bytes64 vs))) buf' = hdr64 vs @ concat (map bytes64 vs)"
    if "length vs = kGroupSize GroupVarint64" "kMaxSize GroupVarint64 \<le> length buf" for vs buf
    using encode64_writes [of vs 0 buf] that by (simp add: GroupVarint64_def group_sizes)
  show "\<exists>ws. Decode GroupVarint64 reg p = Inr (p + kHeaderSize64 + length (concat (map bytes64 vs)), ws) \<and>
      length ws = kGroupSize GroupVarint64 \<and> take c ws = take c vs"
    if "length vs = kGroupSize GroupVarint64" "c \<le> kGroupSize GroupVarint64"
      "p + kMaxSize GroupVarint64 \<le> length reg" "drop p reg = hdr64 vs @ concat (map bytes64 (take c vs)) @ rest"
    for vs c p reg rest
    using decode64_reads [of vs c p reg rest] that by (simp add: GroupVarint64_def group_sizes)
  show "PartialCount GroupVarint64 reg p (kHeaderSize64 + length (concat (map bytes64 (take c vs)))) = Inr c"
    if "length vs = kGroupSize GroupVarint64" "c \<le> kGroupSize GroupVarint64" "drop p reg = hdr64 vs @ rest"
    for vs c p reg rest
    using partialCount_reads(2) [of vs c p reg rest] that by (simp add: GroupVarint64_def group_sizes)
  show "\<exists>n ws. Decode GroupVarint64 reg p = Inr (n, ws) \<and> length ws = kGroupSize GroupVarint64 \<and> p < n \<and>
      p + PartialSize GroupVarint64 ws (kGroupSize GroupVarint64) \<le> n \<and>
      (\<forall>sz. \<exists>c. PartialCount GroupVarint64 reg p sz = Inr c \<and> c \<le> kGroupSize GroupVarint64 \<and>
         (\<forall>i. i \<le> c \<and> 0 < c \<longrightarrow> PartialSize GroupVarint64 ws i \<le> sz))"
    if "p + kMaxSize GroupVarint64 \<le> length reg" for p reg
    using decode64_total [of p reg] that by (simp add: GroupVarint64_def group_sizes)
qed (simp_all add: GroupVarint64_def group_sizes hdr64_def partialSize_bytes)

section \<open>Properties\<close>

text \<open>What a caller sees of an encoder and a decoder, whatever their arrays hold at the start.\<close>

definition encodes :: "'v :: zero group_base \<Rightarrow> 'v list \<Rightarrow> u8 list \<Rightarrow> bool" where
  "encodes B xs bs \<longleftrightarrow>
     (\<forall>tmp0 buf0. length tmp0 = kMaxSize B \<and> length buf0 = kGroupSize B \<longrightarrow>
        (\<exists>e. rbind (encoder_add_all B xs (GroupVarintEncoder [] tmp0 buf0)) (encoder_finish B) = Inr e \<and>
           enc_out e = bs))"

definition decodes :: "'v group_base \<Rightarrow> u8 list \<Rightarrow> nat \<Rightarrow> ('v list \<Rightarrow> bool) \<Rightarrow> bool" where
  "decodes B bs maxCount P \<longleftrightarrow>
     (\<forall>tmp0 buf0. length tmp0 = 2 * kMaxSize B \<and> length buf0 = kGroupSize B \<longrightarrow>
        (\<exists>vs d. decoder_drain B (length bs * kGroupSize B + 1) (GroupVarintDecoder tmp0 buf0 bs maxCount) =
             Inr (Some (vs, d)) \<and> P vs))"

context group_codec
begin

lemma encodes_stream: "encodes B xs (stream_bytes xs)"
proof -
  have "enc_ok (GroupVarintEncoder [] tmp0 buf0)" if "length tmp0 = kMaxSize B" "length buf0 = kGroupSize B" for tmp0 buf0
    using that G_pos by (simp add: enc_ok_def GroupVarintEncoder_def)
  thus ?thesis
    using encoder_stream [of "GroupVarintEncoder [] _ _" xs] by (fastforce simp: encodes_def GroupVarintEncoder_def)
qed

lemma length_le_stream: "length xs \<le> length (stream_bytes xs) * kGroupSize B"
proof (induction xs rule: stream_bytes.induct)
  case (1 xs)
  consider "xs = []" | "xs \<noteq> []" "length xs < kGroupSize B" | "xs \<noteq> []" "kGroupSize B \<le> length xs" by linarith
  thus ?case
  proof cases
    case 2
    thus ?thesis using stream_bytes_pos [of xs] by (metis less_imp_le mult.commute mult_le_mono1 nat_mult_1_right
      Suc_leI One_nat_def le_trans mult.left_neutral)
  next
    case 3
    hence "length xs - kGroupSize B \<le> length (stream_bytes (drop (kGroupSize B) xs)) * kGroupSize B"
      using 1 by simp
    moreover have "1 + length (stream_bytes (drop (kGroupSize B) xs)) \<le> length (stream_bytes xs)"
      using length_stream_group [OF 3(2)] H_pos by simp
    hence "kGroupSize B + length (stream_bytes (drop (kGroupSize B) xs)) * kGroupSize B \<le>
        length (stream_bytes xs) * kGroupSize B"
      by (metis mult_Suc mult_le_mono1 plus_1_eq_Suc)
    ultimately show ?thesis by linarith
  qed simp
qed

lemma decodes_stream: "decodes B (stream_bytes xs) m (\<lambda>vs. vs = take m xs)"
proof -
  have "length (take m xs) < length (stream_bytes xs) * kGroupSize B + 1"
    using length_le_stream [of xs] by simp
  thus ?thesis
    using decoder_drain_stream [OF dec_ok_init to_come_init] by (fastforce simp: decodes_def)
qed

lemma decodes_anything: "decodes B bs m (\<lambda>vs. length vs \<le> length bs * kGroupSize B)"
  unfolding decodes_def
proof (intro allI impI)
  fix tmp0 :: "u8 list" and buf0 :: "'v list"
  assume len: "length tmp0 = 2 * kMaxSize B \<and> length buf0 = kGroupSize B"
  let ?d = "GroupVarintDecoder tmp0 buf0 bs m"
  have "dec_left ?d = length bs * kGroupSize B" by (simp add: dec_left_def GroupVarintDecoder_def)
  moreover have "dec_ok ?d" using len by (intro dec_ok_init) simp_all
  ultimately show "\<exists>vs d. decoder_drain B (length bs * kGroupSize B + 1) ?d = Inr (Some (vs, d)) \<and>
      length vs \<le> length bs * kGroupSize B"
    using decoder_drain_total [of ?d "length bs * kGroupSize B + 1"] by fastforce
qed

end

lemma stream_ssse3: "gv32_ssse3.stream_bytes xs = gv32.stream_bytes xs"
  by (induction xs rule: gv32.stream_bytes.induct)
    (subst gv32.stream_bytes.simps, subst gv32_ssse3.stream_bytes.simps, simp add: GroupVarint32_ssse3_def GroupVarint32_def)

lemma size_arrays:
  "kGroupSize32 \<le> length p \<Longrightarrow> size32_array p = kHeaderSize32 + length (concat (map bytes32 (take kGroupSize32 p)))"
  "kGroupSize64 \<le> length q \<Longrightarrow> size64_array q = kHeaderSize64 + length (concat (map bytes64 (take kGroupSize64 q)))"
proof -
  assume "kGroupSize32 \<le> length p"
  then obtain a b c d r where "p = a # b # c # d # r"
    by (auto simp: kGroupSize32_def numeral_eq_Suc Suc_le_length_iff)
  thus "size32_array p = kHeaderSize32 + length (concat (map bytes32 (take kGroupSize32 p)))"
    by (simp add: size32_array_def size32_def kGroupSize32_def)
next
  assume "kGroupSize64 \<le> length q"
  then obtain a b c d e r where "q = a # b # c # d # e # r"
    by (auto simp: kGroupSize64_def numeral_eq_Suc Suc_le_length_iff)
  thus "size64_array q = kHeaderSize64 + length (concat (map bytes64 (take kGroupSize64 q)))"
    by (simp add: size64_array_def size64_def kGroupSize64_def)
qed

text \<open>
  C24: the values given to a \<open>GroupVarintEncoder\<close>, of 32 or 64 bits, are what a \<open>GroupVarintDecoder\<close>
  reads from its output, the first \<open>maxCount\<close> of them, also when the last group is not full; for 32
  bits with the portable and with the SSSE3 decoder. Neither reads or writes outside its arrays.
\<close>

theorem group_varint_round_trip:
  "(\<exists>bs. encodes GroupVarint32 xs bs \<and> decodes GroupVarint32 bs m (\<lambda>vs. vs = take m xs) \<and>
     decodes GroupVarint32_ssse3 bs m (\<lambda>vs. vs = take m xs)) \<and>
   (\<exists>bs. encodes GroupVarint64 ys bs \<and> decodes GroupVarint64 bs m (\<lambda>vs. vs = take m ys))"
  using gv32.encodes_stream [of xs] gv32.decodes_stream [of xs m] gv32_ssse3.decodes_stream [of xs m]
    gv64.encodes_stream [of ys] gv64.decodes_stream [of ys m] stream_ssse3 by fastforce

text \<open>
  C25: a \<open>GroupVarintDecoder\<close> run on any bytes at all comes to an end after at most a group of values
  per byte, and never reads outside the data or its own array.
\<close>

theorem group_decoder_safe:
  "decodes GroupVarint32 bs m (\<lambda>vs. length vs \<le> length bs * 4) \<and>
   decodes GroupVarint32_ssse3 bs m (\<lambda>vs. length vs \<le> length bs * 4) \<and>
   decodes GroupVarint64 bs m (\<lambda>vs. length vs \<le> length bs * 5)"
  using gv32.decodes_anything [of bs m] gv32_ssse3.decodes_anything [of bs m] gv64.decodes_anything [of bs m]
  by (simp add: GroupVarint32_def GroupVarint32_ssse3_def GroupVarint64_def group_sizes)

text \<open>
  C27: \<open>totalSize\<close> is the exact number of bytes that encoding the values takes, and \<open>maxSize\<close> bounds
  it by the number of values alone.
\<close>

theorem group_varint_sizes:
  "(\<exists>bs. encodes GroupVarint32 xs bs \<and> length bs = totalSize kGroupSize32 size32_array partialSize32 xs (length xs) \<and>
     length bs \<le> maxSize kGroupSize32 kHeaderSize32 4 (length xs)) \<and>
   (\<exists>bs. encodes GroupVarint64 ys bs \<and> length bs = totalSize kGroupSize64 size64_array partialSize64 ys (length ys) \<and>
     length bs \<le> maxSize kGroupSize64 kHeaderSize64 8 (length ys))"
proof -
  have "length (gv32.stream_bytes xs) = totalSize kGroupSize32 size32_array partialSize32 xs (length xs)"
    using gv32.totalSize_stream [of size32_array xs 0] size_arrays(1)
    by (simp add: totalSize_def GroupVarint32_def)
  moreover have "length (gv32.stream_bytes xs) \<le> maxSize kGroupSize32 kHeaderSize32 4 (length xs)"
    using gv32.stream_maxSize [of 4 xs] key32_less by (simp add: GroupVarint32_def Suc_le_eq)
  moreover have "length (gv64.stream_bytes ys) = totalSize kGroupSize64 size64_array partialSize64 ys (length ys)"
    using gv64.totalSize_stream [of size64_array ys 0] size_arrays(2)
    by (simp add: totalSize_def GroupVarint64_def)
  moreover have "length (gv64.stream_bytes ys) \<le> maxSize kGroupSize64 kHeaderSize64 8 (length ys)"
    using gv64.stream_maxSize [of 8 ys] key64_less by (simp add: GroupVarint64_def Suc_le_eq)
  ultimately show ?thesis using gv32.encodes_stream [of xs] gv64.encodes_stream [of ys] by blast
qed

end
