(* ===== verification/Folly_Conv.thy ===== *)
theory Folly_Conv
  imports Folly_Bits
begin

text \<open>
  \<open>folly/Conv.h\<close>, \<open>Conv.cpp\<close> and the integer comparisons of \<open>Traits.h\<close>: checked conversion between
  integer types, integers to decimal strings, decimal strings to integers and strings to \<open>bool\<close>. A
  thrown \<open>std::range_error\<close> is an error value that names the check; a write outside a buffer, a table
  index outside the table and a negation that overflows are errors of their own. Strings are character
  lists, the locale is "C". Conversions of floating-point numbers are not modelled.
\<close>

datatype conv_error =
    PositiveOverflow | NegativeOverflow | NumericOverflow | NoDigits | NoDigitsInInput | EmptyInput
  | InvalidLead | NonDigit | NonWhitespace | BoolOverflow | InvalidBool
  | NoNonWhitespace | BufferBounds | TableIndex | UndefinedNegation

definition RANGE_CHECK :: "bool \<Rightarrow> conv_error \<Rightarrow> conv_error + unit" where
  "RANGE_CHECK c e = (if c then Inr () else Inl e)"

section \<open>Integral to integral\<close>

text \<open>A C++ integer type by its width and signedness, on a platform whose \<open>int\<close> has 32 bits, with the
  usual arithmetic conversions that a comparison of two types makes first.\<close>

record int_type =
  int_bits :: nat
  int_signed :: bool

definition type_min :: "int_type \<Rightarrow> int" where
  "type_min t = (if int_signed t then - (2 ^ (int_bits t - 1)) else 0)"

definition type_max :: "int_type \<Rightarrow> int" where
  "type_max t = (if int_signed t then 2 ^ (int_bits t - 1) - 1 else 2 ^ int_bits t - 1)"

definition int_cast :: "int_type \<Rightarrow> int \<Rightarrow> int" where
  "int_cast t v = (v - type_min t) mod 2 ^ int_bits t + type_min t"

definition promote :: "int_type \<Rightarrow> int_type" where
  "promote t = (if int_bits t < 32 then \<lparr> int_bits = 32, int_signed = True \<rparr> else t)"

definition common_type :: "int_type \<Rightarrow> int_type \<Rightarrow> int_type" where
  "common_type s t =
     (let s = promote s; t = promote t in
      if int_signed s = int_signed t then (if int_bits s \<ge> int_bits t then s else t)
      else if \<not> int_signed s then (if int_bits s \<ge> int_bits t then s else t)
      else (if int_bits t \<ge> int_bits s then t else s))"

definition c_less :: "int_type \<Rightarrow> int \<Rightarrow> int_type \<Rightarrow> int \<Rightarrow> bool" where
  "c_less s a t b \<longleftrightarrow> int_cast (common_type s t) a < int_cast (common_type s t) b"

definition c_leq :: "int_type \<Rightarrow> int \<Rightarrow> int_type \<Rightarrow> int \<Rightarrow> bool" where
  "c_leq s a t b \<longleftrightarrow> int_cast (common_type s t) a \<le> int_cast (common_type s t) b"

text \<open>\<open>less_than<RHS, rhs>(lhs)\<close> and \<open>greater_than<RHS, rhs>(lhs)\<close>: the overload is the one whose
  condition holds.\<close>

definition less_than :: "int_type \<Rightarrow> int \<Rightarrow> int_type \<Rightarrow> int \<Rightarrow> bool" where
  "less_than R rhs L lhs =
     (if c_leq R rhs L (type_max L) \<and> c_less L (type_min L) R rhs then c_less L lhs R rhs
      else c_less L (type_max L) R rhs)"

definition greater_than :: "int_type \<Rightarrow> int \<Rightarrow> int_type \<Rightarrow> int \<Rightarrow> bool" where
  "greater_than R rhs L lhs =
     (if c_leq R rhs L (type_max L) \<and> c_leq L (type_min L) R rhs then c_less R rhs L lhs
      else c_less R rhs L (type_min L))"

definition to_integral :: "int_type \<Rightarrow> int_type \<Rightarrow> int \<Rightarrow> conv_error + int" where
  "to_integral Tgt Src v =
     rbind (if c_less Tgt (type_max Tgt) Src (type_max Src)
            then RANGE_CHECK (\<not> greater_than Tgt (type_max Tgt) Src v) PositiveOverflow else Inr ()) (\<lambda>_.
     rbind (if int_signed Src \<and> (\<not> int_signed Tgt \<or> int_bits Src > int_bits Tgt)
            then RANGE_CHECK (\<not> less_than Tgt (type_min Tgt) Src v) NegativeOverflow else Inr ()) (\<lambda>_.
     Inr (int_cast Tgt v)))"

section \<open>Integers to strings\<close>

definition digit_char :: "nat \<Rightarrow> char" where
  "digit_char d = char_of (48 + d)"

lemma div_10000_less: "\<not> v < 10000 \<Longrightarrow> unat (v div 10000) < unat v" for v :: u64
proof -
  assume v: "\<not> v < 10000"
  hence "10000 \<le> unat v" by (simp add: word_less_nat_alt not_less)
  thus ?thesis by (simp add: unat_div)
qed

function digits10_loop :: "u64 \<Rightarrow> nat \<Rightarrow> nat" where
  "digits10_loop v r =
     (if v < 10 then r else if v < 100 then r + 1 else if v < 1000 then r + 2
      else if v < 10000 then r + 3 else digits10_loop (v div 10000) (r + 4))"
  by pat_completeness auto
termination by (relation "measure (\<lambda>(v, r). unat v)") (auto simp: div_10000_less)

declare digits10_loop.simps [simp del]

definition digits10 :: "u64 \<Rightarrow> nat" where
  "digits10 v = digits10_loop v 1"

definition put_char :: "char list \<Rightarrow> nat \<Rightarrow> char \<Rightarrow> conv_error + char list" where
  "put_char buf pos c = (if pos < length buf then Inr (buf[pos := c]) else Inl BufferBounds)"

text \<open>\<open>pos--\<close> on an unsigned position.\<close>

definition pos_dec :: "nat \<Rightarrow> nat \<Rightarrow> nat" where
  "pos_dec w pos = (if pos = 0 then 2 ^ w - 1 else pos - 1)"

lemma div_10_less: "\<not> v < 10 \<Longrightarrow> unat (v div 10) < unat v" for v :: u64
proof -
  assume v: "\<not> v < 10"
  hence "10 \<le> unat v" by (simp add: word_less_nat_alt not_less)
  thus ?thesis by (simp add: unat_div)
qed

function buffer_loop :: "nat \<Rightarrow> u64 \<Rightarrow> char list \<Rightarrow> nat \<Rightarrow> conv_error + nat \<times> char list" where
  "buffer_loop w v buf pos =
     (if v \<ge> 10 then
        (case put_char buf pos (digit_char (unat (v mod 10))) of
           Inl e \<Rightarrow> Inl e
         | Inr buf \<Rightarrow> buffer_loop w (v div 10) buf (pos_dec w pos))
      else rbind (put_char buf pos (digit_char (unat v))) (\<lambda>buf. Inr (pos, buf)))"
  by pat_completeness auto
termination by (relation "measure (\<lambda>(w, v, b, p). unat v)") (auto simp: div_10_less not_less)

declare buffer_loop.simps [simp del]

definition uint64ToBufferUnsafe :: "u64 \<Rightarrow> char list \<Rightarrow> conv_error + nat \<times> char list" where
  "uint64ToBufferUnsafe v buf =
     (let result = digits10 v in
      rbind (buffer_loop 32 v buf (result - 1)) (\<lambda>(pos, buf). Inr (result, buf)))"

text \<open>\<open>buffer0\<close> is what the uninitialised array holds. Signed types narrower than 64 bits are converted
  through their value.\<close>

definition toAppend_signed :: "char list \<Rightarrow> int \<Rightarrow> string \<Rightarrow> conv_error + string" where
  "toAppend_signed buffer0 value result =
     (if value < 0
      then rbind (uint64ToBufferUnsafe (- word_of_int value) buffer0) (\<lambda>(n, buf).
             Inr ((result @ ''-'') @ take n buf))
      else rbind (uint64ToBufferUnsafe (word_of_int value) buffer0) (\<lambda>(n, buf). Inr (result @ take n buf)))"

definition toAppend_unsigned :: "char list \<Rightarrow> u64 \<Rightarrow> string \<Rightarrow> conv_error + string" where
  "toAppend_unsigned buffer0 value result =
     rbind (uint64ToBufferUnsafe value buffer0) (\<lambda>(n, buf). Inr (result @ take n buf))"

text \<open>\<open>-value\<close> is computed in the type of \<open>value\<close>, of \<open>w\<close> bits, and is undefined for its minimum.\<close>

definition estimateSpaceNeeded_signed :: "nat \<Rightarrow> int \<Rightarrow> conv_error + nat" where
  "estimateSpaceNeeded_signed w value =
     (if value < 0
      then (if value = - (2 ^ (w - 1)) then Inl UndefinedNegation
            else Inr (1 + digits10 (word_of_int (- value))))
      else Inr (digits10 (word_of_int value)))"

definition estimateSpaceNeeded_unsigned :: "u64 \<Rightarrow> nat" where
  "estimateSpaceNeeded_unsigned value = digits10 value"

text \<open>128-bit integers: \<open>digitsEnough\<close> of 128 bits is the ceiling of \<open>128 ln 2 / ln 10\<close>.\<close>

definition digitsEnough128 :: nat where
  "digitsEnough128 = 39"

function telescope_wide :: "128 word \<Rightarrow> char list \<Rightarrow> nat \<Rightarrow> conv_error + 128 word \<times> char list \<times> nat" where
  "telescope_wide x buf p =
     (if x \<ge> push_bit 64 1 then
        (case put_char buf p (digit_char (unat (x mod 10))) of
           Inl e \<Rightarrow> Inl e
         | Inr buf \<Rightarrow> telescope_wide (x div 10) buf (pos_dec 64 p))
      else Inr (x, buf, p))"
  by pat_completeness auto
termination
  by (relation "measure (\<lambda>(x, b, p). unat x)")
    (auto simp: word_le_nat_alt unat_div push_bit_of_1 intro!: div_less_dividend)

declare telescope_wide.simps [simp del]

definition unsafeTelescope128 :: "char list \<Rightarrow> nat \<Rightarrow> 128 word \<Rightarrow> conv_error + nat \<times> char list" where
  "unsafeTelescope128 buffer room x =
     rbind (telescope_wide x buffer (room - 1)) (\<lambda>(x, buf, p). buffer_loop 64 (ucast x) buf p)"

definition toAppend_int128 :: "char list \<Rightarrow> int \<Rightarrow> string \<Rightarrow> conv_error + string" where
  "toAppend_int128 buffer0 value result =
     (if value < 0
      then (if value = - (2 ^ 127) then Inl UndefinedNegation
            else rbind (unsafeTelescope128 buffer0 (digitsEnough128 + 1) (word_of_int (- value))) (\<lambda>(p, buf).
                 rbind (put_char buf (pos_dec 64 p) CHR ''-'') (\<lambda>buf.
                   Inr (result @ drop (pos_dec 64 p) buf))))
      else rbind (unsafeTelescope128 buffer0 (digitsEnough128 + 1) (word_of_int value)) (\<lambda>(p, buf).
             Inr (result @ drop p buf)))"

definition toAppend_uint128 :: "char list \<Rightarrow> 128 word \<Rightarrow> string \<Rightarrow> conv_error + string" where
  "toAppend_uint128 buffer0 value result =
     rbind (unsafeTelescope128 buffer0 digitsEnough128 value) (\<lambda>(p, buf). Inr (result @ drop p buf))"

section \<open>Strings to integers\<close>

definition isdigit :: "char \<Rightarrow> bool" where
  "isdigit c \<longleftrightarrow> 48 \<le> (of_char c :: nat) \<and> of_char c \<le> (57 :: nat)"

definition isspace :: "char \<Rightarrow> bool" where
  "isspace c \<longleftrightarrow> (of_char c :: nat) = 32 \<or> 9 \<le> (of_char c :: nat) \<and> of_char c \<le> (13 :: nat)"

fun findFirstNonDigit :: "string \<Rightarrow> string \<times> string" where
  "findFirstNonDigit [] = ([], [])"
| "findFirstNonDigit (c # cs) =
     (if isdigit c then (case findFirstNonDigit cs of (ds, rest) \<Rightarrow> (c # ds, rest)) else ([], c # cs))"

definition limits_digits10 :: "nat \<Rightarrow> nat" where
  "limits_digits10 w = (if w = 8 then 2 else if w = 16 then 4 else if w = 32 then 9 else 19)"

definition MaxString :: "nat \<Rightarrow> string" where
  "MaxString w = (if w = 8 then ''255'' else if w = 16 then ''65535'' else if w = 32 then ''4294967295''
     else ''18446744073709551615'')"

definition OOR :: nat where
  "OOR = 10000"

text \<open>The lookup tables \<open>shift1\<close>, \<open>shift10\<close>, \<open>shift100\<close> and \<open>shift1000\<close>. A negative \<open>char\<close> becomes an
  index far outside the table.\<close>

definition shift_table :: "nat \<Rightarrow> char \<Rightarrow> conv_error + nat" where
  "shift_table k c =
     (if of_char c \<ge> (128 :: nat) then Inl TableIndex
      else if isdigit c then Inr ((of_char c - 48) * k) else Inr OOR)"

text \<open>\<open>strncmp\<close> with a terminated second argument.\<close>

fun strncmp :: "string \<Rightarrow> string \<Rightarrow> nat \<Rightarrow> int" where
  "strncmp s t 0 = 0"
| "strncmp [] t (Suc n) = 0"
| "strncmp (c # s) [] (Suc n) = (if of_char c = (0 :: nat) then 0 else 1)"
| "strncmp (c # s) (d # t) (Suc n) =
     (if c \<noteq> d then int (of_char c) - int (of_char d)
      else if of_char c = (0 :: nat) then 0 else strncmp s t n)"

fun skip_zeros :: "string \<Rightarrow> string option" where
  "skip_zeros [] = None"
| "skip_zeros (c # cs) = (if c \<noteq> CHR ''0'' then Some (c # cs) else skip_zeros cs)"

definition lookups :: "(nat \<times> char) list \<Rightarrow> conv_error + nat" where
  "lookups xs = foldl (\<lambda>s (k, c). rbind s (\<lambda>s. rbind (shift_table k c) (\<lambda>r. Inr (s + r)))) (Inr 0) xs"

fun digits_loop :: "'a :: len word \<Rightarrow> string \<Rightarrow> conv_error + 'a word" where
  "digits_loop r (c0 # c1 # c2 # c3 # cs) =
     rbind (lookups [(1000, c0), (100, c1), (10, c2), (1, c3)]) (\<lambda>s.
       digits_loop (r * 10000 + of_nat s) cs)"
| "digits_loop r [c0, c1, c2] =
     rbind (lookups [(100, c0), (10, c1), (1, c2)]) (\<lambda>s. Inr (r * 1000 + of_nat s))"
| "digits_loop r [c0, c1] = rbind (lookups [(10, c0), (1, c1)]) (\<lambda>s. Inr (r * 100 + of_nat s))"
| "digits_loop r [c0] = rbind (lookups [(1, c0)]) (\<lambda>s. Inr (r * 10 + of_nat s))"
| "digits_loop r [] = Inr r"

definition convert_digits :: "string \<Rightarrow> conv_error + 'a :: len word" where
  "convert_digits s = rbind (digits_loop 0 s) (\<lambda>r. rbind (RANGE_CHECK (length s > 0) NoDigits) (\<lambda>_. Inr r))"

lemma skip_zeros_shorter: "skip_zeros s = Some t \<Longrightarrow> length t \<le> length s"
  by (induction s) (auto split: if_splits)

function digits_to :: "string \<Rightarrow> conv_error + 'a :: len word" where
  "digits_to s =
     (if length s \<ge> limits_digits10 LENGTH('a) + 1 then
        (if s \<noteq> [] \<and> hd s = CHR ''0'' then
           (case skip_zeros (tl s) of None \<Rightarrow> Inr 0 | Some t \<Rightarrow> digits_to t)
         else
           rbind (RANGE_CHECK (length s = limits_digits10 LENGTH('a) + 1 \<and>
                    strncmp s (MaxString LENGTH('a)) (length s) \<le> 0) NumericOverflow) (\<lambda>_.
           convert_digits s))
      else convert_digits s)"
  by pat_completeness auto
termination
  by (relation "measure length") (auto dest!: skip_zeros_shorter simp: neq_Nil_conv le_imp_less_Suc)

declare digits_to.simps [simp del]

definition to_unsigned_range :: "string \<Rightarrow> conv_error + 'a :: len word" where
  "to_unsigned_range s = digits_to s"

definition to_signed_range :: "string \<Rightarrow> conv_error + 'a :: len word" where
  "to_signed_range s =
     rbind (RANGE_CHECK (s \<noteq> []) EmptyInput) (\<lambda>_.
       if \<not> isdigit (hd s) \<and> hd s = CHR ''-'' then
         rbind (to_unsigned_range (tl s)) (\<lambda>u.
           let result = - u in rbind (RANGE_CHECK (sint result \<le> 0) NegativeOverflow) (\<lambda>_. Inr result))
       else
         rbind (if \<not> isdigit (hd s) then rbind (RANGE_CHECK (hd s = CHR ''+'') InvalidLead) (\<lambda>_. Inr (tl s))
                else Inr s) (\<lambda>s.
         rbind (to_unsigned_range s) (\<lambda>result.
           rbind (RANGE_CHECK (sint result \<ge> 0) PositiveOverflow) (\<lambda>_. Inr result))))"

fun skip_spaces :: "conv_error \<Rightarrow> string \<Rightarrow> conv_error + string" where
  "skip_spaces e [] = Inl e"
| "skip_spaces e (c # cs) = (if \<not> isspace c then Inr (c # cs) else skip_spaces e cs)"

text \<open>\<open>to<Tgt>(StringPiece*)\<close>, with \<open>std::is_signed<Tgt>\<close> as an argument; the second part of the result
  is what is left of the piece.\<close>

definition to_piece :: "bool \<Rightarrow> string \<Rightarrow> conv_error + 'a :: len word \<times> string" where
  "to_piece is_sgn src =
     rbind (skip_spaces NoDigitsInInput src) (\<lambda>b.
     rbind (if is_sgn \<and> \<not> isdigit (hd b) then
              (if hd b = CHR ''-'' then Inr (True, tl b)
               else rbind (RANGE_CHECK (hd b = CHR ''+'') InvalidLead) (\<lambda>_. Inr (False, tl b)))
            else Inr (False, b)) (\<lambda>(negative, m).
     rbind (RANGE_CHECK (m \<noteq> []) NoDigitsInInput) (\<lambda>_.
     rbind (RANGE_CHECK (isdigit (hd m)) NonDigit) (\<lambda>_.
       case findFirstNonDigit (tl m) of (ds, rest) \<Rightarrow>
         rbind (digits_to (hd m # ds)) (\<lambda>t.
           if \<not> is_sgn then Inr (t, rest)
           else if negative then rbind (RANGE_CHECK (sint (- t) \<le> 0) NegativeOverflow) (\<lambda>_. Inr (- t, rest))
           else rbind (RANGE_CHECK (sint t \<ge> 0) PositiveOverflow) (\<lambda>_. Inr (t, rest)))))))"

fun enforceWhitespace :: "string \<Rightarrow> conv_error + unit" where
  "enforceWhitespace [] = Inr ()"
| "enforceWhitespace (c # cs) = rbind (RANGE_CHECK (isspace c) NonWhitespace) (\<lambda>_. enforceWhitespace cs)"

definition to_string_piece :: "bool \<Rightarrow> string \<Rightarrow> conv_error + 'a :: len word" where
  "to_string_piece is_sgn src =
     rbind (to_piece is_sgn src) (\<lambda>(r, rest). rbind (enforceWhitespace rest) (\<lambda>_. Inr r))"

section \<open>Strings to bool\<close>

definition tolower :: "char \<Rightarrow> char" where
  "tolower c = (if 65 \<le> (of_char c :: nat) \<and> of_char c \<le> (90 :: nat) then char_of (of_char c + 32 :: nat) else c)"

fun bool_str_cmp :: "string \<Rightarrow> string \<Rightarrow> string option" where
  "bool_str_cmp p [] = Some p"
| "bool_str_cmp [] (v # vs) = None"
| "bool_str_cmp (c # p) (v # vs) = (if tolower c \<noteq> v then None else bool_str_cmp p vs)"

definition word_or_letter :: "bool \<Rightarrow> string \<Rightarrow> string \<Rightarrow> bool \<times> string" where
  "word_or_letter r b v = (r, case bool_str_cmp b v of Some b' \<Rightarrow> b' | None \<Rightarrow> tl b)"

definition str_to_bool :: "string \<Rightarrow> conv_error + bool \<times> string" where
  "str_to_bool src =
     rbind (skip_spaces NoNonWhitespace src) (\<lambda>b.
       let c = hd b in
       if c = CHR ''0'' \<or> c = CHR ''1'' then
         rbind (to_piece False src) (\<lambda>(v :: u8, rest).
           rbind (RANGE_CHECK (v \<le> 1) BoolOverflow) (\<lambda>_. Inr (v = 1, rest)))
       else if c = CHR ''y'' \<or> c = CHR ''Y'' then Inr (word_or_letter True b ''yes'')
       else if c = CHR ''n'' \<or> c = CHR ''N'' then Inr (word_or_letter False b ''no'')
       else if c = CHR ''t'' \<or> c = CHR ''T'' then Inr (word_or_letter True b ''true'')
       else if c = CHR ''f'' \<or> c = CHR ''F'' then Inr (word_or_letter False b ''false'')
       else if c = CHR ''o'' \<or> c = CHR ''O'' then
         (case bool_str_cmp b ''on'' of
            Some b' \<Rightarrow> Inr (True, b')
          | None \<Rightarrow> (case bool_str_cmp b ''off'' of Some b' \<Rightarrow> Inr (False, b') | None \<Rightarrow> Inl InvalidBool))
       else Inl InvalidBool)"

definition to_bool :: "string \<Rightarrow> conv_error + bool" where
  "to_bool src = rbind (str_to_bool src) (\<lambda>(r, rest). rbind (enforceWhitespace rest) (\<lambda>_. Inr r))"

section \<open>Checked conversions between integer types\<close>

definition std_int :: "int_type \<Rightarrow> bool" where
  "std_int t \<longleftrightarrow> int_bits t \<in> {8, 16, 32, 64}"

lemma mod_wrap: "- m \<le> v \<Longrightarrow> v < 0 \<Longrightarrow> v mod m = v + m" for v m :: int
proof -
  assume v: "- m \<le> v" "v < 0"
  have "v mod m = (v + m) mod m" by simp
  also have "\<dots> = v + m" using v by (intro mod_pos_pos_trivial) auto
  finally show ?thesis .
qed

text \<open>The checked conversion between integer types: a value above the target's range is refused, one
  below it is refused as well unless the target is at least as wide as the source and as \<open>int\<close>, when it
  wraps around unnoticed; every other value is kept.\<close>

lemma to_integral_outcome:
  assumes "std_int T" "std_int S" "type_min S \<le> v" "v \<le> type_max S"
  shows "to_integral T S v =
    (if type_max T < v then Inl PositiveOverflow
     else if v < type_min T
     then (if 32 \<le> int_bits T \<and> int_bits S \<le> int_bits T then Inr (v + 2 ^ int_bits T) else Inl NegativeOverflow)
     else Inr v)"
proof -
  obtain tb ts where T: "T = \<lparr> int_bits = tb, int_signed = ts \<rparr>" by (cases T) auto
  obtain sb ss where S: "S = \<lparr> int_bits = sb, int_signed = ss \<rparr>" by (cases S) auto
  note d = to_integral_def greater_than_def less_than_def c_less_def c_leq_def common_type_def promote_def
    Let_def type_min_def type_max_def RANGE_CHECK_def int_cast_def
  have "tb = 8 \<or> tb = 16 \<or> tb = 32 \<or> tb = 64" "sb = 8 \<or> sb = 16 \<or> sb = 32 \<or> sb = 64"
    using assms by (auto simp: std_int_def T S)
  thus ?thesis using assms(3,4) unfolding T S
    by (elim disjE; cases ts; cases ss) (simp_all add: d mod_wrap)
qed

section \<open>Decimal strings\<close>

fun decimal :: "nat \<Rightarrow> string" where
  "decimal n = (if n < 10 then [digit_char n] else decimal (n div 10) @ [digit_char (n mod 10)])"

declare decimal.simps [simp del]

definition dec_val :: "string \<Rightarrow> nat" where
  "dec_val s = foldl (\<lambda>a c. 10 * a + (of_char c - 48)) 0 s"

lemma decimal_nonempty [simp]: "decimal n \<noteq> []"
  by (subst decimal.simps) simp

lemma decimal_small: "n < 10 \<Longrightarrow> decimal n = [digit_char n]"
  by (simp add: decimal.simps)

lemma decimal_big: "10 \<le> n \<Longrightarrow> decimal n = decimal (n div 10) @ [digit_char (n mod 10)]"
  by (subst decimal.simps) simp

lemma of_digit_char [simp]: "d < 10 \<Longrightarrow> of_char (digit_char d) = 48 + d"
  by (simp add: digit_char_def)

lemma dec_val_snoc [simp]: "dec_val (s @ [c]) = 10 * dec_val s + (of_char c - 48)"
  by (simp add: dec_val_def)

lemma dec_val_decimal [simp]: "dec_val (decimal n) = n"
proof (induction n rule: decimal.induct)
  case (1 n)
  show ?case
  proof (cases "n < 10")
    case True
    thus ?thesis by (simp add: decimal_small) (simp add: dec_val_def)
  qed (use 1 in \<open>simp add: decimal_big\<close>)
qed

lemma decimal_digits: "c \<in> set (decimal n) \<Longrightarrow> isdigit c"
proof (induction n rule: decimal.induct)
  case (1 n)
  show ?case
  proof (cases "n < 10")
    case True
    thus ?thesis using 1(2) by (simp add: decimal_small isdigit_def)
  qed (use 1 in \<open>auto simp: decimal_big isdigit_def\<close>)
qed

lemma length_decimal_big: "10 \<le> n \<Longrightarrow> length (decimal n) = Suc (length (decimal (n div 10)))"
  by (simp add: decimal_big)

lemma length_decimal_le: "0 < m \<Longrightarrow> length (decimal n) \<le> m \<longleftrightarrow> n < 10 ^ m"
proof (induction m arbitrary: n)
  case (Suc m)
  show ?case
  proof (cases "n < 10")
    case True
    moreover have "(10 :: nat) \<le> 10 ^ Suc m" by simp
    ultimately show ?thesis by (simp add: decimal_small del: power_Suc)
  next
    case big: False
    show ?thesis
    proof (cases "m = 0")
      case True
      thus ?thesis using big by (simp add: length_decimal_big)
    next
      case False
      thus ?thesis using Suc.IH [of "n div 10"] big by (simp add: length_decimal_big div_less_iff_less_mult mult.commute)
    qed
  qed
qed simp

lemma digits10_loop_length: "digits10_loop v r + 1 = r + length (decimal (unat v))"
proof (induction v r rule: digits10_loop.induct)
  case (1 v r)
  show ?case
  proof (cases "v < 10000")
    case True
    thus ?thesis
      by (subst digits10_loop.simps) (auto simp: word_less_nat_alt length_decimal_big decimal_small not_less)
  next
    case False
    hence v: "10000 \<le> unat v" by (simp add: word_less_nat_alt not_less)
    have "\<not> v < 10" "\<not> v < 100" "\<not> v < 1000" using v by (auto simp: word_less_nat_alt)
    hence "digits10_loop v r + 1 = r + 4 + length (decimal (unat (v div 10000)))"
      using 1 False by (subst digits10_loop.simps) simp
    also have "\<dots> = r + length (decimal (unat v))"
      using v by (simp add: length_decimal_big unat_div div_mult2_eq [symmetric] less_eq_div_iff_mult_less_eq)
    finally show ?thesis .
  qed
qed

lemma digits10_length: "digits10 v = length (decimal (unat v))"
  using digits10_loop_length [of v 1] by (simp add: digits10_def)

lemma length_decimal_pos: "0 < length (decimal n)"
  by simp

text \<open>The loop fills the buffer backwards from \<open>pos\<close>.\<close>

lemma buffer_loop_writes:
  "pos < length buf \<Longrightarrow> length (decimal (unat v)) \<le> pos + 1 \<Longrightarrow>
   buffer_loop w v buf pos =
     Inr (pos + 1 - length (decimal (unat v)),
          take (pos + 1 - length (decimal (unat v))) buf @ decimal (unat v) @ drop (pos + 1) buf)"
proof (induction w v buf pos rule: buffer_loop.induct)
  case (1 w v buf pos)
  show ?case
  proof (cases "v \<ge> 10")
    case False
    hence "unat v < 10" by (simp add: word_le_nat_alt)
    thus ?thesis using False 1(2)
      by (simp add: buffer_loop.simps [of w v] put_char_def decimal_small upd_conv_take_nth_drop)
  next
    case True
    hence v: "10 \<le> unat v" by (simp add: word_le_nat_alt)
    let ?c = "digit_char (unat v mod 10)" and ?q = "unat v div 10"
    have pc: "put_char buf pos (digit_char (unat (v mod 10))) = Inr (buf[pos := ?c])"
      using 1(2) by (simp add: put_char_def unat_mod)
    have k: "length (decimal ?q) \<le> pos" "pos \<noteq> 0"
      using 1(3) v length_decimal_pos [of ?q] by (auto simp: length_decimal_big simp del: length_greater_0_conv)
    have "buffer_loop w (v div 10) (buf[pos := ?c]) (pos_dec w pos) =
        Inr (pos - length (decimal ?q), take (pos - length (decimal ?q)) (buf[pos := ?c]) @ decimal ?q @ drop pos (buf[pos := ?c]))"
      using 1(1) [OF True pc] k 1(2) by (simp add: pos_dec_def unat_div)
    moreover have "drop pos (buf[pos := ?c]) = ?c # drop (pos + 1) buf"
      using 1(2) by (simp add: upd_conv_take_nth_drop)
    moreover have "take (pos - length (decimal ?q)) (buf[pos := ?c]) = take (pos - length (decimal ?q)) buf"
      by (rule take_update_cancel) simp
    ultimately show ?thesis
      using True pc v by (simp add: buffer_loop.simps [of w v] decimal_big)
  qed
qed

lemma unat_u64_below: "unat (v :: u64) < 10 ^ 20"
proof -
  have "unat v < 2 ^ LENGTH(64)" by (rule unsigned_less)
  thus ?thesis by simp
qed

lemma digits10_bound: "digits10 v \<le> 20"
  using unat_u64_below [of v] by (simp add: digits10_length length_decimal_le)

lemma uint64ToBufferUnsafe_writes:
  assumes "digits10 v \<le> length buf"
  shows "\<exists>buf'. uint64ToBufferUnsafe v buf = Inr (length (decimal (unat v)), buf') \<and> length buf' = length buf \<and>
    take (length (decimal (unat v))) buf' = decimal (unat v)"
proof -
  let ?k = "length (decimal (unat v))"
  have k: "0 < ?k" by simp
  have "buffer_loop 32 v buf (?k - 1) = Inr (0, decimal (unat v) @ drop ?k buf)"
    using buffer_loop_writes [of "?k - 1" buf v 32] assms k
    by (simp add: digits10_length del: length_greater_0_conv)
  thus ?thesis using assms by (simp add: uint64ToBufferUnsafe_def Let_def digits10_length)
qed

definition decimal_int :: "int \<Rightarrow> string" where
  "decimal_int v = (if v < 0 then ''-'' @ decimal (nat (- v)) else decimal (nat v))"

lemma toAppend_unsigned_appends:
  "length buffer0 = 20 \<Longrightarrow> toAppend_unsigned buffer0 v s = Inr (s @ decimal (unat v))"
  using uint64ToBufferUnsafe_writes [of v buffer0] digits10_bound [of v]
  by (auto simp: toAppend_unsigned_def)

lemma unat_word_of_int: "0 \<le> v \<Longrightarrow> v < 2 ^ LENGTH('a) \<Longrightarrow> unat (word_of_int v :: 'a :: len word) = nat v"
  by (simp add: unsigned_of_int take_bit_int_eq_self)

lemma toAppend_signed_appends:
  assumes "length buffer0 = 20" "- (2 ^ 63) \<le> v" "v < 2 ^ 63"
  shows "toAppend_signed buffer0 v s = Inr (s @ decimal_int v)"
proof (cases "v < 0")
  case True
  have "unat (word_of_int (- v) :: u64) = nat (- v)" using True assms(2) by (intro unat_word_of_int) simp_all
  hence "unat (- word_of_int v :: u64) = nat (- v)" by (simp only: of_int_minus)
  thus ?thesis using True uint64ToBufferUnsafe_writes [of "- word_of_int v" buffer0] digits10_bound assms(1)
    by (auto simp: toAppend_signed_def decimal_int_def)
next
  case False
  hence "unat (word_of_int v :: u64) = nat v" using assms(3) by (simp add: unat_word_of_int)
  thus ?thesis using False uint64ToBufferUnsafe_writes [of "word_of_int v" buffer0] digits10_bound assms(1)
    by (auto simp: toAppend_signed_def decimal_int_def)
qed

text \<open>128-bit values: the wide loop stops below \<open>2 ^ 64\<close>, where the fast one goes on.\<close>

lemma telescope_wide_writes:
  "p < length buf \<Longrightarrow> length (decimal (unat x)) \<le> p + 1 \<Longrightarrow>
   \<exists>y buf' q ds. telescope_wide x buf p = Inr (y, buf', q) \<and> unat y < 2 ^ 64 \<and>
     decimal (unat x) = decimal (unat y) @ ds \<and> q + length ds = p \<and>
     buf' = take (q + 1) buf @ ds @ drop (p + 1) buf"
proof (induction x buf p rule: telescope_wide.induct)
  case (1 x buf p)
  show ?case
  proof (cases "x \<ge> push_bit 64 1")
    case False
    hence "unat x < 2 ^ 64" by (simp add: word_le_nat_alt push_bit_of_1)
    moreover have "buf = take (p + 1) buf @ drop (p + 1) buf" by simp
    ultimately show ?thesis using False 1(2) by (simp add: telescope_wide.simps [of x])
  next
    case True
    hence v: "10 \<le> unat x" by (simp add: word_le_nat_alt push_bit_of_1)
    let ?c = "digit_char (unat x mod 10)" and ?q = "unat x div 10"
    have pc: "put_char buf p (digit_char (unat (x mod 10))) = Inr (buf[p := ?c])"
      using 1(2) by (simp add: put_char_def unat_mod)
    have k: "length (decimal ?q) \<le> p" "p \<noteq> 0"
      using 1(3) v length_decimal_pos [of ?q] by (auto simp: length_decimal_big simp del: length_greater_0_conv)
    have "p - 1 < length (buf[p := ?c])" "length (decimal (unat (x div 10))) \<le> p - 1 + 1"
      using 1(2) k by (simp_all add: unat_div)
    then obtain y buf' q ds where r: "telescope_wide (x div 10) (buf[p := ?c]) (pos_dec 64 p) = Inr (y, buf', q)"
      "unat y < 2 ^ 64" "decimal ?q = decimal (unat y) @ ds" "q + length ds = p - 1"
      "buf' = take (q + 1) (buf[p := ?c]) @ ds @ drop p (buf[p := ?c])"
      using 1(1) [OF True pc] k(2) by (auto simp: pos_dec_def unat_div)
    have "drop p (buf[p := ?c]) = ?c # drop (p + 1) buf" using 1(2) by (simp add: upd_conv_take_nth_drop)
    moreover have "take (q + 1) (buf[p := ?c]) = take (q + 1) buf" using r(4) k(2) by (intro take_update_cancel) simp
    ultimately have "buf' = take (q + 1) buf @ (ds @ [?c]) @ drop (p + 1) buf" using r(5) by simp
    moreover have "decimal (unat x) = decimal (unat y) @ (ds @ [?c])" using v r(3) by (simp add: decimal_big)
    moreover have "q + length (ds @ [?c]) = p" using r(4) k(2) by simp
    moreover have "telescope_wide x buf p = Inr (y, buf', q)"
      using True pc r(1) by (simp add: telescope_wide.simps [of x])
    ultimately show ?thesis using r(2) by blast
  qed
qed

lemma unsafeTelescope128_writes:
  assumes "length (decimal (unat x)) \<le> length buf"
  shows "\<exists>buf'. unsafeTelescope128 buf (length buf) x = Inr (length buf - length (decimal (unat x)), buf') \<and>
    length buf' = length buf \<and> drop (length buf - length (decimal (unat x))) buf' = decimal (unat x)"
proof -
  let ?p = "length buf - 1"
  have len: "0 < length buf" using assms length_decimal_pos [of "unat x"] by linarith
  obtain y buf1 q ds where r: "telescope_wide x buf ?p = Inr (y, buf1, q)" "unat y < 2 ^ 64"
    "decimal (unat x) = decimal (unat y) @ ds" "q + length ds = ?p"
    "buf1 = take (q + 1) buf @ ds @ drop (?p + 1) buf"
    using telescope_wide_writes [of ?p buf x] assms len by auto
  have u: "unat (ucast y :: u64) = unat y" using r(2) by (simp add: unsigned_ucast_eq take_bit_nat_eq_self)
  have l2: "q + 1 \<le> length buf" and lb: "length buf = q + 1 + length ds" using r(4) len by linarith+
  have l1: "length buf1 = length buf" using r(4,5) len l2 by simp
  note l = l1 l2
  have k: "length (decimal (unat y)) \<le> q + 1" using assms r(3,4) len by simp
  have "buffer_loop 64 (ucast y) buf1 q =
      Inr (q + 1 - length (decimal (unat y)), take (q + 1 - length (decimal (unat y))) buf1 @ decimal (unat y) @ drop (q + 1) buf1)"
    using buffer_loop_writes [of q buf1 "ucast y" 64] l k u by simp
  moreover have "drop (q + 1) buf1 = ds" using r(5) l(2) len by simp
  moreover have "q + 1 - length (decimal (unat y)) = length buf - length (decimal (unat x))"
    using r(3) lb by simp
  moreover have "length (decimal (unat y)) + length ds \<le> length buf" using assms r(3) by simp
  ultimately show ?thesis using r(1,3) l k by (simp add: unsafeTelescope128_def)
qed

lemma unat_u128_below: "unat (x :: 128 word) < 10 ^ 39"
proof -
  have "unat x < 2 ^ LENGTH(128)" by (rule unsigned_less)
  thus ?thesis by simp
qed

lemma length_decimal_u128: "length (decimal (unat (x :: 128 word))) \<le> digitsEnough128"
  using unat_u128_below [of x] by (simp add: length_decimal_le digitsEnough128_def)

lemma toAppend_uint128_appends:
  "length buffer0 = digitsEnough128 \<Longrightarrow> toAppend_uint128 buffer0 x s = Inr (s @ decimal (unat x))"
  using unsafeTelescope128_writes [of x buffer0] length_decimal_u128 [of x]
  by (auto simp: toAppend_uint128_def)

lemma toAppend_int128_appends:
  assumes b: "length buffer0 = digitsEnough128 + 1" and v: "- (2 ^ 127) < v" "v < 2 ^ 127"
  shows "toAppend_int128 buffer0 v s = Inr (s @ decimal_int v)"
proof (cases "v < 0")
  case False
  have "unat (word_of_int v :: 128 word) = nat v" using False v by (intro unat_word_of_int) simp_all
  thus ?thesis using False b unsafeTelescope128_writes [of "word_of_int v" buffer0] length_decimal_u128 [of "word_of_int v"]
    by (auto simp: toAppend_int128_def decimal_int_def)
next
  case True
  let ?x = "word_of_int (- v) :: 128 word"
  define p where "p = digitsEnough128 + 1 - length (decimal (unat ?x))"
  have x: "unat ?x = nat (- v)" using True v by (intro unat_word_of_int) simp_all
  obtain buf where buf: "unsafeTelescope128 buffer0 (digitsEnough128 + 1) ?x = Inr (p, buf)"
    "length buf = digitsEnough128 + 1" "drop p buf = decimal (unat ?x)"
    using unsafeTelescope128_writes [of ?x buffer0] length_decimal_u128 [of ?x] b by (auto simp: p_def)
  have p: "0 < p" "p \<le> digitsEnough128" using length_decimal_u128 [of ?x] length_decimal_pos [of "unat ?x"] unfolding p_def by linarith+
  have "put_char buf (pos_dec 64 p) CHR ''-'' = Inr (buf[p - 1 := CHR ''-''])"
    using p buf(2) by (simp add: put_char_def pos_dec_def)
  moreover have "drop (p - 1) (buf[p - 1 := CHR ''-'']) = CHR ''-'' # drop p buf"
    using p buf(2) by (simp add: upd_conv_take_nth_drop)
  ultimately show ?thesis using True v buf p x by (simp add: toAppend_int128_def pos_dec_def decimal_int_def)
qed

section \<open>Reading digits\<close>

lemma dec_val_Nil [simp]: "dec_val [] = 0"
  by (simp add: dec_val_def)

lemma dec_val_append: "dec_val (s @ t) = dec_val s * 10 ^ length t + dec_val t"
proof (induction t rule: rev_induct)
  case (snoc c t)
  have "dec_val (s @ t @ [c]) = 10 * dec_val (s @ t) + (of_char c - 48)"
    using dec_val_snoc [of "s @ t" c] by simp
  thus ?case using snoc by (simp add: algebra_simps)
qed simp

lemma dec_val_Cons: "dec_val (c # s) = (of_char c - 48) * 10 ^ length s + dec_val s"
  using dec_val_append [of "[c]" s] by (simp add: dec_val_def)

abbreviation all_digits :: "string \<Rightarrow> bool" where
  "all_digits s \<equiv> (\<forall>c \<in> set s. isdigit c)"

lemma shift_table_digit [simp]: "isdigit c \<Longrightarrow> shift_table k c = Inr ((of_char c - 48) * k)"
  by (auto simp: shift_table_def isdigit_def)

lemma digits_loop_val:
  "all_digits s \<Longrightarrow> digits_loop r s = Inr (r * 10 ^ length s + of_nat (dec_val s))" for r :: "'a :: len word"
proof (induction r s rule: digits_loop.induct)
  case (1 r c0 c1 c2 c3 cs)
  have "dec_val (c0 # c1 # c2 # c3 # cs) = dec_val [c0, c1, c2, c3] * 10 ^ length cs + dec_val cs"
    using dec_val_append [of "[c0, c1, c2, c3]" cs] by simp
  moreover have "lookups [(1000, c0), (100, c1), (10, c2), (1, c3)] = Inr (dec_val [c0, c1, c2, c3])"
    using 1(2) by (simp add: lookups_def dec_val_Cons algebra_simps)
  moreover have "digits_loop (r * 10000 + of_nat (dec_val [c0, c1, c2, c3])) cs =
      Inr ((r * 10000 + of_nat (dec_val [c0, c1, c2, c3])) * 10 ^ length cs + of_nat (dec_val cs))"
    using 1(1) [OF calculation(2)] 1(2) by simp
  ultimately show ?case by (simp add: algebra_simps)
qed (simp_all add: lookups_def dec_val_Cons algebra_simps)

lemma dec_val_bound: "all_digits s \<Longrightarrow> dec_val s < 10 ^ length s"
proof (induction s)
  case (Cons c s)
  have "of_char c - 48 \<le> (9 :: nat)" using Cons.prems by (auto simp: isdigit_def)
  hence "(of_char c - 48) * 10 ^ length s \<le> 9 * (10 :: nat) ^ length s" by (rule mult_right_mono) simp
  moreover have "dec_val s < 10 ^ length s" using Cons by simp
  ultimately show ?case unfolding dec_val_Cons length_Cons power_Suc by linarith
qed simp

lemma dec_val_lower: "all_digits s \<Longrightarrow> s \<noteq> [] \<Longrightarrow> hd s \<noteq> CHR ''0'' \<Longrightarrow> 10 ^ (length s - 1) \<le> dec_val s"
proof (cases s)
  case (Cons c t)
  assume "all_digits s" "hd s \<noteq> CHR ''0''"
  hence c: "48 \<le> (of_char c :: nat)" "c \<noteq> CHR ''0''" using Cons by (auto simp: isdigit_def)
  have "of_char c \<noteq> (of_char CHR ''0'' :: nat)" using c(2) by (simp only: of_char_eq_iff not_False_eq_True)
  hence "of_char c \<noteq> (48 :: nat)" by simp
  hence "1 \<le> (of_char c - 48 :: nat)" using c(1) by simp
  hence "1 * 10 ^ length t \<le> (of_char c - 48) * (10 :: nat) ^ length t" by (rule mult_right_mono) simp
  from trans_le_add1 [OF this, of "dec_val t"] have "1 * 10 ^ length t \<le> dec_val s" unfolding Cons dec_val_Cons .
  thus ?thesis using Cons by simp
qed simp

lemma strncmp_digits:
  "all_digits s \<Longrightarrow> all_digits t \<Longrightarrow> length s = n \<Longrightarrow> length t = n \<Longrightarrow>
   strncmp s t n \<le> 0 \<longleftrightarrow> dec_val s \<le> dec_val t"
proof (induction s t n rule: strncmp.induct)
  case (4 c s d t n)
  have b: "dec_val s < 10 ^ n" "dec_val t < 10 ^ n" using 4(2-) dec_val_bound [of s] dec_val_bound [of t] by auto
  have dig: "48 \<le> (of_char c :: nat)" "48 \<le> (of_char d :: nat)" using 4(2,3) by (auto simp: isdigit_def)
  consider "c = d" | "of_char c < (of_char d :: nat)" | "of_char d < (of_char c :: nat)"
    by (metis linorder_neqE_nat of_char_eq_iff)
  thus ?case
  proof cases
    case 1
    thus ?thesis using 4 dig by (simp add: dec_val_Cons)
  next
    case 2
    hence "(of_char c - 48 + 1) * 10 ^ n \<le> (of_char d - 48) * (10 :: nat) ^ n"
      using dig by (intro mult_right_mono) auto
    thus ?thesis using 2 4(4,5) b by (auto simp: dec_val_Cons)
  next
    case 3
    hence "(of_char d - 48 + 1) * 10 ^ n \<le> (of_char c - 48) * (10 :: nat) ^ n"
      using dig by (intro mult_right_mono) auto
    thus ?thesis using 3 4(4,5) b by (auto simp: dec_val_Cons)
  qed
qed auto

text \<open>What a string of digits converts to, at the widths the library instantiates.\<close>

definition parsed :: "string \<Rightarrow> conv_error + 'a :: len word" where
  "parsed s =
     (if s = [] then Inl NoDigits
      else if dec_val s < 2 ^ LENGTH('a) then Inr (of_nat (dec_val s)) else Inl NumericOverflow)"

lemma widths:
  assumes "w \<in> {8, 16, 32, 64}"
  shows "length (MaxString w) = limits_digits10 w + 1" "all_digits (MaxString w)"
    "dec_val (MaxString w) = 2 ^ w - 1" "(10 :: nat) ^ limits_digits10 w < 2 ^ w" "(2 :: nat) ^ w \<le> 10 ^ (limits_digits10 w + 1)"
  using assms by (auto simp: MaxString_def limits_digits10_def isdigit_def dec_val_def)

lemma convert_digits_val:
  "all_digits s \<Longrightarrow> convert_digits s = (if s = [] then Inl NoDigits else Inr (of_nat (dec_val s)))"
  by (simp add: convert_digits_def digits_loop_val RANGE_CHECK_def)

lemma skip_zeros_val:
  "case skip_zeros s of None \<Rightarrow> dec_val s = 0 \<and> set s \<subseteq> {CHR ''0''}
   | Some t \<Rightarrow> dec_val t = dec_val s \<and> set t \<subseteq> set s \<and> t \<noteq> []"
proof (induction s)
  case (Cons c s)
  show ?case
  proof (cases "c = CHR ''0''")
    case True
    thus ?thesis using Cons by (auto simp: dec_val_Cons split: option.splits)
  qed simp
qed simp

lemma digits_to_parsed:
  assumes "LENGTH('a) \<in> {8, 16, 32, 64}" "all_digits s"
  shows "digits_to s = (parsed s :: conv_error + 'a :: len word)"
  using assms(2)
proof (induction s rule: measure_induct_rule [of length])
  case (less s)
  let ?D = "limits_digits10 LENGTH('a)"
  note w = widths [OF assms(1)]
  show ?case
  proof (cases "length s \<ge> ?D + 1")
    case False
    hence "dec_val s < 10 ^ length s" "(10 :: nat) ^ length s \<le> 10 ^ ?D"
      using dec_val_bound [OF less.prems] by (simp_all add: power_increasing)
    hence "dec_val s < 2 ^ LENGTH('a)" using w(4) by linarith
    thus ?thesis using False less.prems by (simp add: digits_to.simps [of s] convert_digits_val parsed_def)
  next
    case True
    hence ne: "s \<noteq> []" by auto
    show ?thesis
    proof (cases "hd s = CHR ''0''")
      case z: True
      have s: "s = CHR ''0'' # tl s" using ne z by (cases s) auto
      have v: "dec_val s = dec_val (tl s)" by (subst s) (simp add: dec_val_Cons)
      show ?thesis
      proof (cases "skip_zeros (tl s)")
        case None
        thus ?thesis using skip_zeros_val [of "tl s"] True z ne v by (simp add: digits_to.simps [of s] parsed_def)
      next
        case (Some t)
        have t: "dec_val t = dec_val s" "t \<noteq> []" "all_digits t"
          using skip_zeros_val [of "tl s"] Some v less.prems ne by (auto dest: list.set_sel(2))
        have "length t < length s" using skip_zeros_shorter [OF Some] ne by (simp add: le_less_trans)
        thus ?thesis using less.IH [of t] t Some True z ne by (simp add: digits_to.simps [of s] parsed_def)
      qed
    next
      case nz: False
      show ?thesis
      proof (cases "length s = ?D + 1")
        case len: True
        have "strncmp s (MaxString LENGTH('a)) (length s) \<le> 0 \<longleftrightarrow> dec_val s \<le> 2 ^ LENGTH('a) - 1"
          using strncmp_digits [OF less.prems w(2) len] w(1,3) len by simp
        also have "\<dots> \<longleftrightarrow> dec_val s < 2 ^ LENGTH('a)" by (simp add: Suc_le_eq less_eq_Suc_le [symmetric] le_diff_conv2)
        finally show ?thesis using len nz ne less.prems
          by (simp add: digits_to.simps [of s] RANGE_CHECK_def convert_digits_val parsed_def)
      next
        case len: False
        hence "(10 :: nat) ^ (?D + 1) \<le> 10 ^ (length s - 1)" using True by (intro power_increasing) auto
        hence "\<not> dec_val s < 2 ^ LENGTH('a)" using dec_val_lower [OF less.prems ne nz] w(5) by linarith
        thus ?thesis using len nz ne True by (simp add: digits_to.simps [of s] RANGE_CHECK_def parsed_def)
      qed
    qed
  qed
qed

section \<open>Reading signed numbers\<close>

lemma sint_of_small:
  assumes "u < 2 ^ LENGTH('a)"
  shows "sint (of_nat u :: 'a :: len word) = (if u < 2 ^ (LENGTH('a) - 1) then int u else int u - 2 ^ LENGTH('a))"
proof -
  obtain n where n: "LENGTH('a) = Suc n" using len_gt_0 [where 'a = 'a] gr0_implies_Suc by blast
  have u: "uint (of_nat u :: 'a word) = int u"
    using assms by (simp add: unsigned_of_nat take_bit_nat_eq_self)
  have "sint (of_nat u :: 'a word) = take_bit (Suc n) (int u + 2 ^ n) - 2 ^ n"
    unfolding sint_uint u n by (simp add: signed_take_bit_eq_take_bit_shift)
  also have "\<dots> = (if u < 2 ^ n then int u else int u - 2 ^ Suc n)"
  proof (cases "u < 2 ^ n")
    case True
    hence "int u + 2 ^ n < 2 ^ Suc n" by simp
    thus ?thesis using True by (simp add: take_bit_int_eq_self del: power_Suc)
  next
    case False
    have "take_bit (Suc n) (int u + 2 ^ n) = take_bit (Suc n) (int u - 2 ^ n + 2 ^ Suc n)"
      by (simp add: add.commute)
    also have "\<dots> = take_bit (Suc n) (int u - 2 ^ n)" by (simp add: take_bit_eq_mod del: power_Suc)
    also have "\<dots> = int u - 2 ^ n"
    proof (rule take_bit_int_eq_self)
      have "int u < 2 ^ Suc n" using assms unfolding n by (metis of_nat_less_iff of_nat_numeral of_nat_power)
      moreover have "0 < (2 :: int) ^ n" by simp
      ultimately show "int u - 2 ^ n < 2 ^ Suc n" by linarith
      show "0 \<le> int u - 2 ^ n" using False by (simp add: not_less)
    qed
    finally show ?thesis using False by simp
  qed
  finally show ?thesis by (simp add: n)
qed

lemma sint_uminus_le_0:
  assumes "u < 2 ^ LENGTH('a)"
  shows "sint (- of_nat u :: 'a :: len word) \<le> 0 \<longleftrightarrow> u \<le> 2 ^ (LENGTH('a) - 1)"
proof (cases "u = 0")
  case False
  define h where "h = (2 :: nat) ^ (LENGTH('a) - 1)"
  have p: "(2 :: nat) ^ LENGTH('a) = 2 * h" "(2 :: int) ^ LENGTH('a) = 2 * int h"
    by (simp_all add: h_def flip: power_Suc)
  have m: "2 * h - u < 2 ^ LENGTH('a)" and u: "u < 2 * h" using False assms unfolding p by simp_all
  have "of_nat u + of_nat (2 * h - u) = (of_nat (2 ^ LENGTH('a)) :: 'a word)"
    unfolding p using u by (simp flip: of_nat_add)
  hence "of_nat u + of_nat (2 * h - u) = (0 :: 'a word)" by simp
  hence "- of_nat u = (of_nat (2 * h - u) :: 'a word)" by (rule minus_unique)
  hence "sint (- of_nat u :: 'a word) = (if 2 * h - u < h then int (2 * h - u) else int (2 * h - u) - 2 * int h)"
    using sint_of_small [OF m] unfolding p h_def [symmetric] by simp
  thus ?thesis using u False unfolding h_def [symmetric] by auto
qed simp

lemma sint_ge_0:
  "u < 2 ^ LENGTH('a) \<Longrightarrow> 0 \<le> sint (of_nat u :: 'a :: len word) \<longleftrightarrow> u < 2 ^ (LENGTH('a) - 1)"
  using sint_of_small [of u, where 'a = 'a] by (auto simp flip: of_nat_power)

lemma findFirstNonDigit_split:
  "all_digits ds \<Longrightarrow> rest = [] \<or> \<not> isdigit (hd rest) \<Longrightarrow> findFirstNonDigit (ds @ rest) = (ds, rest)"
proof (induction ds)
  case Nil
  thus ?case by (cases rest) auto
qed simp

lemma skip_spaces_skips: "\<forall>c \<in> set ws. isspace c \<Longrightarrow> skip_spaces e (ws @ s) = skip_spaces e s"
  by (induction ws) auto

lemma enforceWhitespace_ok: "\<forall>c \<in> set ws. isspace c \<Longrightarrow> enforceWhitespace ws = Inr ()"
  by (induction ws) (auto simp: RANGE_CHECK_def)

lemma digit_not_space: "isdigit c \<Longrightarrow> \<not> isspace c"
  by (auto simp: isdigit_def isspace_def)

lemma space_not_digit: "isspace c \<Longrightarrow> \<not> isdigit c"
  using digit_not_space by blast

text \<open>An optional sign and what it makes of the digits after it.\<close>

definition sign_of :: "string \<Rightarrow> int" where
  "sign_of sg = (if sg = ''-'' then - 1 else 1)"

definition parsed_signed :: "string \<Rightarrow> string \<Rightarrow> conv_error + 'a :: len word" where
  "parsed_signed sg ds =
     (let z = sign_of sg * int (dec_val ds) in
      if dec_val ds \<ge> 2 ^ LENGTH('a) then Inl NumericOverflow
      else if z < - (2 ^ (LENGTH('a) - 1)) then Inl NegativeOverflow
      else if z \<ge> 2 ^ (LENGTH('a) - 1) then Inl PositiveOverflow
      else Inr (of_int z))"

lemma parsed_signed_checks:
  "parsed_signed sg ds =
     rbind (if dec_val ds < 2 ^ LENGTH('a) then Inr (of_nat (dec_val ds)) else Inl NumericOverflow)
       (\<lambda>t :: 'a :: len word.
         if sg = ''-'' then rbind (RANGE_CHECK (sint (- t) \<le> 0) NegativeOverflow) (\<lambda>_. Inr (- t))
         else rbind (RANGE_CHECK (sint t \<ge> 0) PositiveOverflow) (\<lambda>_. Inr t))"
proof (cases "dec_val ds < 2 ^ LENGTH('a)")
  case True
  define v h where "v = dec_val ds" and "h = (2 :: nat) ^ (LENGTH('a) - 1)"
  have h: "0 < h" "(2 :: int) ^ (LENGTH('a) - 1) = int h" by (simp_all add: h_def)
  have c: "sint (- of_nat v :: 'a word) \<le> 0 \<longleftrightarrow> v \<le> h" "0 \<le> sint (of_nat v :: 'a word) \<longleftrightarrow> v < h"
    using True by (simp_all add: v_def h_def sint_uminus_le_0 sint_ge_0)
  show ?thesis
    using True h(1) c
    unfolding parsed_signed_def sign_of_def h(2) v_def [symmetric] RANGE_CHECK_def Let_def by auto
qed (simp add: parsed_signed_def)

lemma to_piece_signed:
  assumes w: "LENGTH('a) \<in> {8, 16, 32, 64}" and ds: "all_digits ds" "ds \<noteq> []"
    and sg: "sg \<in> {[], ''+'', ''-''}" and ws: "\<forall>c \<in> set ws. isspace c"
    and rest: "rest = [] \<or> \<not> isdigit (hd rest)"
  shows "to_piece True (ws @ sg @ ds @ rest) = rbind (parsed_signed sg ds) (\<lambda>r :: 'a :: len word. Inr (r, rest))"
proof -
  obtain d t where d: "ds = d # t" "isdigit d" "all_digits t" using ds by (cases ds) auto
  have f: "findFirstNonDigit (t @ rest) = (t, rest)" using d(3) rest by (rule findFirstNonDigit_split)
  have "\<not> isdigit CHR ''-''" "\<not> isspace CHR ''-''" "\<not> isdigit CHR ''+''" "\<not> isspace CHR ''+''"
    by (simp_all add: isdigit_def isspace_def)
  note c = this digit_not_space [OF d(2)]
  have p: "digits_to (d # t) = (parsed (d # t) :: conv_error + 'a word)" using digits_to_parsed [OF w ds(1)] d by simp
  show ?thesis
    using sg c d(2) f ds(2) unfolding to_piece_def skip_spaces_skips [OF ws] d(1)
    by (auto simp: p parsed_def parsed_signed_checks RANGE_CHECK_def)
qed

lemma spaces_end_digits: "\<forall>c \<in> set ws. isspace c \<Longrightarrow> ws = [] \<or> \<not> isdigit (hd ws)"
  by (cases ws) (auto dest: space_not_digit)

lemma to_string_piece_signed:
  assumes "LENGTH('a) \<in> {8, 16, 32, 64}" "all_digits ds" "ds \<noteq> []" "sg \<in> {[], ''+'', ''-''}"
    "\<forall>c \<in> set ws. isspace c" "\<forall>c \<in> set ws'. isspace c"
  shows "to_string_piece True (ws @ sg @ ds @ ws') = (parsed_signed sg ds :: conv_error + 'a :: len word)"
  using to_piece_signed [OF assms(1-5) spaces_end_digits [OF assms(6)]] enforceWhitespace_ok [OF assms(6)]
  by (cases "parsed_signed sg ds :: conv_error + 'a word") (simp_all add: to_string_piece_def)

lemma to_string_piece_unsigned:
  assumes w: "LENGTH('a) \<in> {8, 16, 32, 64}" and ds: "all_digits ds" "ds \<noteq> []"
    and ws: "\<forall>c \<in> set ws. isspace c" "\<forall>c \<in> set ws'. isspace c"
  shows "to_string_piece False (ws @ ds @ ws') = (parsed ds :: conv_error + 'a :: len word)"
proof -
  obtain d t where d: "ds = d # t" "isdigit d" "all_digits t" using ds by (cases ds) auto
  have f: "findFirstNonDigit (t @ ws') = (t, ws')" using d(3) spaces_end_digits [OF ws(2)] by (rule findFirstNonDigit_split)
  have p: "digits_to (d # t) = (parsed (d # t) :: conv_error + 'a word)" using digits_to_parsed [OF w ds(1)] d by simp
  show ?thesis
    using d(2) digit_not_space [OF d(2)] f enforceWhitespace_ok [OF ws(2)]
    unfolding to_string_piece_def to_piece_def skip_spaces_skips [OF ws(1)] d(1)
    by (auto simp: p parsed_def RANGE_CHECK_def)
qed

lemma print_parse_signed:
  assumes w: "LENGTH('a) \<in> {8, 16, 32, 64}" and v: "- (2 ^ (LENGTH('a) - 1)) \<le> v" "v < 2 ^ (LENGTH('a) - 1)"
  shows "to_string_piece True (decimal_int v) = Inr (of_int v :: 'a :: len word)"
proof -
  let ?sg = "if v < 0 then ''-'' else []" and ?ds = "decimal (nat \<bar>v\<bar>)"
  have "decimal_int v = [] @ ?sg @ ?ds @ []" by (auto simp: decimal_int_def)
  moreover have "to_string_piece True ([] @ ?sg @ ?ds @ []) = (parsed_signed ?sg ?ds :: conv_error + 'a word)"
    using w decimal_digits by (intro to_string_piece_signed) auto
  moreover have "sign_of ?sg * int (dec_val ?ds) = v" by (simp add: sign_of_def)
  moreover have "(2 :: int) ^ (LENGTH('a) - 1) < 2 ^ LENGTH('a)" by simp
  hence "\<bar>v\<bar> < 2 ^ LENGTH('a)" using v by linarith
  hence "nat \<bar>v\<bar> < 2 ^ LENGTH('a)" by (simp add: nat_less_iff)
  ultimately show ?thesis using v by (simp add: parsed_signed_def)
qed

lemma print_parse_unsigned:
  assumes "LENGTH('a) \<in> {8, 16, 32, 64}"
  shows "to_string_piece False (decimal (unat v)) = Inr (v :: 'a :: len word)"
proof -
  have "to_string_piece False ([] @ decimal (unat v) @ []) = (parsed (decimal (unat v)) :: conv_error + 'a word)"
    using assms decimal_digits by (intro to_string_piece_unsigned) auto
  moreover have "unat v < 2 ^ LENGTH('a)" by (rule unsigned_less)
  ultimately show ?thesis by (simp add: parsed_def)
qed

lemma to_signed_range_parsed:
  assumes w: "LENGTH('a) \<in> {8, 16, 32, 64}" and ds: "all_digits ds" "ds \<noteq> []" and sg: "sg \<in> {[], ''+'', ''-''}"
  shows "to_signed_range (sg @ ds) = (parsed_signed sg ds :: conv_error + 'a :: len word)"
proof -
  obtain d t where d: "ds = d # t" "isdigit d" using ds by (cases ds) auto
  have "\<not> isdigit CHR ''-''" "\<not> isdigit CHR ''+''" by (simp_all add: isdigit_def)
  moreover have "digits_to ds = (parsed ds :: conv_error + 'a word)" using digits_to_parsed [OF w ds(1)] .
  ultimately show ?thesis
    using sg ds(2) d
    by (auto simp: to_signed_range_def to_unsigned_range_def parsed_def parsed_signed_checks RANGE_CHECK_def Let_def)
qed

lemma estimate_is_length:
  assumes "w \<in> {32, 64}" "- (2 ^ (w - 1)) < v" "v < 2 ^ (w - 1)"
  shows "estimateSpaceNeeded_signed w v = Inr (length (decimal_int v))"
proof -
  have "\<bar>v\<bar> < 2 ^ 63" using assms by auto
  hence u: "unat (word_of_int \<bar>v\<bar> :: u64) = nat \<bar>v\<bar>" by (intro unat_word_of_int) simp_all
  show ?thesis
    using assms(2) u by (auto simp: estimateSpaceNeeded_signed_def decimal_int_def digits10_length)
qed

section \<open>Reading booleans\<close>

lemma char_eq_iff_nat: "c = d \<longleftrightarrow> of_char c = (of_char d :: nat)"
  by (simp add: of_char_eq_iff)

lemma tolower_iff:
  "tolower c = CHR ''y'' \<longleftrightarrow> c = CHR ''y'' \<or> c = CHR ''Y''" "tolower c = CHR ''n'' \<longleftrightarrow> c = CHR ''n'' \<or> c = CHR ''N''"
  "tolower c = CHR ''t'' \<longleftrightarrow> c = CHR ''t'' \<or> c = CHR ''T''" "tolower c = CHR ''f'' \<longleftrightarrow> c = CHR ''f'' \<or> c = CHR ''F''"
  "tolower c = CHR ''o'' \<longleftrightarrow> c = CHR ''o'' \<or> c = CHR ''O''"
  by (auto simp: tolower_def char_eq_iff_nat)

lemma tolower_space: "isspace c \<Longrightarrow> tolower c = c"
  by (auto simp: tolower_def isspace_def)

lemma bool_str_cmp_match: "map tolower p = v \<Longrightarrow> bool_str_cmp (p @ r) v = Some r"
  by (induction p arbitrary: v) auto

lemma bool_str_cmp_spaces:
  "\<forall>c \<in> set ws. isspace c \<Longrightarrow> \<not> isspace v \<Longrightarrow> bool_str_cmp ws (v # vs) = None"
  by (cases ws) (auto simp: tolower_space)

lemma word_read:
  assumes "map tolower s = v \<or> map tolower s = [hd v]" "v \<noteq> []" "\<forall>c \<in> set v. \<not> isspace c" "\<forall>c \<in> set ws. isspace c"
    "2 \<le> length v"
  shows "word_or_letter b (s @ ws) v = (b, ws)"
proof -
  obtain v0 v1 vs where v: "v = v0 # v1 # vs" using assms(5) by (metis Suc_le_length_iff numeral_2_eq_2)
  from assms(1) show ?thesis
  proof
    assume "map tolower s = v"
    thus ?thesis by (simp add: word_or_letter_def bool_str_cmp_match)
  next
    assume "map tolower s = [hd v]"
    then obtain c where "s = [c]" "tolower c = v0" using v by auto
    thus ?thesis using bool_str_cmp_spaces [of ws v1 vs] assms(3,4) by (simp add: word_or_letter_def v)
  qed
qed

lemma letter_not_space: "tolower c = v \<Longrightarrow> \<not> isspace v \<Longrightarrow> \<not> isspace c"
  using tolower_space by auto

lemma to_bool_words:
  assumes ws: "\<forall>c \<in> set ws. isspace c" "\<forall>c \<in> set ws'. isspace c"
    and s: "(map tolower s, b) \<in> {(''true'', True), (''t'', True), (''yes'', True), (''y'', True), (''on'', True),
      (''false'', False), (''f'', False), (''no'', False), (''n'', False), (''off'', False)}"
  shows "to_bool (ws @ s @ ws') = Inr b"
proof -
  obtain c t where c: "s = c # t" using s by (cases s) auto
  have ns: "\<not> isspace CHR ''t''" "\<not> isspace CHR ''y''" "\<not> isspace CHR ''o''" "\<not> isspace CHR ''f''"
    "\<not> isspace CHR ''n''" "\<not> isspace CHR ''r''" "\<not> isspace CHR ''u''" "\<not> isspace CHR ''e''" "\<not> isspace CHR ''s''"
    "\<not> isspace CHR ''a''" "\<not> isspace CHR ''l''"
    by (simp_all add: isspace_def)
  have sp: "\<not> isspace c" using s c ns letter_not_space [of c] by auto
  have "str_to_bool (ws @ s @ ws') = str_to_bool (s @ ws')"
    using sp c by (simp add: str_to_bool_def to_piece_def skip_spaces_skips [OF ws(1)])
  also have "\<dots> = Inr (b, ws')"
  proof -
    consider "tolower c = CHR ''t''" "b" "map tolower s = ''true'' \<or> map tolower s = ''t''"
      | "tolower c = CHR ''y''" "b" "map tolower s = ''yes'' \<or> map tolower s = ''y''"
      | "tolower c = CHR ''n''" "\<not> b" "map tolower s = ''no'' \<or> map tolower s = ''n''"
      | "tolower c = CHR ''f''" "\<not> b" "map tolower s = ''false'' \<or> map tolower s = ''f''"
      | "tolower c = CHR ''o''" "b" "map tolower s = ''on''" | "tolower c = CHR ''o''" "\<not> b" "map tolower s = ''off''"
      using s c by auto
    thus ?thesis
    proof cases
      case 1
      thus ?thesis using word_read [of s "''true''" ws' True] ns ws(2) c sp by (auto simp: str_to_bool_def tolower_iff)
    next
      case 2
      thus ?thesis using word_read [of s "''yes''" ws' True] ns ws(2) c sp by (auto simp: str_to_bool_def tolower_iff)
    next
      case 3
      thus ?thesis using word_read [of s "''no''" ws' False] ns ws(2) c sp by (auto simp: str_to_bool_def tolower_iff)
    next
      case 4
      thus ?thesis using word_read [of s "''false''" ws' False] ns ws(2) c sp by (auto simp: str_to_bool_def tolower_iff)
    next
      case 5
      thus ?thesis using bool_str_cmp_match [of s "''on''" ws'] c sp by (auto simp: str_to_bool_def tolower_iff)
    next
      case 6
      have "bool_str_cmp (s @ ws') ''on'' = None" using 6(3) c by auto
      thus ?thesis using 6 bool_str_cmp_match [of s "''off''" ws'] c sp by (auto simp: str_to_bool_def tolower_iff)
    qed
  qed
  finally show ?thesis using enforceWhitespace_ok [OF ws(2)] by (simp add: to_bool_def)
qed

section \<open>Properties\<close>

text \<open>
  C28: an integer of 8, 16, 32 or 64 bits that \<open>toAppend\<close> prints parses back to itself, signed or
  unsigned, the smallest number of the type included, and the buffer on the stack is large enough.
\<close>

theorem integers_print_and_parse:
  fixes w :: "'a :: len word"
  assumes "LENGTH('a) \<in> {8, 16, 32, 64}" "length buffer0 = 20"
  shows "(\<exists>t. toAppend_signed buffer0 (sint w) s = Inr (s @ t) \<and> to_string_piece True t = Inr w) \<and>
    (\<exists>t. toAppend_unsigned buffer0 (ucast w) s = Inr (s @ t) \<and> to_string_piece False t = Inr w)"
proof (intro conjI)
  have range: "- (2 ^ (LENGTH('a) - 1)) \<le> sint w" "sint w < 2 ^ (LENGTH('a) - 1)"
    by (simp_all add: sint_greater_eq sint_less)
  have "LENGTH('a) - 1 \<le> 63" using assms(1) by auto
  hence "(2 :: int) ^ (LENGTH('a) - 1) \<le> 2 ^ 63" by (rule power_increasing) simp
  hence "- (2 ^ 63) \<le> sint w" "sint w < 2 ^ 63" using range by linarith+
  hence "toAppend_signed buffer0 (sint w) s = Inr (s @ decimal_int (sint w))"
    using assms(2) by (intro toAppend_signed_appends)
  thus "\<exists>t. toAppend_signed buffer0 (sint w) s = Inr (s @ t) \<and> to_string_piece True t = Inr w"
    using print_parse_signed [OF assms(1) range] by simp
  have "unat w < 2 ^ LENGTH('a)" by (rule unsigned_less)
  also have "(2 :: nat) ^ LENGTH('a) \<le> 2 ^ 64" using assms(1) by (intro power_increasing) auto
  finally have "unat (ucast w :: u64) = unat w" by (simp add: unsigned_ucast_eq take_bit_nat_eq_self)
  thus "\<exists>t. toAppend_unsigned buffer0 (ucast w) s = Inr (s @ t) \<and> to_string_piece False t = Inr w"
    using toAppend_unsigned_appends [OF assms(2)] print_parse_unsigned [OF assms(1), of w] by simp
qed

theorem integers_print_and_parse_witness:
  "\<exists>t. toAppend_signed (replicate 20 CHR ''?'') (- 128) ''x='' = Inr (''x='' @ t) \<and>
     to_string_piece True t = Inr (128 :: u8)"
  using integers_print_and_parse [of "replicate 20 CHR ''?''" "128 :: u8" "''x=''"] by simp

text \<open>
  C29: digits with an optional sign between white space parse to the number they denote if it fits the
  type, and otherwise to an overflow error; without a sign, for unsigned types, in the same way. No
  digit sum wraps around on the way.
\<close>

theorem integer_parsing:
  assumes "LENGTH('a :: len) \<in> {8, 16, 32, 64}" "all_digits ds" "ds \<noteq> []" "sg \<in> {[], ''+'', ''-''}"
    and "\<forall>c \<in> set ws. isspace c" "\<forall>c \<in> set ws'. isspace c"
  shows "to_string_piece True (ws @ sg @ ds @ ws') =
      (let z = sign_of sg * int (dec_val ds) in
       if dec_val ds \<ge> 2 ^ LENGTH('a) then Inl NumericOverflow
       else if z < - (2 ^ (LENGTH('a) - 1)) then Inl NegativeOverflow
       else if z \<ge> 2 ^ (LENGTH('a) - 1) then Inl PositiveOverflow
       else Inr (of_int z :: 'a word)) \<and>
    to_string_piece False (ws @ ds @ ws') =
      (if dec_val ds < 2 ^ LENGTH('a) then Inr (of_nat (dec_val ds) :: 'a word) else Inl NumericOverflow)"
  using to_string_piece_signed [OF assms] to_string_piece_unsigned [OF assms(1-3,5,6)] assms(3)
  by (simp add: parsed_signed_def parsed_def)

theorem integer_parsing_witness:
  "to_string_piece True ('' '' @ ''-'' @ ''128'' @ []) = Inr (128 :: u8) \<and>
   to_string_piece False ('' '' @ ''256'' @ []) = (Inl NumericOverflow :: conv_error + u8)"
  using integer_parsing [of "''128''" "''-''" "'' ''" "[]", where 'a = 8]
    integer_parsing [of "''256''" "[]" "'' ''" "[]", where 'a = 8]
  by (simp add: isdigit_def isspace_def dec_val_def sign_of_def)

end
