(* ===== verification/Folly_Escape.thy ===== *)
theory Folly_Escape
  imports Chess_Prelude
begin

text \<open>
  \<open>cEscape\<close>, \<open>cUnescape\<close>, \<open>uriEscape\<close> and \<open>uriUnescape\<close> of \<open>folly/String-inl.h\<close>. The loops copy
  runs of regular characters in one go: the state is what is left of the input, the run since \<open>last\<close>
  and the output. The tables are what \<open>folly/build/generate_escape_tables.py\<close> writes. A character is
  its code; \<open>unsigned char\<close> arithmetic is modulo 256. The exceptions the code throws and a read past
  the end of the string are errors.
\<close>

datatype escape_error =
    IncompleteEscape | IncompleteHex | InvalidEscape | IncompletePercent | InvalidPercent | PastEnd

abbreviation code :: "char \<Rightarrow> nat" where
  "code c \<equiv> of_char c"

section \<open>The generated tables\<close>

definition cEscapeTable :: "char \<Rightarrow> char" where
  "cEscapeTable c =
     (if c = CHR 0x22 then CHR 0x22
      else if c = CHR 0x5C then CHR 0x5C
      else if c = CHR ''?'' then CHR ''?''
      else if code c = 10 then CHR ''n''
      else if code c = 13 then CHR ''r''
      else if code c = 9 then CHR ''t''
      else if code c < 32 \<or> code c > 126 then CHR ''O''
      else CHR ''P'')"

definition cUnescapeTable :: "char \<Rightarrow> char" where
  "cUnescapeTable c =
     (if c = CHR 0x27 \<or> c = CHR ''?'' then c
      else if c = CHR 0x22 \<or> c = CHR 0x5C then c
      else if c = CHR ''a'' then CHR 0x07
      else if c = CHR ''b'' then CHR 0x08
      else if c = CHR ''f'' then CHR 0x0C
      else if c = CHR ''n'' then CHR 0x0A
      else if c = CHR ''r'' then CHR 0x0D
      else if c = CHR ''t'' then CHR 0x09
      else if c = CHR ''v'' then CHR 0x0B
      else if 48 \<le> code c \<and> code c \<le> 55 then CHR ''O''
      else if c = CHR ''x'' then CHR ''X''
      else CHR ''I'')"

definition hexTable :: "char \<Rightarrow> nat" where
  "hexTable c =
     (if 48 \<le> code c \<and> code c \<le> 57 then code c - 48
      else if 97 \<le> code c \<and> code c \<le> 102 then code c - 97 + 10
      else if 65 \<le> code c \<and> code c \<le> 70 then code c - 65 + 10
      else 16)"

text \<open>Python's \<open>range\<close> leaves out its end, so \<open>9\<close>, \<open>Z\<close> and \<open>z\<close> are not in the list.\<close>

definition uri_passthrough :: "nat list" where
  "uri_passthrough = [48..<57] @ [65..<90] @ [97..<122] @ map code ''-_.~''"

definition uriEscapeTable :: "char \<Rightarrow> nat" where
  "uriEscapeTable c =
     (if code c \<in> set uri_passthrough then 0
      else if c = CHR ''/'' then 2
      else if c = CHR '' '' then 3
      else 4)"

section \<open>C escapes\<close>

fun cEscape_loop :: "string \<Rightarrow> string \<Rightarrow> string \<Rightarrow> string" where
  "cEscape_loop [] run out = out @ run"
| "cEscape_loop (c # p) run out =
     (let v = code c; e = cEscapeTable c in
      if e = CHR ''P'' then cEscape_loop p (run @ [c]) out
      else if e = CHR ''O'' then
        cEscape_loop p []
          (out @ run @ [CHR 0x5C, char_of (48 + v div 64 mod 8), char_of (48 + v div 8 mod 8), char_of (48 + v mod 8)])
      else cEscape_loop p [] (out @ run @ [CHR 0x5C, e]))"

definition cEscape :: "string \<Rightarrow> string \<Rightarrow> string" where
  "cEscape str out = cEscape_loop str [] out"

fun octal_run :: "nat \<Rightarrow> nat \<Rightarrow> string \<Rightarrow> nat \<times> string" where
  "octal_run 0 val p = (val, p)"
| "octal_run (Suc i) val [] = (val, [])"
| "octal_run (Suc i) val (c # p) =
     (if 48 \<le> code c \<and> code c \<le> 55 then octal_run i ((val * 8 + (code c - 48)) mod 256) p else (val, c # p))"

fun hex_run :: "nat \<Rightarrow> string \<Rightarrow> nat \<times> string" where
  "hex_run val [] = (val, [])"
| "hex_run val (c # p) = (if hexTable c < 16 then hex_run ((val * 16 + hexTable c) mod 256) p else (val, c # p))"

lemma octal_run_shorter: "octal_run i val p = (v, r) \<Longrightarrow> length r \<le> length p"
  by (induction i val p rule: octal_run.induct) (auto split: if_splits)

lemma hex_run_shorter: "hex_run val p = (v, r) \<Longrightarrow> length r \<le> length p"
  by (induction val p rule: hex_run.induct) (auto split: if_splits)

lemma octal_first: "cUnescapeTable c = CHR ''O'' \<longleftrightarrow> 48 \<le> code c \<and> code c \<le> 55"
  by (auto simp: cUnescapeTable_def)

text \<open>After a backslash the code tests \<open>p == str.end()\<close> before it advances \<open>p\<close>, which never holds
  there; then it reads the next character without a test.\<close>

function cUnescape_loop :: "bool \<Rightarrow> string \<Rightarrow> string \<Rightarrow> string \<Rightarrow> escape_error + string" where
  "cUnescape_loop strict [] run out = Inr (out @ run)"
| "cUnescape_loop strict (c # p) run out =
     (if c \<noteq> CHR 0x5C then cUnescape_loop strict p (run @ [c]) out
      else
        (let out = out @ run in
         case p of
           [] \<Rightarrow> Inl PastEnd
         | d # q \<Rightarrow>
             (let e = cUnescapeTable d in
              if e = CHR ''O'' then
                (case octal_run 3 0 (d # q) of (val, r) \<Rightarrow> cUnescape_loop strict r [] (out @ [char_of val]))
              else if e = CHR ''X'' then
                (if q = [] then
                   (if strict then Inl IncompleteHex else cUnescape_loop strict [] [] (out @ [CHR 0x5C, CHR ''x'']))
                 else (case hex_run 0 q of (val, r) \<Rightarrow> cUnescape_loop strict r [] (out @ [char_of val])))
              else if e = CHR ''I'' then
                (if strict then Inl InvalidEscape else cUnescape_loop strict q [] (out @ [CHR 0x5C, d]))
              else cUnescape_loop strict q [] (out @ [e]))))"
  by pat_completeness auto
termination
  by (relation "measure (\<lambda>(st, p, run, out). length p)")
    (auto dest!: octal_run_shorter [OF sym] hex_run_shorter [OF sym] simp: less_Suc_eq_le)

declare cUnescape_loop.simps [simp del]

definition cUnescape :: "bool \<Rightarrow> string \<Rightarrow> string \<Rightarrow> escape_error + string" where
  "cUnescape strict str out = cUnescape_loop strict str [] out"

section \<open>URI escapes\<close>

datatype uri_mode = UriAll | UriQuery | UriPath

primrec mode_value :: "uri_mode \<Rightarrow> nat" where
  "mode_value UriAll = 0"
| "mode_value UriQuery = 1"
| "mode_value UriPath = 2"

definition hexValues :: string where
  "hexValues = ''0123456789abcdef''"

fun uriEscape_loop :: "uri_mode \<Rightarrow> string \<Rightarrow> string \<Rightarrow> string \<Rightarrow> string" where
  "uriEscape_loop mode [] run out = out @ run"
| "uriEscape_loop mode (c # p) run out =
     (let v = code c; discriminator = uriEscapeTable c in
      if discriminator \<le> mode_value mode then uriEscape_loop mode p (run @ [c]) out
      else if mode = UriQuery \<and> discriminator = 3 then uriEscape_loop mode p [] (out @ run @ [CHR ''+''])
      else uriEscape_loop mode p [] (out @ run @ [CHR ''%'', hexValues ! (v div 16), hexValues ! (v mod 16)]))"

definition uriEscape :: "uri_mode \<Rightarrow> string \<Rightarrow> string \<Rightarrow> string" where
  "uriEscape mode str out = uriEscape_loop mode str [] out"

fun uriUnescape_loop :: "uri_mode \<Rightarrow> string \<Rightarrow> string \<Rightarrow> string \<Rightarrow> escape_error + string" where
  "uriUnescape_loop mode [] run out = Inr (out @ run)"
| "uriUnescape_loop mode (c # p) run out =
     (if c = CHR ''%'' then
        (case p of
           a # b # q \<Rightarrow>
             (let h1 = hexTable a; h2 = hexTable b in
              if h1 = 16 \<or> h2 = 16 then Inl InvalidPercent
              else uriUnescape_loop mode q [] (out @ run @ [char_of (h1 * 16 + h2)]))
         | _ \<Rightarrow> Inl IncompletePercent)
      else if c = CHR ''+'' \<and> mode = UriQuery then uriUnescape_loop mode p [] (out @ run @ [CHR '' ''])
      else uriUnescape_loop mode p (run @ [c]) out)"

definition uriUnescape :: "uri_mode \<Rightarrow> string \<Rightarrow> string \<Rightarrow> escape_error + string" where
  "uriUnescape mode str out = uriUnescape_loop mode str [] out"

section \<open>Unescaping undoes escaping\<close>

definition c_esc :: "char \<Rightarrow> string" where
  "c_esc c =
     (let v = code c; e = cEscapeTable c in
      if e = CHR ''P'' then [c]
      else if e = CHR ''O''
      then [CHR 0x5C, char_of (48 + v div 64 mod 8), char_of (48 + v div 8 mod 8), char_of (48 + v mod 8)]
      else [CHR 0x5C, e])"

lemma cEscape_loop_map: "cEscape_loop s run out = out @ run @ concat (map c_esc s)"
  by (induction s run out rule: cEscape_loop.induct) (auto simp: c_esc_def Let_def)

lemma code_less: "code c < 256"
  by (rule nat_of_char_less_256)

lemma char_of_code [simp]: "char_of (code c) = c"
  by (rule char_of_char)

lemma code_char_of: "n < 256 \<Longrightarrow> code (char_of n) = n"
  by (simp add: of_char_of)

lemma octal_digits:
  assumes "v < (256 :: nat)"
  shows "((v div 64 mod 8) * 8 + v div 8 mod 8) * 8 + v mod 8 = v"
proof -
  have "v div 64 = v div 8 div 8" by (simp add: div_mult2_eq [symmetric])
  moreover have "v div 64 mod 8 = v div 64" using assms by (intro mod_less) simp
  ultimately have "(v div 64 mod 8) * 8 + v div 8 mod 8 = v div 8" by simp
  thus ?thesis using div_mult_mod_eq [of v 8] by (simp only:)
qed

lemma octal_three:
  "a < 8 \<Longrightarrow> b < 8 \<Longrightarrow> d < 8 \<Longrightarrow> (a * 8 + b) * 8 + d < 256 \<Longrightarrow>
   octal_run 3 0 (char_of (48 + a) # char_of (48 + b) # char_of (48 + d) # r) = ((a * 8 + b) * 8 + d, r)"
  by (simp add: numeral_3_eq_3 code_char_of)

lemma octal_run_escape:
  "octal_run 3 0 (char_of (48 + code c div 64 mod 8) # char_of (48 + code c div 8 mod 8) #
     char_of (48 + code c mod 8) # r) = (code c, r)"
  using octal_three [of "code c div 64 mod 8" "code c div 8 mod 8" "code c mod 8" r] code_less [of c]
  unfolding octal_digits [OF code_less] by (meson mod_less_divisor zero_less_numeral)

lemma octal_lead: "a < (8 :: nat) \<Longrightarrow> cUnescapeTable (char_of (48 + a)) = CHR ''O''"
  by (simp add: octal_first code_char_of)

lemma code_literals: "code c = 10 \<longleftrightarrow> c = CHR 0x0A" "code c = 13 \<longleftrightarrow> c = CHR 0x0D" "code c = 9 \<longleftrightarrow> c = CHR 0x09"
  using of_char_eq_iff [of c "CHR 0x0A", where 'a = nat] of_char_eq_iff [of c "CHR 0x0D", where 'a = nat]
    of_char_eq_iff [of c "CHR 0x09", where 'a = nat] by simp_all

lemma unescape_c_esc:
  "cUnescape_loop strict (c_esc c @ r) run out =
     (if cEscapeTable c = CHR ''P'' then cUnescape_loop strict r (run @ [c]) out
      else cUnescape_loop strict r [] (out @ run @ [c]))"
proof (cases "cEscapeTable c = CHR ''P'' \<or> cEscapeTable c = CHR ''O''")
  case False
  hence "c = CHR 0x22 \<or> c = CHR 0x5C \<or> c = CHR ''?'' \<or> c = CHR 0x0A \<or> c = CHR 0x0D \<or> c = CHR 0x09"
    by (auto simp: cEscapeTable_def code_literals split: if_splits)
  thus ?thesis
    by (elim disjE) (simp_all add: c_esc_def cEscapeTable_def cUnescapeTable_def cUnescape_loop.simps(2) Let_def)
next
  case True
  have "c \<noteq> CHR 0x5C" using True by (auto simp: cEscapeTable_def)
  thus ?thesis using True octal_run_escape [of c r] octal_lead [of "code c div 64 mod 8"]
    by (auto simp: c_esc_def cUnescape_loop.simps(2) Let_def)
qed

lemma cUnescape_loop_escaped: "cUnescape_loop strict (concat (map c_esc s)) run out = Inr (out @ run @ s)"
  by (induction s arbitrary: run out) (simp_all add: cUnescape_loop.simps(1) unescape_c_esc)

lemma table_P: "cEscapeTable c = CHR ''P'' \<Longrightarrow> 32 \<le> code c \<and> code c \<le> 126"
  by (auto simp: cEscapeTable_def split: if_splits)

lemma table_printable: "32 \<le> code (cEscapeTable c) \<and> code (cEscapeTable c) \<le> 126"
  by (simp add: cEscapeTable_def)

lemma c_esc_printable: "d \<in> set (c_esc c) \<Longrightarrow> 32 \<le> code d \<and> code d \<le> 126"
proof -
  have oct: "32 \<le> code (char_of (48 + n mod 8)) \<and> code (char_of (48 + n mod 8)) \<le> 126" for n :: nat
  proof -
    have "n mod 8 < 8" by simp
    thus ?thesis by (subst (1 2) code_char_of) linarith+
  qed
  assume "d \<in> set (c_esc c)"
  thus ?thesis
    using oct [of "code c"] oct [of "code c div 8"] oct [of "code c div 64"]
      table_P [of c] table_printable [of c]
    by (auto simp: c_esc_def Let_def split: if_splits)
qed

definition uri_esc :: "uri_mode \<Rightarrow> char \<Rightarrow> string" where
  "uri_esc mode c =
     (if uriEscapeTable c \<le> mode_value mode then [c]
      else if mode = UriQuery \<and> uriEscapeTable c = 3 then [CHR ''+'']
      else [CHR ''%'', hexValues ! (code c div 16), hexValues ! (code c mod 16)])"

lemma uriEscape_loop_map: "uriEscape_loop mode s run out = out @ run @ concat (map (uri_esc mode) s)"
  by (induction mode s run out rule: uriEscape_loop.induct) (auto simp: uri_esc_def Let_def)

lemma hexTable_hexValues: "n < 16 \<Longrightarrow> hexTable (hexValues ! n) = n"
proof -
  have "list_all (\<lambda>n. hexTable (hexValues ! n) = n) [0..<16]"
    by (simp add: upt_rec hexTable_def hexValues_def)
  thus "n < 16 \<Longrightarrow> ?thesis" by (simp add: list_all_iff)
qed

lemma plain_uri: "uriEscapeTable c \<le> 2 \<Longrightarrow> c \<noteq> CHR ''%'' \<and> c \<noteq> CHR ''+''"
  by (auto simp: uriEscapeTable_def uri_passthrough_def)

lemma uri_space: "uriEscapeTable c = 3 \<longleftrightarrow> c = CHR '' ''"
  by (auto simp: uriEscapeTable_def uri_passthrough_def)

lemma unescape_uri_esc:
  "uriUnescape_loop mode (uri_esc mode c @ r) run out =
     (if uriEscapeTable c \<le> mode_value mode then uriUnescape_loop mode r (run @ [c]) out
      else uriUnescape_loop mode r [] (out @ run @ [c]))"
proof (cases "uriEscapeTable c \<le> mode_value mode")
  case True
  moreover have "mode_value mode \<le> 2" by (cases mode) simp_all
  ultimately show ?thesis using plain_uri [of c] by (simp add: uri_esc_def)
next
  case False
  have h: "code c div 16 < 16" "code c mod 16 < 16" using code_less [of c] by (simp_all add: div_less_iff_less_mult)
  have "code c div 16 * 16 + code c mod 16 = code c" by simp
  thus ?thesis using False h hexTable_hexValues [OF h(1)] hexTable_hexValues [OF h(2)]
    by (auto simp: uri_esc_def uri_space Let_def simp del: div_mod_decomp)
qed

lemma uriUnescape_loop_escaped: "uriUnescape_loop mode (concat (map (uri_esc mode) s)) run out = Inr (out @ run @ s)"
  by (induction s arbitrary: run out) (simp_all add: unescape_uri_esc)

lemma uri_esc_chars: "d \<in> set (uri_esc mode c) \<Longrightarrow> uriEscapeTable d \<le> mode_value mode \<or> d \<in> set (''%+'' @ hexValues)"
proof -
  have "code c div 16 < length hexValues" "code c mod 16 < length hexValues"
    using code_less [of c] by (simp_all add: hexValues_def div_less_iff_less_mult)
  hence "hexValues ! (code c div 16) \<in> set hexValues" "hexValues ! (code c mod 16) \<in> set hexValues"
    by simp_all
  moreover assume "d \<in> set (uri_esc mode c)"
  ultimately show ?thesis by (auto simp: uri_esc_def split: if_splits)
qed

section \<open>Properties\<close>

text \<open>
  \<open>cEscape\<close> appends text of printable characters only, and \<open>cUnescape\<close>, strict or not, turns it back
  into the string.
\<close>

lemma c_escape_round_trip:
  "\<exists>t. cEscape s out = out @ t \<and> cUnescape strict t out' = Inr (out' @ s) \<and>
     list_all (\<lambda>d. 32 \<le> code d \<and> code d \<le> 126) t"
  using c_esc_printable
  by (intro exI [of _ "concat (map c_esc s)"])
    (auto simp: cEscape_def cUnescape_def cEscape_loop_map cUnescape_loop_escaped list_all_iff)

text \<open>
  What \<open>uriEscape\<close> makes of a string, in any of its three modes, \<open>uriUnescape\<close> turns back into the
  string in the same mode, and only characters that the mode lets pass, \<open>%\<close>, \<open>+\<close> and hexadecimal digits
  occur in it.
\<close>

lemma uri_escape_round_trip:
  "\<exists>t. uriEscape mode s out = out @ t \<and> uriUnescape mode t out' = Inr (out' @ s) \<and>
     list_all (\<lambda>d. uriEscapeTable d \<le> mode_value mode \<or> d \<in> set (''%+'' @ hexValues)) t"
  using uri_esc_chars
  by (intro exI [of _ "concat (map (uri_esc mode) s)"])
    (auto simp: uriEscape_def uriUnescape_def uriEscape_loop_map uriUnescape_loop_escaped list_all_iff)

end
