(* ===== verification/Folly_String.thy ===== *)
theory Folly_String
  imports Folly_Escape Folly_Bits "HOL-Library.Sublist"
begin

text \<open>
  More of \<open>folly/String.cpp\<close> and \<open>String-inl.h\<close>: \<open>toLowerAscii\<close>, which lowers four or eight characters at
  a time inside one word, splitting and joining, \<open>skipWhitespace\<close>, hexadecimal text and backslashes.
  \<open>toLowerAscii\<close> works on bytes at an address, since it picks the width of an access by the alignment;
  an access that is not aligned or not within the bytes is an error. The delimiter of \<open>split\<close> is a
  character or a string, as the overloads have it.
\<close>

section \<open>Lower case\<close>

definition toLowerAscii8 :: "u8 \<Rightarrow> u8" where
  "toLowerAscii8 c =
     (let rotated = c AND 0x7f;
          rotated = rotated + 0x25;
          rotated = rotated AND 0x7f;
          rotated = rotated + 0x1a;
          rotated = rotated AND NOT c;
          rotated = drop_bit 2 rotated;
          rotated = rotated AND 0x20
      in c + rotated)"

definition toLowerAscii32 :: "u32 \<Rightarrow> u32" where
  "toLowerAscii32 c =
     (let rotated = c AND 0x7f7f7f7f;
          rotated = rotated + 0x25252525;
          rotated = rotated AND 0x7f7f7f7f;
          rotated = rotated + 0x1a1a1a1a;
          rotated = rotated AND NOT c;
          rotated = drop_bit 2 rotated;
          rotated = rotated AND 0x20202020
      in c + rotated)"

definition toLowerAscii64 :: "u64 \<Rightarrow> u64" where
  "toLowerAscii64 c =
     (let rotated = c AND 0x7f7f7f7f7f7f7f7f;
          rotated = rotated + 0x2525252525252525;
          rotated = rotated AND 0x7f7f7f7f7f7f7f7f;
          rotated = rotated + 0x1a1a1a1a1a1a1a1a;
          rotated = rotated AND NOT c;
          rotated = drop_bit 2 rotated;
          rotated = rotated AND 0x2020202020202020
      in c + rotated)"

text \<open>An aligned read-modify-write of a word at an offset from the address \<open>a\<close>.\<close>

definition modify_at :: "('a :: len word \<Rightarrow> 'a word) \<Rightarrow> nat \<Rightarrow> u8 list \<Rightarrow> nat \<Rightarrow> mem_error + u8 list" where
  "modify_at f a str offset =
     (if (a + offset) mod (LENGTH('a) div 8) \<noteq> 0 then Inl Misaligned
      else rbind (loadUnaligned str offset) (\<lambda>w. storeUnaligned str offset (f w)))"

function lower8_until :: "nat \<Rightarrow> nat \<Rightarrow> u8 list \<Rightarrow> nat \<Rightarrow> mem_error + u8 list \<times> nat" where
  "lower8_until a n str offset =
     (if offset < n then
        (case modify_at toLowerAscii8 a str offset of
           Inl e \<Rightarrow> Inl e | Inr str \<Rightarrow> lower8_until a n str (offset + 1))
      else Inr (str, offset))"
  by pat_completeness auto
termination by (relation "measure (\<lambda>(a, n, s, off). n - off)") auto

function lower64_while :: "nat \<Rightarrow> nat \<Rightarrow> u8 list \<Rightarrow> nat \<Rightarrow> mem_error + u8 list \<times> nat" where
  "lower64_while a len str offset =
     (if offset + 8 \<le> len then
        (case modify_at toLowerAscii64 a str offset of
           Inl e \<Rightarrow> Inl e | Inr str \<Rightarrow> lower64_while a len str (offset + 8))
      else Inr (str, offset))"
  by pat_completeness auto
termination by (relation "measure (\<lambda>(a, n, s, off). n - off)") auto

function lower32_while :: "nat \<Rightarrow> nat \<Rightarrow> u8 list \<Rightarrow> nat \<Rightarrow> mem_error + u8 list \<times> nat" where
  "lower32_while a len str offset =
     (if offset + 4 \<le> len then
        (case modify_at toLowerAscii32 a str offset of
           Inl e \<Rightarrow> Inl e | Inr str \<Rightarrow> lower32_while a len str (offset + 4))
      else Inr (str, offset))"
  by pat_completeness auto
termination by (relation "measure (\<lambda>(a, n, s, off). n - off)") auto

declare lower8_until.simps [simp del] lower64_while.simps [simp del] lower32_while.simps [simp del]

text \<open>The first loop is a \<open>do\<close> loop entered with \<open>0 < n\<close>, so it is the same as a \<open>while\<close> loop.\<close>

definition toLowerAscii :: "nat \<Rightarrow> u8 list \<Rightarrow> mem_error + u8 list" where
  "toLowerAscii a str =
     (let len = length str;
          n = min (a mod 4) len
      in rbind (if n \<noteq> 0 then lower8_until a (min (4 - n) len) str 0 else Inr (str, 0)) (\<lambda>(str, offset).
         rbind (if (a + offset) mod 8 \<noteq> 0 \<and> offset + 4 \<le> len
                then rbind (modify_at toLowerAscii32 a str offset) (\<lambda>str. Inr (str, offset + 4))
                else Inr (str, offset)) (\<lambda>(str, offset).
         rbind (lower64_while a len str offset) (\<lambda>(str, offset).
         rbind (lower32_while a len str offset) (\<lambda>(str, offset).
         rbind (lower8_until a len str offset) (\<lambda>(str, offset). Inr str))))))"

section \<open>Splitting and joining\<close>

text \<open>The loop over \<open>i\<close>, with \<open>atDelim\<close> as a predicate of the position. The callers have returned for an
  empty delimiter, so that \<open>dSize\<close> is positive.\<close>

function split_loop :: "(nat \<Rightarrow> bool) \<Rightarrow> nat \<Rightarrow> string \<Rightarrow> bool \<Rightarrow> nat \<Rightarrow> nat \<Rightarrow> nat \<Rightarrow> string list \<Rightarrow> string list" where
  "split_loop atDelim dSize s ignoreEmpty i tokenStartPos tokenSize out =
     (if i \<le> length s - dSize \<and> dSize > 0 then
        (if atDelim i then
           split_loop atDelim dSize s ignoreEmpty (i + dSize) (i + dSize) 0
             (if \<not> ignoreEmpty \<or> tokenSize > 0 then out @ [take tokenSize (drop tokenStartPos s)] else out)
         else split_loop atDelim dSize s ignoreEmpty (i + 1) tokenStartPos (tokenSize + 1) out)
      else
        (let tokenSize = length s - tokenStartPos
         in if \<not> ignoreEmpty \<or> tokenSize > 0 then out @ [take tokenSize (drop tokenStartPos s)] else out))"
  by pat_completeness auto
termination by (relation "measure (\<lambda>(at, d, s, ig, i, ts, tz, out). length s - d + 1 - i)") auto

declare split_loop.simps [simp del]

definition internalSplit_char :: "char \<Rightarrow> string \<Rightarrow> bool \<Rightarrow> string list" where
  "internalSplit_char delim s ignoreEmpty =
     (if 1 > length s then (if \<not> ignoreEmpty \<or> length s > 0 then [s] else [])
      else split_loop (\<lambda>i. s ! i = delim) 1 s ignoreEmpty 0 0 0 [])"

definition internalSplit :: "string \<Rightarrow> string \<Rightarrow> bool \<Rightarrow> string list" where
  "internalSplit delim s ignoreEmpty =
     (let dSize = length delim in
      if dSize > length s \<or> dSize = 0 then (if \<not> ignoreEmpty \<or> length s > 0 then [s] else [])
      else if dSize = 1 then internalSplit_char (hd delim) s ignoreEmpty
      else split_loop (\<lambda>i. take dSize (drop i s) = delim) dSize s ignoreEmpty 0 0 0 [])"

fun internalJoinAppend :: "string \<Rightarrow> string list \<Rightarrow> string \<Rightarrow> string" where
  "internalJoinAppend delimiter [] output = output"
| "internalJoinAppend delimiter [x] output = output @ x"
| "internalJoinAppend delimiter (x # y # ys) output = internalJoinAppend delimiter (y # ys) (output @ x @ delimiter)"

definition internalJoin :: "string \<Rightarrow> string list \<Rightarrow> string" where
  "internalJoin delimiter xs = (if xs = [] then [] else internalJoinAppend delimiter xs [])"

section \<open>Whitespace\<close>

function skipWhitespace :: "string \<Rightarrow> string" where
  "skipWhitespace sp =
     (let sp' = dropWhile (\<lambda>c. c = CHR '' '') sp in
      if sp' \<noteq> [] \<and> (hd sp' = CHR 0x0A \<or> hd sp' = CHR 0x09 \<or> hd sp' = CHR 0x0D)
      then skipWhitespace (tl sp') else sp')"
  by pat_completeness auto
termination
proof (relation "measure length", goal_cases)
  case (2 sp x)
  hence "x \<noteq> []" and "length x \<le> length sp" by (auto intro: length_dropWhile_le)
  moreover from this have "0 < length x" by simp
  ultimately show ?case unfolding in_measure length_tl by linarith
qed simp

declare skipWhitespace.simps [simp del]

section \<open>Hexadecimal text and backslashes\<close>

definition hexlify :: "string \<Rightarrow> string \<Rightarrow> bool \<Rightarrow> string" where
  "hexlify input output append_output =
     (if append_output then output else []) @
     concat (map (\<lambda>c. [hexValues ! (code c div 16 mod 16), hexValues ! (code c mod 16)]) input)"

definition unhex :: "char \<Rightarrow> int" where
  "unhex c =
     (if 48 \<le> code c \<and> code c \<le> 57 then int (code c) - 48
      else if 65 \<le> code c \<and> code c \<le> 70 then int (code c) - 65 + 10
      else if 97 \<le> code c \<and> code c \<le> 102 then int (code c) - 97 + 10
      else - 1)"

fun unhexlify_loop :: "string \<Rightarrow> string \<Rightarrow> string option" where
  "unhexlify_loop (a # b # input) output =
     (if unhex a < 0 \<or> unhex b < 0 then None
      else unhexlify_loop input (output @ [char_of (nat (unhex a * 16 + unhex b))]))"
| "unhexlify_loop _ output = Some output"

definition unhexlify :: "string \<Rightarrow> string option" where
  "unhexlify input = (if length input mod 2 \<noteq> 0 then None else unhexlify_loop input [])"

definition unprintable :: "char \<Rightarrow> bool" where
  "unprintable c \<longleftrightarrow> code c < 0x20 \<or> code c > 0x7e \<or> c = CHR 0x5C"

definition hex_append :: "char \<Rightarrow> string" where
  "hex_append c = [CHR ''x'', hexValues ! (code c div 16 mod 16), hexValues ! (code c mod 16)]"

definition backslashify_char :: "bool \<Rightarrow> char \<Rightarrow> string" where
  "backslashify_char hex_style c =
     (if unprintable c then
        CHR 0x5C #
        (if hex_style then hex_append c
         else if c = CHR 0x0D then ''r''
         else if c = CHR 0x0A then ''n''
         else if c = CHR 0x09 then ''t''
         else if c = CHR 0x07 then ''a''
         else if c = CHR 0x08 then ''b''
         else if c = CHR 0x00 then ''0''
         else if c = CHR 0x5C then [CHR 0x5C]
         else hex_append c)
      else [c])"

definition backslashify :: "string \<Rightarrow> bool \<Rightarrow> string" where
  "backslashify input hex_style = concat (map (backslashify_char hex_style) input)"

fun humanify_scan :: "string \<Rightarrow> nat \<Rightarrow> nat \<Rightarrow> nat \<times> nat" where
  "humanify_scan [] numUnprintable numPrintablePrefix = (numUnprintable, numPrintablePrefix)"
| "humanify_scan (c # cs) numUnprintable numPrintablePrefix =
     (let numUnprintable = (if unprintable c then numUnprintable + 1 else numUnprintable)
      in humanify_scan cs numUnprintable
           (if numUnprintable = 0 then numPrintablePrefix + 1 else numPrintablePrefix))"

definition humanify :: "string \<Rightarrow> string" where
  "humanify input =
     (case humanify_scan input 0 0 of (numUnprintable, numPrintablePrefix) \<Rightarrow>
        if numUnprintable = 0 then input
        else if 5 * numUnprintable \<ge> 3 * length input then
          (if 5 * numPrintablePrefix \<ge> length input then backslashify input False
           else hexlify input ''0x'' True)
        else backslashify input False)"

section \<open>One word lowers all its bytes\<close>

definition lower_byte :: "u8 \<Rightarrow> u8" where
  "lower_byte c = (if 65 \<le> unat c \<and> unat c \<le> 90 then c + 32 else c)"

definition rotated8 :: "u8 \<Rightarrow> u8" where
  "rotated8 c = drop_bit 2 ((((c AND 0x7f) + 0x25) AND 0x7f) + 0x1a AND NOT c) AND 0x20"

lemma rotated8_value: "rotated8 c = (if 65 \<le> unat c \<and> unat c \<le> 90 then 32 else 0)"
proof -
  have all: "list_all (\<lambda>n. rotated8 (of_nat n) = (if 65 \<le> n \<and> n \<le> 90 then 32 else 0)) [0..<256]"
    by code_simp
  have "unat c < 2 ^ LENGTH(8)" by (rule unsigned_less)
  hence "unat c \<in> set [0..<256]" by simp
  hence "rotated8 (of_nat (unat c)) = (if 65 \<le> unat c \<and> unat c \<le> 90 then 32 else 0)"
    using all by (simp only: list_all_iff)
  thus ?thesis by simp
qed

lemma toLowerAscii8_rotated: "toLowerAscii8 c = c + rotated8 c"
  by (simp add: toLowerAscii8_def rotated8_def Let_def)

lemma toLowerAscii8_lower: "toLowerAscii8 c = lower_byte c"
  using rotated8_value [of c] by (simp add: toLowerAscii8_rotated lower_byte_def)

text \<open>Operations on words, byte by byte.\<close>

lemma load_le_Cons: "(load_le (x # xs) :: 'a :: len word) = ucast x + push_bit 8 (load_le xs)"
proof -
  have "(ucast x :: 'a word) + push_bit 8 (load_le xs) = ucast x OR push_bit 8 (load_le xs)"
    by (rule disjunctive_add) (auto simp: bit_ucast_iff bit_push_bit_iff dest: bit_imp_le_length)
  thus ?thesis by simp
qed

lemma ucast_add_byte:
  "unat x + unat y < 256 \<Longrightarrow> ucast (x + y) = (ucast x + ucast y :: 'a :: len word)" for x y :: u8
proof -
  assume "unat x + unat y < 256"
  hence "unat (x + y) = unat x + unat y" by (simp add: unat_word_ariths(1))
  thus ?thesis by (metis of_nat_add of_nat_unat)
qed

lemma load_le_add:
  "list_all2 (\<lambda>x y. unat x + unat y < 256) xs ys \<Longrightarrow>
   (load_le xs + load_le ys :: 'a :: len word) = load_le (map2 (+) xs ys)"
proof (induction rule: list_all2_induct)
  case (Cons x xs y ys)
  have "(load_le (x # xs) + load_le (y # ys) :: 'a word) =
      (ucast x + ucast y) + push_bit 8 (load_le xs + load_le ys)"
    by (simp only: load_le_Cons push_bit_add) (simp add: algebra_simps)
  also have "\<dots> = ucast (x + y) + push_bit 8 (load_le (map2 (+) xs ys))"
    using Cons by (simp only: ucast_add_byte)
  finally show ?case by (simp only: load_le_Cons zip_Cons_Cons list.map prod.case)
qed simp

lemma byte_index: "n < 8 * k \<Longrightarrow> n div 8 < (k :: nat)"
  by (simp add: less_mult_imp_div_less mult.commute)

lemma load_le_and:
  "length xs = length ys \<Longrightarrow> (load_le xs AND load_le ys :: 'a :: len word) = load_le (map2 (AND) xs ys)"
  by (intro bit_word_eqI) (auto simp: bit_and_iff bit_load_le byte_index)

lemma load_le_and_not:
  "length xs = length ys \<Longrightarrow>
   (load_le xs AND NOT (load_le ys) :: 'a :: len word) = load_le (map2 (\<lambda>x y. x AND NOT y) xs ys)"
  by (intro bit_word_eqI) (auto simp: bit_and_iff bit_not_iff bit_load_le byte_index possible_bit_word)

lemma bit_0x20: "bit (0x20 :: int) j \<longleftrightarrow> j = 5"
proof -
  have "(0x20 :: int) = 2 ^ 5" by simp
  thus ?thesis by (simp only: bit_exp_iff) auto
qed

lemma load_le_shift:
  assumes "LENGTH('a) = 8 * length rs"
  shows "(drop_bit 2 (load_le rs) AND load_le (map (\<lambda>_. 0x20) rs) :: 'a :: len word) =
    load_le (map (\<lambda>r. drop_bit 2 r AND 0x20) rs)"
proof (rule bit_word_eqI)
  fix n assume n: "n < LENGTH('a)"
  hence i: "n div 8 < length rs" using assms by (simp add: byte_index)
  show "bit (drop_bit 2 (load_le rs) AND load_le (map (\<lambda>_. 0x20) rs) :: 'a word) n \<longleftrightarrow>
      bit (load_le (map (\<lambda>r. drop_bit 2 r AND 0x20) rs) :: 'a word) n"
  proof (cases "n mod 8 = 5")
    case True
    then obtain q where q: "n = 8 * q + 5" by (metis mult_div_mod_eq)
    have "2 + n = 8 * q + 7" "q < length rs" using q i by simp_all
    hence "(2 + n) div 8 = n div 8" "(2 + n) mod 8 = 7" "2 + n < LENGTH('a)" using q assms by simp_all
    thus ?thesis using n i True assms
      by (simp add: bit_and_iff bit_drop_bit_eq bit_load_le bit_0x20)
  qed (use n i assms in \<open>simp add: bit_and_iff bit_drop_bit_eq bit_load_le bit_0x20\<close>)
qed

lemma low7_small: "unat (x AND 0x7f) < 128" for x :: u8
proof -
  have "x AND 0x7f = take_bit 7 x" by (simp add: take_bit_eq_mask mask_eq_exp_minus_1)
  moreover have "take_bit 7 (unat x) < 2 ^ 7" by (rule take_bit_nat_less_exp)
  ultimately show ?thesis by (simp add: unsigned_take_bit_eq)
qed

lemma lower_no_carry: "unat c + unat (rotated8 c) < 256"
  using rotated8_value [of c] unsigned_less [of c, where 'a = nat] by auto

lemma map2_same:
  "map2 f xs (map g xs) = map (\<lambda>x. f x (g x)) xs" "map2 f (map g xs) xs = map (\<lambda>x. f (g x) x) xs"
  by (induction xs) simp_all

text \<open>The steps of the word versions, with the constants as bytes.\<close>

lemma lower_word:
  assumes len: "LENGTH('a) = 8 * length bs"
  shows "(let c = load_le bs :: 'a :: len word; m = load_le (map (\<lambda>_. 0x7f) bs);
              r = (((c AND m) + load_le (map (\<lambda>_. 0x25) bs)) AND m) + load_le (map (\<lambda>_. 0x1a) bs);
              r = drop_bit 2 (r AND NOT c) AND load_le (map (\<lambda>_. 0x20) bs)
          in c + r) = load_le (map toLowerAscii8 bs)"
proof -
  let ?r1 = "map (\<lambda>b. b AND 0x7f) bs"
  let ?r2 = "map (\<lambda>b. (b AND 0x7f) + 0x25) bs"
  let ?r3 = "map (\<lambda>b. ((b AND 0x7f) + 0x25) AND 0x7f) bs"
  let ?r4 = "map (\<lambda>b. (((b AND 0x7f) + 0x25) AND 0x7f) + 0x1a) bs"
  let ?r5 = "map (\<lambda>b. (((b AND 0x7f) + 0x25) AND 0x7f) + 0x1a AND NOT b) bs"
  have low: "unat (x AND 0x7f) + 37 < 256" "unat (x AND 0x7f) + 26 < 256" for x :: u8
    using low7_small [of x] by simp_all
  have 1: "(load_le bs AND load_le (map (\<lambda>_. 0x7f) bs) :: 'a word) = load_le ?r1"
    by (subst load_le_and) (simp_all add: map2_same)
  have "list_all2 (\<lambda>x y. unat x + unat y < 256) ?r1 (map (\<lambda>_. 0x25 :: u8) bs)"
    using low by (simp add: list_all2_conv_all_nth)
  hence 2: "(load_le ?r1 + load_le (map (\<lambda>_. 0x25) bs) :: 'a word) = load_le ?r2"
    by (subst load_le_add) (simp_all add: map2_map_map)
  have 3: "(load_le ?r2 AND load_le (map (\<lambda>_. 0x7f) bs) :: 'a word) = load_le ?r3"
    by (subst load_le_and) (simp_all add: map2_map_map)
  have "list_all2 (\<lambda>x y. unat x + unat y < 256) ?r3 (map (\<lambda>_. 0x1a :: u8) bs)"
    using low by (simp add: list_all2_conv_all_nth)
  hence 4: "(load_le ?r3 + load_le (map (\<lambda>_. 0x1a) bs) :: 'a word) = load_le ?r4"
    by (subst load_le_add) (simp_all add: map2_map_map)
  have 5: "(load_le ?r4 AND NOT (load_le bs) :: 'a word) = load_le ?r5"
    by (subst load_le_and_not) (simp_all add: map2_same)
  have 6: "(drop_bit 2 (load_le ?r5) AND load_le (map (\<lambda>_. 0x20) bs) :: 'a word) = load_le (map rotated8 bs)"
    using load_le_shift [of ?r5, where 'a = 'a] len by (simp add: comp_def rotated8_def [abs_def])
  have "list_all2 (\<lambda>x y. unat x + unat y < 256) bs (map rotated8 bs)"
    using lower_no_carry by (auto simp: list_all2_conv_all_nth)
  hence 7: "(load_le bs + load_le (map rotated8 bs) :: 'a word) = load_le (map toLowerAscii8 bs)"
    by (subst load_le_add) (simp_all add: map2_same toLowerAscii8_rotated [abs_def])
  show ?thesis unfolding Let_def 1 2 3 4 5 6 7 ..
qed

lemma lower32_bytes: "length bs = 4 \<Longrightarrow> toLowerAscii32 (load_le bs) = load_le (map toLowerAscii8 bs)"
proof -
  assume len: "length bs = 4"
  then obtain a b c d where bs: "bs = [a, b, c, d]" by (auto simp: numeral_eq_Suc length_Suc_conv)
  have k: "load_le (map (\<lambda>_. 0x7f) bs) = (0x7f7f7f7f :: u32)" "load_le (map (\<lambda>_. 0x25) bs) = (0x25252525 :: u32)"
    "load_le (map (\<lambda>_. 0x1a) bs) = (0x1a1a1a1a :: u32)" "load_le (map (\<lambda>_. 0x20) bs) = (0x20202020 :: u32)"
    by (simp_all add: bs)
  show ?thesis using lower_word [of bs, where 'a = 32] len by (simp only: k toLowerAscii32_def Let_def) simp
qed

lemma lower64_bytes: "length bs = 8 \<Longrightarrow> toLowerAscii64 (load_le bs) = load_le (map toLowerAscii8 bs)"
proof -
  assume len: "length bs = 8"
  then obtain a b c d e f g h where bs: "bs = [a, b, c, d, e, f, g, h]" by (auto simp: numeral_eq_Suc length_Suc_conv)
  have k: "load_le (map (\<lambda>_. 0x7f) bs) = (0x7f7f7f7f7f7f7f7f :: u64)"
    "load_le (map (\<lambda>_. 0x25) bs) = (0x2525252525252525 :: u64)"
    "load_le (map (\<lambda>_. 0x1a) bs) = (0x1a1a1a1a1a1a1a1a :: u64)"
    "load_le (map (\<lambda>_. 0x20) bs) = (0x2020202020202020 :: u64)"
    by (simp_all add: bs)
  show ?thesis using lower_word [of bs, where 'a = 64] len by (simp only: k toLowerAscii64_def Let_def) simp
qed

lemma lower8_bytes: "length bs = 1 \<Longrightarrow> toLowerAscii8 (load_le bs) = load_le (map toLowerAscii8 bs)"
  by (auto simp: length_Suc_conv)

section \<open>Lowering a string\<close>

lemma store_load_le: "LENGTH('a) = 8 * length bs \<Longrightarrow> store_le (load_le bs :: 'a :: len word) = bs"
  by (intro nth_equalityI bit_word_eqI) (auto simp: bit_store_le bit_load_le byte_index)

text \<open>The first \<open>k\<close> bytes are lowered, the others are as they were.\<close>

definition lowered :: "u8 list \<Rightarrow> nat \<Rightarrow> u8 list" where
  "lowered str k = map toLowerAscii8 (take k str) @ drop k str"

lemma length_lowered [simp]: "length (lowered str k) = length str"
  by (simp add: lowered_def)

lemma lowered_0 [simp]: "lowered str 0 = str"
  by (simp add: lowered_def)

lemma lowered_all [simp]: "lowered str (length str) = map toLowerAscii8 str"
  by (simp add: lowered_def)

lemma modify_lowers:
  fixes f :: "'a :: len word \<Rightarrow> 'a word"
  assumes f: "\<And>bs. length bs = w \<Longrightarrow> f (load_le bs) = load_le (map toLowerAscii8 bs)"
    and w: "LENGTH('a) = 8 * w" and al: "(a + off) mod w = 0" and room: "off + w \<le> length str"
  shows "modify_at f a (lowered str off) off = Inr (lowered str (off + w))"
proof -
  let ?bs = "take w (drop off str)"
  have len: "length ?bs = w" using room by simp
  have "take w (drop off (lowered str off)) = ?bs" using room by (simp add: lowered_def)
  hence ld: "loadUnaligned (lowered str off) off = Inr (load_le ?bs :: 'a word)"
    using room w by (simp add: loadUnaligned_def)
  have st: "storeUnaligned (lowered str off) off (f (load_le ?bs)) =
      Inr (overwrite (lowered str off) off (map toLowerAscii8 ?bs))"
    using room w len f [OF len] store_load_le [of "map toLowerAscii8 ?bs", where 'a = 'a]
    by (simp add: storeUnaligned_def)
  have "overwrite (lowered str off) off (map toLowerAscii8 ?bs) = lowered str (off + w)"
    using room len by (simp add: overwrite_def lowered_def take_add add.commute)
  thus ?thesis using al w ld st by (simp add: modify_at_def)
qed

lemma lower8_until_lowers:
  "off \<le> n \<Longrightarrow> n \<le> length str \<Longrightarrow> lower8_until a n (lowered str off) off = Inr (lowered str n, n)"
proof (induction "n - off" arbitrary: off)
  case 0
  thus ?case by (simp add: lower8_until.simps)
next
  case (Suc k)
  have "modify_at toLowerAscii8 a (lowered str off) off = Inr (lowered str (off + 1))"
    using Suc.hyps(2) Suc.prems by (intro modify_lowers lower8_bytes) auto
  thus ?case using Suc by (subst lower8_until.simps) simp
qed

lemma lower64_while_lowers:
  "off \<le> length str \<Longrightarrow> (off + 8 \<le> length str \<Longrightarrow> (a + off) mod 8 = 0) \<Longrightarrow>
   \<exists>off'. lower64_while a (length str) (lowered str off) off = Inr (lowered str off', off') \<and> off' \<le> length str \<and>
     off \<le> off' \<and> (a + off') mod 8 = (a + off) mod 8"
proof (induction "length str - off" arbitrary: off rule: less_induct)
  case less
  show ?case
  proof (cases "off + 8 \<le> length str")
    case True
    have m: "modify_at toLowerAscii64 a (lowered str off) off = Inr (lowered str (off + 8))"
      using True less.prems by (intro modify_lowers lower64_bytes) auto
    have lt: "length str - (off + 8) < length str - off" using True by simp
    have al: "(a + (off + 8)) mod 8 = (a + off) mod 8" by (simp add: add.assoc [symmetric])
    obtain off' where "lower64_while a (length str) (lowered str (off + 8)) (off + 8) = Inr (lowered str off', off')"
      "off' \<le> length str" "off + 8 \<le> off'" "(a + off') mod 8 = (a + (off + 8)) mod 8"
      using less.hyps [OF lt] less.prems True al by fastforce
    thus ?thesis using True m al by (subst lower64_while.simps) auto
  next
    case False
    thus ?thesis using less.prems by (subst lower64_while.simps) auto
  qed
qed

lemma lower32_while_lowers:
  "off \<le> length str \<Longrightarrow> (off + 4 \<le> length str \<Longrightarrow> (a + off) mod 4 = 0) \<Longrightarrow>
   \<exists>off'. lower32_while a (length str) (lowered str off) off = Inr (lowered str off', off') \<and> off' \<le> length str"
proof (induction "length str - off" arbitrary: off rule: less_induct)
  case less
  show ?case
  proof (cases "off + 4 \<le> length str")
    case True
    have m: "modify_at toLowerAscii32 a (lowered str off) off = Inr (lowered str (off + 4))"
      using True less.prems by (intro modify_lowers lower32_bytes) auto
    have lt: "length str - (off + 4) < length str - off" using True by simp
    have al: "(a + (off + 4)) mod 4 = (a + off) mod 4" by (simp add: add.assoc [symmetric])
    obtain off' where "lower32_while a (length str) (lowered str (off + 4)) (off + 4) = Inr (lowered str off', off')"
      "off' \<le> length str"
      using less.hyps [OF lt] less.prems True al by fastforce
    thus ?thesis using True m by (subst lower32_while.simps) auto
  next
    case False
    thus ?thesis using less.prems by (subst lower32_while.simps) auto
  qed
qed

lemma mod8_eq_mod4: "x mod 8 = y mod 8 \<Longrightarrow> x mod 4 = y mod (4 :: nat)"
proof -
  have "(z mod 8) mod 4 = z mod (4 :: nat)" for z by (rule mod_mod_cancel) simp
  thus "x mod 8 = y mod 8 \<Longrightarrow> x mod 4 = y mod 4" by metis
qed

lemma mod8_mod4: "x mod 4 = 0 \<Longrightarrow> x mod 8 \<noteq> 0 \<Longrightarrow> (x + 4) mod 8 = (0 :: nat)"
  by presburger

lemma align_first:
  fixes a len n off :: nat
  assumes "n = min (a mod 4) len" "n \<noteq> 0" "off = min (4 - n) len"
  shows "off = len \<or> (a + off) mod 4 = 0"
proof (cases "len < 4 - n \<or> len < a mod 4")
  case True
  have "a mod 4 < 4" by simp
  hence "off = len" using True assms by (auto simp: min_def split: if_splits)
  thus ?thesis ..
next
  case False
  hence n: "off = 4 - a mod 4" using assms by (auto simp: min_def split: if_splits)
  have "(a + off) mod 4 = (a mod 4 + (4 - a mod 4)) mod 4" unfolding n by (simp only: mod_add_left_eq)
  also have "a mod 4 + (4 - a mod 4) = 4" by (simp add: less_imp_le)
  finally show ?thesis by simp
qed

lemma toLowerAscii_lowers: "toLowerAscii a str = Inr (map lower_byte str)"
proof -
  let ?len = "length str"
  let ?n = "min (a mod 4) ?len"
  define o1 where "o1 = (if ?n \<noteq> 0 then min (4 - ?n) ?len else 0)"
  have s1: "(if ?n \<noteq> 0 then lower8_until a (min (4 - ?n) ?len) str 0 else Inr (str, 0)) = Inr (lowered str o1, o1)"
    using lower8_until_lowers [of 0 "min (4 - ?n) ?len" str a] by (simp add: o1_def)
  have o1: "o1 \<le> ?len" "o1 = ?len \<or> (a + o1) mod 4 = 0"
    using align_first [of ?n a ?len "min (4 - ?n) ?len"] by (auto simp: o1_def min_def split: if_splits)
  define o2 where "o2 = (if (a + o1) mod 8 \<noteq> 0 \<and> o1 + 4 \<le> ?len then o1 + 4 else o1)"
  have "(a + o1) mod 8 \<noteq> 0 \<and> o1 + 4 \<le> ?len \<Longrightarrow>
      modify_at toLowerAscii32 a (lowered str o1) o1 = Inr (lowered str (o1 + 4))"
    using o1 by (intro modify_lowers lower32_bytes) auto
  hence s2: "(if (a + o1) mod 8 \<noteq> 0 \<and> o1 + 4 \<le> ?len
        then rbind (modify_at toLowerAscii32 a (lowered str o1) o1) (\<lambda>str. Inr (str, o1 + 4))
        else Inr (lowered str o1, o1)) = Inr (lowered str o2, o2)"
    by (simp add: o2_def)
  have o2: "o2 \<le> ?len" "o2 + 8 \<le> ?len \<Longrightarrow> (a + o2) mod 8 = 0" "o2 + 4 \<le> ?len \<Longrightarrow> (a + o2) mod 4 = 0"
    using o1 mod8_mod4 [of "a + o1"] by (auto simp: o2_def add.assoc [symmetric] split: if_splits)
  obtain o3 where s3: "lower64_while a ?len (lowered str o2) o2 = Inr (lowered str o3, o3)"
      and o3: "o3 \<le> ?len" "o2 \<le> o3" "(a + o3) mod 8 = (a + o2) mod 8"
    using lower64_while_lowers [OF o2(1,2)] by blast
  have al: "o3 + 4 \<le> ?len \<Longrightarrow> (a + o3) mod 4 = 0"
    using o2(3) o3 mod8_eq_mod4 [OF o3(3)] by simp
  obtain o4 where s4: "lower32_while a ?len (lowered str o3) o3 = Inr (lowered str o4, o4)" and o4: "o4 \<le> ?len"
    using lower32_while_lowers [OF o3(1) al] by blast
  have s5: "lower8_until a ?len (lowered str o4) o4 = Inr (lowered str ?len, ?len)"
    using o4 by (simp add: lower8_until_lowers)
  show ?thesis
    using s1 s2 s3 s4 s5 by (simp add: toLowerAscii_def Let_def toLowerAscii8_lower [abs_def])
qed

section \<open>What splitting yields\<close>

text \<open>The reference: the delimiter is looked for from the left, and found again after its end.\<close>

fun glue :: "string \<Rightarrow> string list \<Rightarrow> string list" where
  "glue p [] = [p]"
| "glue p (q # qs) = (p @ q) # qs"

function pieces :: "string \<Rightarrow> string \<Rightarrow> string list" where
  "pieces d [] = [[]]"
| "pieces d (c # s) =
     (if d \<noteq> [] \<and> prefix d (c # s) then [] # pieces d (drop (length d) (c # s)) else glue [c] (pieces d s))"
  by pat_completeness auto
termination by (relation "measure (\<lambda>(d, s). length s)") auto

declare pieces.simps(2) [simp del]

fun joined :: "string \<Rightarrow> string list \<Rightarrow> string" where
  "joined d [] = []"
| "joined d [x] = x"
| "joined d (x # y # ys) = x @ d @ joined d (y # ys)"

definition keep :: "bool \<Rightarrow> string list \<Rightarrow> string list" where
  "keep ignoreEmpty xs = (if ignoreEmpty then filter (\<lambda>x. x \<noteq> []) xs else xs)"

lemma glue_glue [simp]: "glue p (glue q xs) = glue (p @ q) xs"
  by (cases xs) simp_all

lemma glue_Nil [simp]: "xs \<noteq> [] \<Longrightarrow> glue [] xs = xs"
  by (cases xs) simp_all

lemma glue_not_Nil [simp]: "glue p xs \<noteq> []"
  by (cases xs) simp_all

lemma pieces_not_Nil [simp]: "pieces d s \<noteq> []"
  by (cases s) (simp_all add: pieces.simps(2))

lemma pieces_at: "d \<noteq> [] \<Longrightarrow> prefix d s \<Longrightarrow> pieces d s = [] # pieces d (drop (length d) s)"
  by (cases s) (auto simp: pieces.simps(2))

lemma pieces_short: "length s < length d \<Longrightarrow> pieces d s = [s]"
proof (induction s)
  case (Cons c s)
  hence "\<not> prefix d (c # s)" using prefix_length_le by fastforce
  thus ?case using Cons by (simp add: pieces.simps(2))
qed simp

lemma keep_Cons: "keep ig (x # xs) = (if \<not> ig \<or> x \<noteq> [] then x # keep ig xs else keep ig xs)"
  by (simp add: keep_def)

lemma keep_Nil [simp]: "keep ig [] = []"
  by (simp add: keep_def)

lemma split_loop_pieces:
  assumes "\<And>j. j \<le> length s - length d \<Longrightarrow> atDelim j \<longleftrightarrow> prefix d (drop j s)"
    and "d \<noteq> []" "length d \<le> length s" "ts + tz = i" "i \<le> length s"
  shows "split_loop atDelim (length d) s ig i ts tz out = out @ keep ig (glue (take tz (drop ts s)) (pieces d (drop i s)))"
  using assms(1,4,5)
proof (induction "length s - i" arbitrary: i ts tz out rule: less_induct)
  case less
  let ?tok = "take tz (drop ts s)"
  have tok: "?tok = [] \<longleftrightarrow> tz = 0" using less.prems by auto
  have pos: "0 < length d" using assms(2) by simp
  show ?case
  proof (cases "i \<le> length s - length d")
    case True
    hence room: "i + length d \<le> length s" using assms(3) by simp
    show ?thesis
    proof (cases "atDelim i")
      case at: True
      hence "pieces d (drop i s) = [] # pieces d (drop (i + length d) s)"
        using less.prems(1) [OF True] assms(2) by (simp add: pieces_at add.commute)
      moreover have "length s - (i + length d) < length s - i" using room pos by linarith
      note less.hyps [OF this, of "i + length d" 0]
      ultimately show ?thesis using True pos at less.prems(1) room tok
        by (subst split_loop.simps) (simp add: keep_Cons)
    next
      case nat: False
      have "i < length s" using room pos by linarith
      hence dr: "drop i s = s ! i # drop (i + 1) s" by (simp add: Cons_nth_drop_Suc)
      hence "pieces d (drop i s) = glue [s ! i] (pieces d (drop (i + 1) s))"
        using less.prems(1) [OF True] nat by (simp add: pieces.simps(2))
      moreover have "take (tz + 1) (drop ts s) = ?tok @ [s ! i]"
        using less.prems(2) \<open>i < length s\<close> by (simp add: take_Suc_conv_app_nth)
      moreover have "length s - (i + 1) < length s - i" using \<open>i < length s\<close> by simp
      note less.hyps [OF this, of ts "tz + 1"]
      ultimately show ?thesis using True pos nat less.prems \<open>i < length s\<close>
        by (subst split_loop.simps) simp
    qed
  next
    case False
    have "?tok @ drop i s = drop ts s"
      using less.prems(2) by (metis add.commute append_take_drop_id drop_drop)
    moreover have "length (drop i s) < length d" using False assms(3) pos unfolding length_drop by linarith
    ultimately show ?thesis using False assms(2) less.prems
      by (subst split_loop.simps) (simp add: pieces_short keep_Cons Let_def)
  qed
qed

lemma internalSplit_char_pieces: "internalSplit_char c s ig = keep ig (pieces [c] s)"
proof (cases "s = []")
  case False
  have "s ! j = c \<longleftrightarrow> prefix [c] (drop j s)" if "j \<le> length s - length [c]" for j
  proof -
    have "j < length s" using that False by (cases s) auto
    hence "drop j s = s ! j # drop (Suc j) s" by (simp add: Cons_nth_drop_Suc)
    thus ?thesis by auto
  qed
  from split_loop_pieces [of s "[c]" "\<lambda>i. s ! i = c", OF this, where i = 0 and ts = 0 and tz = 0] False
  show ?thesis by (cases s) (simp_all add: internalSplit_char_def)
qed (simp add: internalSplit_char_def keep_Cons)

lemma internalSplit_pieces: "internalSplit d s ig = keep ig (if d = [] then [s] else pieces d s)"
proof -
  consider "length d > length s \<or> length d = 0" | "length d = 1" "length d \<le> length s" |
    "length d > 1" "length d \<le> length s" by linarith
  thus ?thesis
  proof cases
    case 1
    thus ?thesis by (auto simp: internalSplit_def Let_def pieces_short keep_Cons)
  next
    case 2
    then obtain c where "d = [c]" by (auto simp: length_Suc_conv)
    thus ?thesis using 2 by (auto simp: internalSplit_def Let_def internalSplit_char_pieces)
  next
    case 3
    have "take (length d) (drop j s) = d \<longleftrightarrow> prefix d (drop j s)" for j
      by (metis append_eq_conv_conj prefix_def take_is_prefix)
    from split_loop_pieces [of s d "\<lambda>i. take (length d) (drop i s) = d", OF this, where i = 0 and ts = 0 and tz = 0] 3
    show ?thesis by (auto simp: internalSplit_def Let_def)
  qed
qed

lemma hd_pieces_prefix: "prefix (hd (pieces d s)) s"
proof (induction d s rule: pieces.induct)
  case (2 d c s)
  thus ?case by (cases "pieces d s") (auto simp: pieces.simps(2))
qed simp

lemma pieces_free: "d \<noteq> [] \<Longrightarrow> p \<in> set (pieces d s) \<Longrightarrow> \<not> sublist d p"
proof (induction d s arbitrary: p rule: pieces.induct)
  case (1 d)
  thus ?case by simp
next
  case (2 d c s)
  show ?case
  proof (cases "prefix d (c # s)")
    case True
    thus ?thesis using 2 by (auto simp: pieces.simps(2))
  next
    case False
    obtain q qs where q: "pieces d s = q # qs" by (cases "pieces d s") simp_all
    have "prefix q s" using hd_pieces_prefix [of d s] q by simp
    hence "\<not> prefix d (c # q)" using False prefix_order.trans by fastforce
    moreover have "\<not> sublist d x" if "x \<in> set (pieces d s)" for x using 2 False that by simp
    ultimately show ?thesis using False q 2(4) by (auto simp: pieces.simps(2) sublist_Cons_right)
  qed
qed

lemma joined_glue: "xs \<noteq> [] \<Longrightarrow> joined d (glue p xs) = p @ joined d xs"
  by (cases "(d, xs)" rule: joined.cases) auto

lemma joined_Cons: "xs \<noteq> [] \<Longrightarrow> joined d (x # xs) = x @ d @ joined d xs"
  by (cases xs) simp_all

lemma joined_pieces: "joined d (pieces d s) = s"
proof (induction d s rule: pieces.induct)
  case (2 d c s)
  show ?case
  proof (cases "d \<noteq> [] \<and> prefix d (c # s)")
    case True
    then obtain r where "c # s = d @ r" by (auto elim: prefixE)
    moreover from this have "joined d (pieces d r) = r" using 2(1) [OF True] by simp
    ultimately show ?thesis using True by (simp add: pieces_at joined_Cons)
  next
    case False
    thus ?thesis using 2 by (auto simp: pieces.simps(2) joined_glue)
  qed
qed simp

lemma internalJoinAppend_joined: "internalJoinAppend d xs out = out @ joined d xs"
  by (induction d xs out rule: internalJoinAppend.induct) simp_all

lemma internalJoin_joined: "internalJoin d xs = joined d xs"
  by (simp add: internalJoin_def internalJoinAppend_joined)

lemma join_split: "internalJoin d (internalSplit d s False) = s"
  by (simp add: internalSplit_pieces internalJoin_joined keep_def joined_pieces)

lemma pieces_token: "c \<notin> set x \<Longrightarrow> pieces [c] (x @ c # r) = x # pieces [c] r" "c \<notin> set x \<Longrightarrow> pieces [c] x = [x]"
  by (induction x) (auto simp: pieces.simps(2))

lemma split_join:
  "xs \<noteq> [] \<Longrightarrow> \<forall>x\<in>set xs. c \<notin> set x \<Longrightarrow> internalSplit_char c (internalJoin [c] xs) False = xs"
proof -
  have "xs \<noteq> [] \<Longrightarrow> \<forall>x\<in>set xs. c \<notin> set x \<Longrightarrow> pieces [c] (joined [c] xs) = xs"
    by (induction "[c]" xs rule: joined.induct) (auto simp: pieces_token)
  thus "xs \<noteq> [] \<Longrightarrow> \<forall>x\<in>set xs. c \<notin> set x \<Longrightarrow> ?thesis"
    by (simp add: internalSplit_char_pieces internalJoin_joined keep_def)
qed

section \<open>Whitespace, hexadecimal text and printable output\<close>

lemma skipWhitespace_dropWhile:
  "skipWhitespace sp = dropWhile (\<lambda>c. c \<in> {CHR '' '', CHR 0x0A, CHR 0x09, CHR 0x0D}) sp"
proof (induction sp rule: skipWhitespace.induct)
  case (1 sp)
  let ?ws = "\<lambda>c. c \<in> {CHR '' '', CHR 0x0A, CHR 0x09, CHR 0x0D}"
  let ?s = "dropWhile (\<lambda>c. c = CHR '' '') sp"
  have "dropWhile ?ws ?s = dropWhile ?ws sp" by (induction sp) auto
  moreover have "skipWhitespace sp = dropWhile ?ws ?s"
  proof (cases ?s)
    case (Cons c cs)
    have "c \<noteq> CHR '' ''" using hd_dropWhile [of "\<lambda>c. c = CHR '' ''" sp] Cons by simp
    thus ?thesis using 1 [OF refl] Cons
      by (subst skipWhitespace.simps) (simp only: Let_def Cons list.sel, simp)
  next
    case Nil
    show ?thesis by (subst skipWhitespace.simps) (simp only: Let_def Nil, simp)
  qed
  ultimately show ?case by simp
qed

lemma unhex_hexlify:
  "unhex (hexValues ! (code c div 16 mod 16)) = int (code c div 16)" "unhex (hexValues ! (code c mod 16)) = int (code c mod 16)"
proof -
  have all: "list_all (\<lambda>n. unhex (hexValues ! n) = int n) [0..<16]"
    by (simp add: upt_rec hexValues_def unhex_def)
  have "code c div 16 < 16" using code_less [of c] by (simp add: less_mult_imp_div_less)
  hence "code c div 16 \<in> set [0..<16]" "code c mod 16 \<in> set [0..<16]" by auto
  thus "unhex (hexValues ! (code c div 16 mod 16)) = int (code c div 16)" "unhex (hexValues ! (code c mod 16)) = int (code c mod 16)"
    using all by (simp_all only: list_all_iff) simp_all
qed

lemma unhexlify_hexlify: "unhexlify (hexlify s out False) = Some s"
proof -
  let ?h = "\<lambda>c. [hexValues ! (code c div 16 mod 16), hexValues ! (code c mod 16)]"
  have "unhexlify_loop (concat (map ?h s)) acc = Some (acc @ s)" for acc
  proof (induction s arbitrary: acc)
    case (Cons c s)
    have "int (code c div 16) * 16 + int (code c mod 16) = int (code c)"
      by (metis div_mult_mod_eq of_nat_add of_nat_mult of_nat_numeral)
    thus ?case using Cons by (simp add: unhex_hexlify)
  qed simp
  moreover have "length (concat (map ?h s)) = 2 * length s" by (induction s) simp_all
  ultimately show ?thesis by (simp add: unhexlify_def hexlify_def)
qed

definition printable :: "string \<Rightarrow> bool" where
  "printable s = list_all (\<lambda>c. 0x20 \<le> code c \<and> code c \<le> 0x7e) s"

lemma printable_append [simp]: "printable (s @ t) \<longleftrightarrow> printable s \<and> printable t"
  by (simp add: printable_def)

lemma printable_concat: "printable (concat xs) \<longleftrightarrow> list_all printable xs"
  by (induction xs) (simp_all add: printable_def)

lemma hexValues_printable: "n < 16 \<Longrightarrow> printable [hexValues ! n]"
proof -
  have "list_all (\<lambda>n. printable [hexValues ! n]) [0..<16]"
    by (simp add: upt_rec hexValues_def printable_def)
  thus "n < 16 \<Longrightarrow> ?thesis" by (auto simp: list_all_iff)
qed

lemma hex_digits_printable: "printable [hexValues ! (code c div 16 mod 16), hexValues ! (code c mod 16)]"
  using hexValues_printable [of "code c div 16 mod 16"] hexValues_printable [of "code c mod 16"]
  by (simp add: printable_def)

lemma backslashify_printable: "printable (backslashify s hex_style)"
proof -
  have "printable (hex_append c)" for c
    using hex_digits_printable [of c] by (simp add: hex_append_def printable_def)
  hence "printable (backslashify_char hex_style c)" for c
    by (cases "unprintable c") (simp_all add: backslashify_char_def printable_def unprintable_def)
  thus ?thesis by (simp add: backslashify_def printable_concat list_all_iff)
qed

lemma humanify_scan_count:
  "humanify_scan s u p = (u + length (filter unprintable s), if u = 0 then p + length (takeWhile (\<lambda>c. \<not> unprintable c) s) else p)"
  by (induction s arbitrary: u p) (simp_all add: Let_def)

lemma humanify_cases:
  "humanify s =
     (let u = length (filter unprintable s); k = length (takeWhile (\<lambda>c. \<not> unprintable c) s) in
      if 0 < u \<and> 3 * length s \<le> 5 * u \<and> 5 * k < length s then ''0x'' @ hexlify s [] False
      else if 0 < u then backslashify s False else s)"
  by (auto simp: humanify_def humanify_scan_count Let_def hexlify_def)

lemma humanify_printable: "printable (humanify s)"
proof -
  have "printable s" if "length (filter unprintable s) = 0"
    using that by (auto simp: printable_def list_all_iff unprintable_def filter_empty_conv not_less)
  moreover have "printable (hexlify s [] False)"
    by (simp add: hexlify_def printable_concat list_all_iff hex_digits_printable)
  ultimately show ?thesis
    using backslashify_printable by (simp add: humanify_cases Let_def) (simp add: printable_def)
qed

section \<open>Properties\<close>

text \<open>
  C30: \<open>toLowerAscii\<close>, which works on words where the alignment of the string allows it, lowers the
  letters \<open>A\<close> to \<open>Z\<close> and keeps every other byte, at every address and length; every word it accesses is
  aligned and within the string.
\<close>

theorem lower_ascii_by_words: "toLowerAscii a str = Inr (map lower_byte str)"
  by (rule toLowerAscii_lowers)

text \<open>
  C31: joining what \<open>split\<close> yields with the delimiter gives the string back, no piece contains the
  delimiter, and \<open>ignoreEmpty\<close> leaves out the empty pieces; splitting a joined list at a character
  that does not occur in its elements gives the list back.
\<close>

theorem split_and_join:
  "internalJoin d (internalSplit d s False) = s \<and>
   (d \<noteq> [] \<longrightarrow> list_all (\<lambda>p. \<not> sublist d p) (internalSplit d s False)) \<and>
   internalSplit d s True = filter (\<lambda>p. p \<noteq> []) (internalSplit d s False) \<and>
   (xs \<noteq> [] \<and> list_all (\<lambda>x. c \<notin> set x) xs \<longrightarrow> internalSplit [c] (internalJoin [c] xs) False = xs)"
proof -
  have "internalSplit [c] t ig = internalSplit_char c t ig" for t ig
    by (simp add: internalSplit_pieces internalSplit_char_pieces)
  thus ?thesis
    using join_split [of d s] pieces_free [of d _ s] split_join [of xs c]
    by (auto simp: internalSplit_pieces keep_def list_all_iff)
qed

theorem split_and_join_witness:
  "internalSplit '','' (internalJoin '','' [''ab'', [], ''c'']) False = [''ab'', [], ''c'']"
  using split_and_join [of _ _ "[''ab'', [], ''c'']" "CHR '',''"] by simp

end
