(* ===== verification/Interleaving.thy ===== *)
theory Interleaving
  imports Chess_Prelude
begin

text \<open>
  Shared by the components that several threads run at once. A component is a state with one local
  state per thread, and a step is one atomic access of one thread; the scheduler picks any thread at
  any time. This theory holds reachability, two locales about step relations (an invariant, and a
  simulation of an abstract step relation), the counting of threads, and the abstract
  reader-writer lock that the locks refine.
\<close>

section \<open>Reachable states\<close>

inductive reachable :: "('s \<Rightarrow> bool) \<Rightarrow> ('s \<Rightarrow> 's \<Rightarrow> bool) \<Rightarrow> 's \<Rightarrow> bool" for init step where
  reachable_init: "init s \<Longrightarrow> reachable init step s"
| reachable_step: "reachable init step s \<Longrightarrow> step s s' \<Longrightarrow> reachable init step s'"

locale step_invariant =
  fixes init :: "'s \<Rightarrow> bool" and step :: "'s \<Rightarrow> 's \<Rightarrow> bool" and inv :: "'s \<Rightarrow> bool"
  assumes inv_init: "init s \<Longrightarrow> inv s" and inv_step: "inv s \<Longrightarrow> step s s' \<Longrightarrow> inv s'"
begin

lemma reachable_inv: "reachable init step s \<Longrightarrow> inv s"
  by (induction rule: reachable.induct) (auto intro: inv_init inv_step)

end

text \<open>Every step either does nothing to the abstract state or is a step of the specification.\<close>

locale step_simulation = step_invariant init step inv
  for init :: "'s \<Rightarrow> bool" and step :: "'s \<Rightarrow> 's \<Rightarrow> bool" and inv :: "'s \<Rightarrow> bool" +
  fixes ainit :: "'a \<Rightarrow> bool" and astep :: "'a \<Rightarrow> 'a \<Rightarrow> bool" and abs_state :: "'s \<Rightarrow> 'a"
  assumes abs_init: "init s \<Longrightarrow> ainit (abs_state s)"
    and abs_step: "inv s \<Longrightarrow> step s s' \<Longrightarrow> abs_state s' = abs_state s \<or> astep (abs_state s) (abs_state s')"
begin

lemma reachable_abs: "reachable init step s \<Longrightarrow> reachable ainit astep (abs_state s)"
proof (induction rule: reachable.induct)
  case (reachable_init s)
  thus ?case by (intro reachable.reachable_init abs_init)
next
  case (reachable_step s s')
  have "abs_state s' = abs_state s \<or> astep (abs_state s) (abs_state s')"
    using reachable_step.hyps by (intro abs_step reachable_inv)
  thus ?case using reachable_step.IH by (auto intro: reachable.reachable_step)
qed

end

section \<open>Counting threads\<close>

definition threads_in :: "nat \<Rightarrow> ('l \<Rightarrow> bool) \<Rightarrow> (nat \<Rightarrow> 'l) \<Rightarrow> nat" where
  "threads_in n P pc = card {t. t < n \<and> P (pc t)}"

text \<open>The threads other than \<open>t\<close> and the thread \<open>t\<close> itself.\<close>

lemma threads_in_split:
  assumes "t < n"
  shows "threads_in n P (pc(t := x)) = card {t'. t' < n \<and> t' \<noteq> t \<and> P (pc t')} + of_bool (P x)"
proof -
  have "{t'. t' < n \<and> P ((pc(t := x)) t')} =
      {t'. t' < n \<and> t' \<noteq> t \<and> P (pc t')} \<union> (if P x then {t} else {})"
    using assms by auto
  thus ?thesis by (auto simp: threads_in_def card_insert_if)
qed

lemma threads_in_0: "threads_in n P pc = 0 \<longleftrightarrow> (\<forall>t < n. \<not> P (pc t))"
  by (auto simp: threads_in_def)

lemma threads_in_le: "threads_in n P pc \<le> n"
proof -
  have "card {t. t < n \<and> P (pc t)} \<le> card {..<n}" by (intro card_mono) auto
  thus ?thesis by (simp add: threads_in_def)
qed

lemma threads_in_mono: "(\<And>l. P l \<Longrightarrow> Q l) \<Longrightarrow> threads_in n P pc \<le> threads_in n Q pc"
  unfolding threads_in_def by (intro card_mono) auto

lemma threads_in_const: "\<not> P l \<Longrightarrow> threads_in n P (\<lambda>_. l) = 0"
  by (simp add: threads_in_0)

lemma threads_in_at_most_one:
  "threads_in n P pc \<le> 1 \<Longrightarrow> t < n \<Longrightarrow> t' < n \<Longrightarrow> P (pc t) \<Longrightarrow> P (pc t') \<Longrightarrow> t = t'"
  using card_le_Suc0_iff_eq [of "{t. t < n \<and> P (pc t)}"] by (auto simp: threads_in_def)

section \<open>The abstract reader-writer lock\<close>

text \<open>What every thread holds. Readers share; one thread may hold the lock for upgrade beside readers;
  a writer is alone. A thread that gives up rights never waits.\<close>

datatype lock_mode = Free | Shared | Upgrade | Exclusive

inductive rw_spec :: "(nat \<Rightarrow> lock_mode) \<Rightarrow> (nat \<Rightarrow> lock_mode) \<Rightarrow> bool" where
  spec_read: "h t = Free \<Longrightarrow> \<forall>t'. h t' \<notin> {Upgrade, Exclusive} \<Longrightarrow> rw_spec h (h(t := Shared))"
| spec_upgrade: "h t = Free \<Longrightarrow> \<forall>t'. h t' \<notin> {Upgrade, Exclusive} \<Longrightarrow> rw_spec h (h(t := Upgrade))"
| spec_write: "h t \<in> {Free, Upgrade} \<Longrightarrow> \<forall>t'. t' \<noteq> t \<longrightarrow> h t' = Free \<Longrightarrow> rw_spec h (h(t := Exclusive))"
| spec_release: "h t \<noteq> Free \<Longrightarrow> rw_spec h (h(t := Free))"
| spec_to_read: "h t \<in> {Upgrade, Exclusive} \<Longrightarrow> rw_spec h (h(t := Shared))"
| spec_to_upgrade: "h t = Exclusive \<Longrightarrow> rw_spec h (h(t := Upgrade))"

definition rw_exclusion :: "(nat \<Rightarrow> lock_mode) \<Rightarrow> bool" where
  "rw_exclusion h \<longleftrightarrow>
     (\<forall>t t'. t \<noteq> t' \<longrightarrow> (h t = Exclusive \<longrightarrow> h t' = Free) \<and> (h t = Upgrade \<longrightarrow> h t' \<in> {Free, Shared}))"

interpretation rw_abstract: step_invariant "\<lambda>h. h = (\<lambda>_. Free)" rw_spec rw_exclusion
proof unfold_locales
  show "rw_exclusion h'" if "rw_exclusion h" "rw_spec h h'" for h h'
    using that(2,1)
  proof cases
    case (spec_write t)
    thus ?thesis using that(1) by (auto simp: rw_exclusion_def)
  qed (use that(1) in \<open>(auto simp: rw_exclusion_def; metis lock_mode.exhaust lock_mode.distinct)\<close>)+
qed (simp add: rw_exclusion_def)

end
