(* ===== verification/RW_Spin_Lock.thy ===== *)
theory RW_Spin_Lock
  imports Interleaving Folly_Hash
begin

text \<open>
  \<open>RWSpinLock\<close> of \<open>folly/RWSpinLock.h\<close>: a reader-writer lock in one atomic 32-bit word. Every access to
  the word is one atomic operation on a single location, so that an interleaving of these operations
  is all there is to see. A method that makes two accesses has a state of the thread between them; a
  spin loop is its attempt, repeated. The header promises 2^30 - 1 concurrent readers.
\<close>

section \<open>Atomic operations\<close>

text \<open>The value before, as the operation returns it, and the value after.\<close>

definition fetch_add :: "u32 \<Rightarrow> u32 \<Rightarrow> u32 \<times> u32" where
  "fetch_add x d = (x, x + d)"

definition fetch_and :: "u32 \<Rightarrow> u32 \<Rightarrow> u32 \<times> u32" where
  "fetch_and x m = (x, x AND m)"

definition fetch_or :: "u32 \<Rightarrow> u32 \<Rightarrow> u32 \<times> u32" where
  "fetch_or x m = (x, x OR m)"

definition compare_exchange_strong :: "u32 \<Rightarrow> u32 \<Rightarrow> u32 \<Rightarrow> bool \<times> u32" where
  "compare_exchange_strong x expect desired = (if x = expect then (True, desired) else (False, x))"

section \<open>The methods\<close>

definition READER :: u32 where "READER = 4"
definition UPGRADED :: u32 where "UPGRADED = 2"
definition WRITER :: u32 where "WRITER = 1"

definition rw_try_lock :: "u32 \<Rightarrow> bool \<times> u32" where
  "rw_try_lock bits = compare_exchange_strong bits 0 WRITER"

definition rw_unlock :: "u32 \<Rightarrow> u32" where
  "rw_unlock bits = snd (fetch_and bits (NOT (WRITER OR UPGRADED)))"

text \<open>\<open>try_lock_shared\<close> up to its test, and what it does when the test fails.\<close>

definition rw_try_lock_shared :: "u32 \<Rightarrow> bool \<times> u32" where
  "rw_try_lock_shared bits =
     (case fetch_add bits READER of (value, bits) \<Rightarrow> (value AND (WRITER OR UPGRADED) = 0, bits))"

definition rw_try_lock_shared_undo :: "u32 \<Rightarrow> u32" where
  "rw_try_lock_shared_undo bits = snd (fetch_add bits (- READER))"

definition rw_unlock_shared :: "u32 \<Rightarrow> u32" where
  "rw_unlock_shared bits = snd (fetch_add bits (- READER))"

text \<open>\<open>unlock_and_lock_shared\<close> is this followed by \<open>unlock\<close>.\<close>

definition rw_downgrade :: "u32 \<Rightarrow> u32" where
  "rw_downgrade bits = snd (fetch_add bits READER)"

definition rw_try_lock_upgrade :: "u32 \<Rightarrow> bool \<times> u32" where
  "rw_try_lock_upgrade bits =
     (case fetch_or bits UPGRADED of (value, bits) \<Rightarrow> (value AND (UPGRADED OR WRITER) = 0, bits))"

definition rw_unlock_upgrade :: "u32 \<Rightarrow> u32" where
  "rw_unlock_upgrade bits = snd (fetch_add bits (- UPGRADED))"

definition rw_try_unlock_upgrade_and_lock :: "u32 \<Rightarrow> bool \<times> u32" where
  "rw_try_unlock_upgrade_and_lock bits = compare_exchange_strong bits UPGRADED WRITER"

definition rw_unlock_upgrade_and_lock_shared :: "u32 \<Rightarrow> u32" where
  "rw_unlock_upgrade_and_lock_shared bits = snd (fetch_add bits (READER - UPGRADED))"

text \<open>The two accesses of \<open>unlock_and_lock_upgrade\<close>.\<close>

definition rw_mark_upgrade :: "u32 \<Rightarrow> u32" where
  "rw_mark_upgrade bits = snd (fetch_or bits UPGRADED)"

definition rw_drop_writer :: "u32 \<Rightarrow> u32" where
  "rw_drop_writer bits = snd (fetch_add bits (- WRITER))"

section \<open>Threads\<close>

text \<open>Where a thread stands. \<open>FailedReader\<close> has to take its count back, \<open>Downgrading\<close> and
  \<open>ToUpgrader\<close> are between the two accesses of \<open>unlock_and_lock_shared\<close> and
  \<open>unlock_and_lock_upgrade\<close>.\<close>

datatype rw_pc = Outside | Reader | Upgrader | Writer | FailedReader | Downgrading | ToUpgrader

record rw_state =
  rw_bits :: u32
  rw_thread :: "nat \<Rightarrow> rw_pc"

text \<open>A new lock and \<open>n\<close> threads, no more than the header allows.\<close>

definition rw_init :: "nat \<Rightarrow> rw_state \<Rightarrow> bool" where
  "rw_init n s \<longleftrightarrow> n < 2 ^ 30 \<and> rw_bits s = 0 \<and> rw_thread s = (\<lambda>_. Outside)"

definition rw_set :: "nat \<Rightarrow> rw_pc \<Rightarrow> u32 \<Rightarrow> rw_state \<Rightarrow> rw_state" where
  "rw_set t l b s = s\<lparr> rw_bits := b, rw_thread := (rw_thread s)(t := l) \<rparr>"

text \<open>One access of a thread at \<open>l\<close> to the word \<open>b\<close>.\<close>

inductive rw_access :: "rw_pc \<Rightarrow> u32 \<Rightarrow> rw_pc \<Rightarrow> u32 \<Rightarrow> bool" where
  lock: "rw_try_lock b = (ok, b') \<Longrightarrow> rw_access Outside b (if ok then Writer else Outside) b'"
| unlock: "rw_access Writer b Outside (rw_unlock b)"
| lock_shared: "rw_try_lock_shared b = (ok, b') \<Longrightarrow> rw_access Outside b (if ok then Reader else FailedReader) b'"
| lock_shared_undo: "rw_access FailedReader b Outside (rw_try_lock_shared_undo b)"
| unlock_shared: "rw_access Reader b Outside (rw_unlock_shared b)"
| downgrade: "rw_access Writer b Downgrading (rw_downgrade b)"
| downgraded: "rw_access Downgrading b Reader (rw_unlock b)"
| lock_upgrade: "rw_try_lock_upgrade b = (ok, b') \<Longrightarrow> rw_access Outside b (if ok then Upgrader else Outside) b'"
| unlock_upgrade: "rw_access Upgrader b Outside (rw_unlock_upgrade b)"
| promote: "rw_try_unlock_upgrade_and_lock b = (ok, b') \<Longrightarrow> rw_access Upgrader b (if ok then Writer else Upgrader) b'"
| upgrade_to_shared: "rw_access Upgrader b Reader (rw_unlock_upgrade_and_lock_shared b)"
| mark_upgrade: "rw_access Writer b ToUpgrader (rw_mark_upgrade b)"
| drop_writer: "rw_access ToUpgrader b Upgrader (rw_drop_writer b)"

inductive rw_step :: "nat \<Rightarrow> rw_state \<Rightarrow> rw_state \<Rightarrow> bool" for n where
  rw_stepI: "t < n \<Longrightarrow> rw_access (rw_thread s t) (rw_bits s) l b \<Longrightarrow> rw_step n s (rw_set t l b s)"

section \<open>The word as a count and two flags\<close>

definition rw_word :: "nat \<Rightarrow> bool \<Rightarrow> bool \<Rightarrow> u32" where
  "rw_word r u w = of_nat (4 * r + 2 * of_bool u + of_bool w)"

lemma unat_rw_word: "r < 2 ^ 30 \<Longrightarrow> unat (rw_word r u w) = 4 * r + 2 * of_bool u + of_bool w"
proof -
  let ?k = "4 * r + 2 * of_bool u + of_bool w"
  assume "r < 2 ^ 30"
  hence "?k < 2 ^ LENGTH(32)" by (cases u; cases w) simp_all
  thus ?thesis unfolding rw_word_def unat_of_nat by (rule mod_less)
qed

lemma rw_word_inject:
  assumes "r < 2 ^ 30" "r' < 2 ^ 30"
  shows "rw_word r u w = rw_word r' u' w' \<longleftrightarrow> r = r' \<and> u = u' \<and> w = w'"
  unfolding word_unat_eq_iff unat_rw_word [OF assms(1)] unat_rw_word [OF assms(2)]
  by (cases u; cases w; cases u'; cases w') (simp; presburger)+

lemma bit_rw_word:
  "bit (rw_word r u w) i \<longleftrightarrow> (i = 0 \<and> w \<or> i = 1 \<and> u \<or> 2 \<le> i \<and> i < 32 \<and> bit r (i - 2))"
proof -
  have "bit (4 * r + 2 * of_bool u + of_bool w) i \<longleftrightarrow> (i = 0 \<and> w \<or> i = 1 \<and> u \<or> 2 \<le> i \<and> bit r (i - 2))"
  proof (cases i)
    case (Suc j)
    thus ?thesis by (cases j) (auto simp: bit_Suc bit_0)
  qed (simp add: bit_0)
  thus ?thesis unfolding rw_word_def bit_of_nat_iff possible_bit_word by (simp only:) auto
qed

lemmas rw_flags = READER_def UPGRADED_def WRITER_def

lemma rw_word_literals:
  "0 = rw_word 0 False False" "WRITER = rw_word 0 False True" "UPGRADED = rw_word 0 True False"
  "WRITER OR UPGRADED = rw_word 0 True True" "UPGRADED OR WRITER = rw_word 0 True True"
  by (simp_all add: rw_word_def rw_flags)

lemma rw_word_ops:
  "rw_word r u w + READER = rw_word (Suc r) u w"
  "rw_word (Suc r) u w - READER = rw_word r u w"
  "rw_word r True w - UPGRADED = rw_word r False w"
  "rw_word r u True - WRITER = rw_word r u False"
  "rw_word r True w + (READER - UPGRADED) = rw_word (Suc r) False w"
  "rw_word r u w OR UPGRADED = rw_word r True w"
  "rw_word r u w AND NOT (WRITER OR UPGRADED) = rw_word r False False"
  "rw_word r u w AND (WRITER OR UPGRADED) = 0 \<longleftrightarrow> \<not> u \<and> \<not> w"
  "rw_word r u w AND (UPGRADED OR WRITER) = 0 \<longleftrightarrow> \<not> u \<and> \<not> w"
proof -
  show "rw_word r u w OR UPGRADED = rw_word r True w"
    unfolding rw_word_literals(3) by (rule bit_word_eqI) (auto simp: bit_or_iff bit_rw_word)
  show "rw_word r u w AND NOT (WRITER OR UPGRADED) = rw_word r False False"
    unfolding rw_word_literals(4)
    by (rule bit_word_eqI) (auto simp: bit_and_iff bit_not_iff bit_rw_word possible_bit_word)
  have "rw_word r u w AND rw_word 0 True True = rw_word 0 u w"
    by (rule bit_word_eqI) (auto simp: bit_and_iff bit_rw_word)
  moreover have "rw_word 0 u w = 0 \<longleftrightarrow> \<not> u \<and> \<not> w" by (cases u; cases w) (simp_all add: rw_word_def)
  ultimately show "rw_word r u w AND (WRITER OR UPGRADED) = 0 \<longleftrightarrow> \<not> u \<and> \<not> w"
    "rw_word r u w AND (UPGRADED OR WRITER) = 0 \<longleftrightarrow> \<not> u \<and> \<not> w"
    by (simp_all only: rw_word_literals(4,5))
qed (simp_all add: rw_word_def rw_flags algebra_simps)

lemma rw_word_is:
  assumes "c < 2 ^ 30"
  shows "rw_word c u w = 0 \<longleftrightarrow> c = 0 \<and> \<not> u \<and> \<not> w" "rw_word c u w = UPGRADED \<longleftrightarrow> c = 0 \<and> u \<and> \<not> w"
  using rw_word_inject [OF assms, of 0 u w False False] rw_word_inject [OF assms, of 0 u w True False]
  unfolding rw_word_literals(1,3) by simp_all

lemmas access_defs = rw_try_lock_def rw_unlock_def rw_try_lock_shared_def rw_try_lock_shared_undo_def
  rw_unlock_shared_def rw_downgrade_def rw_try_lock_upgrade_def rw_unlock_upgrade_def
  rw_try_unlock_upgrade_and_lock_def rw_unlock_upgrade_and_lock_shared_def rw_mark_upgrade_def rw_drop_writer_def
  fetch_add_def fetch_and_def fetch_or_def compare_exchange_strong_def

text \<open>The methods on a count and two flags.\<close>

lemma rw_methods:
  "rw_unlock (rw_word r u w) = rw_word r False False"
  "rw_try_lock_shared (rw_word r u w) = (\<not> u \<and> \<not> w, rw_word (Suc r) u w)"
  "rw_try_lock_shared_undo (rw_word (Suc r) u w) = rw_word r u w"
  "rw_unlock_shared (rw_word (Suc r) u w) = rw_word r u w"
  "rw_downgrade (rw_word r u w) = rw_word (Suc r) u w"
  "rw_try_lock_upgrade (rw_word r u w) = (\<not> u \<and> \<not> w, rw_word r True w)"
  "rw_unlock_upgrade (rw_word r True w) = rw_word r False w"
  "rw_unlock_upgrade_and_lock_shared (rw_word r True w) = rw_word (Suc r) False w"
  "rw_mark_upgrade (rw_word r u w) = rw_word r True w"
  "rw_drop_writer (rw_word r u True) = rw_word r u False"
  "r < 2 ^ 30 \<Longrightarrow> rw_try_lock (rw_word r u w) =
     (if r = 0 \<and> \<not> u \<and> \<not> w then (True, rw_word 0 False True) else (False, rw_word r u w))"
  "r < 2 ^ 30 \<Longrightarrow> rw_try_unlock_upgrade_and_lock (rw_word r u w) =
     (if r = 0 \<and> u \<and> \<not> w then (True, rw_word 0 False True) else (False, rw_word r u w))"
  by (simp_all only: access_defs prod.case snd_conv rw_word_ops add_uminus_conv_diff rw_word_is)
    (simp_all only: rw_word_literals(2))

section \<open>The invariant\<close>

text \<open>The word counts the readers, also failed ones, and flags the writer; the flag for upgrading may be
  set without an upgrader only while there is a writer, who clears it.\<close>

fun counted :: "rw_pc \<Rightarrow> bool" where
  "counted l \<longleftrightarrow> l \<in> {Reader, FailedReader, Downgrading}"

fun writing :: "rw_pc \<Rightarrow> bool" where
  "writing l \<longleftrightarrow> l \<in> {Writer, Downgrading, ToUpgrader}"

definition rw_word_ok :: "u32 \<Rightarrow> nat \<Rightarrow> nat \<Rightarrow> nat \<Rightarrow> nat \<Rightarrow> nat \<Rightarrow> bool" where
  "rw_word_ok b c w u r q \<longleftrightarrow>
     (\<exists>f. b = rw_word c f (0 < w) \<and> w + u \<le> 1 \<and> (w = 0 \<longrightarrow> f = (0 < u)) \<and> (0 < q \<longrightarrow> f) \<and> (0 < w \<longrightarrow> r = 0))"

definition rw_inv :: "nat \<Rightarrow> rw_state \<Rightarrow> bool" where
  "rw_inv n s \<longleftrightarrow>
     (let num = (\<lambda>P. threads_in n P (rw_thread s)) in
      rw_word_ok (rw_bits s) (num counted) (num writing) (num (\<lambda>l. l = Upgrader)) (num (\<lambda>l. l = Reader))
        (num (\<lambda>l. l = ToUpgrader))) \<and>
     (\<forall>t \<ge> n. rw_thread s t = Outside) \<and> n < 2 ^ 30"

text \<open>One access, with the counts of the other threads.\<close>

lemma access_word_ok:
  assumes "rw_access l b l' b'" "c < 2 ^ 30" "q \<le> w" "r \<le> c"
    and "rw_word_ok b (c + of_bool (counted l)) (w + of_bool (writing l)) (u + of_bool (l = Upgrader))
      (r + of_bool (l = Reader)) (q + of_bool (l = ToUpgrader))"
  shows "rw_word_ok b' (c + of_bool (counted l')) (w + of_bool (writing l')) (u + of_bool (l' = Upgrader))
      (r + of_bool (l' = Reader)) (q + of_bool (l' = ToUpgrader))"
proof -
  obtain f where f: "b = rw_word (c + of_bool (counted l)) f (0 < w + of_bool (writing l))"
    "w + of_bool (writing l) + (u + of_bool (l = Upgrader)) \<le> 1"
    "w + of_bool (writing l) = 0 \<longrightarrow> f = (0 < u + of_bool (l = Upgrader))"
    "0 < q + of_bool (l = ToUpgrader) \<longrightarrow> f" "0 < w + of_bool (writing l) \<longrightarrow> r + of_bool (l = Reader) = 0"
    using assms(5) unfolding rw_word_ok_def by (elim exE conjE) (rule that)
  show ?thesis
    using assms(1)
    by cases (use f assms(2-4) in \<open>auto simp: rw_word_ok_def rw_methods split: if_splits\<close>)
qed

lemma rw_inv_step: "rw_inv n s \<Longrightarrow> rw_step n s s' \<Longrightarrow> rw_inv n s'"
proof -
  assume inv: "rw_inv n s" and "rw_step n s s'"
  then obtain t l b where t: "t < n" "rw_access (rw_thread s t) (rw_bits s) l b" "s' = rw_set t l b s"
    by (auto elim: rw_step.cases)
  let ?others = "\<lambda>P. card {t'. t' < n \<and> t' \<noteq> t \<and> P (rw_thread s t')}"
  have num: "threads_in n P ((rw_thread s)(t := x)) = ?others P + of_bool (P x)" for P x
    using t(1) by (rule threads_in_split)
  have now: "threads_in n P (rw_thread s) = ?others P + of_bool (P (rw_thread s t))" for P
    using num [of P "rw_thread s t"] by simp
  have sub: "?others (\<lambda>l. l = ToUpgrader) \<le> ?others writing" "?others (\<lambda>l. l = Reader) \<le> ?others counted"
    by (intro card_mono; auto)+
  have "?others counted < 2 ^ 30"
    using now [of counted] threads_in_le [of n counted "rw_thread s"] inv by (simp add: rw_inv_def)
  from access_word_ok [OF t(2) this sub] inv show ?thesis
    using t(1) unfolding rw_inv_def t(3) by (auto simp: rw_set_def Let_def num now simp del: counted.simps writing.simps)
qed

section \<open>The lock refines the abstract lock\<close>

fun rw_mode :: "rw_pc \<Rightarrow> lock_mode" where
  "rw_mode Outside = Free"
| "rw_mode FailedReader = Free"
| "rw_mode Reader = Shared"
| "rw_mode Upgrader = Upgrade"
| "rw_mode Writer = Exclusive"
| "rw_mode Downgrading = Exclusive"
| "rw_mode ToUpgrader = Exclusive"

definition rw_abs :: "rw_state \<Rightarrow> nat \<Rightarrow> lock_mode" where
  "rw_abs s t = rw_mode (rw_thread s t)"

lemma rw_abs_set: "rw_abs (rw_set t l b s) = (rw_abs s)(t := rw_mode l)"
  by (auto simp: rw_abs_def rw_set_def)

text \<open>What the flags and the count of the word say of the threads.\<close>

lemma rw_word_tells:
  assumes "rw_inv n s"
  obtains c f w where "rw_bits s = rw_word c f w" "c < 2 ^ 30"
    "\<not> f \<and> \<not> w \<longleftrightarrow> (\<forall>t. rw_abs s t \<notin> {Upgrade, Exclusive})"
    "c = 0 \<longleftrightarrow> (\<forall>t. \<not> counted (rw_thread s t))"
    "\<not> w \<longleftrightarrow> (\<forall>t. rw_abs s t \<noteq> Exclusive)"
    "\<And>t t'. rw_abs s t = Upgrade \<Longrightarrow> t \<noteq> t' \<Longrightarrow> rw_abs s t' \<noteq> Upgrade"
proof -
  let ?num = "\<lambda>P. threads_in n P (rw_thread s)"
  have inv: "rw_word_ok (rw_bits s) (?num counted) (?num writing) (?num (\<lambda>l. l = Upgrader)) (?num (\<lambda>l. l = Reader))
      (?num (\<lambda>l. l = ToUpgrader))" and out: "\<And>t. n \<le> t \<Longrightarrow> rw_thread s t = Outside" and n: "n < 2 ^ 30"
    using assms by (auto simp: rw_inv_def Let_def)
  obtain f where f: "rw_bits s = rw_word (?num counted) f (0 < ?num writing)"
    "?num writing + ?num (\<lambda>l. l = Upgrader) \<le> 1" "?num writing = 0 \<longrightarrow> f = (0 < ?num (\<lambda>l. l = Upgrader))"
    using inv unfolding rw_word_ok_def by (elim exE conjE) (rule that)
  have here: "t < n" if "rw_thread s t \<noteq> Outside" for t using out that not_less by blast
  have mode: "rw_abs s t = Exclusive \<longleftrightarrow> writing (rw_thread s t)" "rw_abs s t = Upgrade \<longleftrightarrow> rw_thread s t = Upgrader"
    "rw_abs s t = Shared \<longleftrightarrow> rw_thread s t = Reader" for t
    by (cases "rw_thread s t"; simp add: rw_abs_def)+
  have none: "?num P = 0 \<longleftrightarrow> (\<forall>t. \<not> P (rw_thread s t))" if "\<not> P Outside" for P
    using that here unfolding threads_in_0 by metis
  show ?thesis
  proof (rule that [OF f(1)])
    show "?num counted < 2 ^ 30" using threads_in_le [of n counted "rw_thread s"] n by simp
    have "\<not> f \<and> \<not> 0 < ?num writing \<longleftrightarrow> ?num writing = 0 \<and> ?num (\<lambda>l. l = Upgrader) = 0" using f(3) by auto
    also have "\<dots> \<longleftrightarrow> (\<forall>t. \<not> writing (rw_thread s t)) \<and> (\<forall>t. rw_thread s t \<noteq> Upgrader)"
      using none [of writing] none [of "\<lambda>l. l = Upgrader"] by simp
    finally show "\<not> f \<and> \<not> 0 < ?num writing \<longleftrightarrow> (\<forall>t. rw_abs s t \<notin> {Upgrade, Exclusive})"
      using mode by auto
    show "?num counted = 0 \<longleftrightarrow> (\<forall>t. \<not> counted (rw_thread s t))"
      using none [of counted] by simp
    show "\<not> 0 < ?num writing \<longleftrightarrow> (\<forall>t. rw_abs s t \<noteq> Exclusive)"
      using none [of writing] by (simp only: mode) simp
    show "rw_abs s t' \<noteq> Upgrade" if "rw_abs s t = Upgrade" "t \<noteq> t'" for t t'
    proof -
      have "?num (\<lambda>l. l = Upgrader) \<le> 1" using f(2) by simp
      from threads_in_at_most_one [OF this, of t t'] show ?thesis using that here [of t] here [of t'] by (auto simp: mode)
    qed
  qed
qed

lemma rw_abs_step:
  assumes "rw_inv n s" "rw_step n s s'"
  shows "rw_abs s' = rw_abs s \<or> rw_spec (rw_abs s) (rw_abs s')"
proof -
  obtain t l b where t: "rw_access (rw_thread s t) (rw_bits s) l b" "s' = rw_set t l b s"
    using assms(2) by (auto elim: rw_step.cases)
  obtain c f w where w: "rw_bits s = rw_word c f w" "c < 2 ^ 30"
    "\<not> f \<and> \<not> w \<longleftrightarrow> (\<forall>t. rw_abs s t \<notin> {Upgrade, Exclusive})" "c = 0 \<longleftrightarrow> (\<forall>t. \<not> counted (rw_thread s t))"
    "\<not> w \<longleftrightarrow> (\<forall>t. rw_abs s t \<noteq> Exclusive)" "\<And>t t'. rw_abs s t = Upgrade \<Longrightarrow> t \<noteq> t' \<Longrightarrow> rw_abs s t' \<noteq> Upgrade"
    using assms(1) by (rule rw_word_tells) blast
  have same: "(rw_abs s)(t := rw_mode l) = rw_abs s" if "rw_abs s t = rw_mode l" using that by auto
  have m: "rw_abs s t = rw_mode (rw_thread s t)" by (simp add: rw_abs_def)
  have no_reader: "rw_abs s t' \<noteq> Shared" if "c = 0" for t'
    using w(4) that by (cases "rw_thread s t'") (auto simp: rw_abs_def)
  have "(rw_abs s)(t := rw_mode l) = rw_abs s \<or> rw_spec (rw_abs s) ((rw_abs s)(t := rw_mode l))" (is ?goal)
    using t(1)
  proof cases
    case (lock ok)
    show ?goal
    proof (cases ok)
      case True
      hence z: "c = 0" "\<not> f" "\<not> w" using lock w(1,2) by (auto simp: rw_methods split: if_splits)
      have "rw_abs s t' = Free" for t' using w(3) no_reader z by (cases "rw_abs s t'") auto
      thus ?goal using lock m True by (auto intro!: rw_spec.spec_write)
    qed (use lock m same in simp)
  next
    case (promote ok)
    show ?goal
    proof (cases ok)
      case True
      hence z: "c = 0" "\<not> w" using promote w(1,2) by (auto simp: rw_methods split: if_splits)
      have "rw_abs s t' = Free" if "t' \<noteq> t" for t'
        using w(5) no_reader w(6) [of t t'] z that promote m by (cases "rw_abs s t'") auto
      thus ?goal using promote m True by (auto intro!: rw_spec.spec_write)
    qed (use promote m same in simp)
  next
    case (lock_shared ok)
    thus ?goal using w(1,3) m same by (cases ok) (auto simp: rw_methods intro!: rw_spec.spec_read)
  next
    case (lock_upgrade ok)
    thus ?goal using w(1,3) m same by (cases ok) (auto simp: rw_methods intro!: rw_spec.spec_upgrade)
  qed (use m same in \<open>auto intro: rw_spec.intros\<close>)
  thus ?thesis by (simp only: t(2) rw_abs_set)
qed

interpretation rw: step_simulation "rw_init n" "rw_step n" "rw_inv n" "\<lambda>h. h = (\<lambda>_. Free)" rw_spec rw_abs for n
proof unfold_locales
  show "rw_inv n s" if "rw_init n s" for n s
    using that rw_word_literals(1) by (auto simp: rw_init_def rw_inv_def rw_word_ok_def threads_in_const)
  show "rw_abs s = (\<lambda>_. Free)" if "rw_init n s" for n s
    using that by (auto simp: rw_init_def rw_abs_def)
qed (auto intro: rw_inv_step dest: rw_abs_step)

section \<open>Properties\<close>

text \<open>
  C32: with at most 2^30 - 1 threads, whatever the scheduler does, what the threads hold changes only as
  the abstract reader-writer lock allows; so a writer is alone and there is at most one upgrader.
\<close>

theorem rw_lock_refines:
  assumes "reachable (rw_init n) (rw_step n) s"
  shows "reachable (\<lambda>h. h = (\<lambda>_. Free)) rw_spec (rw_abs s) \<and> rw_exclusion (rw_abs s)"
  using rw.reachable_abs [OF assms] rw_abstract.reachable_inv by blast

theorem rw_lock_refines_witness:
  "rw_exclusion (rw_abs (rw_set 0 Writer 1 \<lparr> rw_bits = 0, rw_thread = (\<lambda>_. Outside) \<rparr>))"
proof -
  let ?s = "\<lparr> rw_bits = 0, rw_thread = (\<lambda>_. Outside) \<rparr>"
  have "rw_access Outside 0 (if True then Writer else Outside) 1"
    by (rule rw_access.lock) (simp add: rw_try_lock_def compare_exchange_strong_def WRITER_def)
  hence "rw_step 2 ?s (rw_set 0 Writer 1 ?s)" by (intro rw_stepI) simp_all
  moreover have "reachable (rw_init 2) (rw_step 2) ?s"
    by (rule reachable_init) (simp add: rw_init_def)
  ultimately have "reachable (rw_init 2) (rw_step 2) (rw_set 0 Writer 1 ?s)" by (rule reachable_step [rotated])
  from rw_lock_refines [OF this] show ?thesis by blast
qed



end
