(* ===== verification/Ticket_Lock.thy ===== *)
theory Ticket_Lock
  imports Interleaving Folly_Hash
begin

text \<open>
  \<open>RWTicketSpinLockT\<close> of \<open>folly/RWSpinLock.h\<close>: a reader-writer lock of three counters in one integer,
  each a quarter of it, 8 bits wide for the 32-bit lock and 16 for the 64-bit one. The theory is about any
  width. The union \<open>RWTicket\<close> is a record of the three quarters; the fourth stays 0, so that comparing
  \<open>whole\<close> is comparing the records. The branches with and without SSE both add to the quarters one by
  one. Loads, the compare-and-swap, the fetch-and-add of a quarter and the store of \<open>readWrite\<close> are one
  access each; methods that make two have a state of the thread between them.
\<close>

record 'w ticket =
  tk_write :: 'w
  tk_read :: 'w
  tk_users :: 'w

section \<open>The accesses\<close>

definition sync_compare_and_swap :: "'w ticket \<Rightarrow> 'w ticket \<Rightarrow> 'w ticket \<Rightarrow> bool \<times> 'w ticket" where
  "sync_compare_and_swap tk old new = (if tk = old then (True, new) else (False, tk))"

text \<open>\<open>try_lock\<close>: the test of the loaded ticket, and the swap.\<close>

definition tk_try_lock_test :: "'q :: len word ticket \<Rightarrow> bool" where
  "tk_try_lock_test t \<longleftrightarrow> tk_users t = tk_write t"

definition tk_try_lock_swap :: "'q :: len word ticket \<Rightarrow> 'q word ticket \<Rightarrow> bool \<times> 'q word ticket" where
  "tk_try_lock_swap old tk = sync_compare_and_swap tk old (old\<lparr> tk_users := tk_users old + 1 \<rparr>)"

text \<open>\<open>writeLockAggressive\<close>: the ticket drawn, and the test of the spin loop.\<close>

definition tk_draw :: "'q :: len word ticket \<Rightarrow> 'q word \<times> 'q word ticket" where
  "tk_draw tk = (tk_users tk, tk\<lparr> tk_users := tk_users tk + 1 \<rparr>)"

definition tk_turn :: "'q :: len word \<Rightarrow> 'q word ticket \<Rightarrow> bool" where
  "tk_turn val tk \<longleftrightarrow> val = tk_write tk"

text \<open>\<open>unlock\<close> stores the half \<open>readWrite\<close>, computed from the ticket it loaded before.\<close>

definition tk_unlock_store :: "'q :: len word ticket \<Rightarrow> 'q word ticket \<Rightarrow> 'q word ticket" where
  "tk_unlock_store t tk = tk\<lparr> tk_write := tk_write t + 1, tk_read := tk_read t + 1 \<rparr>"

definition tk_unlock_and_lock_shared :: "'q :: len word ticket \<Rightarrow> 'q word ticket" where
  "tk_unlock_and_lock_shared tk = tk\<lparr> tk_read := tk_read tk + 1 \<rparr>"

text \<open>\<open>try_lock_shared\<close>, in its SSE variant, expects \<open>users\<close> to be equal to \<open>read\<close> and adds to that ticket.\<close>

definition tk_try_lock_shared_swap :: "'q :: len word ticket \<Rightarrow> 'q word ticket \<Rightarrow> bool \<times> 'q word ticket" where
  "tk_try_lock_shared_swap t tk =
     (let old = t\<lparr> tk_users := tk_read t \<rparr>
      in sync_compare_and_swap tk old (old\<lparr> tk_read := tk_read old + 1, tk_users := tk_users old + 1 \<rparr>))"

definition tk_unlock_shared :: "'q :: len word ticket \<Rightarrow> 'q word ticket" where
  "tk_unlock_shared tk = tk\<lparr> tk_write := tk_write tk + 1 \<rparr>"

section \<open>Threads\<close>

datatype 'w tk_pc = TOut | TTryLock "'w ticket" | TWaiting 'w | TWriter | TUnlocking "'w ticket"
  | TTryShared "'w ticket" | TReader

inductive tk_access :: "'q :: len word tk_pc \<Rightarrow> 'q word ticket \<Rightarrow> 'q word tk_pc \<Rightarrow> 'q word ticket \<Rightarrow> bool" where
  try_lock: "tk_access TOut tk (if tk_try_lock_test tk then TTryLock tk else TOut) tk"
| try_lock_swap: "tk_try_lock_swap old tk = (ok, tk') \<Longrightarrow>
    tk_access (TTryLock old) tk (if ok then TWriter else TOut) tk'"
| draw: "tk_draw tk = (val, tk') \<Longrightarrow> tk_access TOut tk (TWaiting val) tk'"
| turn: "tk_access (TWaiting val) tk (if tk_turn val tk then TWriter else TWaiting val) tk"
| unlock: "tk_access TWriter tk (TUnlocking tk) tk"
| unlock_store: "tk_access (TUnlocking t) tk TOut (tk_unlock_store t tk)"
| downgrade: "tk_access TWriter tk TReader (tk_unlock_and_lock_shared tk)"
| try_shared: "tk_access TOut tk (TTryShared tk) tk"
| try_shared_swap: "tk_try_lock_shared_swap t tk = (ok, tk') \<Longrightarrow>
    tk_access (TTryShared t) tk (if ok then TReader else TOut) tk'"
| unlock_shared: "tk_access TReader tk TOut (tk_unlock_shared tk)"

record 'w tk_state =
  tk_word :: "'w ticket"
  tk_thread :: "nat \<Rightarrow> 'w tk_pc"

text \<open>The header allows as many concurrent readers and writers as a quarter counts, less one.\<close>

definition tk_init :: "nat \<Rightarrow> 'q :: len word tk_state \<Rightarrow> bool" where
  "tk_init n s \<longleftrightarrow> n < 2 ^ LENGTH('q) \<and> tk_word s = \<lparr> tk_write = 0, tk_read = 0, tk_users = 0 \<rparr> \<and>
     tk_thread s = (\<lambda>_. TOut)"

definition tk_set :: "nat \<Rightarrow> 'q :: len word tk_pc \<Rightarrow> 'q word ticket \<Rightarrow> 'q word tk_state \<Rightarrow> 'q word tk_state" where
  "tk_set t l tk s = s\<lparr> tk_word := tk, tk_thread := (tk_thread s)(t := l) \<rparr>"

inductive tk_step :: "nat \<Rightarrow> 'q :: len word tk_state \<Rightarrow> 'q word tk_state \<Rightarrow> bool" for n where
  tk_stepI: "t < n \<Longrightarrow> tk_access (tk_thread s t) (tk_word s) l tk \<Longrightarrow> tk_step n s (tk_set t l tk s)"

section \<open>The invariant\<close>

text \<open>How many users come before a thread that wants to write: the distance of its ticket from \<open>write\<close>.\<close>

fun queued :: "'w tk_pc \<Rightarrow> bool" where
  "queued (TWaiting _) = True"
| "queued TWriter = True"
| "queued (TUnlocking _) = True"
| "queued _ = False"

fun ahead :: "'q :: len word ticket \<Rightarrow> 'q word tk_pc \<Rightarrow> nat" where
  "ahead tk (TWaiting val) = unat (val - tk_write tk)"
| "ahead tk _ = 0"

abbreviation reading :: "'w tk_pc \<Rightarrow> bool" where
  "reading l \<equiv> l = TReader"

abbreviation live :: "'w tk_pc \<Rightarrow> bool" where
  "live l \<equiv> queued l \<or> reading l"

text \<open>What the loaded tickets of a thread say, in a given state of the lock.\<close>

fun loaded_ok :: "'q :: len word ticket \<Rightarrow> 'q word tk_pc \<Rightarrow> bool" where
  "loaded_ok tk (TTryLock old) \<longleftrightarrow> tk_users old = tk_write old"
| "loaded_ok tk (TUnlocking t) \<longleftrightarrow> tk_write t = tk_write tk \<and> tk_read t = tk_read tk"
| "loaded_ok tk _ \<longleftrightarrow> True"

definition tk_inv :: "nat \<Rightarrow> 'q :: len word tk_state \<Rightarrow> bool" where
  "tk_inv n s \<longleftrightarrow>
     (let tk = tk_word s; pc = tk_thread s; L = threads_in n live pc; R = threads_in n reading pc in
      unat (tk_users tk - tk_write tk) = L \<and> unat (tk_read tk - tk_write tk) = R \<and>
      (\<forall>t. queued (pc t) \<longrightarrow> R \<le> ahead tk (pc t) \<and> ahead tk (pc t) < L) \<and>
      (\<forall>t t'. queued (pc t) \<and> queued (pc t') \<and> t \<noteq> t' \<longrightarrow> ahead tk (pc t) \<noteq> ahead tk (pc t')) \<and>
      (\<forall>t. loaded_ok tk (pc t)) \<and> (\<forall>t \<ge> n. pc t = TOut) \<and> n < 2 ^ LENGTH('q))"

lemma tk_invD:
  fixes s :: "'q :: len word tk_state"
  assumes "tk_inv n s"
  shows "unat (tk_users (tk_word s) - tk_write (tk_word s)) = threads_in n live (tk_thread s)"
    and "unat (tk_read (tk_word s) - tk_write (tk_word s)) = threads_in n reading (tk_thread s)"
    and "queued (tk_thread s t) \<Longrightarrow> threads_in n reading (tk_thread s) \<le> ahead (tk_word s) (tk_thread s t)"
    and "queued (tk_thread s t) \<Longrightarrow> ahead (tk_word s) (tk_thread s t) < threads_in n live (tk_thread s)"
    and "queued (tk_thread s t) \<Longrightarrow> queued (tk_thread s t') \<Longrightarrow> t \<noteq> t' \<Longrightarrow>
      ahead (tk_word s) (tk_thread s t) \<noteq> ahead (tk_word s) (tk_thread s t')"
    and "loaded_ok (tk_word s) (tk_thread s t)" and "n \<le> t \<Longrightarrow> tk_thread s t = TOut" and "n < 2 ^ LENGTH('q)"
  using assms by (simp_all add: tk_inv_def Let_def)

lemma unat_diff_Suc:
  fixes x w :: "'q :: len word"
  assumes "unat (x - w) = k" "Suc k < 2 ^ LENGTH('q)"
  shows "unat (x + 1 - w) = Suc k"
proof -
  have "unat (x + 1 - w) = unat ((x - w) + 1)" by (simp add: algebra_simps)
  also have "\<dots> = Suc k" using assms by (simp add: unat_word_ariths(1))
  finally show ?thesis .
qed

lemma unat_diff_dec:
  fixes x w :: "'q :: len word"
  assumes "unat (x - w) = k" "0 < k"
  shows "unat (x - (w + 1)) = k - 1"
proof -
  have "unat (x - (w + 1)) = unat ((x - w) - 1)" by (simp add: algebra_simps)
  also have "\<dots> = unat (x - w) - 1" using assms by (intro unat_minus_one) auto
  finally show ?thesis using assms(1) by simp
qed

lemma ahead_same: "tk_write tk' = tk_write tk \<Longrightarrow> ahead tk' l = ahead tk l"
  by (cases l) simp_all

lemma ahead_dec: "tk_write tk' = tk_write tk + 1 \<Longrightarrow> 0 < ahead tk l \<Longrightarrow> ahead tk' l = ahead tk l - 1"
  using unat_diff_dec [OF refl, of _ "tk_write tk"] by (cases l) simp_all

lemma ahead_pos: "queued l \<Longrightarrow> 0 < ahead tk l \<Longrightarrow> loaded_ok tk' l"
  by (cases l) simp_all

lemma loaded_same: "tk_write tk' = tk_write tk \<Longrightarrow> tk_read tk' = tk_read tk \<Longrightarrow> loaded_ok tk l \<Longrightarrow> loaded_ok tk' l"
  by (cases l) simp_all

lemma loaded_idle: "\<not> queued l \<Longrightarrow> loaded_ok tk l \<Longrightarrow> loaded_ok tk' l"
  by (cases l) simp_all

text \<open>The invariant seen from one thread: \<open>L\<close> and \<open>R\<close> count the others.\<close>

definition tk_view :: "nat \<Rightarrow> (nat \<Rightarrow> 'q :: len word tk_pc) \<Rightarrow> nat \<Rightarrow> nat \<Rightarrow> nat \<Rightarrow> 'q word tk_pc \<Rightarrow> 'q word ticket \<Rightarrow> bool" where
  "tk_view n pc t L R l tk \<longleftrightarrow>
     (let L = L + of_bool (live l); R = R + of_bool (reading l) in
      unat (tk_users tk - tk_write tk) = L \<and> unat (tk_read tk - tk_write tk) = R \<and>
      (queued l \<longrightarrow> R \<le> ahead tk l \<and> ahead tk l < L) \<and>
      (\<forall>t'. t' \<noteq> t \<and> queued (pc t') \<longrightarrow> R \<le> ahead tk (pc t') \<and> ahead tk (pc t') < L) \<and>
      (\<forall>t'. t' \<noteq> t \<and> queued (pc t') \<and> queued l \<longrightarrow> ahead tk l \<noteq> ahead tk (pc t')) \<and>
      (\<forall>t1 t2. t1 \<noteq> t \<and> t2 \<noteq> t \<and> queued (pc t1) \<and> queued (pc t2) \<and> t1 \<noteq> t2 \<longrightarrow> ahead tk (pc t1) \<noteq> ahead tk (pc t2)) \<and>
      loaded_ok tk l \<and> (\<forall>t'. t' \<noteq> t \<longrightarrow> loaded_ok tk (pc t')))"

lemma tk_inv_view:
  fixes s :: "'q :: len word tk_state"
  assumes "t < n" and "\<forall>t \<ge> n. tk_thread s t = TOut"
  shows "tk_inv n (tk_set t l tk s) \<longleftrightarrow>
    tk_view n (tk_thread s) t (card {t'. t' < n \<and> t' \<noteq> t \<and> live (tk_thread s t')})
      (card {t'. t' < n \<and> t' \<noteq> t \<and> reading (tk_thread s t')}) l tk \<and> n < 2 ^ LENGTH('q)"
proof -
  show ?thesis
    unfolding tk_inv_def tk_view_def Let_def tk_set_def
    using assms threads_in_split [OF assms(1), of live "tk_thread s" l]
      threads_in_split [OF assms(1), of reading "tk_thread s" l]
    by (simp, auto)
qed

lemmas tk_access_defs = sync_compare_and_swap_def tk_try_lock_test_def tk_try_lock_swap_def tk_draw_def tk_turn_def
  tk_unlock_store_def tk_unlock_and_lock_shared_def tk_try_lock_shared_swap_def tk_unlock_shared_def Let_def

text \<open>Accesses that leave \<open>write\<close> alone, and accesses that add one to it.\<close>

lemma view_same_write:
  fixes tk :: "'q :: len word ticket"
  assumes v: "tk_view n pc t L R l tk" and "tk_write tk' = tk_write tk"
    and "unat (tk_users tk' - tk_write tk) = L + of_bool (live l')"
    and "unat (tk_read tk' - tk_write tk) = R + of_bool (reading l')"
    and "queued l' \<Longrightarrow> R + of_bool (reading l') \<le> ahead tk l' \<and> ahead tk l' < L + of_bool (live l')"
    and "\<And>t'. t' \<noteq> t \<Longrightarrow> queued (pc t') \<Longrightarrow> R + of_bool (reading l') \<le> ahead tk (pc t') \<and> ahead tk (pc t') < L + of_bool (live l')"
    and "\<And>t'. t' \<noteq> t \<Longrightarrow> queued (pc t') \<Longrightarrow> queued l' \<Longrightarrow> ahead tk l' \<noteq> ahead tk (pc t')"
    and "loaded_ok tk' l'" "\<And>t'. t' \<noteq> t \<Longrightarrow> loaded_ok tk' (pc t')"
  shows "tk_view n pc t L R l' tk'"
  using assms unfolding tk_view_def Let_def ahead_same [OF assms(2)] by simp

lemma view_next_write:
  fixes tk :: "'q :: len word ticket"
  assumes v: "tk_view n pc t L R l tk" and w: "tk_write tk' = tk_write tk + 1" "tk_users tk' = tk_users tk"
    and l: "live l" "l' = TOut"
    and r: "unat (tk_read tk' - tk_write tk') = R"
    and pos: "\<And>t'. t' \<noteq> t \<Longrightarrow> queued (pc t') \<Longrightarrow> 0 < ahead tk (pc t') \<and> R \<le> ahead tk (pc t') - 1"
  shows "tk_view n pc t L R l' tk'"
proof -
  have dec: "ahead tk' (pc t') = ahead tk (pc t') - 1" if "t' \<noteq> t" "queued (pc t')" for t'
    using pos [OF that] ahead_dec [OF w(1)] by blast
  have "unat (tk_users tk - tk_write tk) = Suc L" using v l(1) by (simp add: tk_view_def Let_def)
  from unat_diff_dec [OF this] have "unat (tk_users tk' - tk_write tk') = L" unfolding w by simp
  moreover have "loaded_ok tk' (pc t')" if "t' \<noteq> t" for t'
    using v that pos [OF that] ahead_pos [of "pc t'" tk tk'] loaded_idle [of "pc t'" tk tk']
    by (auto simp: tk_view_def Let_def)
  moreover have "R \<le> ahead tk' (pc t') \<and> ahead tk' (pc t') < L" if "t' \<noteq> t" "queued (pc t')" for t'
  proof -
    have "ahead tk (pc t') < Suc L" using v l(1) that by (auto simp: tk_view_def Let_def)
    thus ?thesis using dec [OF that] pos [OF that] by linarith
  qed
  moreover have "ahead tk' (pc t1) \<noteq> ahead tk' (pc t2)"
    if "t1 \<noteq> t" "t2 \<noteq> t" "queued (pc t1)" "queued (pc t2)" "t1 \<noteq> t2" for t1 t2
  proof -
    have "ahead tk (pc t1) \<noteq> ahead tk (pc t2)" using v that by (auto simp: tk_view_def Let_def)
    thus ?thesis using that dec pos by (metis One_nat_def Suc_pred)
  qed
  ultimately show ?thesis using r l by (simp add: tk_view_def Let_def)
qed

lemma access_view:
  fixes tk :: "'q :: len word ticket"
  assumes "tk_access l tk l' tk'" and v: "tk_view n pc t L R l tk" and bound: "Suc L < 2 ^ LENGTH('q)" "R \<le> L"
  shows "tk_view n pc t L R l' tk'"
proof -
  note vd = v [unfolded tk_view_def Let_def]
  show ?thesis
    using assms(1)
  proof cases
    case try_lock
    thus ?thesis using vd by (intro view_same_write [OF v]) (auto simp: tk_access_defs split: if_splits)
  next
    case (try_lock_swap old ok)
    show ?thesis
    proof (cases ok)
      case True
      hence tk: "tk = old" "tk' = tk\<lparr> tk_users := tk_users tk + 1 \<rparr>" "l' = TWriter" "tk_users tk = tk_write tk" "L = 0"
        using try_lock_swap vd by (auto simp: tk_access_defs split: if_splits)
      hence "R = 0" "unat (tk_users tk + 1 - tk_write tk) = 1"
        using bound(2) unat_diff_Suc [of "tk_users tk" "tk_write tk" 0] bound(1) by simp_all
      thus ?thesis using tk vd by (intro view_same_write [OF v]) (auto intro: loaded_same [of _ tk])
    qed (use try_lock_swap vd in \<open>intro view_same_write [OF v]; auto simp: tk_access_defs split: if_splits\<close>)
  next
    case (draw val)
    hence "unat (tk_users tk + 1 - tk_write tk) = Suc L" using vd bound(1) by (intro unat_diff_Suc) auto
    thus ?thesis using draw vd bound
      by (intro view_same_write [OF v]) (auto simp: tk_access_defs intro: loaded_same [of _ tk])
  next
    case (turn val)
    thus ?thesis using vd by (intro view_same_write [OF v]) (auto simp: tk_access_defs)
  next
    case unlock
    thus ?thesis using vd by (intro view_same_write [OF v]) auto
  next
    case (unlock_store u)
    have tk: "tk_write tk' = tk_write tk + 1" "tk_users tk' = tk_users tk" "tk_read tk' = tk_read tk + 1" "R = 0"
      using unlock_store vd by (auto simp: tk_access_defs)
    have "0 < ahead tk (pc t')" if "t' \<noteq> t" "queued (pc t')" for t'
      using vd unlock_store that by (metis ahead.simps(5) gr0I queued.simps(3))
    thus ?thesis using unlock_store tk vd by (intro view_next_write [OF v tk(1,2)]) auto
  next
    case downgrade
    have "R = 0" using downgrade vd by auto
    moreover have "unat (tk_read tk + 1 - tk_write tk) = 1"
      using downgrade vd bound(1) \<open>R = 0\<close> by (subst unat_diff_Suc [of _ _ 0]) auto
    moreover have "0 < ahead tk (pc t')" if "t' \<noteq> t" "queued (pc t')" for t'
      using vd downgrade that by (metis ahead.simps(4) gr0I queued.simps(2))
    moreover from this have "loaded_ok tk' (pc t')" if "t' \<noteq> t" for t'
      using that vd by (cases "queued (pc t')") (auto intro: ahead_pos loaded_idle)
    ultimately show ?thesis using downgrade vd
      by (intro view_same_write [OF v]) (auto simp: tk_access_defs Suc_leI)
  next
    case try_shared
    thus ?thesis using vd by (intro view_same_write [OF v]) auto
  next
    case (try_shared_swap u ok)
    show ?thesis
    proof (cases ok)
      case True
      hence tk: "tk' = tk\<lparr> tk_read := tk_read tk + 1, tk_users := tk_users tk + 1 \<rparr>" "l' = TReader" "tk_users tk = tk_read tk"
        using try_shared_swap by (auto simp: tk_access_defs split: if_splits)
      have "L = R" using tk(3) try_shared_swap vd by simp
      hence none: "\<not> queued (pc t')" if "t' \<noteq> t" for t' using vd that try_shared_swap by fastforce
      have "unat (tk_users tk + 1 - tk_write tk) = Suc L" "unat (tk_read tk + 1 - tk_write tk) = Suc R"
        using vd bound try_shared_swap \<open>L = R\<close> by (auto intro!: unat_diff_Suc)
      thus ?thesis using tk vd none by (intro view_same_write [OF v]) (auto intro: loaded_idle)
    qed (use try_shared_swap vd in \<open>intro view_same_write [OF v]; auto simp: tk_access_defs split: if_splits\<close>)
  next
    case unlock_shared
    have "unat (tk_read tk - tk_write tk) = Suc R" using unlock_shared vd by simp
    from unat_diff_dec [OF this] have "unat (tk_read tk - (tk_write tk + 1)) = R" by simp
    thus ?thesis using unlock_shared vd by (intro view_next_write [OF v]) (auto simp: tk_access_defs)
  qed
qed

lemma tk_inv_step: "tk_inv n s \<Longrightarrow> tk_step n s s' \<Longrightarrow> tk_inv n s'"
  for s :: "'q :: len word tk_state"
proof -
  assume inv: "tk_inv n s" and "tk_step n s s'"
  then obtain t l tk where t: "t < n" "tk_access (tk_thread s t) (tk_word s) l tk" "s' = tk_set t l tk s"
    by (auto elim: tk_step.cases)
  have out: "\<forall>t \<ge> n. tk_thread s t = TOut" and n: "n < 2 ^ LENGTH('q)" using tk_invD(7,8) [OF inv] by auto
  let ?others = "\<lambda>P. {t'. t' < n \<and> t' \<noteq> t \<and> P (tk_thread s t')}"
  have "tk_set t (tk_thread s t) (tk_word s) s = s" by (simp add: tk_set_def)
  hence view: "tk_view n (tk_thread s) t (card (?others live)) (card (?others reading)) (tk_thread s t) (tk_word s)"
    using inv tk_inv_view [OF t(1) out, of "tk_thread s t" "tk_word s"] by simp
  have "card (?others live) \<le> card ({..<n} - {t})" by (intro card_mono) auto
  hence "Suc (card (?others live)) < 2 ^ LENGTH('q)" using t(1) n by simp
  moreover have "card (?others reading) \<le> card (?others live)" by (intro card_mono) auto
  ultimately show ?thesis
    using access_view [OF t(2) view] n unfolding t(3) tk_inv_view [OF t(1) out] by blast
qed

section \<open>The lock refines the abstract lock\<close>

fun tk_mode :: "'w tk_pc \<Rightarrow> lock_mode" where
  "tk_mode TReader = Shared"
| "tk_mode TWriter = Exclusive"
| "tk_mode (TUnlocking _) = Exclusive"
| "tk_mode _ = Free"

definition tk_abs :: "'w tk_state \<Rightarrow> nat \<Rightarrow> lock_mode" where
  "tk_abs s t = tk_mode (tk_thread s t)"

lemma tk_abs_set: "tk_abs (tk_set t l tk s) = (tk_abs s)(t := tk_mode l)"
  by (auto simp: tk_abs_def tk_set_def)

lemma tk_mode_live: "tk_mode l \<noteq> Free \<Longrightarrow> live l" "tk_mode l = Exclusive \<Longrightarrow> queued l \<and> ahead tk l = 0" "tk_mode l \<noteq> Upgrade"
  by (cases l; simp)+

lemma tk_abs_step:
  fixes s :: "'q :: len word tk_state"
  assumes "tk_inv n s" "tk_step n s s'"
  shows "tk_abs s' = tk_abs s \<or> rw_spec (tk_abs s) (tk_abs s')"
proof -
  obtain t l tk where t: "tk_access (tk_thread s t) (tk_word s) l tk" "s' = tk_set t l tk s"
    using assms(2) by (auto elim: tk_step.cases)
  let ?tk = "tk_word s" and ?pc = "tk_thread s"
  let ?L = "threads_in n live ?pc" and ?R = "threads_in n reading ?pc"
  note inv = tk_invD [OF assms(1)]
  have none: "\<not> P (?pc t')" if "threads_in n P ?pc = 0" "\<not> P TOut" for P t'
    using that inv(7) [of t'] unfolding threads_in_0 by (cases "t' < n") auto
  have same: "(tk_abs s)(t := tk_mode l) = tk_abs s" if "tk_abs s t = tk_mode l" using that by auto
  have m: "tk_abs s t' = tk_mode (?pc t')" for t' by (simp add: tk_abs_def)
  have "(tk_abs s)(t := tk_mode l) = tk_abs s \<or> rw_spec (tk_abs s) ((tk_abs s)(t := tk_mode l))" (is ?goal)
    using t(1)
  proof cases
    case try_lock
    thus ?goal using same m by simp
  next
    case (try_lock_swap old ok)
    show ?goal
    proof (cases ok)
      case True
      hence "?L = 0" using try_lock_swap inv(1) inv(6) [of t] by (auto simp: tk_access_defs split: if_splits)
      hence "tk_abs s t' = Free" for t' using none [of live t'] tk_mode_live(1) m by fastforce
      thus ?goal using try_lock_swap True by (auto intro!: rw_spec.spec_write)
    qed (use try_lock_swap same m in simp)
  next
    case (turn val)
    show ?goal
    proof (cases "tk_turn val ?tk")
      case True
      hence a: "queued (?pc t)" "ahead ?tk (?pc t) = 0" using turn by (auto simp: tk_turn_def)
      hence "?R = 0" using inv(3) [of t] by simp
      hence "tk_abs s t' = Free" if "t' \<noteq> t" for t'
        using none [of reading t'] tk_mode_live(2) [of "?pc t'" ?tk] inv(5) [of t t'] a that m [of t']
        by (cases "?pc t'") auto
      thus ?goal using turn True m [of t] by (auto intro!: rw_spec.spec_write)
    qed (use turn same m in simp)
  next
    case (try_shared_swap u ok)
    show ?goal
    proof (cases ok)
      case True
      hence "tk_users ?tk = tk_read ?tk" using try_shared_swap by (auto simp: tk_access_defs split: if_splits)
      hence "?L = ?R" using inv(1,2) by simp
      hence idle: "\<not> queued (?pc t')" for t' using inv(3,4) [of t'] by linarith
      have "tk_abs s t' \<notin> {Upgrade, Exclusive}" for t' using idle [of t'] m [of t'] by (cases "?pc t'") auto
      thus ?goal using try_shared_swap True m [of t] by (auto intro!: rw_spec.spec_read)
    qed (use try_shared_swap same m in simp)
  qed (use m [of t] same in \<open>auto intro: rw_spec.intros\<close>)
  thus ?thesis by (simp only: t(2) tk_abs_set)
qed

interpretation tk: step_simulation "tk_init n" "tk_step n" "tk_inv n" "\<lambda>h. h = (\<lambda>_. Free)" rw_spec tk_abs for n
proof unfold_locales
  show "tk_inv n s" if "tk_init n s" for n and s :: "'q :: len word tk_state"
    using that by (auto simp: tk_init_def tk_inv_def Let_def threads_in_const)
  show "tk_abs s = (\<lambda>_. Free)" if "tk_init n s" for n and s :: "'q :: len word tk_state"
    using that by (auto simp: tk_init_def tk_abs_def)
qed (auto intro: tk_inv_step dest: tk_abs_step)

section \<open>A waiting writer gets its turn\<close>

text \<open>The threads that are served now: readers, and the thread whose ticket is \<open>write\<close>.\<close>

definition served :: "'q :: len word tk_state \<Rightarrow> nat \<Rightarrow> bool" where
  "served s t \<longleftrightarrow> reading (tk_thread s t) \<or> queued (tk_thread s t) \<and> ahead (tk_word s) (tk_thread s t) = 0"

lemma someone_served:
  fixes s :: "'q :: len word tk_state"
  assumes "tk_inv n s" "queued (tk_thread s t)"
  shows "\<exists>t'. served s t'"
proof (cases "threads_in n reading (tk_thread s) = 0")
  case True
  let ?Q = "{t. t < n \<and> live (tk_thread s t)}" and ?ahead = "\<lambda>t. ahead (tk_word s) (tk_thread s t)"
  have q: "queued (tk_thread s t)" if "t \<in> ?Q" for t using that True by (auto simp: threads_in_0)
  have "inj_on ?ahead ?Q" using tk_invD(5) [OF assms(1) q q] by (intro inj_onI) blast
  moreover have "?ahead ` ?Q \<subseteq> {..<card ?Q}"
  proof (rule image_subsetI)
    fix u assume "u \<in> ?Q"
    from tk_invD(4) [OF assms(1) q [OF this]] show "?ahead u \<in> {..<card ?Q}"
      unfolding threads_in_def by (simp only: lessThan_iff)
  qed
  ultimately have "?ahead ` ?Q = {..<card ?Q}" by (intro card_subset_eq) (auto simp: card_image)
  moreover have "t \<in> ?Q" using assms(2) tk_invD(7) [OF assms(1), of t] by (cases "t < n") auto
  hence "0 < card ?Q" by (auto simp: card_gt_0_iff)
  ultimately have "0 \<in> ?ahead ` ?Q" by (simp only: lessThan_iff)
  then obtain t' where t': "t' \<in> ?Q" "0 = ?ahead t'" by (elim imageE) (rule that)
  have "served s t'" unfolding served_def using q [OF t'(1)] t'(2) by simp
  thus ?thesis ..
next
  case False
  thus ?thesis by (auto simp: threads_in_0 served_def)
qed

lemma ahead_step:
  fixes s :: "'q :: len word tk_state"
  assumes inv: "tk_inv n s" and "tk_step n s s'" and wait: "tk_thread s t = TWaiting v" "tk_thread s' t = TWaiting v"
  shows "unat (v - tk_write (tk_word s')) =
    unat (v - tk_write (tk_word s)) - of_bool (\<exists>t'. tk_abs s t' \<noteq> Free \<and> tk_abs s' t' = Free)"
proof -
  obtain u l tk where u: "tk_access (tk_thread s u) (tk_word s) l tk" "s' = tk_set u l tk s"
    using assms(2) by (auto elim: tk_step.cases)
  let ?freed = "\<exists>t'. tk_abs s t' \<noteq> Free \<and> tk_abs s' t' = Free"
  have freed: "?freed \<longleftrightarrow> tk_mode (tk_thread s u) \<noteq> Free \<and> tk_mode l = Free"
    unfolding u(2) tk_abs_set by (auto simp: tk_abs_def)
  have word: "tk_word s' = tk" by (simp add: u(2) tk_set_def)
  have ut: "u \<noteq> t" if "tk_mode (tk_thread s u) \<noteq> Free" using that wait by auto
  have pos: "0 < unat (v - tk_write (tk_word s))" if "tk_mode (tk_thread s u) \<noteq> Free"
  proof (cases "reading (tk_thread s u)")
    case True
    moreover have "u < n" using True tk_invD(7) [OF inv, of u] by (cases "u < n") auto
    ultimately have "0 < threads_in n reading (tk_thread s)" using threads_in_0 [of n reading] by fastforce
    moreover have "threads_in n reading (tk_thread s) \<le> ahead (tk_word s) (tk_thread s t)"
      using wait by (intro tk_invD(3) [OF inv]) simp
    ultimately show ?thesis using wait by simp
  next
    case False
    hence "queued (tk_thread s u)" "ahead (tk_word s) (tk_thread s u) = 0"
      using that by (cases "tk_thread s u"; simp)+
    moreover have "queued (tk_thread s t)" using wait by simp
    ultimately have "ahead (tk_word s) (tk_thread s u) \<noteq> ahead (tk_word s) (tk_thread s t)"
      using ut [OF that] by (intro tk_invD(5) [OF inv])
    thus ?thesis using wait \<open>ahead (tk_word s) (tk_thread s u) = 0\<close> by simp
  qed
  have ld: "loaded_ok (tk_word s) (tk_thread s u)" by (rule tk_invD(6) [OF inv])
  have "tk_write tk = tk_write (tk_word s) + of_bool ?freed"
    unfolding freed using u(1) ld by cases (auto simp: tk_access_defs split: if_splits)
  thus ?thesis using pos unat_diff_dec [OF refl, of v "tk_write (tk_word s)"] unfolding word by (auto simp: freed)
qed

lemma no_new_reader:
  fixes s :: "'q :: len word tk_state"
  assumes inv: "tk_inv n s" and "tk_step n s s'" and "queued (tk_thread s t)" and "tk_abs s t' = Free"
  shows "tk_abs s' t' \<noteq> Shared"
proof -
  obtain u l tk where u: "tk_access (tk_thread s u) (tk_word s) l tk" "s' = tk_set u l tk s"
    using assms(2) by (auto elim: tk_step.cases)
  have ne: "tk_users (tk_word s) \<noteq> tk_read (tk_word s)"
    using tk_invD(1-4) [OF inv] assms(3) by (metis leD)
  have "tk_mode l \<noteq> Shared" if "tk_mode (tk_thread s u) = Free"
    using u(1) by cases (use ne that in \<open>auto simp: tk_access_defs split: if_splits\<close>)
  thus ?thesis using assms(4) unfolding u(2) tk_abs_set by (auto simp: tk_abs_def)
qed

text \<open>A 32-bit lock and two threads, one of which has drawn a ticket.\<close>

definition one_waiting :: "u8 tk_state" where
  "one_waiting = tk_set 0 (TWaiting 0) \<lparr> tk_write = 0, tk_read = 0, tk_users = 1 \<rparr>
     \<lparr> tk_word = \<lparr> tk_write = 0, tk_read = 0, tk_users = 0 \<rparr>, tk_thread = (\<lambda>_. TOut) \<rparr>"

lemma one_waiting_reachable: "reachable (tk_init 2) (tk_step 2) one_waiting"
proof -
  let ?s = "\<lparr> tk_word = \<lparr> tk_write = 0, tk_read = 0, tk_users = 0 :: u8 \<rparr>, tk_thread = (\<lambda>_. TOut) \<rparr>"
  let ?tk = "\<lparr> tk_write = 0, tk_read = 0, tk_users = 1 :: u8 \<rparr>"
  have "tk_access TOut (tk_word ?s) (TWaiting 0) ?tk" by (rule tk_access.draw) (simp add: tk_draw_def)
  hence "tk_step 2 ?s (tk_set 0 (TWaiting 0) ?tk ?s)" by (intro tk_stepI) simp_all
  moreover have "reachable (tk_init 2) (tk_step 2) ?s" by (rule reachable_init) (simp add: tk_init_def)
  ultimately show ?thesis unfolding one_waiting_def by (rule reachable_step [rotated])
qed

section \<open>Properties\<close>

text \<open>
  C34: with fewer threads than a quarter of the ticket can count, what the threads hold changes only as
  the abstract reader-writer lock allows, although \<open>unlock\<close> stores two counters that it read before
  without an atomic operation; a writer is alone.
\<close>

theorem ticket_lock_refines:
  fixes s :: "'q :: len word tk_state"
  assumes "reachable (tk_init n) (tk_step n) s"
  shows "reachable (\<lambda>h. h = (\<lambda>_. Free)) rw_spec (tk_abs s) \<and> rw_exclusion (tk_abs s)"
  using tk.reachable_abs [OF assms] rw_abstract.reachable_inv by blast

theorem ticket_lock_refines_witness:
  "rw_exclusion (tk_abs one_waiting)"
  using ticket_lock_refines [OF one_waiting_reachable] by blast

text \<open>
  C35: a thread that waits in \<open>writeLockAggressive\<close> is served in the order of the tickets: as long as it
  waits, somebody is served; every release brings it one place forward and nothing ever throws it
  back; no new reader is let in before it; and with nobody before it, its test succeeds.
\<close>

theorem ticket_lock_fair:
  fixes s :: "'q :: len word tk_state"
  assumes "reachable (tk_init n) (tk_step n) s" "tk_thread s t = TWaiting v"
  shows "(\<exists>t'. served s t') \<and> (ahead (tk_word s) (TWaiting v) = 0 \<longrightarrow> tk_turn v (tk_word s)) \<and>
    (\<forall>s'. tk_step n s s' \<longrightarrow> (\<forall>t'. tk_abs s t' = Free \<longrightarrow> tk_abs s' t' \<noteq> Shared) \<and>
       (tk_thread s' t = TWaiting v \<longrightarrow> ahead (tk_word s') (TWaiting v) =
          ahead (tk_word s) (TWaiting v) - of_bool (\<exists>t'. tk_abs s t' \<noteq> Free \<and> tk_abs s' t' = Free)))"
proof -
  have inv: "tk_inv n s" using assms(1) by (rule tk.reachable_inv)
  have q: "queued (tk_thread s t)" using assms(2) by simp
  have turn: "ahead (tk_word s) (TWaiting v) = 0 \<longrightarrow> tk_turn v (tk_word s)"
    by (simp add: tk_turn_def unat_eq_0)
  show ?thesis
    using someone_served [OF inv q] turn no_new_reader [OF inv _ q] ahead_step [OF inv _ assms(2)] by simp
qed

theorem ticket_lock_fair_witness:
  "\<exists>t'. served one_waiting t'"
proof -
  have "tk_thread one_waiting 0 = TWaiting 0" by (simp add: one_waiting_def tk_set_def)
  from ticket_lock_fair [OF one_waiting_reachable this] show ?thesis by blast
qed

end
