(* ===== verification/Producer_Consumer.thy ===== *)
theory Producer_Consumer
  imports Interleaving
begin

text \<open>
  \<open>ProducerConsumerQueue\<close> of \<open>folly/ProducerConsumerQueue.h\<close>, run by one producer and one consumer.
  Memory is not assumed to be sequentially consistent: of each index the state keeps all values in
  modification order, a thread reads its own index as it left it, and an acquiring load of the other's
  index may return any value that is not older than one the thread has already read. A slot is raw
  memory (\<open>None\<close>) or holds a constructed element; constructing over an element, and moving from or
  destroying raw memory, is a fault. Indices stay below \<open>size_\<close>, which has to fit an \<open>int\<close>.
  \<open>written\<close> and \<open>taken\<close> record the elements whose \<open>write\<close> and \<open>read\<close> (or \<open>popFront\<close>) have taken effect.
\<close>

section \<open>The queue and its two threads\<close>

text \<open>The local variables of \<open>write\<close>, of \<open>read\<close>, and of \<open>frontPtr\<close> followed by \<open>popFront\<close>. \<open>popFront\<close>
  needs a queue that is not empty: it runs while the pointer that \<open>frontPtr\<close> gave is held.\<close>

datatype 'a producer = PIdle | PLoaded 'a nat | PRoom 'a nat nat | PBuilt 'a nat

datatype 'a consumer = CIdle | CLoaded nat | CFound nat nat | CMoved 'a nat nat | CDestroyed 'a nat
  | CFrontLoaded nat | CHolding nat | CPopLoaded nat

record 'a pcq =
  q_size :: nat
  records :: "'a option list"
  readIndex :: "nat list"
  writeIndex :: "nat list"
  producer :: "'a producer"
  consumer :: "'a consumer"
  producerView :: nat
  consumerView :: nat
  written :: "'a list"
  taken :: "'a list"
  fault :: bool

definition ProducerConsumerQueue :: "nat \<Rightarrow> 'a pcq" where
  "ProducerConsumerQueue n =
     \<lparr> q_size = n, records = replicate n None, readIndex = [0], writeIndex = [0], producer = PIdle, consumer = CIdle,
       producerView = 0, consumerView = 0, written = [], taken = [], fault = False \<rparr>"

definition pcq_init :: "nat \<Rightarrow> 'a pcq \<Rightarrow> bool" where
  "pcq_init n q \<longleftrightarrow> 2 \<le> n \<and> n < 2 ^ 31 \<and> q = ProducerConsumerQueue n"

definition next_record :: "nat \<Rightarrow> nat \<Rightarrow> nat" where
  "next_record n i = (let nextRecord = i + 1 in if nextRecord = n then 0 else nextRecord)"

definition construct_at :: "nat \<Rightarrow> 'a \<Rightarrow> 'a pcq \<Rightarrow> 'a pcq" where
  "construct_at i x q =
     q\<lparr> records := (records q)[i := Some x], fault := fault q \<or> length (records q) \<le> i \<or> records q ! i \<noteq> None \<rparr>"

definition destroy_at :: "nat \<Rightarrow> 'a pcq \<Rightarrow> 'a pcq" where
  "destroy_at i q =
     q\<lparr> records := (records q)[i := None], fault := fault q \<or> length (records q) \<le> i \<or> records q ! i = None \<rparr>"

section \<open>The steps of the producer\<close>

inductive produce :: "'a pcq \<Rightarrow> 'a pcq \<Rightarrow> bool" where
  write_load: "producer q = PIdle \<Longrightarrow> produce q (q\<lparr> producer := PLoaded x (last (writeIndex q)) \<rparr>)"
| write_test: "producer q = PLoaded x currentWrite \<Longrightarrow> producerView q \<le> j \<Longrightarrow> j < length (readIndex q) \<Longrightarrow>
    nextRecord = next_record (q_size q) currentWrite \<Longrightarrow>
    produce q (q\<lparr> producerView := j,
      producer := (if nextRecord \<noteq> readIndex q ! j then PRoom x currentWrite nextRecord else PIdle) \<rparr>)"
| write_construct: "producer q = PRoom x currentWrite nextRecord \<Longrightarrow>
    produce q ((construct_at currentWrite x q)\<lparr> producer := PBuilt x nextRecord \<rparr>)"
| write_store: "producer q = PBuilt x nextRecord \<Longrightarrow>
    produce q (q\<lparr> writeIndex := writeIndex q @ [nextRecord], producer := PIdle, written := written q @ [x] \<rparr>)"

section \<open>The steps of the consumer\<close>

inductive consume :: "'a pcq \<Rightarrow> 'a pcq \<Rightarrow> bool" where
  read_load: "consumer q = CIdle \<Longrightarrow> consume q (q\<lparr> consumer := CLoaded (last (readIndex q)) \<rparr>)"
| read_test: "consumer q = CLoaded currentRead \<Longrightarrow> consumerView q \<le> j \<Longrightarrow> j < length (writeIndex q) \<Longrightarrow>
    consume q (q\<lparr> consumerView := j,
      consumer := (if currentRead = writeIndex q ! j then CIdle
                   else CFound currentRead (next_record (q_size q) currentRead)) \<rparr>)"
| read_move: "consumer q = CFound currentRead nextRecord \<Longrightarrow> records q ! currentRead = Some x \<Longrightarrow>
    consume q (q\<lparr> consumer := CMoved x currentRead nextRecord \<rparr>)"
| read_move_raw: "consumer q = CFound currentRead nextRecord \<Longrightarrow> records q ! currentRead = None \<Longrightarrow>
    consume q (q\<lparr> fault := True \<rparr>)"
| read_destroy: "consumer q = CMoved x currentRead nextRecord \<Longrightarrow>
    consume q ((destroy_at currentRead q)\<lparr> consumer := CDestroyed x nextRecord \<rparr>)"
| read_store: "consumer q = CDestroyed x nextRecord \<Longrightarrow>
    consume q (q\<lparr> readIndex := readIndex q @ [nextRecord], consumer := CIdle, taken := taken q @ [x] \<rparr>)"
| front_load: "consumer q = CIdle \<Longrightarrow> consume q (q\<lparr> consumer := CFrontLoaded (last (readIndex q)) \<rparr>)"
| front_test: "consumer q = CFrontLoaded currentRead \<Longrightarrow> consumerView q \<le> j \<Longrightarrow> j < length (writeIndex q) \<Longrightarrow>
    consume q (q\<lparr> consumerView := j,
      consumer := (if currentRead = writeIndex q ! j then CIdle else CHolding currentRead) \<rparr>)"
| front_drop: "consumer q = CHolding currentRead \<Longrightarrow> consume q (q\<lparr> consumer := CIdle \<rparr>)"
| pop_load: "consumer q = CHolding i \<Longrightarrow> consume q (q\<lparr> consumer := CPopLoaded (last (readIndex q)) \<rparr>)"
| pop_assert: "consumer q = CPopLoaded currentRead \<Longrightarrow> consumerView q \<le> j \<Longrightarrow> j < length (writeIndex q) \<Longrightarrow>
    currentRead = writeIndex q ! j \<Longrightarrow> consume q (q\<lparr> fault := True \<rparr>)"
| pop_destroy: "consumer q = CPopLoaded currentRead \<Longrightarrow> consumerView q \<le> j \<Longrightarrow> j < length (writeIndex q) \<Longrightarrow>
    currentRead \<noteq> writeIndex q ! j \<Longrightarrow> records q ! currentRead = Some x \<Longrightarrow>
    consume q ((destroy_at currentRead q)\<lparr> consumerView := j,
      consumer := CDestroyed x (next_record (q_size q) currentRead) \<rparr>)"
| pop_raw: "consumer q = CPopLoaded currentRead \<Longrightarrow> consumerView q \<le> j \<Longrightarrow> j < length (writeIndex q) \<Longrightarrow>
    currentRead \<noteq> writeIndex q ! j \<Longrightarrow> records q ! currentRead = None \<Longrightarrow> consume q (q\<lparr> fault := True \<rparr>)"

definition pcq_step :: "'a pcq \<Rightarrow> 'a pcq \<Rightarrow> bool" where
  "pcq_step q q' \<longleftrightarrow> produce q q' \<or> consume q q'"

section \<open>The observers\<close>

text \<open>On the values of the two indices that their loads return.\<close>

definition pcq_isEmpty :: "nat \<Rightarrow> nat \<Rightarrow> bool" where
  "pcq_isEmpty rd wr \<longleftrightarrow> rd = wr"

definition pcq_isFull :: "nat \<Rightarrow> nat \<Rightarrow> nat \<Rightarrow> bool" where
  "pcq_isFull n wr rd \<longleftrightarrow> (let nextRecord = next_record n wr in if nextRecord \<noteq> rd then False else True)"

definition sizeGuess :: "nat \<Rightarrow> nat \<Rightarrow> nat \<Rightarrow> int" where
  "sizeGuess n wr rd = (let ret = int wr - int rd in if ret < 0 then ret + int n else ret)"

section \<open>The destructor\<close>

text \<open>The loop of the destructor; it would not end if \<open>end\<close> were not one of the positions it passes.\<close>

partial_function (option) destroy_loop :: "nat \<Rightarrow> nat \<Rightarrow> 'a pcq \<Rightarrow> 'a pcq option" where
  "destroy_loop rd wr q =
     (if rd \<noteq> wr then destroy_loop (next_record (q_size q) rd) wr (destroy_at rd q) else Some q)"

definition destroy_queue :: "'a pcq \<Rightarrow> 'a pcq option" where
  "destroy_queue q = destroy_loop (last (readIndex q)) (last (writeIndex q)) q"

section \<open>The invariant\<close>

text \<open>How often each index has been stored; the views are counts of the same kind.\<close>

definition reads :: "'a pcq \<Rightarrow> nat" where
  "reads q = length (readIndex q) - 1"

definition writes :: "'a pcq \<Rightarrow> nat" where
  "writes q = length (writeIndex q) - 1"

text \<open>The element that has left its slot but is still counted, and the one that is in its slot but not
  yet counted.\<close>

fun removing :: "'a consumer \<Rightarrow> 'a option" where
  "removing (CDestroyed x i) = Some x"
| "removing c = None"

fun built :: "'a producer \<Rightarrow> 'a option" where
  "built (PBuilt x i) = Some x"
| "built p = None"

definition slot :: "'a option list \<Rightarrow> nat \<Rightarrow> 'a option" where
  "slot rs k = rs ! (k mod length rs)"

text \<open>The elements from position \<open>r\<close> to position \<open>w\<close> of the sequence of all elements.\<close>

definition elements :: "nat \<Rightarrow> nat \<Rightarrow> 'a option \<Rightarrow> 'a option list \<Rightarrow> 'a list" where
  "elements r w c rs = map (\<lambda>k. the (if k = r \<and> c \<noteq> None then c else slot rs k)) [r..<w]"

definition contents :: "'a pcq \<Rightarrow> 'a list" where
  "contents q = elements (reads q) (writes q) (removing (consumer q)) (records q)"

text \<open>Which slots hold an element: those of the queue, but for the one just destroyed, and the one the
  producer has constructed.\<close>

definition slots_ok :: "nat \<Rightarrow> nat \<Rightarrow> 'a option \<Rightarrow> 'a option \<Rightarrow> 'a option list \<Rightarrow> bool" where
  "slots_ok r w c p rs \<longleftrightarrow>
     (\<forall>k. r \<le> k \<longrightarrow> k < r + length rs \<longrightarrow>
       (if k < w then (slot rs k = None) = (k = r \<and> c \<noteq> None) else slot rs k = (if k = w then p else None)))"

definition indices_ok :: "nat \<Rightarrow> nat list \<Rightarrow> bool" where
  "indices_ok n ks \<longleftrightarrow> ks \<noteq> [] \<and> (\<forall>k < length ks. ks ! k = k mod n)"

text \<open>The local variables of the producer after \<open>w\<close> stores, of which \<open>v\<close> slots are known to be given back,
  and of the consumer after \<open>r\<close> stores, which knows of \<open>v\<close> elements.\<close>

fun producer_ok :: "nat \<Rightarrow> nat \<Rightarrow> nat \<Rightarrow> 'a producer \<Rightarrow> bool" where
  "producer_ok n v w PIdle \<longleftrightarrow> True"
| "producer_ok n v w (PLoaded x i) \<longleftrightarrow> i = w mod n"
| "producer_ok n v w (PRoom x i j) \<longleftrightarrow> i = w mod n \<and> j = Suc w mod n \<and> Suc w < v + n"
| "producer_ok n v w (PBuilt x j) \<longleftrightarrow> j = Suc w mod n \<and> Suc w < v + n"

fun consumer_ok :: "nat \<Rightarrow> nat \<Rightarrow> nat \<Rightarrow> 'a option list \<Rightarrow> 'a consumer \<Rightarrow> bool" where
  "consumer_ok n v r rs CIdle \<longleftrightarrow> True"
| "consumer_ok n v r rs (CLoaded i) \<longleftrightarrow> i = r mod n"
| "consumer_ok n v r rs (CFrontLoaded i) \<longleftrightarrow> i = r mod n"
| "consumer_ok n v r rs (CFound i j) \<longleftrightarrow> i = r mod n \<and> j = Suc r mod n \<and> r < v"
| "consumer_ok n v r rs (CMoved x i j) \<longleftrightarrow> i = r mod n \<and> j = Suc r mod n \<and> r < v \<and> slot rs r = Some x"
| "consumer_ok n v r rs (CDestroyed x j) \<longleftrightarrow> j = Suc r mod n \<and> r < v"
| "consumer_ok n v r rs (CHolding i) \<longleftrightarrow> i = r mod n \<and> r < v"
| "consumer_ok n v r rs (CPopLoaded i) \<longleftrightarrow> i = r mod n \<and> r < v"

definition counts_ok :: "nat \<Rightarrow> 'a pcq \<Rightarrow> bool" where
  "counts_ok n q \<longleftrightarrow>
     2 \<le> n \<and> q_size q = n \<and> length (records q) = n \<and> indices_ok n (readIndex q) \<and> indices_ok n (writeIndex q) \<and>
     producerView q \<le> reads q \<and> reads q \<le> consumerView q \<and> consumerView q \<le> writes q \<and>
     writes q < producerView q + n"

definition pcq_inv :: "nat \<Rightarrow> 'a pcq \<Rightarrow> bool" where
  "pcq_inv n q \<longleftrightarrow>
     counts_ok n q \<and> producer_ok n (producerView q) (writes q) (producer q) \<and>
     consumer_ok n (consumerView q) (reads q) (records q) (consumer q) \<and>
     slots_ok (reads q) (writes q) (removing (consumer q)) (built (producer q)) (records q) \<and>
     \<not> fault q \<and> written q = taken q @ contents q"

section \<open>Positions modulo the size\<close>

lemma mod_window:
  assumes "a \<le> k" "a \<le> k'" "k < a + n" "k' < a + n" "k mod n = k' mod n"
  shows "k = (k' :: nat)"
  using assms
proof (induction k k' rule: linorder_wlog)
  case (le k k')
  have "n dvd k' - k" using le by (metis mod_eq_dvd_iff_nat)
  moreover have "k' - k < n" using le by simp
  ultimately show ?case using le(1) by (auto dest: dvd_imp_le)
qed auto

lemma next_record_mod: "0 < n \<Longrightarrow> next_record n (k mod n) = Suc k mod n"
  by (simp add: next_record_def mod_Suc)

lemma indices_ok_last: "indices_ok n ks \<Longrightarrow> last ks = (length ks - 1) mod n"
  by (simp add: indices_ok_def last_conv_nth)

lemma indices_ok_append: "indices_ok n ks \<Longrightarrow> indices_ok n (ks @ [length ks mod n])"
  by (auto simp: indices_ok_def nth_append less_Suc_eq)

lemma counts_ok_lengths:
  assumes "counts_ok n q"
  shows "length (readIndex q) = Suc (reads q)" and "length (writeIndex q) = Suc (writes q)"
    and "last (readIndex q) = reads q mod n" and "last (writeIndex q) = writes q mod n"
proof -
  have i: "indices_ok n (readIndex q)" "indices_ok n (writeIndex q)" using assms by (simp_all add: counts_ok_def)
  show "length (readIndex q) = Suc (reads q)" "length (writeIndex q) = Suc (writes q)"
    using i by (simp_all add: reads_def writes_def indices_ok_def)
  show "last (readIndex q) = reads q mod n" "last (writeIndex q) = writes q mod n"
    using i by (simp_all add: reads_def writes_def indices_ok_last)
qed

lemma counts_ok_nth:
  assumes "counts_ok n q"
  shows "j \<le> reads q \<Longrightarrow> readIndex q ! j = j mod n" and "j \<le> writes q \<Longrightarrow> writeIndex q ! j = j mod n"
proof -
  have i: "indices_ok n (readIndex q)" "indices_ok n (writeIndex q)" using assms by (simp_all add: counts_ok_def)
  show "j \<le> reads q \<Longrightarrow> readIndex q ! j = j mod n" "j \<le> writes q \<Longrightarrow> writeIndex q ! j = j mod n"
    using i unfolding indices_ok_def counts_ok_lengths(1,2) [OF assms] by (simp_all add: less_Suc_eq_le)
qed

text \<open>The tests of the two threads: full and empty as far as the thread has seen.\<close>

lemma room_iff:
  assumes "counts_ok n q" "producerView q \<le> j" "j \<le> reads q"
  shows "Suc (writes q) mod n \<noteq> readIndex q ! j \<longleftrightarrow> Suc (writes q) < j + n"
proof -
  have b: "j \<le> writes q" "Suc (writes q) \<le> j + n" "2 \<le> n" using assms by (auto simp: counts_ok_def)
  have "Suc (writes q) mod n = j mod n \<longleftrightarrow> Suc (writes q) = j + n"
    using b mod_window [of j "Suc (writes q)" j n] by (cases "Suc (writes q) = j + n") auto
  thus ?thesis using b assms by (auto simp: counts_ok_nth)
qed

lemma found_iff:
  assumes "counts_ok n q" "consumerView q \<le> j" "j \<le> writes q"
  shows "reads q mod n = writeIndex q ! j \<longleftrightarrow> j = reads q"
  using assms mod_window [of "reads q" "reads q" j n] counts_ok_nth(2) [OF assms(1,3)]
  by (auto simp: counts_ok_def)

section \<open>Every step keeps the invariant\<close>

lemma slot_update:
  assumes "r \<le> k" "k < r + length rs" "r \<le> i" "i < r + length rs"
  shows "slot (rs[i mod length rs := v]) k = (if k = i then v else slot rs k)"
proof -
  have "k mod length rs < length rs" using assms by (intro mod_less_divisor) linarith
  moreover have "k mod length rs = i mod length rs \<longleftrightarrow> k = i" using assms mod_window [of r k i "length rs"] by auto
  ultimately show ?thesis by (cases "k = i") (auto simp: slot_def)
qed

text \<open>Stores to the slots and to the indices.\<close>

lemma slots_construct:
  assumes "slots_ok r w c None rs" "r \<le> w" "w < r + length rs"
  shows "slots_ok r w c (Some x) (rs[w mod length rs := Some x])" and "slot rs w = None"
  using assms slot_update [OF _ _ assms(2,3), of _ "Some x"] by (auto simp: slots_ok_def)

lemma slots_publish:
  assumes "slots_ok r w c (Some x) rs" "r \<le> w" "w < r + length rs" "c = None \<or> r < w"
  shows "slots_ok r (Suc w) c None rs" and "slot rs w = Some x"
  using assms by (auto simp: slots_ok_def less_Suc_eq split: if_splits)

lemma slots_destroy:
  assumes "slots_ok r w None p rs" "r < w" "w < r + length rs"
  shows "slots_ok r w (Some x) p (rs[r mod length rs := None])" and "slot rs r \<noteq> None"
proof -
  have r: "r < r + length rs" using assms(2,3) by linarith
  show "slot rs r \<noteq> None" using assms r unfolding slots_ok_def by (metis order_refl)
  show "slots_ok r w (Some x) p (rs[r mod length rs := None])"
    using assms r slot_update [of r _ rs r None] by (simp add: slots_ok_def)
qed

lemma slots_give_back:
  assumes "slots_ok r w (Some x) p rs" "r < w" "w < r + length rs"
  shows "slots_ok (Suc r) w None p rs"
  unfolding slots_ok_def
proof (intro allI impI)
  fix k assume k: "Suc r \<le> k" "k < Suc r + length rs"
  show "if k < w then (slot rs k = None) = (k = Suc r \<and> None \<noteq> None) else slot rs k = (if k = w then p else None)"
  proof (cases "k = r + length rs")
    case True
    hence "slot rs k = slot rs r" by (simp add: slot_def)
    moreover have "slot rs r = None" using assms unfolding slots_ok_def by (metis add_lessD1 order_refl less_trans option.simps(3))
    ultimately show ?thesis using assms(2,3) True by simp
  next
    case False
    thus ?thesis using assms(1) k by (auto simp: slots_ok_def)
  qed
qed

lemma elements_publish:
  assumes "r \<le> w" "slot rs w = Some x" "c = None \<or> r < w"
  shows "elements r (Suc w) c rs = elements r w c rs @ [x]"
  using assms by (auto simp: elements_def)

lemma elements_give_back: "r < w \<Longrightarrow> elements r w (Some x) rs = x # elements (Suc r) w None rs"
  by (auto simp: elements_def upt_conv_Cons)

lemma elements_update:
  assumes "r \<le> w" "w < r + length rs"
  shows "elements r w c (rs[w mod length rs := v]) = elements r w c rs"
    and "slot rs r = Some x \<Longrightarrow> elements r w (Some x) (rs[r mod length rs := None]) = elements r w None rs"
proof -
  have r: "r < r + length rs" using assms by linarith
  show "elements r w c (rs[w mod length rs := v]) = elements r w c rs"
    using assms slot_update [of r _ rs w v] by (auto simp: elements_def)
  show "slot rs r = Some x \<Longrightarrow> elements r w (Some x) (rs[r mod length rs := None]) = elements r w None rs"
    using assms r slot_update [OF _ _ _ r, of _ None] by (auto simp: elements_def)
qed

text \<open>What an update of the state leaves alone.\<close>

lemma reads_frame [simp]:
  "reads (q\<lparr>producer := p\<rparr>) = reads q" "reads (q\<lparr>consumer := c\<rparr>) = reads q" "reads (q\<lparr>producerView := v\<rparr>) = reads q"
  "reads (q\<lparr>consumerView := v\<rparr>) = reads q" "reads (q\<lparr>writeIndex := ks\<rparr>) = reads q" "reads (q\<lparr>written := xs\<rparr>) = reads q"
  "reads (q\<lparr>taken := xs\<rparr>) = reads q" "reads (q\<lparr>records := rs\<rparr>) = reads q" "reads (q\<lparr>fault := b\<rparr>) = reads q"
  by (simp_all add: reads_def)

lemma writes_frame [simp]:
  "writes (q\<lparr>producer := p\<rparr>) = writes q" "writes (q\<lparr>consumer := c\<rparr>) = writes q" "writes (q\<lparr>producerView := v\<rparr>) = writes q"
  "writes (q\<lparr>consumerView := v\<rparr>) = writes q" "writes (q\<lparr>readIndex := ks\<rparr>) = writes q" "writes (q\<lparr>written := xs\<rparr>) = writes q"
  "writes (q\<lparr>taken := xs\<rparr>) = writes q" "writes (q\<lparr>records := rs\<rparr>) = writes q" "writes (q\<lparr>fault := b\<rparr>) = writes q"
  by (simp_all add: writes_def)

lemma stored [simp]:
  "readIndex q \<noteq> [] \<Longrightarrow> reads (q\<lparr>readIndex := readIndex q @ [i]\<rparr>) = Suc (reads q)"
  "writeIndex q \<noteq> [] \<Longrightarrow> writes (q\<lparr>writeIndex := writeIndex q @ [i]\<rparr>) = Suc (writes q)"
  by (simp_all add: reads_def writes_def)

lemma indices_nonempty [simp]: "counts_ok n q \<Longrightarrow> readIndex q \<noteq> []" "counts_ok n q \<Longrightarrow> writeIndex q \<noteq> []"
  by (auto simp: counts_ok_def indices_ok_def)

text \<open>The two threads.\<close>

lemma counts_window:
  assumes "counts_ok n q"
  shows "0 < n" "reads q \<le> writes q" "writes q < reads q + n" "length (records q) = n" "q_size q = n"
    "\<not> n \<le> k mod n"
  using assms by (auto simp: counts_ok_def not_le intro: mod_less_divisor)

lemma removing_None: "consumer_ok n v r rs c \<Longrightarrow> removing c = None \<or> r < v"
  by (cases c) auto

lemma consumer_ok_update:
  assumes "consumer_ok n v r rs c" "v \<le> w" "w < r + length rs"
  shows "consumer_ok n v r (rs[w mod length rs := y]) c"
proof -
  have "r < r + length rs" if "r < v" using assms that by linarith
  hence "slot (rs[w mod length rs := y]) r = slot rs r" if "r < v"
    using assms that slot_update [of r r rs w y] by simp
  thus ?thesis using assms by (cases c) auto
qed

lemma produce_inv:
  assumes "produce q q'" "pcq_inv n q"
  shows "pcq_inv n q'"
proof -
  have c: "counts_ok n q" using assms(2) by (simp add: pcq_inv_def)
  note w = counts_window [OF c] and l = counts_ok_lengths [OF c]
  show ?thesis using assms(1)
  proof cases
    case (write_load x)
    thus ?thesis using assms(2) l by (simp add: pcq_inv_def counts_ok_def contents_def)
  next
    case (write_test x i j r)
    have "j \<le> reads q" using write_test l by simp
    moreover from this have "r \<noteq> readIndex q ! j \<longleftrightarrow> Suc (writes q) < j + n"
      using room_iff [OF c] write_test assms(2) w by (simp add: pcq_inv_def next_record_mod)
    ultimately show ?thesis using write_test assms(2) w
      by (auto simp: pcq_inv_def counts_ok_def contents_def next_record_mod)
  next
    case (write_construct x i r)
    have s: "slots_ok (reads q) (writes q) (removing (consumer q)) None (records q)"
      using assms(2) write_construct by (simp add: pcq_inv_def)
    have "records q ! i = None" using slots_construct(2) [OF s] w write_construct assms(2)
      by (simp add: pcq_inv_def slot_def)
    thus ?thesis using write_construct assms(2) w slots_construct(1) [OF s, of x]
        elements_update(1) [of "reads q" "writes q" "records q"]
        consumer_ok_update [of n "consumerView q" "reads q" "records q" "consumer q" "writes q"]
      by (simp add: pcq_inv_def counts_ok_def contents_def construct_at_def)
  next
    case (write_store x r)
    have d: "removing (consumer q) = None \<or> reads q < writes q"
      using assms(2) removing_None [of n _ "reads q"] by (fastforce simp: pcq_inv_def counts_ok_def)
    have "slots_ok (reads q) (writes q) (removing (consumer q)) (Some x) (records q)"
      using assms(2) write_store by (simp add: pcq_inv_def)
    note s = slots_publish [OF this _ _ d]
    have "indices_ok n (writeIndex q @ [Suc (writes q) mod n])"
      using c l indices_ok_append [of n "writeIndex q"] by (simp add: counts_ok_def)
    thus ?thesis using write_store assms(2) c w s indices_nonempty [OF c] elements_publish [OF _ _ d, of "records q" x]
      by (auto simp: pcq_inv_def counts_ok_def contents_def)
  qed
qed

text \<open>A step of the consumer that leaves the slots alone, and one that destroys the first element.\<close>

lemma inv_consumer:
  assumes "pcq_inv n q" "consumerView q \<le> j" "j \<le> writes q" "removing (consumer q) = None" "removing c = None"
    "consumer_ok n j (reads q) (records q) c"
  shows "pcq_inv n (q\<lparr> consumerView := j, consumer := c \<rparr>)"
  using assms by (simp add: pcq_inv_def counts_ok_def contents_def)

lemma inv_destroy:
  assumes i: "pcq_inv n q" and "consumerView q \<le> j" "j \<le> writes q" "removing (consumer q) = None"
    "slot (records q) (reads q) = Some x" "reads q < consumerView q"
  shows "pcq_inv n ((destroy_at (reads q mod n) q)\<lparr> consumerView := j, consumer := CDestroyed x (Suc (reads q) mod n) \<rparr>)"
proof -
  have c: "counts_ok n q" using i by (simp add: pcq_inv_def)
  note w = counts_window [OF c]
  have "reads q < writes q" using assms by linarith
  moreover have "slots_ok (reads q) (writes q) None (built (producer q)) (records q)"
    using assms by (simp add: pcq_inv_def)
  ultimately have "slots_ok (reads q) (writes q) (Some x) (built (producer q)) ((records q)[reads q mod n := None])"
    using slots_destroy(1) [of "reads q" "writes q" _ "records q" x] w by simp
  thus ?thesis using assms c w elements_update(2) [of "reads q" "writes q" "records q" x]
    by (simp add: pcq_inv_def counts_ok_def contents_def destroy_at_def slot_def)
qed

lemma first_slot:
  assumes "pcq_inv n q" "removing (consumer q) = None" "reads q < writes q"
  shows "slot (records q) (reads q) = records q ! (reads q mod n)" "slot (records q) (reads q) \<noteq> None"
proof -
  have c: "counts_ok n q" using assms(1) by (simp add: pcq_inv_def)
  show "slot (records q) (reads q) = records q ! (reads q mod n)" using counts_window [OF c] by (simp add: slot_def)
  show "slot (records q) (reads q) \<noteq> None" using assms counts_window [OF c]
    by (intro slots_destroy(2) [of _ "writes q" "built (producer q)"]) (simp_all add: pcq_inv_def)
qed

lemma consume_inv:
  assumes "consume q q'" and i: "pcq_inv n q"
  shows "pcq_inv n q'"
proof -
  have c: "counts_ok n q" using i by (simp add: pcq_inv_def)
  note w = counts_window [OF c] and l = counts_ok_lengths [OF c] and seen = found_iff [OF c] and first = first_slot [OF i]
  have f: "consumer_ok n (consumerView q) (reads q) (records q) (consumer q)" "consumerView q \<le> writes q"
    using i by (simp_all add: pcq_inv_def counts_ok_def)
  have same: "q\<lparr> consumer := x \<rparr> = q\<lparr> consumerView := consumerView q, consumer := x \<rparr>" for x by simp
  show ?thesis using assms(1)
  proof cases
    case read_load
    thus ?thesis using inv_consumer [OF i, of "consumerView q"] f l by simp
  next
    case (read_test k j)
    thus ?thesis using inv_consumer [OF i, of j] f l seen [of j] w c by (auto simp: next_record_mod counts_ok_def)
  next
    case (read_move k m x)
    thus ?thesis using inv_consumer [OF i, of "consumerView q"] f first by simp
  next
    case (read_move_raw k m)
    thus ?thesis using f first by simp
  next
    case (read_destroy x k m)
    thus ?thesis using inv_destroy [OF i, of "consumerView q"] f by (simp add: destroy_at_def)
  next
    case (read_store x m)
    have s: "slots_ok (reads q) (writes q) (Some x) (built (producer q)) (records q)"
      using i read_store by (simp add: pcq_inv_def)
    have "indices_ok n (readIndex q @ [Suc (reads q) mod n])"
      using c l indices_ok_append [of n "readIndex q"] by (simp add: counts_ok_def)
    thus ?thesis using read_store i c w f indices_nonempty [OF c] slots_give_back [OF s] elements_give_back [of "reads q" "writes q" x "records q"]
      by (auto simp: pcq_inv_def counts_ok_def contents_def)
  next
    case front_load
    thus ?thesis using inv_consumer [OF i, of "consumerView q"] f l by simp
  next
    case (front_test k j)
    thus ?thesis using inv_consumer [OF i, of j] f l seen [of j] w c by (auto simp: next_record_mod counts_ok_def)
  next
    case (front_drop k)
    thus ?thesis using inv_consumer [OF i, of "consumerView q"] f by simp
  next
    case (pop_load k)
    thus ?thesis using inv_consumer [OF i, of "consumerView q"] f l by simp
  next
    case (pop_assert k j)
    thus ?thesis using f seen [of j] l by simp
  next
    case (pop_destroy k j x)
    thus ?thesis using inv_destroy [OF i, of j x] f first w l by (simp add: next_record_mod)
  next
    case (pop_raw k j)
    thus ?thesis using f first by simp
  qed
qed

section \<open>The queue as its clients see it\<close>

text \<open>A queue that holds at most \<open>c\<close> elements, with all elements that have been taken from it.\<close>

inductive fifo_spec :: "nat \<Rightarrow> 'a list \<times> 'a list \<Rightarrow> 'a list \<times> 'a list \<Rightarrow> bool" for c where
  spec_put: "length xs < c \<Longrightarrow> fifo_spec c (xs, out) (xs @ [x], out)"
| spec_take: "fifo_spec c (x # xs, out) (xs, out @ [x])"

lemma pcq_inv_init: "pcq_init n q \<Longrightarrow> pcq_inv n q"
  by (auto simp: pcq_init_def ProducerConsumerQueue_def pcq_inv_def counts_ok_def indices_ok_def slots_ok_def
      contents_def elements_def reads_def writes_def slot_def)

lemma length_contents: "length (contents q) = writes q - reads q"
  by (simp add: contents_def elements_def)

lemma produce_effect:
  "produce q q' \<Longrightarrow> taken q' = taken q \<and> consumer q' = consumer q \<and>
     (written q' = written q \<or> (\<exists>x. built (producer q) = Some x \<and> written q' = written q @ [x]))"
  by (auto elim!: produce.cases simp: construct_at_def)

lemma consume_effect:
  "consume q q' \<Longrightarrow> written q' = written q \<and> producer q' = producer q \<and>
     (taken q' = taken q \<or> (\<exists>x. taken q' = taken q @ [x]))"
  by (auto elim!: consume.cases simp: destroy_at_def)

lemma built_room: "producer_ok n v w p \<Longrightarrow> built p = Some x \<Longrightarrow> Suc w < v + n"
  by (cases p) auto

lemma pcq_inv_step: "pcq_inv n q \<Longrightarrow> pcq_step q q' \<Longrightarrow> pcq_inv n q'"
  by (auto simp: pcq_step_def intro: produce_inv consume_inv)

lemma pcq_simulates:
  assumes i: "pcq_inv n q" and st: "pcq_step q q'"
  shows "(contents q', taken q') = (contents q, taken q) \<or>
    fifo_spec (n - 1) (contents q, taken q) (contents q', taken q')"
proof -
  have i': "pcq_inv n q'" using i st by (rule pcq_inv_step)
  have h: "written q = taken q @ contents q" "written q' = taken q' @ contents q'"
    using i i' by (simp_all add: pcq_inv_def)
  have room: "length (contents q) < n - 1" if "built (producer q) = Some x" for x
    using i that built_room [of n "producerView q" "writes q" "producer q" x]
    by (auto simp: pcq_inv_def counts_ok_def length_contents)
  show ?thesis
  proof (cases "produce q q'")
    case True
    thus ?thesis using h room produce_effect [OF True] by (auto intro: fifo_spec.intros)
  next
    case False
    hence "consume q q'" using st by (simp add: pcq_step_def)
    thus ?thesis using h consume_effect [of q q'] by (auto intro: fifo_spec.intros)
  qed
qed

interpretation pcq: step_simulation "pcq_init n" pcq_step "pcq_inv n" "\<lambda>s. s = ([], [])" "fifo_spec (n - 1)"
  "\<lambda>q. (contents q, taken q)" for n
proof unfold_locales
  show "(contents q, taken q) = ([], [])" if "pcq_init n q" for q :: "'a pcq"
    using that by (simp add: pcq_init_def ProducerConsumerQueue_def contents_def elements_def reads_def writes_def)
qed (rule pcq_inv_init pcq_inv_step pcq_simulates; assumption)+

text \<open>The slot a thread is about to touch.\<close>

fun producer_slot :: "'a producer \<Rightarrow> nat option" where
  "producer_slot (PRoom x i j) = Some i"
| "producer_slot p = None"

fun consumer_slot :: "'a consumer \<Rightarrow> nat option" where
  "consumer_slot (CFound i j) = Some i"
| "consumer_slot (CMoved x i j) = Some i"
| "consumer_slot (CHolding i) = Some i"
| "consumer_slot (CPopLoaded i) = Some i"
| "consumer_slot c = None"

lemma slots_disjoint:
  assumes i: "pcq_inv n q" and "producer_slot (producer q) = Some a" "consumer_slot (consumer q) = Some b"
  shows "a \<noteq> b"
proof -
  have "a = writes q mod n" using assms by (cases "producer q") (auto simp: pcq_inv_def)
  moreover have "b = reads q mod n" "reads q < consumerView q" using assms
    by (cases "consumer q"; simp add: pcq_inv_def)+
  moreover have "consumerView q \<le> writes q" "writes q < reads q + n" using i by (auto simp: pcq_inv_def counts_ok_def)
  ultimately show ?thesis using mod_window [of "reads q" "reads q" "writes q" n] by auto
qed

section \<open>Every call ends\<close>

fun producer_left :: "'a producer \<Rightarrow> nat" where
  "producer_left PIdle = 0"
| "producer_left (PLoaded x i) = 3"
| "producer_left (PRoom x i j) = 2"
| "producer_left (PBuilt x j) = 1"

fun consumer_left :: "'a consumer \<Rightarrow> nat" where
  "consumer_left (CLoaded i) = 4"
| "consumer_left (CFound i j) = 3"
| "consumer_left (CMoved x i j) = 2"
| "consumer_left (CPopLoaded i) = 2"
| "consumer_left (CDestroyed x j) = 1"
| "consumer_left (CFrontLoaded i) = 1"
| "consumer_left c = 0"

lemma produce_left: "produce q q' \<Longrightarrow> 0 < producer_left (producer q) \<Longrightarrow> producer_left (producer q') < producer_left (producer q)"
  by (auto elim!: produce.cases simp: construct_at_def)

lemma consume_left:
  assumes "consume q q'" "pcq_inv n q" "0 < consumer_left (consumer q)"
  shows "consumer_left (consumer q') < consumer_left (consumer q)"
proof -
  have "\<not> fault q'" using consume_inv [OF assms(1,2)] by (simp add: pcq_inv_def)
  thus ?thesis using assms(1,3) by (auto elim!: consume.cases simp: destroy_at_def)
qed

lemma produce_enabled:
  assumes "counts_ok n q"
  shows "\<exists>q'. produce q q'"
proof (cases "producer q")
  case (PLoaded x i)
  have "producerView q \<le> reads q" "reads q < length (readIndex q)"
    using assms counts_ok_lengths [OF assms] by (auto simp: counts_ok_def)
  thus ?thesis using write_test [OF PLoaded] by blast
qed (blast intro: produce.intros)+

lemma consume_enabled:
  assumes "counts_ok n q"
  shows "\<exists>q'. consume q q'"
proof -
  have v: "consumerView q \<le> writes q" "writes q < length (writeIndex q)"
    using assms counts_ok_lengths [OF assms] by (auto simp: counts_ok_def)
  show ?thesis
  proof (cases "consumer q")
    case (CLoaded i)
    thus ?thesis using read_test [OF CLoaded v] by blast
  next
    case (CFrontLoaded i)
    thus ?thesis using front_test [OF CFrontLoaded v] by blast
  next
    case (CFound i j)
    thus ?thesis using read_move [OF CFound] read_move_raw [OF CFound] by (cases "records q ! i") blast+
  next
    case (CPopLoaded i)
    thus ?thesis using pop_assert [OF CPopLoaded v] pop_destroy [OF CPopLoaded v] pop_raw [OF CPopLoaded v]
      by (cases "records q ! i") blast+
  qed (blast intro: consume.intros)+
qed

section \<open>Counting from two indices\<close>

lemma sizeGuess_mod:
  assumes "a \<le> b" "b < a + n"
  shows "sizeGuess n (b mod n) (a mod n) = int (b - a)"
proof -
  have n: "0 < n" "a mod n < n" using assms by (linarith, simp) 
  have "b mod n = (a + (b - a)) mod n" using assms(1) by simp
  also have "\<dots> = (a mod n + (b - a)) mod n" by (rule mod_add_left_eq [symmetric])
  also have "\<dots> = (if a mod n + (b - a) < n then a mod n + (b - a) else a mod n + (b - a) - n)"
  proof (cases "a mod n + (b - a) < n")
    case False
    hence "(a mod n + (b - a)) mod n = (a mod n + (b - a) - n) mod n" by (intro le_mod_geq) simp
    moreover have "a mod n + (b - a) - n < n" using n assms False by linarith
    ultimately show ?thesis using False by simp
  qed simp
  finally show ?thesis using n assms by (auto simp: sizeGuess_def Let_def split: if_splits)
qed

section \<open>Destroying the queue\<close>

lemma window_covers:
  assumes "k < (n :: nat)"
  shows "\<exists>i. w \<le> i \<and> i < w + n \<and> i mod n = k"
proof -
  define b where "b = w div n * n"
  have w: "b + w mod n = w" "w mod n < n" "(b + k) mod n = k" "(b + n + k) mod n = k"
    using assms by (simp_all add: b_def add.commute [of _ n] add.assoc)
  show ?thesis
  proof (cases "w mod n \<le> k")
    case True
    hence "w \<le> b + k \<and> b + k < w + n" using w(1,2) assms by linarith
    thus ?thesis using w(3) by blast
  next
    case False
    hence "w \<le> b + n + k \<and> b + n + k < w + n" using w(1,2) assms by linarith
    thus ?thesis using w(4) by blast
  qed
qed

lemma destroy_loop_all:
  assumes "q_size q = n" "length (records q) = n" "\<not> fault q" "slots_ok r w None None (records q)" "r \<le> w" "w < r + n"
  shows "\<exists>q'. destroy_loop (r mod n) (w mod n) q = Some q' \<and> \<not> fault q' \<and> records q' = replicate n None"
  using assms
proof (induction "w - r" arbitrary: r q)
  case 0
  have e: "r = w" using 0 by linarith
  have none: "slot (records q) i = None" if "w \<le> i" "i < w + n" for i
    using 0(5) that 0(3) unfolding slots_ok_def e by auto
  have "records q ! k = None" if k: "k < n" for k
  proof -
    obtain i where "w \<le> i" "i < w + n" "i mod n = k" using window_covers [OF k, of w] by blast
    thus ?thesis using none [of i] 0(3) by (simp add: slot_def)
  qed
  hence "records q = replicate n None" using 0(3) by (intro nth_equalityI) auto
  thus ?case using 0(4) e by (simp add: destroy_loop.simps)
next
  case (Suc d)
  let ?q = "destroy_at (r mod n) q"
  have n: "r < w" "0 < n" using Suc.hyps(2) Suc.prems by linarith+
  have m: "\<not> n \<le> r mod n" using n by (simp add: not_le)
  have "r mod n \<noteq> w mod n" using mod_window [of r r w n] n Suc.prems by auto
  moreover have s: "slots_ok r w (Some undefined) None ((records q)[r mod n := None])" "slot (records q) r \<noteq> None"
    using slots_destroy [OF Suc.prems(4)] n Suc.prems by auto
  moreover have "\<exists>q'. destroy_loop (Suc r mod n) (w mod n) ?q = Some q' \<and> \<not> fault q' \<and> records q' = replicate n None"
    using Suc.prems Suc.hyps(2) n m s slots_give_back [OF s(1)]
    by (intro Suc.hyps(1)) (auto simp: destroy_at_def slot_def)
  ultimately show ?case using n Suc.prems by (simp add: destroy_loop.simps [of "r mod n"] next_record_mod)
qed

section \<open>What the queue promises\<close>

lemma pcq_run: "reachable (pcq_init n) pcq_step q \<Longrightarrow> pcq_inv n q \<and> counts_ok n q"
  using pcq.reachable_inv by (auto simp: pcq_inv_def)

text \<open>C36: Whatever the interleaving and however stale the values that the loads of the other thread's index
  return, the queue behaves as a queue of at most \<open>size - 1\<close> elements: what has been read followed by
  what is in the queue is what has been written, no element is constructed over another, none is moved from or
  destroyed that is not there, no assertion fails, and the two threads never touch the same slot.\<close>

theorem pcq_refines:
  assumes "reachable (pcq_init n) pcq_step q"
  shows "reachable (\<lambda>s. s = ([], [])) (fifo_spec (n - 1)) (contents q, taken q) \<and>
    written q = taken q @ contents q \<and> length (contents q) \<le> n - 1 \<and> \<not> fault q \<and>
    (\<forall>a b. producer_slot (producer q) = Some a \<longrightarrow> consumer_slot (consumer q) = Some b \<longrightarrow> a \<noteq> b)"
proof -
  have "pcq_inv n q" "counts_ok n q" using assms by (simp_all add: pcq_run)
  moreover from this have "length (contents q) \<le> n - 1" by (auto simp: length_contents counts_ok_def)
  ultimately show ?thesis using pcq.reachable_abs [OF assms] slots_disjoint [of n q] by (auto simp: pcq_inv_def)
qed

text \<open>C37: No thread waits for the other. Inside a call of \<open>write\<close> the producer can always take a step,
  each of its steps leaves fewer to go, of at most three, and no step of the consumer sets it back; and the same holds of
  \<open>read\<close>, \<open>frontPtr\<close> and \<open>popFront\<close>, with at most four steps.\<close>

theorem pcq_wait_free:
  assumes "reachable (pcq_init n) pcq_step q"
  shows "(\<exists>q'. produce q q') \<and> (\<exists>q'. consume q q') \<and> producer_left (producer q) \<le> 3 \<and> consumer_left (consumer q) \<le> 4 \<and>
    (\<forall>q'. produce q q' \<longrightarrow> consumer q' = consumer q \<and>
       (0 < producer_left (producer q) \<longrightarrow> producer_left (producer q') < producer_left (producer q))) \<and>
    (\<forall>q'. consume q q' \<longrightarrow> producer q' = producer q \<and>
       (0 < consumer_left (consumer q) \<longrightarrow> consumer_left (consumer q') < consumer_left (consumer q)))"
proof -
  have i: "pcq_inv n q" "counts_ok n q" using assms by (simp_all add: pcq_run)
  have "producer_left (producer q) \<le> 3" by (cases "producer q") auto
  moreover have "consumer_left (consumer q) \<le> 4" by (cases "consumer q") auto
  ultimately show ?thesis using produce_enabled [OF i(2)] consume_enabled [OF i(2)]
    by (simp add: produce_effect consume_effect produce_left consume_left [OF _ i(1)])
qed

text \<open>\<open>sizeGuess\<close> never exceeds the number of elements when the consumer asks and never falls short of it
  when the producer asks, whichever value the load of the other thread's index returns, and is exact when both
  values are the latest; \<open>isEmpty\<close> and \<open>isFull\<close> agree with it.\<close>

lemma pcq_observers:
  assumes "reachable (pcq_init n) pcq_step q" "consumerView q \<le> j" "j \<le> writes q" "producerView q \<le> i" "i \<le> reads q"
  defines "rd \<equiv> last (readIndex q)" and "wr \<equiv> last (writeIndex q)"
  shows "sizeGuess n (writeIndex q ! j) rd = int (j - reads q) \<and> j - reads q \<le> length (contents q) \<and>
    sizeGuess n wr (readIndex q ! i) = int (writes q - i) \<and> length (contents q) \<le> writes q - i \<and>
    sizeGuess n wr rd = int (length (contents q)) \<and>
    pcq_isEmpty rd (writeIndex q ! j) = (sizeGuess n (writeIndex q ! j) rd = 0) \<and>
    pcq_isFull n wr (readIndex q ! i) = (sizeGuess n wr (readIndex q ! i) = int n - 1)"
proof -
  have c: "counts_ok n q" using assms(1) by (simp add: pcq_run)
  note w = counts_window [OF c] and l = counts_ok_lengths [OF c]
  have b: "reads q \<le> j" "writes q < i + n" "2 \<le> n" using assms(2-5) c by (auto simp: counts_ok_def)
  have g: "sizeGuess n (writeIndex q ! j) rd = int (j - reads q)"
    "sizeGuess n wr (readIndex q ! i) = int (writes q - i)" "sizeGuess n wr rd = int (writes q - reads q)"
    using assms(2-5) b w l c by (simp_all add: rd_def wr_def counts_ok_nth sizeGuess_mod)
  have "pcq_isEmpty rd (writeIndex q ! j) \<longleftrightarrow> j = reads q"
    using found_iff [OF c assms(2,3)] l by (simp add: pcq_isEmpty_def rd_def)
  moreover have "pcq_isFull n wr (readIndex q ! i) \<longleftrightarrow> \<not> Suc (writes q) < i + n"
    using room_iff [OF c assms(4,5)] l w by (simp add: pcq_isFull_def wr_def next_record_mod)
  ultimately show ?thesis using g b assms(2-5) w by (auto simp: length_contents)
qed


text \<open>Destroying a queue that no thread is inside of ends, destroys exactly the elements that are in
  it and leaves none.\<close>

lemma pcq_destroyed:
  assumes "reachable (pcq_init n) pcq_step q" "producer_left (producer q) = 0" "consumer_left (consumer q) = 0"
  shows "\<exists>q'. destroy_queue q = Some q' \<and> \<not> fault q' \<and> records q' = replicate n None"
proof -
  have i: "pcq_inv n q" "counts_ok n q" using assms by (simp_all add: pcq_run)
  have "built (producer q) = None" "removing (consumer q) = None"
    using assms(2,3) by (cases "producer q"; simp) (cases "consumer q"; use assms(3) in simp)
  thus ?thesis unfolding destroy_queue_def counts_ok_lengths(3,4) [OF i(2)]
    using i counts_window [OF i(2)] by (intro destroy_loop_all) (simp_all add: pcq_inv_def)
qed

text \<open>A run: one element is written into a queue of two slots.\<close>

definition pcq_sample :: "nat pcq" where
  "pcq_sample = \<lparr> q_size = 2, records = [Some 7, None], readIndex = [0], writeIndex = [0, 1], producer = PIdle,
     consumer = CIdle, producerView = 0, consumerView = 0, written = [7], taken = [], fault = False \<rparr>"

lemma pcq_sample_reachable: "reachable (pcq_init 2) pcq_step pcq_sample"
proof -
  let ?q0 = "ProducerConsumerQueue 2 :: nat pcq"
  let ?q1 = "?q0\<lparr> producer := PLoaded 7 0 \<rparr>"
  let ?q2 = "?q0\<lparr> producer := PRoom 7 0 1 \<rparr>"
  let ?q3 = "?q0\<lparr> producer := PBuilt 7 1, records := [Some 7, None] \<rparr>"
  have "reachable (pcq_init 2) pcq_step ?q0" by (rule reachable_init) (simp add: pcq_init_def)
  moreover have "produce ?q0 ?q1" using write_load [of ?q0 7] by (simp add: ProducerConsumerQueue_def)
  moreover have "produce ?q1 ?q2" using write_test [of ?q1 7 0 0 1]
    by (simp add: ProducerConsumerQueue_def next_record_def)
  moreover have "produce ?q2 ?q3" using write_construct [of ?q2 7 0 1]
    by (simp add: ProducerConsumerQueue_def construct_at_def numeral_2_eq_2)
  moreover have "produce ?q3 pcq_sample" using write_store [of ?q3 7 1]
    by (simp add: ProducerConsumerQueue_def pcq_sample_def)
  ultimately show ?thesis by (meson reachable_step pcq_step_def)
qed

theorem pcq_refines_witness: "reachable (\<lambda>s. s = ([], [])) (fifo_spec 1) ([7 :: nat], [])"
  using pcq_refines [OF pcq_sample_reachable]
  by (simp add: pcq_sample_def contents_def elements_def reads_def writes_def slot_def)

theorem pcq_wait_free_witness: "\<exists>q'. consume pcq_sample q'"
  using pcq_wait_free [OF pcq_sample_reachable] by simp

lemma pcq_observers_example: "sizeGuess 2 1 0 = 1 \<and> pcq_isFull 2 1 0"
  using pcq_observers [OF pcq_sample_reachable, of 1 0]
  by (simp add: pcq_sample_def contents_def elements_def reads_def writes_def)

lemma pcq_destroyed_example: "\<exists>q'. destroy_queue pcq_sample = Some q' \<and> \<not> fault q' \<and> records q' = [None, None]"
  using pcq_destroyed [OF pcq_sample_reachable] by (simp add: pcq_sample_def numeral_2_eq_2)

end
