(* ===== verification/Json.thy ===== *)
theory Json
  imports Folly_String Folly_Conv Unicode
begin

text \<open>
  \<open>folly/json.cpp\<close>: the printer, the parser and the removal of comments, and of \<open>dynamic\<close> what they use. A
  value is a tree; an object is the list of its items in the order in which the hash table enumerates
  them. Doubles are a parameter with the operations that the code calls on them, since printing and
  parsing them is left to another library; so is the order into which the hash table brings its
  items after an insertion. Strings are lists of bytes, read as characters. The parser takes fuel,
  one unit per call or turn of a loop, and three units per character of the input, and three more, are
  always enough (theory \<open>Json_Total\<close>).
\<close>

section \<open>Values, options and errors\<close>

datatype 'd dynamic =
    NULLT | ARRAY "'d dynamic list" | BOOL bool | DOUBLE 'd | INT64 "64 word"
  | OBJECT "('d dynamic \<times> 'd dynamic) list" | STRING string

record serialization_opts =
  allow_non_string_keys :: bool
  javascript_safe :: bool
  pretty_formatting :: bool
  encode_non_ascii :: bool
  validate_utf8 :: bool
  allow_trailing_comma :: bool
  sort_keys :: bool
  skip_invalid_utf8 :: bool
  allow_nan_inf :: bool

definition default_opts :: serialization_opts where
  "default_opts = \<lparr> allow_non_string_keys = False, javascript_safe = False, pretty_formatting = False,
     encode_non_ascii = False, validate_utf8 = False, allow_trailing_comma = False, sort_keys = False,
     skip_invalid_utf8 = False, allow_nan_inf = False \<rparr>"

text \<open>\<open>through_double\<close> is \<open>int64_t(to<double>(n))\<close>, which throws when it would lose a digit; \<open>same_double_key\<close> says
  whether the hash table takes two keys for equal of which at least one is a double; \<open>moved_items\<close> is what a
  hash table holds after its items have been moved out of it.\<close>

record 'd json_env =
  print_double :: "'d \<Rightarrow> string"
  parse_double :: "string \<Rightarrow> conv_error + 'd"
  nan_or_inf :: "'d \<Rightarrow> bool"
  inf_double :: 'd
  neg_inf_double :: 'd
  nan_double :: 'd
  less_double :: "'d \<Rightarrow> 'd \<Rightarrow> bool"
  same_double_key :: "'d dynamic \<Rightarrow> 'd dynamic \<Rightarrow> bool"
  through_double :: "int \<Rightarrow> conv_error + int"
  enumeration :: "('d dynamic \<times> 'd dynamic) list \<Rightarrow> ('d dynamic \<times> 'd dynamic) list"
  moved_items :: "('d dynamic \<times> 'd dynamic) list \<Rightarrow> ('d dynamic \<times> 'd dynamic) list"
  stack_buffer :: "char list"

text \<open>A \<open>ParseError\<close> has the line, the next 16 characters and the message.\<close>

datatype json_error =
    ParseError nat string string | InvalidUtf8 | NanOrInf | KeyNotString | TypeError | LogicError
  | ConversionError conv_error | OutOfFuel

definition conv :: "conv_error + 'a \<Rightarrow> json_error + 'a" where
  "conv r = (case r of Inl e \<Rightarrow> Inl (ConversionError e) | Inr x \<Rightarrow> Inr x)"

abbreviation quote_char :: char where "quote_char \<equiv> CHR 0x22"
abbreviation backslash :: char where "backslash \<equiv> CHR 0x5C"

definition byte_of :: "char \<Rightarrow> u8" where
  "byte_of c = of_nat (of_char c)"

definition char_at :: "u8 \<Rightarrow> char" where
  "char_at b = char_of (unat b)"

section \<open>UTF-8\<close>

definition bitMask :: "u32 list" where
  "bitMask = [push_bit 7 1 - 1, push_bit 11 1 - 1, push_bit 16 1 - 1, push_bit 21 1 - 1]"

text \<open>Every error is either thrown or skipped: one byte is passed over and the result is \<open>U+FFFD\<close>. The
  second component is what is left from \<open>p\<close> on. The function is never called at the end of the input.\<close>

definition utf8_error :: "bool \<Rightarrow> u8 list \<Rightarrow> json_error + u32 \<times> u8 list" where
  "utf8_error skipOnError p = (if skipOnError then Inr (0xFFFD, tl p) else Inl InvalidUtf8)"

function decode_loop :: "bool \<Rightarrow> u8 list \<Rightarrow> nat \<Rightarrow> u8 \<Rightarrow> u32 \<Rightarrow> json_error + u32 \<times> u8 list" where
  "decode_loop skipOnError p i fst_byte d =
     (if i \<noteq> 3 \<and> i < length p then
        (let tmp = p ! i in
         if tmp AND 0xC0 \<noteq> 0x80 then utf8_error skipOnError p
         else
           (let d = push_bit 6 d OR ucast (tmp AND 0x3F);
                fst_byte = push_bit 1 fst_byte in
            if fst_byte AND 0x80 = 0 then
              (let d = d AND (bitMask ! i) in
               if d AND NOT (bitMask ! (i - 1)) = 0 then utf8_error skipOnError p
               else if i = 2 \<and> (0xD800 \<le> d \<and> d \<le> 0xDFFF \<or> d > 0x10FFFF) then utf8_error skipOnError p
               else Inr (d, drop (i + 1) p))
            else decode_loop skipOnError p (i + 1) fst_byte d))
      else utf8_error skipOnError p)"
  by pat_completeness auto
termination by (relation "measure (\<lambda>(sk, p, i, f, d). length p - i)") auto

declare decode_loop.simps [simp del]

definition decodeUtf8 :: "bool \<Rightarrow> u8 list \<Rightarrow> json_error + u32 \<times> u8 list" where
  "decodeUtf8 skipOnError p =
     (if p = [] then utf8_error skipOnError p
      else
        (let fst_byte = hd p in
         if fst_byte AND 0x80 = 0 then Inr (ucast fst_byte, tl p)
         else if fst_byte AND 0xC0 \<noteq> 0xC0 then utf8_error skipOnError p
         else decode_loop skipOnError p 1 (push_bit 1 fst_byte) (ucast fst_byte)))"

lemma utf8_error_shorter: "utf8_error sk p = Inr (v, q) \<Longrightarrow> p \<noteq> [] \<Longrightarrow> length q < length p"
  by (auto simp: utf8_error_def split: if_splits)

lemma decode_loop_shorter:
  "decode_loop sk p i f d = Inr (v, q) \<Longrightarrow> p \<noteq> [] \<Longrightarrow> length q < length p"
proof (induction sk p i f d rule: decode_loop.induct)
  case (1 sk p i f d)
  note r = 1(2) [unfolded decode_loop.simps [of sk p i f d] Let_def]
  consider (more) "i \<noteq> 3 \<and> i < length p" "p ! i AND 0xC0 = 0x80" "push_bit 1 f AND 0x80 \<noteq> 0"
    | (error) "utf8_error sk p = Inr (v, q)" | (found) "q = drop (i + 1) p"
    using r by (auto split: if_splits)
  thus ?case
  proof cases
    case more
    show ?thesis by (rule 1(1) [OF more(1) refl _ refl refl]) (use more r 1(3) in simp_all)
  next
    case error
    thus ?thesis using 1(3) by (rule utf8_error_shorter)
  next
    case found
    thus ?thesis using 1(3) by (cases p) auto
  qed
qed

lemma decodeUtf8_shorter: "decodeUtf8 sk p = Inr (v, q) \<Longrightarrow> p \<noteq> [] \<Longrightarrow> length q < length p"
  by (auto simp: decodeUtf8_def Let_def split: if_splits dest: utf8_error_shorter decode_loop_shorter)

section \<open>Escaping a string\<close>

definition hexDigit :: "u32 \<Rightarrow> char" where
  "hexDigit c = char_of (if c < 10 then unat c + 48 else unat c - 10 + 97)"

text \<open>One byte that is not the start of an encoded character.\<close>

definition escape_byte :: "u8 \<Rightarrow> string" where
  "escape_byte p =
     (if p = 0x5C \<or> p = 0x22 then [backslash, char_at p]
      else if p \<le> 0x1F then
        (if p = 0x08 then [backslash, CHR ''b'']
         else if p = 0x0C then [backslash, CHR ''f'']
         else if p = 0x0A then [backslash, CHR ''n'']
         else if p = 0x0D then [backslash, CHR ''r'']
         else if p = 0x09 then [backslash, CHR ''t'']
         else [backslash, CHR ''u'', CHR ''0'', CHR ''0'', hexDigit (ucast (drop_bit 4 (p AND 0xF0))), hexDigit (ucast (p AND 0x0F))])
      else [char_at p])"

definition escape_code_point :: "u32 \<Rightarrow> string" where
  "escape_code_point v =
     [backslash, CHR ''u'', hexDigit (drop_bit 12 v), hexDigit (drop_bit 8 v AND 0x0F),
      hexDigit (drop_bit 4 v AND 0x0F), hexDigit (v AND 0x0F)]"

text \<open>\<open>p\<close> is what is left from the pointer \<open>p\<close> on, \<open>q\<close> how far the pointer \<open>q\<close> is ahead of it. The replacement
  character is a literal of three bytes.\<close>

function escape_loop :: "serialization_opts \<Rightarrow> u8 list \<Rightarrow> nat \<Rightarrow> json_error + string" where
  "escape_loop opts p q =
     (if p = [] then Inr []
      else if (validate_utf8 opts \<or> skip_invalid_utf8 opts) \<and> \<not> encode_non_ascii opts then
        rbind (if q = 0 then decodeUtf8 (skip_invalid_utf8 opts) p else Inr (0, drop q p)) (\<lambda>(v, rest).
          if q = 0 \<and> skip_invalid_utf8 opts \<and> v = 0xFFFD
          then rbind (escape_loop opts rest 0) (\<lambda>t.
                 Inr ([CHR 0xEF, CHR 0xBF, CHR 0xBD] @ t))
          else rbind (escape_loop opts (tl p) (length p - length rest - 1)) (\<lambda>t. Inr (escape_byte (hd p) @ t)))
      else if encode_non_ascii opts \<and> hd p AND 0x80 \<noteq> 0 then
        rbind (decodeUtf8 (skip_invalid_utf8 opts) p) (\<lambda>(v, rest).
          rbind (escape_loop opts rest q) (\<lambda>t. Inr (escape_code_point v @ t)))
      else rbind (escape_loop opts (tl p) q) (\<lambda>t. Inr (escape_byte (hd p) @ t)))"
  by pat_completeness auto
termination
  by (relation "measure (\<lambda>(opts, p, q). length p)") (auto dest: decodeUtf8_shorter)

declare escape_loop.simps [simp del]

definition escapeString :: "serialization_opts \<Rightarrow> string \<Rightarrow> json_error + string" where
  "escapeString opts input =
     rbind (escape_loop opts (map byte_of input) 0) (\<lambda>t. Inr ([quote_char] @ t @ [quote_char]))"

section \<open>The order of keys\<close>

fun type_rank :: "'d dynamic \<Rightarrow> nat" where
  "type_rank NULLT = 0"
| "type_rank (ARRAY xs) = 1"
| "type_rank (BOOL b) = 2"
| "type_rank (DOUBLE x) = 3"
| "type_rank (INT64 n) = 4"
| "type_rank (OBJECT kvs) = 5"
| "type_rank (STRING str) = 6"

fun bytes_less :: "string \<Rightarrow> string \<Rightarrow> bool" where
  "bytes_less cs [] = False"
| "bytes_less [] (d # ds) = True"
| "bytes_less (c # cs) (d # ds) =
     ((of_char c :: nat) < of_char d \<or> (of_char c :: nat) = of_char d \<and> bytes_less cs ds)"

text \<open>\<open>operator<\<close> on the types a key can have; keys of other types cannot be hashed.\<close>

fun key_less :: "'d json_env \<Rightarrow> 'd dynamic \<Rightarrow> 'd dynamic \<Rightarrow> bool" where
  "key_less P (BOOL a) (BOOL b) = (\<not> a \<and> b)"
| "key_less P (DOUBLE a) (DOUBLE b) = less_double P a b"
| "key_less P (INT64 a) (INT64 b) = (sint a < sint b)"
| "key_less P (STRING a) (STRING b) = bytes_less a b"
| "key_less P a b = (type_rank a < type_rank b)"

text \<open>\<open>std::sort\<close> on items; they differ in their keys, so the values are not compared (a key that is NaN
  aside, with which the order is not one that \<open>std::sort\<close> accepts).\<close>

fun insert_item :: "'d json_env \<Rightarrow> 'd dynamic \<times> 'b \<Rightarrow> ('d dynamic \<times> 'b) list \<Rightarrow> ('d dynamic \<times> 'b) list" where
  "insert_item P x [] = [x]"
| "insert_item P x (y # ys) = (if key_less P (fst y) (fst x) then y # insert_item P x ys else x # y # ys)"

definition sort_items :: "'d json_env \<Rightarrow> ('d dynamic \<times> 'b) list \<Rightarrow> ('d dynamic \<times> 'b) list" where
  "sort_items P xs = foldr (insert_item P) xs []"

section \<open>The printer\<close>

text \<open>The level of indentation is \<open>None\<close> unless the output is to be pretty. Results are the text that is
  appended to the output.\<close>

definition newline :: "nat option \<Rightarrow> string" where
  "newline lvl = (case lvl of None \<Rightarrow> [] | Some n \<Rightarrow> CHR 0x0A # replicate (n * 2) CHR '' '')"

definition mapColon :: "nat option \<Rightarrow> string" where
  "mapColon lvl = (if lvl \<noteq> None then '' : '' else '':'')"

definition print_int :: "'d json_env \<Rightarrow> serialization_opts \<Rightarrow> 64 word \<Rightarrow> json_error + string" where
  "print_int P opts n =
     conv (rbind (if javascript_safe opts then through_double P (sint n) else Inr (sint n)) (\<lambda>intval.
       toAppend_signed (stack_buffer P) intval []))"

definition print_floating :: "'d json_env \<Rightarrow> serialization_opts \<Rightarrow> 'd \<Rightarrow> json_error + string" where
  "print_floating P opts x =
     (if \<not> allow_nan_inf opts \<and> nan_or_inf P x then Inl NanOrInf else Inr (print_double P x))"

fun is_string :: "'d dynamic \<Rightarrow> bool" where
  "is_string (STRING str) = True"
| "is_string d = False"

text \<open>\<open>printKV\<close>, with the texts of key and value; they are only asked for in this order.\<close>

definition printKV :: "serialization_opts \<Rightarrow> nat option \<Rightarrow> 'd dynamic \<Rightarrow> json_error + string \<Rightarrow> json_error + string \<Rightarrow>
    json_error + string" where
  "printKV opts lvl k kt vt =
     (if \<not> allow_non_string_keys opts \<and> \<not> is_string k then Inl KeyNotString
      else rbind kt (\<lambda>kt. rbind vt (\<lambda>vt. Inr (kt @ mapColon lvl @ vt))))"

fun print_list :: "nat option \<Rightarrow> (json_error + string) list \<Rightarrow> json_error + string" where
  "print_list lvl [] = Inr []"
| "print_list lvl [t] = t"
| "print_list lvl (t # ts) = rbind t (\<lambda>t. rbind (print_list lvl ts) (\<lambda>u. Inr (t @ '','' @ newline lvl @ u)))"

definition bracketed :: "nat option \<Rightarrow> char \<Rightarrow> json_error + string \<Rightarrow> char \<Rightarrow> json_error + string" where
  "bracketed lvl l r rb = rbind r (\<lambda>t. Inr ([l] @ newline (map_option Suc lvl) @ t @ newline lvl @ [rb]))"

fun print_value :: "'d json_env \<Rightarrow> serialization_opts \<Rightarrow> nat option \<Rightarrow> 'd dynamic \<Rightarrow> json_error + string" where
  "print_value P opts lvl NULLT = Inr ''null''"
| "print_value P opts lvl (BOOL b) = Inr (if b then ''true'' else ''false'')"
| "print_value P opts lvl (DOUBLE x) = print_floating P opts x"
| "print_value P opts lvl (INT64 n) = print_int P opts n"
| "print_value P opts lvl (STRING str) = escapeString opts str"
| "print_value P opts lvl (ARRAY xs) =
     (if xs = [] then Inr ''[]''
      else bracketed lvl CHR ''['' (print_list (map_option Suc lvl) (map (print_value P opts (map_option Suc lvl)) xs)) CHR '']'')"
| "print_value P opts lvl (OBJECT kvs) =
     (if kvs = [] then Inr ''{}''
      else
        (let lvl' = map_option Suc lvl;
             items = map (\<lambda>(k, v). (k, printKV opts lvl' k (print_value P opts lvl' k) (print_value P opts lvl' v))) kvs;
             items = (if sort_keys opts then sort_items P items else items)
         in bracketed lvl CHR ''{'' (print_list lvl' (map snd items)) CHR ''}''))"

definition serialize :: "'d json_env \<Rightarrow> serialization_opts \<Rightarrow> 'd dynamic \<Rightarrow> json_error + string" where
  "serialize P opts dyn = print_value P opts (if pretty_formatting opts then Some 0 else None) dyn"

definition toJson :: "'d json_env \<Rightarrow> 'd dynamic \<Rightarrow> json_error + string" where
  "toJson P dyn = serialize P default_opts dyn"

definition toPrettyJson :: "'d json_env \<Rightarrow> 'd dynamic \<Rightarrow> json_error + string" where
  "toPrettyJson P dyn = serialize P (default_opts\<lparr> pretty_formatting := True \<rparr>) dyn"

definition print_as_pseudo_json :: "'d json_env \<Rightarrow> 'd dynamic \<Rightarrow> json_error + string" where
  "print_as_pseudo_json P dyn =
     serialize P (default_opts\<lparr> allow_non_string_keys := True, allow_nan_inf := True \<rparr>) dyn"

section \<open>The input\<close>

text \<open>\<open>current_\<close> is computed anew whenever the range changes, so it is a function here: the first character as a
  signed \<open>char\<close>, or \<open>EOF\<close>, which is also what the character 255 gives.\<close>

record input =
  in_range :: string
  lineNum :: nat

definition Input :: "string \<Rightarrow> input" where
  "Input str = \<lparr> in_range = str, lineNum = 0 \<rparr>"

definition schar :: "char \<Rightarrow> int" where
  "schar c = sint (byte_of c)"

definition current :: "input \<Rightarrow> int" where
  "current inp = (if in_range inp = [] then - 1 else schar (hd (in_range inp)))"

definition is_char :: "input \<Rightarrow> char \<Rightarrow> bool" where
  "is_char inp c \<longleftrightarrow> current inp = schar c"

definition next_char :: "input \<Rightarrow> input" where
  "next_char inp = inp\<lparr> in_range := tl (in_range inp) \<rparr>"

definition in_error :: "input \<Rightarrow> string \<Rightarrow> json_error + 'a" where
  "in_error inp what = Inl (ParseError (lineNum inp) (take 16 (in_range inp)) what)"

definition expect :: "char \<Rightarrow> input \<Rightarrow> json_error + input" where
  "expect c inp = (if \<not> is_char inp c then in_error inp (''expected '' @ [CHR 0x27, c, CHR 0x27]) else Inr (next_char inp))"

definition skip_chars :: "nat \<Rightarrow> input \<Rightarrow> string \<times> input" where
  "skip_chars n inp =
     (take n (in_range inp),
      inp\<lparr> in_range := drop n (in_range inp),
           lineNum := lineNum inp + length (filter (\<lambda>c. c = CHR 0x0A) (take n (in_range inp))) \<rparr>)"

definition skipWhile :: "(char \<Rightarrow> bool) \<Rightarrow> input \<Rightarrow> string \<times> input" where
  "skipWhile p inp = skip_chars (length (takeWhile p (in_range inp))) inp"

definition is_digit :: "char \<Rightarrow> bool" where
  "is_digit c \<longleftrightarrow> schar CHR ''0'' \<le> schar c \<and> schar c \<le> schar CHR ''9''"

definition skipDigits :: "input \<Rightarrow> string \<times> input" where
  "skipDigits inp = skipWhile is_digit inp"

text \<open>A minus sign passes only as the first character.\<close>

definition skipMinusAndDigits :: "input \<Rightarrow> string \<times> input" where
  "skipMinusAndDigits inp =
     (case in_range inp of
        [] \<Rightarrow> ([], inp)
      | c # cs \<Rightarrow> if is_digit c \<or> c = CHR ''-'' then skip_chars (Suc (length (takeWhile is_digit cs))) inp else ([], inp))"

definition skip_ws :: "input \<Rightarrow> input" where
  "skip_ws inp = inp\<lparr> in_range := skipWhitespace (in_range inp) \<rparr>"

definition in_consume :: "string \<Rightarrow> input \<Rightarrow> input option" where
  "in_consume str inp =
     (if take (length str) (in_range inp) = str
      then Some (inp\<lparr> in_range := drop (length str) (in_range inp) \<rparr>) else None)"

section \<open>Numbers\<close>

text \<open>What was read since \<open>start\<close>.\<close>

definition text_since :: "input \<Rightarrow> input \<Rightarrow> string" where
  "text_since start inp = take (length (in_range start) - length (in_range inp)) (in_range start)"

definition skip_fraction :: "input \<Rightarrow> input" where
  "skip_fraction inp =
     (let wasE = is_char inp CHR ''e'' \<or> is_char inp CHR ''E'';
          inp = (if \<not> wasE then snd (skipDigits (next_char inp)) else inp)
      in if is_char inp CHR ''e'' \<or> is_char inp CHR ''E'' then
           (let inp = next_char inp;
                inp = (if is_char inp CHR ''+'' \<or> is_char inp CHR ''-'' then next_char inp else inp)
            in snd (skipDigits inp))
         else inp)"

definition parseNumber :: "'d json_env \<Rightarrow> input \<Rightarrow> json_error + 'd dynamic \<times> input" where
  "parseNumber P inp =
     (let negative = is_char inp CHR ''-'' in
      case (if negative then in_consume ''-Infinity'' inp else None) of
        Some inp \<Rightarrow> Inr (DOUBLE (neg_inf_double P), inp)
      | None \<Rightarrow>
          (case skipMinusAndDigits inp of (integral, inp') \<Rightarrow>
             if negative \<and> length integral < 2 then in_error inp' (''expected digits after `-'' @ [CHR 0x27])
             else if \<not> is_char inp' CHR ''.'' \<and> \<not> (is_char inp' CHR ''e'' \<or> is_char inp' CHR ''E'') then
               rbind (conv (to_string_piece True integral)) (\<lambda>val. Inr (INT64 val, skip_ws inp'))
             else
               (let inp' = skip_fraction inp'
                in rbind (conv (parse_double P (text_since inp inp'))) (\<lambda>val. Inr (DOUBLE val, inp')))))"

section \<open>Strings\<close>

definition hexVal :: "input \<Rightarrow> json_error + nat" where
  "hexVal inp =
     (let c = current inp in
      if schar CHR ''0'' \<le> c \<and> c \<le> schar CHR ''9'' then Inr (nat (c - schar CHR ''0''))
      else if schar CHR ''a'' \<le> c \<and> c \<le> schar CHR ''f'' then Inr (nat (c - schar CHR ''a'' + 10))
      else if schar CHR ''A'' \<le> c \<and> c \<le> schar CHR ''F'' then Inr (nat (c - schar CHR ''A'' + 10))
      else in_error inp ''invalid hex digit'')"

definition readHex :: "input \<Rightarrow> json_error + 16 word \<times> input" where
  "readHex inp =
     (if length (in_range inp) < 4 then in_error inp ''expected 4 hex digits''
      else
        rbind (hexVal inp) (\<lambda>a. let inp = next_char inp in
        rbind (hexVal inp) (\<lambda>b. let inp = next_char inp in
        rbind (hexVal inp) (\<lambda>c. let inp = next_char inp in
        rbind (hexVal inp) (\<lambda>d. let inp = next_char inp in
          Inr (of_nat (a * 4096) + of_nat (b * 256) + of_nat (c * 16) + of_nat d, inp))))))"

definition decodeUnicodeEscape :: "input \<Rightarrow> json_error + string \<times> input" where
  "decodeUnicodeEscape inp =
     rbind (readHex inp) (\<lambda>(h, inp).
       let codePoint = (ucast h :: u32) in
       rbind (if 0xD800 \<le> codePoint \<and> codePoint \<le> 0xDBFF then
                (case in_consume [backslash, CHR ''u''] inp of
                   None \<Rightarrow> in_error inp ''expected another unicode escape for second half of surrogate pair''
                 | Some inp \<Rightarrow>
                     rbind (readHex inp) (\<lambda>(second, inp).
                       if 0xDC00 \<le> second \<and> second \<le> 0xDFFF then
                         Inr (0x10000 + push_bit 10 (codePoint AND 0x3FF) + ucast (second AND 0x3FF), inp)
                       else in_error inp ''second character in surrogate pair is invalid''))
              else if 0xDC00 \<le> codePoint \<and> codePoint \<le> 0xDFFF then
                in_error inp ''invalid unicode code point (in range [0xdc00,0xdfff])''
              else Inr (codePoint, inp)) (\<lambda>(codePoint, inp).
         Inr (map char_at (codePointToUtf8 codePoint), inp)))"

text \<open>The character after a backslash that stands for one character.\<close>

definition simple_escape :: "int \<Rightarrow> char option" where
  "simple_escape c =
     map_of [(schar quote_char, quote_char), (schar backslash, backslash), (schar CHR ''/'', CHR ''/''),
       (schar CHR ''b'', CHR 0x08), (schar CHR ''f'', CHR 0x0C), (schar CHR ''n'', CHR 0x0A),
       (schar CHR ''r'', CHR 0x0D), (schar CHR ''t'', CHR 0x09)] c"

fun string_loop :: "'d json_env \<Rightarrow> nat \<Rightarrow> string \<Rightarrow> input \<Rightarrow> json_error + string \<times> input" where
  "string_loop P 0 ret inp = Inl OutOfFuel"
| "string_loop P (Suc n) ret inp =
     (case skipWhile (\<lambda>c. c \<noteq> quote_char \<and> c \<noteq> backslash) inp of (piece, inp) \<Rightarrow>
        let ret = ret @ piece in
        if is_char inp quote_char then Inr (ret, next_char inp)
        else if is_char inp backslash then
          (let inp = next_char inp in
           case simple_escape (current inp) of
             Some c \<Rightarrow> string_loop P n (ret @ [c]) (next_char inp)
           | None \<Rightarrow>
               if is_char inp CHR ''u'' then
                 rbind (decodeUnicodeEscape (next_char inp)) (\<lambda>(t, inp). string_loop P n (ret @ t) inp)
               else
                 rbind (conv (toAppend_signed (stack_buffer P) (current inp) ''unknown escape '')) (\<lambda>what.
                   in_error inp (what @ '' in string'')))
        else if current inp = - 1 then in_error inp ''unterminated string''
        else if current inp = 0 then in_error inp ''null byte in string''
        else string_loop P n (ret @ [hd (in_range inp)]) (next_char inp))"

definition parseString :: "'d json_env \<Rightarrow> input \<Rightarrow> json_error + string \<times> input" where
  "parseString P inp = string_loop P (Suc (length (in_range inp))) [] (next_char inp)"

section \<open>Objects and values\<close>

text \<open>\<open>dynamic::insert\<close>: null, arrays and objects have no hash. When the key is already there, the value has been moved
  into the pair that was not inserted, and what is left of it is stored: an array is then empty, and so is a
  string of more than 23 characters, the longest that \<open>fbstring\<close> copies instead of moving.\<close>

fun hashable :: "'d dynamic \<Rightarrow> bool" where
  "hashable NULLT = False"
| "hashable (ARRAY xs) = False"
| "hashable (OBJECT kvs) = False"
| "hashable d = True"

fun is_double :: "'d dynamic \<Rightarrow> bool" where
  "is_double (DOUBLE x) = True"
| "is_double d = False"

definition same_key :: "'d json_env \<Rightarrow> 'd dynamic \<Rightarrow> 'd dynamic \<Rightarrow> bool" where
  "same_key P a b = (if is_double a \<or> is_double b then same_double_key P a b else a = b)"

fun moved_from :: "'d json_env \<Rightarrow> 'd dynamic \<Rightarrow> 'd dynamic" where
  "moved_from P (ARRAY xs) = ARRAY []"
| "moved_from P (OBJECT kvs) = OBJECT (moved_items P kvs)"
| "moved_from P (STRING str) = STRING (if length str \<le> 23 then str else [])"
| "moved_from P d = d"

definition dynamic_insert :: "'d json_env \<Rightarrow> 'd dynamic \<Rightarrow> 'd dynamic \<Rightarrow> ('d dynamic \<times> 'd dynamic) list \<Rightarrow>
    json_error + ('d dynamic \<times> 'd dynamic) list" where
  "dynamic_insert P key val obj =
     (if \<not> hashable key then Inl TypeError
      else if \<exists>(k, v) \<in> set obj. same_key P k key
      then Inr (map (\<lambda>(k, v). if same_key P k key then (k, moved_from P val) else (k, v)) obj)
      else Inr (enumeration P (obj @ [(key, val)])))"

fun parseValue :: "'d json_env \<Rightarrow> serialization_opts \<Rightarrow> nat \<Rightarrow> input \<Rightarrow> json_error + 'd dynamic \<times> input"
  and parseArray :: "'d json_env \<Rightarrow> serialization_opts \<Rightarrow> nat \<Rightarrow> input \<Rightarrow> json_error + 'd dynamic \<times> input"
  and array_loop :: "'d json_env \<Rightarrow> serialization_opts \<Rightarrow> nat \<Rightarrow> 'd dynamic list \<Rightarrow> input \<Rightarrow>
    json_error + 'd dynamic \<times> input"
  and parseObject :: "'d json_env \<Rightarrow> serialization_opts \<Rightarrow> nat \<Rightarrow> input \<Rightarrow> json_error + 'd dynamic \<times> input"
  and object_loop :: "'d json_env \<Rightarrow> serialization_opts \<Rightarrow> nat \<Rightarrow> ('d dynamic \<times> 'd dynamic) list \<Rightarrow> input \<Rightarrow>
    json_error + 'd dynamic \<times> input"
where
  "parseValue P opts 0 inp = Inl OutOfFuel"
| "parseValue P opts (Suc n) inp =
     (let inp = skip_ws inp in
      if is_char inp CHR ''['' then parseArray P opts n inp
      else if is_char inp CHR ''{'' then parseObject P opts n inp
      else if is_char inp quote_char then rbind (parseString P inp) (\<lambda>(str, inp). Inr (STRING str, inp))
      else if is_char inp CHR ''-'' \<or> schar CHR ''0'' \<le> current inp \<and> current inp \<le> schar CHR ''9''
      then parseNumber P inp
      else
        (case in_consume ''true'' inp of Some inp \<Rightarrow> Inr (BOOL True, inp) | None \<Rightarrow>
         case in_consume ''false'' inp of Some inp \<Rightarrow> Inr (BOOL False, inp) | None \<Rightarrow>
         case in_consume ''null'' inp of Some inp \<Rightarrow> Inr (NULLT, inp) | None \<Rightarrow>
         case in_consume ''Infinity'' inp of Some inp \<Rightarrow> Inr (DOUBLE (inf_double P), inp) | None \<Rightarrow>
         case in_consume ''NaN'' inp of Some inp \<Rightarrow> Inr (DOUBLE (nan_double P), inp) | None \<Rightarrow>
           in_error inp ''expected json value''))"
| "parseArray P opts 0 inp = Inl OutOfFuel"
| "parseArray P opts (Suc n) inp =
     (let inp = skip_ws (next_char inp) in
      if is_char inp CHR '']'' then Inr (ARRAY [], next_char inp) else array_loop P opts n [] inp)"
| "array_loop P opts 0 ret inp = Inl OutOfFuel"
| "array_loop P opts (Suc n) ret inp =
     (if allow_trailing_comma opts \<and> is_char inp CHR '']'' then rbind (expect CHR '']'' inp) (\<lambda>inp. Inr (ARRAY ret, inp))
      else
        rbind (parseValue P opts n inp) (\<lambda>(val, inp).
          let ret = ret @ [val]; inp = skip_ws inp in
          if \<not> is_char inp CHR '','' then rbind (expect CHR '']'' inp) (\<lambda>inp. Inr (ARRAY ret, inp))
          else array_loop P opts n ret (skip_ws (next_char inp))))"
| "parseObject P opts 0 inp = Inl OutOfFuel"
| "parseObject P opts (Suc n) inp =
     (let inp = skip_ws (next_char inp) in
      if is_char inp CHR ''}'' then Inr (OBJECT [], next_char inp) else object_loop P opts n [] inp)"
| "object_loop P opts 0 ret inp = Inl OutOfFuel"
| "object_loop P opts (Suc n) ret inp =
     (if allow_trailing_comma opts \<and> is_char inp CHR ''}'' then rbind (expect CHR ''}'' inp) (\<lambda>inp. Inr (OBJECT ret, inp))
      else
        rbind (if is_char inp quote_char then rbind (parseString P inp) (\<lambda>(str, inp). Inr (STRING str, inp))
               else if \<not> allow_non_string_keys opts then in_error inp ''expected string for object key name''
               else parseValue P opts n inp) (\<lambda>(key, inp).
        rbind (expect CHR '':'' (skip_ws inp)) (\<lambda>inp.
        rbind (parseValue P opts n (skip_ws inp)) (\<lambda>(val, inp).
        rbind (dynamic_insert P key val ret) (\<lambda>ret.
          let inp = skip_ws inp in
          if \<not> is_char inp CHR '','' then rbind (expect CHR ''}'' inp) (\<lambda>inp. Inr (OBJECT ret, inp))
          else object_loop P opts n ret (skip_ws (next_char inp)))))))"

definition parse_fuel :: "string \<Rightarrow> nat" where
  "parse_fuel str = 3 * length str + 3"

definition parseJson :: "'d json_env \<Rightarrow> serialization_opts \<Rightarrow> string \<Rightarrow> json_error + 'd dynamic" where
  "parseJson P opts str =
     rbind (parseValue P opts (parse_fuel str) (Input str)) (\<lambda>(ret, inp).
       let inp = skip_ws inp in
       if in_range inp \<noteq> [] \<and> current inp \<noteq> 0 then in_error inp ''parsing didn't consume all input'' else Inr ret)"

section \<open>Comments\<close>

datatype comment_state = NoComment | InString | InlineComment | LineComment

fun strip_loop :: "comment_state \<Rightarrow> string \<Rightarrow> json_error + string" where
  "strip_loop st [] = Inr []"
| "strip_loop NoComment (c # cs) =
     (if c = CHR ''/'' \<and> cs \<noteq> [] \<and> hd cs = CHR ''*'' then strip_loop InlineComment (tl cs)
      else if c = CHR ''/'' \<and> cs \<noteq> [] \<and> hd cs = CHR ''/'' then strip_loop LineComment (tl cs)
      else rbind (strip_loop (if c = quote_char then InString else NoComment) cs) (\<lambda>t. Inr (c # t)))"
| "strip_loop InString (c # cs) =
     (if c = backslash then
        (if cs = [] then Inl LogicError else rbind (strip_loop InString (tl cs)) (\<lambda>t. Inr (c # hd cs # t)))
      else rbind (strip_loop (if c = quote_char then NoComment else InString) cs) (\<lambda>t. Inr (c # t)))"
| "strip_loop InlineComment (c # cs) =
     (if c = CHR ''*'' \<and> cs \<noteq> [] \<and> hd cs = CHR ''/'' then strip_loop NoComment (tl cs) else strip_loop InlineComment cs)"
| "strip_loop LineComment (c # cs) = strip_loop (if c = CHR 0x0A then NoComment else LineComment) cs"

definition stripComments :: "string \<Rightarrow> json_error + string" where
  "stripComments jsonC = strip_loop NoComment jsonC"

end
