(* ===== verification/Json_Total.thy ===== *)
theory Json_Total
  imports Json
begin

text \<open>
  The JSON parser always ends: a call that succeeds has consumed input, so the fuel that \<open>parseJson\<close>
  gives is never used up and more of it changes nothing; and which errors can come out of it.
\<close>

section \<open>Parsers that consume\<close>

abbreviation len :: "input \<Rightarrow> nat" where
  "len inp \<equiv> length (in_range inp)"

fun parse_error :: "serialization_opts \<Rightarrow> json_error \<Rightarrow> bool" where
  "parse_error opts (ParseError l c w) = True"
| "parse_error opts (ConversionError e) = True"
| "parse_error opts TypeError = allow_non_string_keys opts"
| "parse_error opts e = False"

text \<open>The result is an error of a parser, or leaves less than \<open>m\<close> characters.\<close>

definition runs :: "serialization_opts \<Rightarrow> nat \<Rightarrow> json_error + 'a \<times> input \<Rightarrow> bool" where
  "runs opts m r \<longleftrightarrow> (case r of Inl e \<Rightarrow> parse_error opts e | Inr (v, inp) \<Rightarrow> len inp < m)"

lemma runs_simps [simp]:
  "runs opts m (Inl e) = parse_error opts e"
  "runs opts m (Inr (v, inp)) = (len inp < m)"
  "runs opts m (in_error inp what)"
  by (simp_all add: runs_def in_error_def)

lemma runs_mono: "runs opts m r \<Longrightarrow> m \<le> m' \<Longrightarrow> runs opts m' r"
  by (auto simp: runs_def split: sum.splits)

lemma runs_bind:
  assumes "runs opts m r" "\<And>v inp. r = Inr (v, inp) \<Longrightarrow> len inp < m \<Longrightarrow> runs opts m' (f (v, inp))"
  shows "runs opts m' (rbind r f)"
  using assms by (cases r) (auto simp: runs_def)

lemma runs_if: "(c \<Longrightarrow> runs opts m r) \<Longrightarrow> (\<not> c \<Longrightarrow> runs opts m r') \<Longrightarrow> runs opts m (if c then r else r')"
  by simp

lemma runs_conv: "(\<And>x. r = Inr x \<Longrightarrow> runs opts m (f x)) \<Longrightarrow> runs opts m (rbind (conv r) f)"
  by (cases r) (auto simp: conv_def)

section \<open>The input\<close>

lemma unat_byte_of [simp]: "unat (byte_of c) = of_char c"
  using nat_of_char_less_256 [of c] by (simp add: byte_of_def unsigned_of_nat take_bit_nat_eq_self_iff)

lemma byte_of_eq_iff [simp]: "byte_of c = byte_of d \<longleftrightarrow> c = d"
  by (metis unat_byte_of of_char_eq_iff)

lemma schar_eq_iff [simp]: "schar c = schar d \<longleftrightarrow> c = d"
  using signed_word_eqI [of "byte_of c" "byte_of d"] by (auto simp: schar_def)

lemma schar_EOF: "schar CHR 0xFF = - 1"
  by (simp add: schar_def byte_of_def)

lemma is_char_iff: "c \<noteq> CHR 0xFF \<Longrightarrow> is_char inp c \<longleftrightarrow> (\<exists>cs. in_range inp = c # cs)"
  unfolding is_char_def current_def schar_EOF [symmetric] by (cases "in_range inp") auto

lemma is_char_len: "is_char inp c \<Longrightarrow> c \<noteq> CHR 0xFF \<Longrightarrow> 0 < len inp"
  by (auto simp: is_char_iff)

lemma len_next [simp]: "len (next_char inp) = len inp - 1"
  by (simp add: next_char_def)

lemma len_skip_ws: "len (skip_ws inp) \<le> len inp"
  by (simp add: skip_ws_def skipWhitespace_dropWhile length_dropWhile_le)

lemma len_skip_chars: "skip_chars n inp = (t, inp') \<Longrightarrow> len inp' = len inp - n"
  by (auto simp: skip_chars_def)

lemma len_skipWhile: "skipWhile p inp = (t, inp') \<Longrightarrow> len inp' \<le> len inp"
  by (auto simp: skipWhile_def skip_chars_def)

lemma len_consume: "in_consume str inp = Some inp' \<Longrightarrow> len inp' = len inp - length str \<and> length str \<le> len inp"
  by (auto simp: in_consume_def split: if_splits) (metis length_take min.cobounded1)

lemma runs_expect: "c \<noteq> CHR 0xFF \<Longrightarrow> (\<And>inp'. len inp' < len inp \<Longrightarrow> runs opts m (f inp')) \<Longrightarrow> runs opts m (rbind (expect c inp) f)"
  using is_char_len [of inp c] by (auto simp: expect_def in_error_def)

section \<open>Numbers and strings\<close>

lemma len_skip_fraction: "len (skip_fraction inp) \<le> len inp"
proof -
  have d: "len (snd (skipDigits i)) \<le> k" if "len i \<le> k" for i k
    using that len_skipWhile [of is_digit i] by (cases "skipWhile is_digit i") (auto simp: skipDigits_def)
  have n: "len (next_char i) \<le> k" if "len i \<le> k" for i k using that by simp
  show ?thesis unfolding skip_fraction_def Let_def by (auto intro!: d n simp del: len_next)
qed

lemma runs_number:
  assumes "is_char inp CHR ''-'' \<or> schar CHR ''0'' \<le> current inp \<and> current inp \<le> schar CHR ''9''"
  shows "runs opts (len inp) (parseNumber P inp)"
proof -
  obtain c cs where c: "in_range inp = c # cs" "is_digit c \<or> c = CHR ''-''"
    using assms by (cases "in_range inp")
      (auto simp: is_char_iff current_def is_digit_def schar_def byte_of_def)
  obtain t inp' where s: "skipMinusAndDigits inp = (t, inp')" by fastforce
  hence l: "len inp' < len inp" using c by (auto simp: skipMinusAndDigits_def dest!: len_skip_chars)
  have "len (skip_ws inp') < len inp" "len (skip_fraction inp') < len inp"
    using l len_skip_ws [of inp'] len_skip_fraction [of inp'] by linarith+
  thus ?thesis
    by (auto simp: parseNumber_def s Let_def c(1) intro!: runs_conv dest!: len_consume split: option.split)
qed

lemma runs_hexVal: "(\<And>a. runs opts m (f a)) \<Longrightarrow> runs opts m (rbind (hexVal inp) f)"
  by (auto simp: hexVal_def Let_def in_error_def)

lemma runs_readHex: "runs opts (Suc (len inp)) (readHex inp)"
  by (auto simp: readHex_def Let_def intro!: runs_hexVal)

lemma runs_unicode: "runs opts (Suc (len inp)) (decodeUnicodeEscape inp)"
proof -
  have second: "runs opts (Suc m) (case in_consume str i of None \<Rightarrow> in_error i w | Some i \<Rightarrow>
      rbind (readHex i) (\<lambda>(x, i). if Q x then Inr (F x, i) else in_error i w'))" if "len i \<le> m"
    for str i w m Q w' and F :: "_ \<Rightarrow> u32"
    using that by (auto split: option.split dest!: len_consume intro!: runs_bind [OF runs_readHex])
  show ?thesis unfolding decodeUnicodeEscape_def Let_def
    by (rule runs_bind [OF runs_readHex], unfold prod.case, rule runs_bind [where m = "Suc (len inp)"])
      (auto intro!: second)
qed

lemma runs_string_loop: "len inp < n \<Longrightarrow> runs opts (len inp) (string_loop P n ret inp)"
proof (induction n arbitrary: ret inp)
  case (Suc n)
  obtain t i where s: "skipWhile (\<lambda>c. c \<noteq> quote_char \<and> c \<noteq> backslash) inp = (t, i)" by fastforce
  have l: "len i \<le> len inp" using s by (rule len_skipWhile)
  have loop: "runs opts (len inp) (string_loop P n r j)" if "len j < len inp" for r j
    using Suc.IH [of j r] Suc.prems that by (auto elim: runs_mono)
  have uni: "runs opts (len inp) (rbind (decodeUnicodeEscape j) (\<lambda>(t, i). string_loop P n (r @ t) i))"
    if "len j < len inp" for r j
    using that by (intro runs_bind [OF runs_unicode]) (auto intro: loop)
  show ?case
  proof (cases "in_range i = []")
    case True
    hence "current i = - 1" "\<not> is_char i quote_char" "\<not> is_char i backslash"
      by (simp_all add: is_char_iff current_def)
    thus ?thesis unfolding string_loop.simps s prod.case Let_def by simp
  next
    case False
    hence "0 < len i" by simp
    hence "len (next_char i) < len inp" "len (next_char (next_char i)) < len inp" using l unfolding len_next by linarith+
    thus ?thesis unfolding string_loop.simps s prod.case Let_def
      by (auto intro!: loop uni runs_conv split: option.split simp del: append_assoc len_next)
  qed
qed simp

lemma runs_parseString: "is_char inp quote_char \<Longrightarrow> runs opts (len inp) (parseString P inp)"
  unfolding parseString_def using is_char_len [of inp quote_char]
  by (intro runs_mono [OF runs_string_loop]) auto

section \<open>Values\<close>

lemma runs_insert:
  "(\<And>kvs. runs opts m (f kvs)) \<Longrightarrow> hashable k \<or> allow_non_string_keys opts \<Longrightarrow> runs opts m (rbind (dynamic_insert P k v obj) f)"
  by (auto simp: dynamic_insert_def)

definition fuel_enough :: "'d json_env \<Rightarrow> serialization_opts \<Rightarrow> nat \<Rightarrow> bool" where
  "fuel_enough P opts n \<longleftrightarrow>
     (\<forall>inp. 3 * len inp + 1 \<le> n \<longrightarrow> runs opts (len inp) (parseValue P opts n inp)) \<and>
     (\<forall>inp. 3 * len inp \<le> n \<longrightarrow> is_char inp CHR ''['' \<longrightarrow> runs opts (len inp) (parseArray P opts n inp)) \<and>
     (\<forall>inp ret. 3 * len inp + 2 \<le> n \<longrightarrow> runs opts (len inp) (array_loop P opts n ret inp)) \<and>
     (\<forall>inp. 3 * len inp \<le> n \<longrightarrow> is_char inp CHR ''{'' \<longrightarrow> runs opts (len inp) (parseObject P opts n inp)) \<and>
     (\<forall>inp ret. 3 * len inp + 2 \<le> n \<longrightarrow> runs opts (len inp) (object_loop P opts n ret inp))"

lemma fuel_enoughD:
  assumes "fuel_enough P opts n" "len i \<le> m"
  shows "3 * len i + 1 \<le> n \<Longrightarrow> runs opts m (parseValue P opts n i)"
    and "3 * len i \<le> n \<Longrightarrow> is_char i CHR ''['' \<Longrightarrow> runs opts m (parseArray P opts n i)"
    and "3 * len i + 2 \<le> n \<Longrightarrow> runs opts m (array_loop P opts n r i)"
    and "3 * len i \<le> n \<Longrightarrow> is_char i CHR ''{'' \<Longrightarrow> runs opts m (parseObject P opts n i)"
    and "3 * len i + 2 \<le> n \<Longrightarrow> runs opts m (object_loop P opts n kvs i)"
  using assms runs_mono [OF _ assms(2)] unfolding fuel_enough_def by blast+

lemma len_after: "is_char inp c \<Longrightarrow> c \<noteq> CHR 0xFF \<Longrightarrow> len (skip_ws (next_char inp)) < len inp"
  using is_char_len [of inp c] len_skip_ws [of "next_char inp"] unfolding len_next by linarith

lemma runs_value:
  assumes "fuel_enough P opts n" "3 * len inp + 1 \<le> Suc n"
  shows "runs opts (len inp) (parseValue P opts (Suc n) inp)"
proof -
  define i where "i = skip_ws inp"
  have l: "len i \<le> len inp" unfolding i_def by (rule len_skip_ws)
  have arr: "runs opts (len inp) (parseArray P opts n i)" if "is_char i CHR ''[''"
    using assms(2) l that by (intro fuel_enoughD(2) [OF assms(1)]) auto
  have obj: "runs opts (len inp) (parseObject P opts n i)" if "is_char i CHR ''{''"
    using assms(2) l that by (intro fuel_enoughD(4) [OF assms(1)]) auto
  have str: "runs opts (len inp) (rbind (parseString P i) (\<lambda>(str, inp). Inr (STRING str, inp)))" if "is_char i quote_char"
    using l by (intro runs_bind [OF runs_parseString [OF that]]) auto
  have num: "runs opts (len inp) (parseNumber P i)"
    if "is_char i CHR ''-'' \<or> schar CHR ''0'' \<le> current i \<and> current i \<le> schar CHR ''9''"
    using runs_number [OF that] l by (rule runs_mono)
  have con: "len j < len inp" if "in_consume t i = Some j" "t \<noteq> []" for t j
    using len_consume [OF that(1)] that(2) l by (cases t) auto
  have words: "runs opts (len inp)
      (case in_consume ''true'' i of Some inp \<Rightarrow> Inr (BOOL True, inp) | None \<Rightarrow>
       case in_consume ''false'' i of Some inp \<Rightarrow> Inr (BOOL False, inp) | None \<Rightarrow>
       case in_consume ''null'' i of Some inp \<Rightarrow> Inr (NULLT, inp) | None \<Rightarrow>
       case in_consume ''Infinity'' i of Some inp \<Rightarrow> Inr (DOUBLE (inf_double P), inp) | None \<Rightarrow>
       case in_consume ''NaN'' i of Some inp \<Rightarrow> Inr (DOUBLE (nan_double P), inp) | None \<Rightarrow> in_error i w)" for w
    using con by (simp split: option.split)
  show ?thesis unfolding parseValue.simps Let_def i_def [symmetric]
    by (intro runs_if arr obj str num words)
qed

lemma runs_array:
  assumes "fuel_enough P opts n" "3 * len inp \<le> Suc n" "is_char inp CHR ''[''"
  shows "runs opts (len inp) (parseArray P opts (Suc n) inp)"
proof -
  define i where "i = skip_ws (next_char inp)"
  have l: "len i < len inp"
    unfolding i_def by (rule len_after [OF assms(3)]) simp
  have "runs opts (len inp) (array_loop P opts n [] i)"
    using assms(2) l by (intro fuel_enoughD(3) [OF assms(1)]) auto
  thus ?thesis using l unfolding parseArray.simps Let_def i_def [symmetric] by auto
qed

lemma runs_object:
  assumes "fuel_enough P opts n" "3 * len inp \<le> Suc n" "is_char inp CHR ''{''"
  shows "runs opts (len inp) (parseObject P opts (Suc n) inp)"
proof -
  define i where "i = skip_ws (next_char inp)"
  have l: "len i < len inp"
    unfolding i_def by (rule len_after [OF assms(3)]) simp
  have "runs opts (len inp) (object_loop P opts n [] i)"
    using assms(2) l by (intro fuel_enoughD(5) [OF assms(1)]) auto
  thus ?thesis using l unfolding parseObject.simps Let_def i_def [symmetric] by auto
qed

text \<open>What follows an element: the end, or a comma and the next turn of the loop.\<close>

lemma runs_continue:
  assumes "len inp < m" "e \<noteq> CHR 0xFF" "\<And>j. len j + 2 \<le> m \<Longrightarrow> runs opts m (loop j)"
  shows "runs opts m (if \<not> is_char (skip_ws inp) CHR '','' then rbind (expect e (skip_ws inp)) (\<lambda>inp. Inr (F, inp))
    else loop (skip_ws (next_char (skip_ws inp))))"
proof -
  have l: "len (skip_ws inp) < m" using assms(1) len_skip_ws [of inp] by linarith
  moreover have "len (skip_ws (next_char (skip_ws inp))) + 2 \<le> m" if "is_char (skip_ws inp) CHR '',''"
    using len_after [OF that] l by simp
  ultimately show ?thesis using assms(2,3) by (auto intro!: runs_expect)
qed

lemma runs_array_loop:
  assumes "fuel_enough P opts n" "3 * len inp + 2 \<le> Suc n"
  shows "runs opts (len inp) (array_loop P opts (Suc n) ret inp)"
proof -
  have v: "runs opts (len inp) (parseValue P opts n inp)" using assms by (simp add: fuel_enough_def)
  have loop: "runs opts (len inp) (array_loop P opts n r j)" if "len j + 2 \<le> len inp" for r j
    using assms(2) that by (intro fuel_enoughD(3) [OF assms(1)]) auto
  show ?thesis unfolding array_loop.simps Let_def
    by (auto intro!: runs_expect runs_bind [OF v] runs_continue loop simp del: len_next)
qed

lemma runs_object_loop:
  assumes "fuel_enough P opts n" "3 * len inp + 2 \<le> Suc n"
  shows "runs opts (len inp) (object_loop P opts (Suc n) ret inp)"
proof -
  have v: "runs opts (len i) (parseValue P opts n i)" if "len i \<le> len inp" for i
    using assms that by (simp add: fuel_enough_def)
  have loop: "runs opts (len inp) (object_loop P opts n r j)" if "len j + 2 \<le> len inp" for r j
    using assms(2) that by (intro fuel_enoughD(5) [OF assms(1)]) auto
  have key: "runs opts (len inp)
      (if is_char inp quote_char then rbind (parseString P inp) (\<lambda>(str, inp). Inr (STRING str, inp))
       else if \<not> allow_non_string_keys opts then in_error inp w else parseValue P opts n inp)" for w
    using v [of inp] by (auto intro: runs_bind [OF runs_parseString])
  have after: "runs opts (len inp)
      (rbind (expect CHR '':'' (skip_ws i)) (\<lambda>i. rbind (parseValue P opts n (skip_ws i)) (\<lambda>(val, i).
         rbind (dynamic_insert P k val ret) (\<lambda>ret.
           if \<not> is_char (skip_ws i) CHR '','' then rbind (expect CHR ''}'' (skip_ws i)) (\<lambda>i. Inr (OBJECT ret, i))
           else object_loop P opts n ret (skip_ws (next_char (skip_ws i)))))))"
    if "len i < len inp" "hashable k \<or> allow_non_string_keys opts" for i k
  proof (rule runs_expect)
    fix j assume "len j < len (skip_ws i)"
    hence j: "len (skip_ws j) < len inp" using that(1) len_skip_ws [of i] len_skip_ws [of j] by linarith
    show "runs opts (len inp) (rbind (parseValue P opts n (skip_ws j)) (\<lambda>(val, i).
         rbind (dynamic_insert P k val ret) (\<lambda>ret.
           if \<not> is_char (skip_ws i) CHR '','' then rbind (expect CHR ''}'' (skip_ws i)) (\<lambda>i. Inr (OBJECT ret, i))
           else object_loop P opts n ret (skip_ws (next_char (skip_ws i))))))"
      using j that(2) less_imp_le [OF j]
      by (auto intro!: runs_bind [OF v] runs_insert runs_continue loop simp del: len_next)
  qed simp
  have hashed: "hashable k \<or> allow_non_string_keys opts"
    if "(if is_char inp quote_char then rbind (parseString P inp) (\<lambda>(str, inp). Inr (STRING str, inp))
       else if \<not> allow_non_string_keys opts then in_error inp w else parseValue P opts n inp) = Inr (k, i)" for w k i
    using that by (auto simp: in_error_def rbind_Inr_iff split: if_splits)
  show ?thesis
  proof (cases "allow_trailing_comma opts \<and> is_char inp CHR ''}''")
    case True
    thus ?thesis by (auto intro!: runs_expect)
  next
    case False
    show ?thesis unfolding object_loop.simps if_not_P [OF False] Let_def
      by (rule runs_bind [OF key], unfold prod.case, rule after) (assumption, rule hashed)
  qed
qed

lemma fuel_enough: "fuel_enough P opts n"
proof (induction n)
  case 0
  show ?case by (auto simp: fuel_enough_def dest: is_char_len)
next
  case (Suc n)
  show ?case unfolding fuel_enough_def
    using runs_value [OF Suc] runs_array [OF Suc] runs_array_loop [OF Suc] runs_object [OF Suc] runs_object_loop [OF Suc]
    by blast
qed

section \<open>More fuel changes nothing\<close>

definition agrees :: "json_error + 'a \<Rightarrow> json_error + 'a \<Rightarrow> bool" where
  "agrees r r' \<longleftrightarrow> r = Inl OutOfFuel \<or> r' = r"

named_theorems agrees_intros

lemma agrees_refl [agrees_intros]: "agrees r r"
  by (simp add: agrees_def)

lemma agrees_bind [agrees_intros]: "agrees r r' \<Longrightarrow> (\<And>x. agrees (f x) (g x)) \<Longrightarrow> agrees (rbind r f) (rbind r' g)"
  by (cases r; auto simp: agrees_def)

lemma agrees_if [agrees_intros]: "agrees a a' \<Longrightarrow> agrees b b' \<Longrightarrow> agrees (if c then a else b) (if c then a' else b')"
  by simp

lemma agrees_prod [agrees_intros]: "(\<And>x y. agrees (f x y) (g x y)) \<Longrightarrow> agrees (case p of (x, y) \<Rightarrow> f x y) (case p of (x, y) \<Rightarrow> g x y)"
  by (cases p) simp

definition fuel_stable :: "'d json_env \<Rightarrow> serialization_opts \<Rightarrow> nat \<Rightarrow> nat \<Rightarrow> bool" where
  "fuel_stable P opts n m \<longleftrightarrow>
     (\<forall>inp. agrees (parseValue P opts n inp) (parseValue P opts m inp)) \<and>
     (\<forall>inp. agrees (parseArray P opts n inp) (parseArray P opts m inp)) \<and>
     (\<forall>inp ret. agrees (array_loop P opts n ret inp) (array_loop P opts m ret inp)) \<and>
     (\<forall>inp. agrees (parseObject P opts n inp) (parseObject P opts m inp)) \<and>
     (\<forall>inp ret. agrees (object_loop P opts n ret inp) (object_loop P opts m ret inp))"

lemma fuel_stable_Suc:
  assumes "fuel_stable P opts n m"
  shows "fuel_stable P opts (Suc n) (Suc m)"
proof -
  note IH = assms [unfolded fuel_stable_def]
  have v: "agrees (parseValue P opts n i) (parseValue P opts m i)" for i using IH by blast
  have a: "agrees (parseArray P opts n i) (parseArray P opts m i)" for i using IH by blast
  have al: "agrees (array_loop P opts n r i) (array_loop P opts m r i)" for r i using IH by blast
  have obj: "agrees (parseObject P opts n i) (parseObject P opts m i)" for i using IH by blast
  have ol: "agrees (object_loop P opts n r i) (object_loop P opts m r i)" for r i using IH by blast
  show ?thesis
    unfolding fuel_stable_def parseValue.simps(2) parseArray.simps(2) array_loop.simps(2) parseObject.simps(2)
      object_loop.simps(2) Let_def
    by (intro conjI allI v a al obj ol agrees_intros)
qed

lemma fuel_stable_add: "fuel_stable P opts n (n + k)"
proof (induction n)
  case 0
  show ?case by (simp add: fuel_stable_def agrees_def)
next
  case (Suc n)
  thus ?case using fuel_stable_Suc [of P opts n "n + k"] by simp
qed

lemma parseValue_more_fuel:
  "parseValue P opts n inp \<noteq> Inl OutOfFuel \<Longrightarrow> parseValue P opts (n + k) inp = parseValue P opts n inp"
  using fuel_stable_add [of P opts n k] unfolding fuel_stable_def agrees_def by metis

lemma parser_fuel:
  "runs opts (length str) (parseValue P opts (parse_fuel str) (Input str))"
  "parseValue P opts (parse_fuel str + k) (Input str) = parseValue P opts (parse_fuel str) (Input str)"
proof -
  let ?r = "parseValue P opts (parse_fuel str) (Input str)"
  show r: "runs opts (length str) ?r"
    by (rule fuel_enoughD(1) [OF fuel_enough]) (simp_all add: parse_fuel_def Input_def)
  hence "?r \<noteq> Inl OutOfFuel" by auto
  thus "parseValue P opts (parse_fuel str + k) (Input str) = ?r" by (rule parseValue_more_fuel)
qed

section \<open>Every text is parsed or refused\<close>

text \<open>
  C39: the parser ends on every text, with a value or with a \<open>ParseError\<close>, a conversion error, or, if keys
  other than strings are allowed, a \<open>TypeError\<close>; the fuel it is given is enough and more changes nothing.
\<close>

theorem parser_total:
  shows "(case parseJson P opts str of Inl e \<Rightarrow> parse_error opts e | Inr d \<Rightarrow> True) \<and>
    parseValue P opts (parse_fuel str + k) (Input str) = parseValue P opts (parse_fuel str) (Input str)"
proof -
  have "case parseJson P opts str of Inl e \<Rightarrow> parse_error opts e | Inr d \<Rightarrow> True"
    using parser_fuel(1) [of opts str P] by (cases "parseValue P opts (parse_fuel str) (Input str)")
      (auto simp: parseJson_def in_error_def Let_def)
  thus ?thesis using parser_fuel(2) by blast
qed

end
