(* ===== verification/Json_Strings.thy ===== *)
theory Json_Strings
  imports Json_Total
begin

text \<open>
  Strings in JSON: what \<open>escapeString\<close> writes, \<open>parseString\<close> reads back, byte by byte, for control
  characters, for quotes and backslashes, and for characters that are written as \<open>\u\<close> followed by four digits.
\<close>

abbreviation at :: "string \<Rightarrow> nat \<Rightarrow> input" where
  "at str l \<equiv> \<lparr> in_range = str, lineNum = l \<rparr>"

section \<open>Steps of the loop\<close>

lemma at_simps [simp]:
  "c \<noteq> CHR 0xFF \<Longrightarrow> is_char (at (d # ds) l) c \<longleftrightarrow> d = c"
  "c \<noteq> CHR 0xFF \<Longrightarrow> \<not> is_char (at [] l) c"
  "next_char (at (d # ds) l) = at ds l"
  "current (at (d # ds) l) = schar d"
  by (auto simp: is_char_iff next_char_def current_def)

lemma char_at_byte [simp]: "char_at (byte_of c) = c"
  by (simp add: char_at_def)

lemma byte_char_at [simp]: "byte_of (char_at b) = b"
proof -
  have "unat b < 2 ^ LENGTH(8)" by (rule unsigned_less)
  thus ?thesis by (simp add: byte_of_def char_at_def)
qed

text \<open>Whatever follows, the loop reads the text \<open>t\<close> as the string \<open>s\<close>.\<close>

definition reads_as :: "'d json_env \<Rightarrow> string \<Rightarrow> string \<Rightarrow> bool" where
  "reads_as P t s \<longleftrightarrow>
     (\<forall>n ret l rest. length (t @ rest) < n \<longrightarrow>
        (\<exists>m. length rest < m \<and> string_loop P n ret (at (t @ rest) l) = string_loop P m (ret @ s) (at rest l)))"

lemma reads_as_Nil: "reads_as P [] []"
  by (auto simp: reads_as_def)

lemma reads_as_append:
  assumes "reads_as P t s" "reads_as P t' s'"
  shows "reads_as P (t @ t') (s @ s')"
  unfolding reads_as_def
proof (intro allI impI)
  fix n ret l rest assume "length ((t @ t') @ rest) < n"
  then obtain m where "length (t' @ rest) < m"
    "string_loop P n ret (at (t @ t' @ rest) l) = string_loop P m (ret @ s) (at (t' @ rest) l)"
    using assms(1) [unfolded reads_as_def, rule_format, of "t' @ rest" n ret l] by auto
  moreover from this obtain k where "length rest < k"
    "string_loop P m (ret @ s) (at (t' @ rest) l) = string_loop P k ((ret @ s) @ s') (at rest l)"
    using assms(2) [unfolded reads_as_def, rule_format, of rest m "ret @ s" l] by blast
  ultimately show "\<exists>m. length rest < m \<and>
      string_loop P n ret (at ((t @ t') @ rest) l) = string_loop P m (ret @ s @ s') (at rest l)" by auto
qed

lemma string_loop_raw:
  assumes "c \<noteq> quote_char" "c \<noteq> backslash" "c \<noteq> CHR 0x0A"
  shows "string_loop P n ret (at (c # cs) l) = string_loop P n (ret @ [c]) (at cs l)"
  using assms by (cases n) (simp_all add: skipWhile_def skip_chars_def)

lemma reads_as_raw:
  assumes "c \<noteq> quote_char" "c \<noteq> backslash" "c \<noteq> CHR 0x0A"
  shows "reads_as P [c] [c]"
  unfolding reads_as_def
proof (intro allI impI)
  fix n ret l rest assume "length ([c] @ rest) < n"
  thus "\<exists>m. length rest < m \<and> string_loop P n ret (at ([c] @ rest) l) = string_loop P m (ret @ [c]) (at rest l)"
    using string_loop_raw [OF assms, of P n ret rest l] by (intro exI [of _ n]) auto
qed

lemma reads_as_simple:
  assumes "simple_escape (schar e) = Some c"
  shows "reads_as P [backslash, e] [c]"
  unfolding reads_as_def
proof (intro allI impI)
  fix n ret l rest assume "length ([backslash, e] @ rest) < n"
  then obtain m where "n = Suc m" "length rest < m" by (cases n) auto
  thus "\<exists>m. length rest < m \<and>
      string_loop P n ret (at ([backslash, e] @ rest) l) = string_loop P m (ret @ [c]) (at rest l)"
    using assms by (auto simp: skipWhile_def skip_chars_def Let_def)
qed

section \<open>Hexadecimal digits\<close>

lemma hexVal_of_nat: "n < 16 \<Longrightarrow> hexVal (at (hexDigit (of_nat n) # cs) l) = Inr n"
proof -
  assume "n < 16"
  hence "n \<in> {0, 1, 2, 3, 4, 5, 6, 7, 8, 9, 10, 11, 12, 13, 14, 15}" unfolding insert_iff empty_iff by presburger
  thus ?thesis by (elim insertE) (simp_all add: hexVal_def hexDigit_def schar_def byte_of_def Let_def)
qed

lemma hexVal_hexDigit: "c < 16 \<Longrightarrow> hexVal (at (hexDigit c # cs) l) = Inr (unat c)"
  using hexVal_of_nat [of "unat c" cs l] by (simp add: word_less_nat_alt)

lemma readHex_digits:
  assumes "a < 16" "b < 16" "c < 16" "d < 16"
  shows "readHex (at ([hexDigit a, hexDigit b, hexDigit c, hexDigit d] @ cs) l) =
    Inr (of_nat (unat a * 4096 + unat b * 256 + unat c * 16 + unat d), at cs l)"
  using assms by (simp add: readHex_def Let_def hexVal_hexDigit)

lemma reads_as_unicode:
  assumes "unat v < 0x10000" "\<not> (0xD800 \<le> v \<and> v \<le> 0xDFFF)"
    and "a < 16" "b < 16" "c < 16" "d < 16" "unat v = unat a * 4096 + unat b * 256 + unat c * 16 + unat d"
  shows "reads_as P [backslash, CHR ''u'', hexDigit a, hexDigit b, hexDigit c, hexDigit d] (map char_at (codePointToUtf8 v))"
  unfolding reads_as_def
proof (intro allI impI)
  let ?t = "[hexDigit a, hexDigit b, hexDigit c, hexDigit d]"
  fix n ret l rest
  assume n: "length ([backslash, CHR ''u'', hexDigit a, hexDigit b, hexDigit c, hexDigit d] @ rest) < n"
  then obtain m where m: "n = Suc m" "length rest < m" by (cases n) auto
  have "unat (take_bit 16 v) = unat v" using assms(1) by (simp add: unsigned_take_bit_eq take_bit_nat_eq_self)
  hence "take_bit 16 v = v" by (rule unsigned_word_eqI)
  hence "(ucast (of_nat (unat v) :: 16 word) :: u32) = v" by (simp add: unsigned_ucast_eq)
  moreover have "readHex (at (?t @ rest) l) = Inr (of_nat (unat v), at rest l)"
    using readHex_digits [OF assms(3-6)] by (simp only: assms(7))
  moreover have "\<not> (0xD800 \<le> v \<and> v \<le> 0xDBFF)" "\<not> (0xDC00 \<le> v \<and> v \<le> 0xDFFF)"
    using assms(2) by (auto simp: word_le_nat_alt)
  ultimately have "decodeUnicodeEscape (at (?t @ rest) l) = Inr (map char_at (codePointToUtf8 v), at rest l)"
    unfolding decodeUnicodeEscape_def Let_def by auto
  moreover have "simple_escape (schar CHR ''u'') = None" by (simp add: simple_escape_def)
  ultimately have "string_loop P n ret (at ([backslash, CHR ''u''] @ ?t @ rest) l) =
      string_loop P m (ret @ map char_at (codePointToUtf8 v)) (at rest l)"
    by (simp add: m(1) skipWhile_def skip_chars_def Let_def)
  thus "\<exists>m. length rest < m \<and> string_loop P n ret
      (at ([backslash, CHR ''u'', hexDigit a, hexDigit b, hexDigit c, hexDigit d] @ rest) l) =
      string_loop P m (ret @ map char_at (codePointToUtf8 v)) (at rest l)" using m(2) by auto
qed

section \<open>One byte, one code point\<close>

lemma small_code_point: "b < 0x80 \<Longrightarrow> codePointToUtf8 (ucast (b :: u8)) = [b]"
  by (simp add: codePointToUtf8_def word_le_nat_alt word_less_nat_alt unsigned_ucast_eq take_bit_nat_eq_self
      take_bit_word_eq_self)

lemma unat_eqI: "unat a = unat b \<Longrightarrow> a = b"
  by (rule unsigned_word_eqI)

lemma unat_low4: "unat ((w :: 'a :: len word) AND 0x0F) = unat w mod 16"
proof -
  have "w AND 0x0F = take_bit 4 w" by (simp add: take_bit_eq_mask mask_eq_exp_minus_1)
  hence "unat (w AND 0x0F) = take_bit 4 (unat w)" by (simp only: unsigned_take_bit_eq)
  thus ?thesis by (simp add: take_bit_eq_mod)
qed

lemma low4_less: "unat w < 16 \<Longrightarrow> w < (16 :: u32)" "(w :: u32) AND 0x0F < 16"
  by (simp_all add: word_less_nat_alt unat_low4)

lemma unat_ucast_byte: "unat (ucast (b :: u8) :: u32) = unat b"
proof -
  have "unat b < 2 ^ LENGTH(8)" by (rule unsigned_less)
  thus ?thesis by (simp add: unsigned_ucast_eq take_bit_nat_eq_self)
qed

lemma four_digits: "(x :: nat) = x div 4096 * 4096 + x div 256 mod 16 * 256 + x div 16 mod 16 * 16 + x mod 16"
proof -
  have d: "y = y div 16 * 16 + y mod 16" for y :: nat by simp
  have "x div 256 = x div 16 div 16" "x div 4096 = x div 16 div 16 div 16" by (simp_all flip: div_mult2_eq)
  moreover have "x = C * 4096 + c * 256 + b * 16 + a" if "x = A * 16 + a" "A = B * 16 + b" "B = C * 16 + c" for A B C a b c
    using that by simp
  ultimately show ?thesis using d [of x] d [of "x div 16"] d [of "x div 16 div 16"] by metis
qed

lemma reads_code_point:
  assumes "unat v < 0x10000" "\<not> (0xD800 \<le> v \<and> v \<le> 0xDFFF)"
  shows "reads_as P (escape_code_point v) (map char_at (codePointToUtf8 v))"
proof -
  have d: "unat (drop_bit k v) = unat v div 2 ^ k" for k by (rule unat_drop)
  have "unat (drop_bit 12 v) < 16" using assms(1) by (simp add: d div_less_iff_less_mult)
  thus ?thesis unfolding escape_code_point_def
    by (intro reads_as_unicode assms low4_less) (simp_all add: unat_low4 d four_digits [of "unat v", symmetric])
qed

lemma char_at_literals:
  "char_at 0x5C = backslash" "char_at 0x22 = quote_char" "char_at 0x08 = CHR 0x08" "char_at 0x0C = CHR 0x0C"
  "char_at 0x0A = CHR 0x0A" "char_at 0x0D = CHR 0x0D" "char_at 0x09 = CHR 0x09"
  by (simp_all add: char_at_def char_of_def bit_Suc_0_iff)

lemma escape_control:
  assumes "b \<le> 0x1F" "b \<notin> {0x08, 0x0C, 0x0A, 0x0D, 0x09}"
  shows "escape_byte b = escape_code_point (ucast b)"
proof -
  have u: "unat b < 32" using assms(1) by (simp add: word_le_nat_alt)
  have h: "unat (drop_bit 4 b) = unat b div 16" by (simp only: unat_drop_bit_eq) (simp add: drop_bit_eq_div)
  have z: "unat b div 2 ^ 12 = 0" "unat b div 2 ^ 8 = 0" using u by simp_all
  have "drop_bit 12 (ucast b :: u32) = 0" "drop_bit 8 (ucast b :: u32) AND 0x0F = 0"
    "drop_bit 4 (ucast b :: u32) AND 0x0F = ucast (drop_bit 4 (b AND 0xF0))" "(ucast b :: u32) AND 0x0F = ucast (b AND 0x0F)"
    using u by (auto intro!: unat_eqI simp: unat_drop unat_low4 unat_ucast_byte h drop_bit_and)
  thus ?thesis using assms by (auto simp: escape_byte_def escape_code_point_def hexDigit_def char_of_def bit_Suc_0_iff)
qed

lemma reads_escape_byte: "reads_as P (escape_byte b) [char_at b]"
proof -
  consider "b = 0x5C" | "b = 0x22" | "b = 0x08" | "b = 0x0C" | "b = 0x0A" | "b = 0x0D" | "b = 0x09"
    | (control) "b \<le> 0x1F" "b \<notin> {0x08, 0x0C, 0x0A, 0x0D, 0x09}" | (raw) "b \<noteq> 0x5C" "b \<noteq> 0x22" "\<not> b \<le> 0x1F" by blast
  thus ?thesis
  proof cases
    case control
    hence "b < 0x80" "unat b < 0x10000" "\<not> 0xD800 \<le> (ucast b :: u32)"
      by (simp_all add: word_le_nat_alt word_less_nat_alt unat_ucast_byte)
    thus ?thesis unfolding escape_control [OF control]
      using reads_code_point [of "ucast b" P] small_code_point [of b] by (simp add: unat_ucast_byte)
  next
    case raw
    have "char_at b \<noteq> c" if "byte_of c \<in> {0x5C, 0x22} \<or> byte_of c \<le> 0x1F" for c
      using raw that byte_char_at [of b] by auto
    hence "char_at b \<noteq> quote_char" "char_at b \<noteq> backslash" "char_at b \<noteq> CHR 0x0A" by (auto simp: byte_of_def)
    thus ?thesis using raw by (simp add: escape_byte_def reads_as_raw)
  qed (auto intro!: reads_as_simple simp: escape_byte_def char_at_literals simple_escape_def)
qed

section \<open>Decoding UTF-8\<close>

text \<open>Two or three bytes that \<open>decodeUtf8\<close> accepts are the encoding of the code point it returns.\<close>

lemma continuation_bits: "(b :: u8) AND 0xC0 = 0x80 \<Longrightarrow> bit b 7 \<and> \<not> bit b 6"
  by (drule arg_cong [where f = "\<lambda>x. (bit x 6, bit x 7)"]) (simp add: bit_simps)

lemma lead_bits: "(a :: u8) AND 0xC0 = 0xC0 \<Longrightarrow> bit a 7 \<and> bit a 6"
  by (drule arg_cong [where f = "\<lambda>x. (bit x 6, bit x 7)"]) (simp add: bit_simps)

lemma high_bit: "(w :: u8) AND 0x80 = 0 \<longleftrightarrow> \<not> bit w 7"
  using and_exp_eq_0_iff_not_bit [of w 7] by simp

lemma shifted_high_bit:
  "push_bit 2 a AND 0x80 = (0 :: u8) \<longleftrightarrow> \<not> bit a 5" "push_bit 3 a AND 0x80 = (0 :: u8) \<longleftrightarrow> \<not> bit a 4"
  unfolding high_bit by (simp_all add: bit_simps)

lemma shift_one_by_one: "push_bit 1 (push_bit 1 a) = push_bit 2 (a :: u8)" "push_bit 1 (push_bit 2 a) = push_bit 3 (a :: u8)"
  by (simp_all add: push_bit_eq_mult)

lemma byte_eqI: "(\<And>n. n \<in> {0, 1, 2, 3, 4, 5, 6, 7} \<Longrightarrow> bit a n = bit b n) \<Longrightarrow> a = (b :: u8)"
proof (rule bit_word_eqI)
  fix n assume h: "\<And>n. n \<in> {0, 1, 2, 3, 4, 5, 6, 7} \<Longrightarrow> bit a n = bit b n" and "n < LENGTH(8)"
  from \<open>n < LENGTH(8)\<close> have "n < 8" by simp
  hence "n \<in> {0, 1, 2, 3, 4, 5, 6, 7}" unfolding insert_iff empty_iff by presburger
  thus "bit a n = bit b n" by (rule h)
qed

lemma masked_less: "unat ((w :: u32) AND mask k) < 2 ^ k"
proof -
  have "unat (w AND mask k) = take_bit k (unat w)" by (simp only: unsigned_take_bit_eq flip: take_bit_eq_mask)
  thus ?thesis by simp
qed

lemma overlong:
  assumes "unat (d :: u32) < 2 ^ k"
  shows "d AND NOT (mask k) = 0"
proof -
  have "unat (take_bit k d) = unat d" using assms by (simp add: unsigned_take_bit_eq take_bit_nat_eq_self)
  hence "take_bit k d = d" by (rule unat_eqI)
  hence "d AND mask k = d" by (simp add: take_bit_eq_mask)
  thus ?thesis by (metis and.assoc bit.conj_cancel_right and_zero_eq)
qed

lemma two_byte_code_point:
  assumes "a AND 0xC0 = 0xC0" "push_bit 2 a AND 0x80 = (0 :: u8)" "b AND 0xC0 = 0x80"
  defines "d \<equiv> (push_bit 6 (ucast a :: u32) OR ucast (b AND 0x3F)) AND 0x7FF"
  assumes "d AND NOT 0x7F \<noteq> 0"
  shows "codePointToUtf8 d = [a, b]" "unat d < 0x800"
proof -
  note bits = lead_bits [OF assms(1)] assms(2) [unfolded shifted_high_bit] continuation_bits [OF assms(3)]
  have small: "unat d < 0x800"
    using masked_less [of "push_bit 6 (ucast a) OR ucast (b AND 0x3F)" 11] by (simp add: d_def mask_eq_exp_minus_1)
  have "\<not> unat d < 0x80" using overlong [of d 7] assms(5) by (auto simp: mask_eq_exp_minus_1)
  hence "codePointToUtf8 d = [ucast (0xC0 OR drop_bit 6 d), ucast (0x80 OR (0x3f AND d))]"
    using small by (simp add: codePointToUtf8_def word_le_nat_alt)
  moreover have "ucast (0xC0 OR drop_bit 6 d) = a"
    by (rule byte_eqI, elim insertE emptyE) (use bits in \<open>simp_all add: d_def bit_simps\<close>)
  moreover have "ucast (0x80 OR (0x3f AND d)) = b"
    by (rule byte_eqI, elim insertE emptyE) (use bits in \<open>simp_all add: d_def bit_simps\<close>)
  ultimately show "codePointToUtf8 d = [a, b]" by simp
  show "unat d < 0x800" by (rule small)
qed

lemma three_byte_code_point:
  assumes "a AND 0xC0 = 0xC0" "push_bit 2 a AND 0x80 \<noteq> (0 :: u8)" "push_bit 3 a AND 0x80 = 0" "b AND 0xC0 = 0x80" "c AND 0xC0 = 0x80"
  defines "d \<equiv> (push_bit 6 (push_bit 6 (ucast a :: u32) OR ucast (b AND 0x3F)) OR ucast (c AND 0x3F)) AND 0xFFFF"
  assumes "d AND NOT 0x7FF \<noteq> 0"
  shows "codePointToUtf8 d = [a, b, c]" "unat d < 0x10000"
proof -
  note bits = lead_bits [OF assms(1)] assms(2,3) [unfolded shifted_high_bit] continuation_bits [OF assms(4)]
    continuation_bits [OF assms(5)]
  have small: "unat d < 0x10000"
    using masked_less [of "push_bit 6 (push_bit 6 (ucast a :: u32) OR ucast (b AND 0x3F)) OR ucast (c AND 0x3F)" 16]
    by (simp add: d_def mask_eq_exp_minus_1)
  have "\<not> unat d < 0x800" using overlong [of d 11] assms(7) by (auto simp: mask_eq_exp_minus_1)
  hence "codePointToUtf8 d = [0xE0 OR ucast (drop_bit 12 d), 0x80 OR ucast (0x3f AND drop_bit 6 d), ucast (0x80 OR (0x3f AND d))]"
    using small by (simp add: codePointToUtf8_def word_le_nat_alt)
  moreover have "0xE0 OR ucast (drop_bit 12 d) = a"
    by (rule byte_eqI, elim insertE emptyE) (use bits in \<open>simp_all add: d_def bit_simps\<close>)
  moreover have "0x80 OR ucast (0x3f AND drop_bit 6 d) = b"
    by (rule byte_eqI, elim insertE emptyE) (use bits in \<open>simp_all add: d_def bit_simps\<close>)
  moreover have "ucast (0x80 OR (0x3f AND d)) = c"
    by (rule byte_eqI, elim insertE emptyE) (use bits in \<open>simp_all add: d_def bit_simps\<close>)
  ultimately show "codePointToUtf8 d = [a, b, c]" by simp
  show "unat d < 0x10000" by (rule small)
qed

lemma decode_loop_False:
  assumes "decode_loop False p i f d = Inr (v, rest)"
  shows "i \<noteq> 3" "i < length p" "p ! i AND 0xC0 = 0x80"
    "push_bit 1 f AND 0x80 = 0 \<Longrightarrow>
      v = (push_bit 6 d OR ucast (p ! i AND 0x3F)) AND (bitMask ! i) \<and> v AND NOT (bitMask ! (i - 1)) \<noteq> 0 \<and>
      (i = 2 \<longrightarrow> \<not> (0xD800 \<le> v \<and> v \<le> 0xDFFF)) \<and> rest = drop (i + 1) p"
    "push_bit 1 f AND 0x80 \<noteq> 0 \<Longrightarrow>
      decode_loop False p (i + 1) (push_bit 1 f) (push_bit 6 d OR ucast (p ! i AND 0x3F)) = Inr (v, rest)"
  using assms [unfolded decode_loop.simps [of False p i f d] Let_def utf8_error_def]
  by (auto split: if_splits)

lemma decoded_is_encoded:
  assumes "decodeUtf8 False p = Inr (v, rest)" "hd p AND 0x80 \<noteq> 0"
  shows "p = codePointToUtf8 v @ rest \<and> unat v < 0x10000 \<and> \<not> (0xD800 \<le> v \<and> v \<le> 0xDFFF)"
proof -
  obtain a p1 where p: "p = a # p1" using assms(1) by (cases p) (auto simp: decodeUtf8_def utf8_error_def)
  have a: "a AND 0xC0 = 0xC0" and l1: "decode_loop False p 1 (push_bit 1 a) (ucast a) = Inr (v, rest)"
    using assms by (auto simp: decodeUtf8_def utf8_error_def p Let_def split: if_splits)
  note r1 = decode_loop_False [OF l1]
  obtain b p2 where b: "p1 = b # p2" "b AND 0xC0 = 0x80" using r1(2,3) p by (cases p1) auto
  show ?thesis
  proof (cases "push_bit 2 a AND 0x80 = 0")
    case True
    have "push_bit 1 (push_bit 1 a) AND 0x80 = 0" using True by (simp only: shift_one_by_one not_False_eq_True)
    hence v: "v = (push_bit 6 (ucast a) OR ucast (b AND 0x3F)) AND 0x7FF" "v AND NOT 0x7F \<noteq> 0" "rest = p2"
      using r1(4) by (auto simp: p b bitMask_def)
    show ?thesis using two_byte_code_point [OF a True b(2)] v by (auto simp: p b word_le_nat_alt)
  next
    case False
    have "push_bit 1 (push_bit 1 a) AND 0x80 \<noteq> 0" using False by (simp only: shift_one_by_one not_False_eq_True)
    note r2 = decode_loop_False [OF r1(5) [OF this]]
    obtain c p3 where c: "p2 = c # p3" "c AND 0xC0 = 0x80" using r2(2,3) p b by (cases p2) (auto simp: numeral_2_eq_2)
    have t: "push_bit 3 a AND 0x80 = 0"
    proof (rule ccontr)
      assume "push_bit 3 a AND 0x80 \<noteq> 0"
      hence "push_bit 1 (push_bit 1 (push_bit 1 a)) AND 0x80 \<noteq> 0" by (simp only: shift_one_by_one not_False_eq_True)
      from decode_loop_False(1) [OF r2(5) [OF this]] show False by simp
    qed
    have "push_bit 1 (push_bit 1 (push_bit 1 a)) AND 0x80 = 0" using t by (simp only: shift_one_by_one not_False_eq_True)
    hence v: "v = (push_bit 6 (push_bit 6 (ucast a) OR ucast (b AND 0x3F)) OR ucast (c AND 0x3F)) AND 0xFFFF"
      "v AND NOT 0x7FF \<noteq> 0" "\<not> (0xD800 \<le> v \<and> v \<le> 0xDFFF)" "rest = p3"
      using r2(4) by (auto simp: p b c bitMask_def numeral_2_eq_2)
    show ?thesis using three_byte_code_point [OF a False t b(2) c(2)] v by (auto simp: p b c)
  qed
qed

section \<open>Escaped strings are read back\<close>

lemma escape_loop_cases:
  assumes "escape_loop opts (b # bs) q = Inr t" "\<not> skip_invalid_utf8 opts"
  obtains (plain) q' t' where "escape_loop opts bs q' = Inr t'" "t = escape_byte b @ t'"
  | (coded) v rest t' where "b AND 0x80 \<noteq> 0" "decodeUtf8 False (b # bs) = Inr (v, rest)"
    "escape_loop opts rest q = Inr t'" "t = escape_code_point v @ t'"
  using assms by (auto simp: escape_loop.simps [of opts "b # bs" q] rbind_Inr_iff split: if_splits)

lemma escape_loop_reads:
  assumes "escape_loop opts p q = Inr t" "\<not> skip_invalid_utf8 opts"
  shows "reads_as P t (map char_at p)"
  using assms
proof (induction "length p" arbitrary: p q t rule: less_induct)
  case less
  show ?case
  proof (cases p)
    case Nil
    thus ?thesis using less.prems by (simp add: escape_loop.simps reads_as_Nil)
  next
    case (Cons b bs)
    from less.prems [unfolded Cons] show ?thesis
    proof (cases rule: escape_loop_cases)
      case (plain q' t')
      have "reads_as P t' (map char_at bs)" using less.hyps [OF _ plain(1) less.prems(2)] Cons by simp
      thus ?thesis using reads_as_append [OF reads_escape_byte [of P b]] by (simp add: plain(2) Cons)
    next
      case (coded v rest t')
      have "length rest < length p" using decodeUtf8_shorter [OF coded(2)] Cons by simp
      hence "reads_as P t' (map char_at rest)" using coded(3) less.prems(2) by (rule less.hyps)
      moreover have "p = codePointToUtf8 v @ rest \<and> unat v < 0x10000 \<and> \<not> (0xD800 \<le> v \<and> v \<le> 0xDFFF)"
        using coded(1,2) by (intro decoded_is_encoded) (simp_all add: Cons)
      ultimately show ?thesis using reads_as_append [OF reads_code_point] by (metis coded(4) map_append)
    qed
  qed
qed

lemma reads_parseString:
  assumes "reads_as P t s"
  shows "parseString P (at (quote_char # t @ quote_char # rest) l) = Inr (s, at rest l)"
proof -
  obtain m where m: "length (quote_char # rest) < m"
    "string_loop P (Suc (Suc (length (t @ quote_char # rest)))) [] (at (t @ quote_char # rest) l) = string_loop P m s (at (quote_char # rest) l)"
    using assms [unfolded reads_as_def, rule_format, of "quote_char # rest" "Suc (Suc (length (t @ quote_char # rest)))" "[]" l]
    by auto
  thus ?thesis by (cases m) (simp_all add: parseString_def skipWhile_def skip_chars_def)
qed

lemma escaped_string_read:
  assumes "escapeString opts str = Inr t" "\<not> skip_invalid_utf8 opts"
  shows "\<exists>u. t = quote_char # u @ [quote_char] \<and> (\<forall>rest l. parseString P (at (t @ rest) l) = Inr (str, at rest l))"
proof -
  obtain u where u: "escape_loop opts (map byte_of str) 0 = Inr u" "t = quote_char # u @ [quote_char]"
    using assms(1) by (auto simp: escapeString_def rbind_Inr_iff)
  have "reads_as P u str" using escape_loop_reads [OF u(1) assms(2)] by (simp add: comp_def)
  thus ?thesis using reads_parseString [of P u str] u(2) by simp
qed

end
