(* ===== verification/Json_Round_Trip.thy ===== *)
theory Json_Round_Trip
  imports Json_Strings
begin

text \<open>
  What the JSON printer prints, the parser reads back: arrays and values are the same, objects have the
  same items, in whatever order the hash table enumerates them.
\<close>

section \<open>Values that are the same up to the order of items\<close>

inductive same_dynamic :: "'d dynamic \<Rightarrow> 'd dynamic \<Rightarrow> bool" where
  same_NULLT: "same_dynamic NULLT NULLT"
| same_BOOL: "same_dynamic (BOOL b) (BOOL b)"
| same_DOUBLE: "same_dynamic (DOUBLE x) (DOUBLE x)"
| same_INT64: "same_dynamic (INT64 n) (INT64 n)"
| same_STRING: "same_dynamic (STRING str) (STRING str)"
| same_ARRAY: "list_all2 same_dynamic xs ys \<Longrightarrow> same_dynamic (ARRAY xs) (ARRAY ys)"
| same_OBJECT: "mset kvs = mset kvs1 \<Longrightarrow> list_all2 (rel_prod (=) same_dynamic) kvs1 kvs2 \<Longrightarrow> mset kvs2 = mset kvs3 \<Longrightarrow>
    same_dynamic (OBJECT kvs) (OBJECT kvs3)"

inductive_cases same_ARRAY_E: "same_dynamic (ARRAY xs) d"
inductive_cases same_OBJECT_E: "same_dynamic (OBJECT kvs) d"

text \<open>What is relied on outside the code.\<close>

definition json_env_ok :: "'d json_env \<Rightarrow> bool" where
  "json_env_ok P \<longleftrightarrow> length (stack_buffer P) = 20 \<and> (\<forall>kvs. mset (enumeration P kvs) = mset kvs) \<and>
     (\<forall>z z'. through_double P z = Inr z' \<longrightarrow> z' = z)"

text \<open>The text of a number with a fraction or an exponent.\<close>

definition float_text :: "string \<Rightarrow> bool" where
  "float_text t \<longleftrightarrow>
     (\<exists>sg ds fr ex. t = sg @ ds @ fr @ ex \<and> sg \<in> {[], ''-''} \<and> ds \<noteq> [] \<and> list_all is_digit ds \<and>
        (fr = [] \<or> (\<exists>fs. fr = CHR ''.'' # fs \<and> list_all is_digit fs)) \<and>
        (ex = [] \<or> (\<exists>e es xs. ex = e # es @ xs \<and> e \<in> {CHR ''e'', CHR ''E''} \<and> es \<in> {[], ''+'', ''-''} \<and> list_all is_digit xs)) \<and>
        (fr \<noteq> [] \<or> ex \<noteq> []))"

text \<open>A double whose text reads back: a text with a fraction or an exponent that converts to the number, or
  one of the three words. (An integral double prints without either and is read as an integer.)\<close>

definition double_ok :: "'d json_env \<Rightarrow> 'd \<Rightarrow> bool" where
  "double_ok P x \<longleftrightarrow>
     (let t = print_double P x in
      float_text t \<and> parse_double P t = Inr x \<or> t = ''Infinity'' \<and> x = inf_double P \<or>
      t = ''-Infinity'' \<and> x = neg_inf_double P \<or> t = ''NaN'' \<and> x = nan_double P)"

text \<open>Keys are strings, numbers or booleans, no two are equal, and doubles read back.\<close>

fun json_ok :: "'d json_env \<Rightarrow> 'd dynamic \<Rightarrow> bool" where
  "json_ok P NULLT = True"
| "json_ok P (BOOL b) = True"
| "json_ok P (INT64 n) = True"
| "json_ok P (STRING str) = True"
| "json_ok P (DOUBLE x) = double_ok P x"
| "json_ok P (ARRAY xs) = (\<forall>x \<in> set xs. json_ok P x)"
| "json_ok P (OBJECT kvs) =
     (distinct (map fst kvs) \<and> (\<forall>(k, v) \<in> set kvs. hashable k \<and> \<not> is_double k \<and> json_ok P v))"

section \<open>White space and what follows a value\<close>

abbreviation ws :: "char set" where
  "ws \<equiv> {CHR '' '', CHR 0x0A, CHR 0x09, CHR 0x0D}"

definition drop_ws :: "string \<Rightarrow> string" where
  "drop_ws str = dropWhile (\<lambda>c. c \<in> ws) str"

definition follows :: "string \<Rightarrow> bool" where
  "follows rest \<longleftrightarrow> rest = [] \<or> hd rest \<in> {CHR '','', CHR '']'', CHR ''}'', CHR '':'', CHR '' '', CHR 0x0A}"

lemma skip_ws_at: "skip_ws (at str l) = at (drop_ws str) l"
  by (simp add: skip_ws_def skipWhitespace_dropWhile drop_ws_def)

lemma drop_ws_Cons: "drop_ws (c # cs) = (if c \<in> ws then drop_ws cs else c # cs)"
  by (simp add: drop_ws_def)

lemma skip_newline: "drop_ws (newline lvl @ str) = drop_ws str"
  unfolding drop_ws_def by (rule dropWhile_append2) (auto simp: newline_def split: option.splits)

lemma follows_newline: "follows (c # str) \<Longrightarrow> follows (newline lvl @ c # str)"
  by (cases lvl) (simp_all add: newline_def follows_def)

section \<open>Numbers\<close>

lemma schar_small: "of_char c < (128 :: nat) \<Longrightarrow> schar c = int (of_char c)"
  by (simp add: schar_def byte_of_def signed_of_nat signed_take_bit_int_eq_self)

lemma isdigit_is_digit: "isdigit c \<Longrightarrow> is_digit c"
  by (simp add: isdigit_def is_digit_def schar_small)

lemma is_digit_literals [simp]:
  "\<not> is_digit CHR ''-''" "\<not> is_digit CHR ''.''" "\<not> is_digit CHR ''e''" "\<not> is_digit CHR ''E''" "\<not> is_digit CHR ''+''"
  "\<not> is_digit CHR 0x0A" "\<not> is_digit CHR 0x09" "\<not> is_digit CHR 0x0D" "\<not> is_digit CHR '' ''" "\<not> is_digit CHR '',''" "\<not> is_digit CHR '']''" "\<not> is_digit CHR ''}''"
  "\<not> is_digit CHR '':''" "\<not> is_digit quote_char" "\<not> is_digit CHR ''I''" "\<not> is_digit CHR ''[''" "\<not> is_digit CHR ''{''"
  by (simp_all add: is_digit_def schar_def byte_of_def)

lemma follows_no_digit: "follows rest \<Longrightarrow> rest = [] \<or> \<not> is_digit (hd rest)"
  by (auto simp: follows_def)

lemma takeWhile_digits:
  assumes "list_all is_digit ds" "x = [] \<or> \<not> is_digit (hd x)"
  shows "takeWhile is_digit (ds @ x) = ds"
  using assms by (cases x) (auto simp: list_all_iff takeWhile_append2)

lemma no_newline: "list_all is_digit ds \<Longrightarrow> filter (\<lambda>c. c = CHR 0x0A) ds = []"
  by (induction ds) auto

lemma skip_chars_at: "list_all (\<lambda>c. c \<noteq> CHR 0x0A) t \<Longrightarrow> skip_chars (length t) (at (t @ x) l) = (t, at x l)"
  by (simp add: skip_chars_def list_all_iff filter_empty_conv)

lemma digits_no_newline: "list_all is_digit ds \<Longrightarrow> list_all (\<lambda>c. c \<noteq> CHR 0x0A) ds"
  by (auto simp: list_all_iff)

lemma skipDigits_at:
  assumes "list_all is_digit ds" "x = [] \<or> \<not> is_digit (hd x)"
  shows "skipDigits (at (ds @ x) l) = (ds, at x l)"
  using skip_chars_at [OF digits_no_newline [OF assms(1)], of x l]
  by (simp add: skipDigits_def skipWhile_def takeWhile_digits [OF assms])

lemma skipMinusAndDigits_at:
  assumes "sg \<in> {[], ''-''}" "ds \<noteq> []" "list_all is_digit ds" "x = [] \<or> \<not> is_digit (hd x)"
  shows "skipMinusAndDigits (at (sg @ ds @ x) l) = (sg @ ds, at x l)"
proof -
  obtain d ds' where d: "ds = d # ds'" using assms(2) by (cases ds) auto
  have t: "takeWhile is_digit (ds @ x) = ds" "takeWhile is_digit (ds' @ x) = ds'"
    using assms(3,4) by (auto simp: d takeWhile_digits)
  have "skip_chars (length (sg @ ds)) (at ((sg @ ds) @ x) l) = (sg @ ds, at x l)"
    using assms(1) digits_no_newline [OF assms(3)] by (intro skip_chars_at) auto
  thus ?thesis using assms(1,3) t by (auto simp: skipMinusAndDigits_def d)
qed

lemma parseNumber_sign:
  assumes "sg \<in> {[], ''-''}" "ds \<noteq> []" "list_all is_digit ds"
  shows "is_char (at (sg @ ds @ x) l) CHR ''-'' \<longleftrightarrow> sg = ''-''"
    and "in_consume ''-Infinity'' (at (sg @ ds @ x) l) = None"
    and "\<not> (sg = ''-'' \<and> length (sg @ ds) < 2)"
proof -
  obtain d ds' where d: "ds = d # ds'" "is_digit d" using assms(2,3) by (cases ds) auto
  have n: "d \<noteq> CHR ''-''" "d \<noteq> CHR ''I''" using d(2) by auto
  have sg: "sg = [] \<or> sg = ''-''" using assms(1) by simp
  show "is_char (at (sg @ ds @ x) l) CHR ''-'' \<longleftrightarrow> sg = ''-''" using sg n by (elim disjE) (simp_all add: d)
  show "in_consume ''-Infinity'' (at (sg @ ds @ x) l) = None"
    using sg n by (elim disjE) (simp_all add: d in_consume_def)
  show "\<not> (sg = ''-'' \<and> length (sg @ ds) < 2)" by (auto simp: d)
qed

lemma parseNumber_at:
  assumes "sg \<in> {[], ''-''}" "ds \<noteq> []" "list_all is_digit ds" "x = [] \<or> \<not> is_digit (hd x)"
  shows "parseNumber P (at (sg @ ds @ x) l) =
    (if \<not> is_char (at x l) CHR ''.'' \<and> \<not> (is_char (at x l) CHR ''e'' \<or> is_char (at x l) CHR ''E'') then
       rbind (conv (to_string_piece True (sg @ ds))) (\<lambda>val. Inr (INT64 val, skip_ws (at x l)))
     else rbind (conv (parse_double P (text_since (at (sg @ ds @ x) l) (skip_fraction (at x l)))))
       (\<lambda>val. Inr (DOUBLE val, skip_fraction (at x l))))"
proof -
  note sign = parseNumber_sign [OF assms(1-3)]
  have "(if is_char (at (sg @ ds @ x) l) CHR ''-'' then in_consume ''-Infinity'' (at (sg @ ds @ x) l) else None) = None"
    unfolding sign(2) by simp
  thus ?thesis unfolding parseNumber_def Let_def skipMinusAndDigits_at [OF assms] option.case prod.case sign(1)
    using sign(3) by (simp only: option.case if_False)
qed

lemma parseNumber_int:
  assumes "sg \<in> {[], ''-''}" "ds \<noteq> []" "list_all is_digit ds" "follows rest"
    and "to_string_piece True (sg @ ds) = Inr n"
  shows "parseNumber P (at (sg @ ds @ rest) l) = Inr (INT64 n, skip_ws (at rest l))"
proof -
  have r: "rest = [] \<or> \<not> is_digit (hd rest)" using assms(4) by (rule follows_no_digit)
  have "\<not> is_char (at rest l) c" if "c \<in> {CHR ''.'', CHR ''e'', CHR ''E''}" for c
    using assms(4) that by (cases rest) (auto simp: follows_def)
  thus ?thesis using assms(5) by (simp add: parseNumber_at [OF assms(1-3) r] conv_def)
qed

lemma skip_fraction_at:
  assumes "fr = [] \<or> (\<exists>fs. fr = CHR ''.'' # fs \<and> list_all is_digit fs)"
    and "ex = [] \<or> (\<exists>e es xs. ex = e # es @ xs \<and> e \<in> {CHR ''e'', CHR ''E''} \<and> es \<in> {[], ''+'', ''-''} \<and> list_all is_digit xs)"
    and "fr \<noteq> [] \<or> ex \<noteq> []" "follows rest"
  shows "skip_fraction (at (fr @ ex @ rest) l) = at rest l"
proof -
  have r: "rest = [] \<or> \<not> is_digit (hd rest)" using assms(4) by (rule follows_no_digit)
  have n: "\<not> is_char (at rest l) c" if "c \<in> {CHR ''e'', CHR ''E'', CHR ''+'', CHR ''-''}" for c
    using assms(4) that by (cases rest) (auto simp: follows_def)
  have nx: "ex @ rest = [] \<or> \<not> is_digit (hd (ex @ rest))" using assms(2) r by auto
  have fr: "skip_fraction (at (fr @ ex @ rest) l) =
      (if ex = [] then at rest l else skip_fraction (at (ex @ rest) l))" if "fr \<noteq> []"
  proof -
    obtain fs where fs: "fr = CHR ''.'' # fs" "list_all is_digit fs" using assms(1) \<open>fr \<noteq> []\<close> by auto
    have "snd (skipDigits (at (fs @ ex @ rest) l)) = at (ex @ rest) l" by (simp add: skipDigits_at [OF fs(2) nx])
    moreover have "is_char (at (ex @ rest) l) CHR ''e'' \<or> is_char (at (ex @ rest) l) CHR ''E'' \<longleftrightarrow> ex \<noteq> []"
    proof (cases "ex = []")
      case False
      thus ?thesis using assms(2) by (elim disjE exE conjE) auto
    qed (simp add: n)
    ultimately show ?thesis by (cases "ex = []") (simp_all add: skip_fraction_def fs(1) Let_def)
  qed
  have "skip_fraction (at (ex @ rest) l) = at rest l" if "ex \<noteq> []"
  proof -
    obtain e es xs where x: "ex = e # es @ xs" "e \<in> {CHR ''e'', CHR ''E''}" "es \<in> {[], ''+'', ''-''}" "list_all is_digit xs"
      using assms(2) \<open>ex \<noteq> []\<close> by (elim disjE exE conjE) (simp, rule that)
    have pm: "\<not> is_char (at rest l) CHR ''+''" "\<not> is_char (at rest l) CHR ''-''" by (simp_all add: n)
    have "\<not> is_char (at (xs @ rest) l) CHR ''+''" "\<not> is_char (at (xs @ rest) l) CHR ''-''"
      using x(4) pm by (cases xs; auto)+
    thus ?thesis using x(2,3) by (auto simp: skip_fraction_def x(1) Let_def skipDigits_at [OF x(4) r])
  qed
  thus ?thesis using fr assms(3) by (cases "fr = []") auto
qed

lemma parseNumber_float:
  assumes "float_text t" "follows rest" "parse_double P t = Inr x"
  shows "parseNumber P (at (t @ rest) l) = Inr (DOUBLE x, at rest l)"
proof -
  obtain sg ds fr ex where t: "t = sg @ ds @ fr @ ex" "sg \<in> {[], ''-''}" "ds \<noteq> []" "list_all is_digit ds"
    and fx: "fr = [] \<or> (\<exists>fs. fr = CHR ''.'' # fs \<and> list_all is_digit fs)"
      "ex = [] \<or> (\<exists>e es xs. ex = e # es @ xs \<and> e \<in> {CHR ''e'', CHR ''E''} \<and> es \<in> {[], ''+'', ''-''} \<and> list_all is_digit xs)"
      "fr \<noteq> [] \<or> ex \<noteq> []"
    using assms(1) unfolding float_text_def by blast
  have nx: "fr @ ex @ rest = [] \<or> \<not> is_digit (hd (fr @ ex @ rest))" using fx by auto
  have "is_char (at (fr @ ex @ rest) l) CHR ''.'' \<or> is_char (at (fr @ ex @ rest) l) CHR ''e'' \<or> is_char (at (fr @ ex @ rest) l) CHR ''E''"
    using fx by auto
  moreover have "text_since (at (t @ rest) l) (at rest l) = t" by (simp add: text_since_def)
  ultimately show ?thesis
    using assms(3) skip_fraction_at [OF fx assms(2), of l] by (auto simp: t(1) parseNumber_at [OF t(2-4) nx] conv_def)
qed

section \<open>Scalars\<close>

text \<open>The text \<open>t\<close>, before a delimiter or at the end, is parsed to a value that is the same as \<open>d\<close>; nothing but
  white space of what follows is lost.\<close>

definition reads_value :: "'d json_env \<Rightarrow> serialization_opts \<Rightarrow> 'd dynamic \<Rightarrow> string \<Rightarrow> bool" where
  "reads_value P opts d t \<longleftrightarrow>
     (\<forall>rest. follows rest \<longrightarrow>
        (\<exists>d' rest' N. same_dynamic d d' \<and> drop_ws rest' = drop_ws rest \<and>
           (\<forall>n \<ge> N. \<forall>l. parseValue P opts n (at (t @ rest) l) = Inr (d', at rest' l))))"

definition starts_value :: "string \<Rightarrow> bool" where
  "starts_value t \<longleftrightarrow> t \<noteq> [] \<and> hd t \<notin> ws \<union> {CHR '']'', CHR ''}''}"

lemma skip_ws_starts: "starts_value t \<Longrightarrow> skip_ws (at (t @ x) l) = at (t @ x) l"
  by (cases t) (auto simp: skip_ws_at starts_value_def drop_ws_Cons)

lemma reads_value_scalar:
  assumes "\<And>n l rest. follows rest \<Longrightarrow> \<exists>rest'. drop_ws rest' = drop_ws rest \<and>
      (\<forall>n l. parseValue P opts (Suc n) (at (t @ rest) l) = Inr (d, at rest' l))"
    and "same_dynamic d d"
  shows "reads_value P opts d t"
  unfolding reads_value_def
proof (intro allI impI)
  fix rest assume "follows rest"
  then obtain rest' where r: "drop_ws rest' = drop_ws rest"
    "\<forall>n l. parseValue P opts (Suc n) (at (t @ rest) l) = Inr (d, at rest' l)" using assms(1) by blast
  have "parseValue P opts n (at (t @ rest) l) = Inr (d, at rest' l)" if "1 \<le> n" for n l
    using that r(2) by (cases n) auto
  thus "\<exists>d' rest' N. same_dynamic d d' \<and> drop_ws rest' = drop_ws rest \<and>
      (\<forall>n \<ge> N. \<forall>l. parseValue P opts n (at (t @ rest) l) = Inr (d', at rest' l))"
    using r(1) assms(2) by blast
qed

lemma parseValue_word:
  "parseValue P opts (Suc n) (at (''true'' @ rest) l) = Inr (BOOL True, at rest l)"
  "parseValue P opts (Suc n) (at (''false'' @ rest) l) = Inr (BOOL False, at rest l)"
  "parseValue P opts (Suc n) (at (''null'' @ rest) l) = Inr (NULLT, at rest l)"
  "parseValue P opts (Suc n) (at (''Infinity'' @ rest) l) = Inr (DOUBLE (inf_double P), at rest l)"
  "parseValue P opts (Suc n) (at (''NaN'' @ rest) l) = Inr (DOUBLE (nan_double P), at rest l)"
  by (simp_all add: skip_ws_at drop_ws_Cons in_consume_def schar_def byte_of_def Let_def)

lemma parseValue_string:
  "parseValue P opts (Suc n) (at (quote_char # str) l) =
    rbind (parseString P (at (quote_char # str) l)) (\<lambda>(str, inp). Inr (STRING str, inp))"
  by (simp add: skip_ws_at drop_ws_Cons Let_def)

lemma parseValue_number:
  assumes "is_digit c \<or> c = CHR ''-''"
  shows "parseValue P opts (Suc n) (at (c # str) l) = parseNumber P (at (c # str) l)"
proof -
  have c: "c \<noteq> CHR ''[''" "c \<noteq> CHR ''{''" "c \<noteq> quote_char" "c \<notin> ws"
    using assms by auto
  have "is_char (at (c # str) l) CHR ''-'' \<or> schar CHR ''0'' \<le> current (at (c # str) l) \<and> current (at (c # str) l) \<le> schar CHR ''9''"
    using assms by (auto simp: is_digit_def)
  moreover have "skip_ws (at (c # str) l) = at (c # str) l" using c(4) by (simp add: skip_ws_at drop_ws_Cons)
  ultimately show ?thesis using c(1-3) unfolding parseValue.simps(2) Let_def by simp
qed

declare parseValue.simps(2) [simp del] parseArray.simps(2) [simp del] array_loop.simps(2) [simp del]
  parseObject.simps(2) [simp del] object_loop.simps(2) [simp del]

lemma reads_word:
  assumes "\<And>n l rest. parseValue P opts (Suc n) (at (t @ rest) l) = Inr (d, at rest l)" "same_dynamic d d"
  shows "reads_value P opts d t"
  using assms by (intro reads_value_scalar) blast+

lemma print_int_decimal:
  assumes "json_env_ok P" "print_int P popts n = Inr t"
  shows "t = decimal_int (sint n)"
proof -
  have r: "- (2 ^ 63) \<le> sint n" "sint n < 2 ^ 63" using sint_greater_eq [of n] sint_less [of n] by simp_all
  have e: "length (stack_buffer P) = 20" "\<And>z. through_double P (sint n) = Inr z \<Longrightarrow> z = sint n"
    using assms(1) by (auto simp: json_env_ok_def)
  have "\<exists>z. z = sint n \<and> toAppend_signed (stack_buffer P) z [] = Inr t"
    using assms(2) e(2) by (auto simp: print_int_def conv_def rbind_Inr_iff split: sum.splits if_splits)
  thus ?thesis using toAppend_signed_appends [OF e(1) r, of "[]"] by simp
qed

lemma reads_int:
  assumes "json_env_ok P" "print_int P popts n = Inr t"
  shows "reads_value P opts (INT64 n) t \<and> starts_value t"
proof -
  have r: "- (2 ^ 63) \<le> sint n" "sint n < 2 ^ 63" using sint_greater_eq [of n] sint_less [of n] by simp_all
  have td: "t = decimal_int (sint n)" using assms by (rule print_int_decimal)
  hence t: "t = (if sint n < 0 then ''-'' else []) @ decimal (nat \<bar>sint n\<bar>)" by (simp add: decimal_int_def)
  let ?sg = "if sint n < 0 then ''-'' else []" and ?ds = "decimal (nat \<bar>sint n\<bar>)"
  have ds: "?ds \<noteq> []" "list_all is_digit ?ds" by (auto simp: list_all_iff dest!: decimal_digits isdigit_is_digit)
  have "to_string_piece True t = Inr n"
    using print_parse_signed [where 'a = 64, of "sint n"] r td by simp
  hence "to_string_piece True (?sg @ ?ds) = Inr n" using t by simp
  hence num: "parseNumber P (at (?sg @ ?ds @ rest) l) = Inr (INT64 n, skip_ws (at rest l))" if "follows rest" for rest l
    using that ds by (intro parseNumber_int) auto
  obtain c cs where c: "t = c # cs" "is_digit c \<or> c = CHR ''-''"
    using t ds by (cases ?ds) (auto split: if_splits)
  have "reads_value P opts (INT64 n) t"
  proof (rule reads_value_scalar)
    fix rest assume f: "follows rest"
    have "parseValue P opts (Suc m) (at (t @ rest) l) = Inr (INT64 n, at (drop_ws rest) l)" for m l
    proof -
      have "parseValue P opts (Suc m) (at (t @ rest) l) = parseNumber P (at (t @ rest) l)"
        by (simp add: c(1) parseValue_number [OF c(2)])
      also have "\<dots> = Inr (INT64 n, skip_ws (at rest l))" using num [OF f, of l] unfolding t by (simp only: append_assoc)
      finally show ?thesis by (simp only: skip_ws_at)
    qed
    thus "\<exists>rest'. drop_ws rest' = drop_ws rest \<and>
        (\<forall>m l. parseValue P opts (Suc m) (at (t @ rest) l) = Inr (INT64 n, at rest' l))"
      by (intro exI [of _ "drop_ws rest"]) (simp add: drop_ws_def)
  qed (rule same_INT64)
  moreover have "starts_value t" using c by (auto simp: starts_value_def)
  ultimately show ?thesis by blast
qed

lemma reads_double:
  assumes "double_ok P x" "print_floating P popts x = Inr t"
  shows "reads_value P opts (DOUBLE x) t \<and> starts_value t"
proof -
  have t: "t = print_double P x" using assms(2) by (auto simp: print_floating_def split: if_splits)
  consider (float) "float_text t" "parse_double P t = Inr x" | (pinf) "t = ''Infinity''" "x = inf_double P"
    | (ninf) "t = ''-Infinity''" "x = neg_inf_double P" | (nan) "t = ''NaN''" "x = nan_double P"
    using assms(1) unfolding double_ok_def Let_def t by blast
  thus ?thesis
  proof cases
    case float
    obtain c cs where c: "t = c # cs" "is_digit c \<or> c = CHR ''-''"
    proof -
      obtain sg ds x where "t = sg @ ds @ x" "sg \<in> {[], ''-''}" "ds \<noteq> []" "list_all is_digit ds"
        using float(1) unfolding float_text_def by blast
      thus ?thesis by (cases ds) (auto intro: that)
    qed
    have "reads_value P opts (DOUBLE x) t"
    proof (rule reads_value_scalar)
      fix rest assume f: "follows rest"
      have "parseValue P opts (Suc m) (at (t @ rest) l) = Inr (DOUBLE x, at rest l)" for m l
        using parseNumber_float [OF float(1) f float(2), of l] by (simp add: c(1) parseValue_number [OF c(2)])
      thus "\<exists>rest'. drop_ws rest' = drop_ws rest \<and>
          (\<forall>m l. parseValue P opts (Suc m) (at (t @ rest) l) = Inr (DOUBLE x, at rest' l))" by blast
    qed (rule same_DOUBLE)
    thus ?thesis using c by (auto simp: starts_value_def)
  next
    case pinf
    thus ?thesis using reads_word [OF parseValue_word(4) same_DOUBLE] by (simp add: starts_value_def)
  next
    case ninf
    have "parseValue P opts (Suc n) (at (t @ rest) l) = Inr (DOUBLE x, at rest l)" for n l rest
      using parseValue_number [of "CHR ''-''" P opts n "''Infinity'' @ rest" l]
      by (simp add: ninf parseNumber_def in_consume_def)
    hence "reads_value P opts (DOUBLE x) t" by (rule reads_word [OF _ same_DOUBLE])
    thus ?thesis by (simp add: starts_value_def ninf(1))
  next
    case nan
    thus ?thesis using reads_word [OF parseValue_word(5) same_DOUBLE] by (simp add: starts_value_def)
  qed
qed

lemma reads_string:
  assumes "escapeString popts str = Inr t" "\<not> skip_invalid_utf8 popts"
  shows "reads_value P opts (STRING str) t \<and> starts_value t"
proof -
  obtain u where u: "t = quote_char # u @ [quote_char]" "\<And>rest l. parseString P (at (t @ rest) l) = Inr (str, at rest l)"
    using escaped_string_read [OF assms, of P] by blast
  have "parseValue P opts (Suc n) (at (t @ rest) l) = Inr (STRING str, at rest l)" for n l rest
    using u(2) [of rest l] by (simp add: u(1) parseValue_string)
  hence "reads_value P opts (STRING str) t" by (rule reads_word [OF _ same_STRING])
  thus ?thesis by (simp add: starts_value_def u(1))
qed

section \<open>Arrays\<close>

fun join_texts :: "nat option \<Rightarrow> string list \<Rightarrow> string" where
  "join_texts lvl [] = []"
| "join_texts lvl [t] = t"
| "join_texts lvl (t # ts) = t @ '','' @ newline lvl @ join_texts lvl ts"

lemma print_list_Inr: "print_list lvl rs = Inr t \<Longrightarrow> \<exists>ts. rs = map Inr ts \<and> t = join_texts lvl ts"
proof (induction lvl rs arbitrary: t rule: print_list.induct)
  case (1 lvl)
  thus ?case by (intro exI [of _ "[]"]) simp
next
  case (2 lvl r)
  thus ?case by (intro exI [of _ "[t]"]) simp
next
  case (3 lvl r r' rs)
  then obtain a u where a: "r = Inr a" "print_list lvl (r' # rs) = Inr u" "t = a @ '','' @ newline lvl @ u"
    by (auto simp: rbind_Inr_iff)
  obtain ts where ts: "r' # rs = map Inr ts" "u = join_texts lvl ts" using 3(1) [OF a(1,2)] by (elim exE conjE) (rule that)
  then obtain b bs where "ts = b # bs" by (cases ts) auto
  thus ?case using a ts by (intro exI [of _ "a # ts"]) simp
qed

lemma join_starts: "starts_value t \<Longrightarrow> \<exists>u. join_texts lvl (t # ts) = t @ u"
  by (cases ts) auto

lemma skip_to_text: "starts_value t \<Longrightarrow> skip_ws (at (newline lvl @ t @ x) l) = at (t @ x) l"
  using skip_ws_starts [of t x l] by (simp add: skip_ws_at skip_newline)

lemma skip_to_char: "c \<notin> ws \<Longrightarrow> skip_ws (at (newline lvl @ c # x) l) = at (c # x) l"
  by (simp add: skip_ws_at skip_newline drop_ws_Cons)

text \<open>One element of an array, and the rest of the array from an element on.\<close>

lemma array_step:
  assumes "reads_value P opts d t" "starts_value t" "follows x"
  shows "\<exists>d' N. same_dynamic d d' \<and> (\<forall>n \<ge> N. \<forall>l ret. array_loop P opts (Suc n) ret (at (t @ x) l) =
    (let inp = skip_ws (at x l) in
     if \<not> is_char inp CHR '','' then rbind (expect CHR '']'' inp) (\<lambda>inp. Inr (ARRAY (ret @ [d']), inp))
     else array_loop P opts n (ret @ [d']) (skip_ws (next_char inp))))"
proof -
  obtain d' x' N where v: "same_dynamic d d'" "drop_ws x' = drop_ws x"
    "\<And>n l. N \<le> n \<Longrightarrow> parseValue P opts n (at (t @ x) l) = Inr (d', at x' l)"
    using assms(1,3) unfolding reads_value_def by blast
  have "\<not> is_char (at (t @ x) l) CHR '']''" for l using assms(2) by (cases t) (auto simp: starts_value_def)
  hence "array_loop P opts (Suc n) ret (at (t @ x) l) =
    (let inp = skip_ws (at x l) in
     if \<not> is_char inp CHR '','' then rbind (expect CHR '']'' inp) (\<lambda>inp. Inr (ARRAY (ret @ [d']), inp))
     else array_loop P opts n (ret @ [d']) (skip_ws (next_char inp)))" if "N \<le> n" for n l ret
    unfolding array_loop.simps(2) skip_ws_at v(3) [OF that] using v(2) by (simp add: skip_ws_at Let_def)
  thus ?thesis using v(1) by blast
qed

lemma array_loop_reads:
  assumes "list_all2 (\<lambda>d t. reads_value P opts d t \<and> starts_value t) xs ts" "xs \<noteq> []"
  shows "\<exists>ys N. list_all2 same_dynamic xs ys \<and>
    (\<forall>n \<ge> N. \<forall>l ret. array_loop P opts n ret (at (join_texts lvl ts @ newline lvl0 @ CHR '']'' # rest) l) =
       Inr (ARRAY (ret @ ys), at rest l))"
  using assms
proof (induction ts arbitrary: xs rule: join_texts.induct [of _ lvl])
  case (2 lvl t)
  then obtain d where d: "xs = [d]" "reads_value P opts d t" "starts_value t" by (auto simp: list_all2_Cons2)
  obtain d' N where v: "same_dynamic d d'" "\<And>n l ret. N \<le> n \<Longrightarrow>
      array_loop P opts (Suc n) ret (at (t @ newline lvl0 @ CHR '']'' # rest) l) = Inr (ARRAY (ret @ [d']), at rest l)"
    using array_step [OF d(2,3) follows_newline [of "CHR '']''" rest lvl0]]
    by (simp add: follows_def skip_to_char expect_def) blast
  have "array_loop P opts n ret (at (t @ newline lvl0 @ CHR '']'' # rest) l) = Inr (ARRAY (ret @ [d']), at rest l)"
    if "Suc N \<le> n" for n l ret using that v(2) by (cases n) auto
  thus ?case using v(1) d(1) by (intro exI [of _ "[d']"] exI [of _ "Suc N"]) simp
next
  case (3 lvl t t' ts)
  let ?x = "newline lvl @ join_texts lvl (t' # ts) @ newline lvl0 @ CHR '']'' # rest"
  obtain d xs' where d: "xs = d # xs'" "reads_value P opts d t" "starts_value t"
    "list_all2 (\<lambda>d t. reads_value P opts d t \<and> starts_value t) xs' (t' # ts)" "xs' \<noteq> []"
    using 3(2) by (auto simp: list_all2_Cons2)
  obtain ys N where ys: "list_all2 same_dynamic xs' ys" "\<And>n l ret. N \<le> n \<Longrightarrow> array_loop P opts n ret
      (at (join_texts lvl (t' # ts) @ newline lvl0 @ CHR '']'' # rest) l) = Inr (ARRAY (ret @ ys), at rest l)"
    using 3(1) [OF d(4,5)] by blast
  obtain u where u: "join_texts lvl (t' # ts) = t' @ u" "starts_value t'"
    using d(4) join_starts [of t' lvl ts] by (auto simp: list_all2_Cons2)
  obtain d' M where v: "same_dynamic d d'" "\<And>n l ret. M \<le> n \<Longrightarrow> array_loop P opts (Suc n) ret (at (t @ CHR '','' # ?x) l) =
      array_loop P opts n (ret @ [d']) (at (join_texts lvl (t' # ts) @ newline lvl0 @ CHR '']'' # rest) l)"
    using array_step [OF d(2,3), of "CHR '','' # ?x"] skip_to_text [OF u(2)]
    by (simp add: follows_def skip_ws_at drop_ws_Cons u(1)) blast
  have "array_loop P opts n ret (at (t @ CHR '','' # ?x) l) = Inr (ARRAY (ret @ d' # ys), at rest l)"
    if "Suc (max M N) \<le> n" for n l ret
    using that v(2) ys(2) by (cases n) auto
  thus ?case using v(1) ys(1) d(1) by (intro exI [of _ "d' # ys"] exI [of _ "Suc (max M N)"]) simp
qed simp_all

section \<open>Objects\<close>

definition reads_item :: "'d json_env \<Rightarrow> serialization_opts \<Rightarrow> nat option \<Rightarrow> 'd dynamic \<times> 'd dynamic \<Rightarrow> string \<Rightarrow> bool" where
  "reads_item P opts lvl kv t \<longleftrightarrow>
     (\<exists>kt vt. t = kt @ mapColon lvl @ vt \<and> reads_value P opts (fst kv) kt \<and> starts_value kt \<and>
        reads_value P opts (snd kv) vt \<and> starts_value vt \<and> (hd kt = quote_char \<or> allow_non_string_keys opts) \<and>
        hashable (fst kv) \<and> \<not> is_double (fst kv))"

lemma reads_item_starts: "reads_item P opts lvl kv t \<Longrightarrow> starts_value t"
  unfolding reads_item_def by (elim exE conjE) (simp add: starts_value_def)

lemma same_hashable: "same_dynamic k k' \<Longrightarrow> hashable k \<Longrightarrow> k' = k"
  by (auto elim: same_dynamic.cases)

lemma insert_new:
  assumes "json_env_ok P" "hashable k" "\<not> is_double k" "\<forall>(k', v') \<in> set obj. k' \<noteq> k \<and> \<not> is_double k'"
  shows "dynamic_insert P k v obj = Inr (enumeration P (obj @ [(k, v)]))"
  using assms(2-4) by (auto simp: dynamic_insert_def same_key_def)

lemma parse_key:
  assumes "reads_value P opts k kt" "starts_value kt" "hashable k" "hd kt = quote_char \<or> allow_non_string_keys opts" "follows x"
  shows "\<exists>x' N. drop_ws x' = drop_ws x \<and> (\<forall>n \<ge> N. \<forall>l w.
    (if is_char (at (kt @ x) l) quote_char then rbind (parseString P (at (kt @ x) l)) (\<lambda>(str, inp). Inr (STRING str, inp))
     else if \<not> allow_non_string_keys opts then in_error (at (kt @ x) l) w else parseValue P opts n (at (kt @ x) l)) = Inr (k, at x' l))"
proof -
  obtain k' x' N where v: "same_dynamic k k'" "drop_ws x' = drop_ws x"
    "\<And>n l. N \<le> n \<Longrightarrow> parseValue P opts n (at (kt @ x) l) = Inr (k', at x' l)"
    using assms(1,5) unfolding reads_value_def by blast
  obtain c cs where c: "kt = c # cs" using assms(2) by (cases kt) (auto simp: starts_value_def)
  have "k' = k" using same_hashable [OF v(1) assms(3)] .
  hence p: "parseValue P opts n (at (c # cs @ x) l) = Inr (k, at x' l)" if "N \<le> n" for n l using v(3) [OF that] by (simp add: c)
  show ?thesis
  proof (cases "c = quote_char")
    case True
    hence "rbind (parseString P (at (kt @ x) l)) (\<lambda>(str, inp). Inr (STRING str, inp)) = Inr (k, at x' l)" for l
      using p [of "Suc N" l] by (simp add: parseValue_string c)
    thus ?thesis using v(2) by (intro exI [of _ x'] exI [of _ N]) (simp add: c True)
  next
    case False
    thus ?thesis using assms(4) v(2) p by (intro exI [of _ x'] exI [of _ N]) (simp add: c)
  qed
qed

lemma object_step:
  assumes "json_env_ok P" "reads_item P opts lvl (k, v) t" "follows x"
  shows "\<exists>v' N. same_dynamic v v' \<and> (\<forall>n \<ge> N. \<forall>l ret. (\<forall>(k', w) \<in> set ret. k' \<noteq> k \<and> \<not> is_double k') \<longrightarrow>
    object_loop P opts (Suc n) ret (at (t @ x) l) =
    (let inp = skip_ws (at x l); ret = enumeration P (ret @ [(k, v')]) in
     if \<not> is_char inp CHR '','' then rbind (expect CHR ''}'' inp) (\<lambda>inp. Inr (OBJECT ret, inp))
     else object_loop P opts n ret (skip_ws (next_char inp))))"
proof -
  obtain kt vt where t: "t = kt @ mapColon lvl @ vt" "reads_value P opts k kt" "starts_value kt"
    "reads_value P opts v vt" "starts_value vt" "hd kt = quote_char \<or> allow_non_string_keys opts" "hashable k" "\<not> is_double k"
    using assms(2) unfolding reads_item_def by auto
  have "follows (mapColon lvl @ vt @ x)" by (cases lvl) (simp_all add: mapColon_def follows_def)
  then obtain x1 N where k: "drop_ws x1 = drop_ws (mapColon lvl @ vt @ x)" "\<And>n l w. N \<le> n \<Longrightarrow>
    (if is_char (at (t @ x) l) quote_char then rbind (parseString P (at (t @ x) l)) (\<lambda>(str, inp). Inr (STRING str, inp))
     else if \<not> allow_non_string_keys opts then in_error (at (t @ x) l) w else parseValue P opts n (at (t @ x) l)) = Inr (k, at x1 l)"
    using parse_key [OF t(2,3,7,6)] unfolding t(1) append_assoc by blast
  obtain v' x2 M where v: "same_dynamic v v'" "drop_ws x2 = drop_ws x"
    "\<And>n l. M \<le> n \<Longrightarrow> parseValue P opts n (at (vt @ x) l) = Inr (v', at x2 l)"
    using t(4) assms(3) unfolding reads_value_def by blast
  obtain y where y: "drop_ws x1 = CHR '':'' # y" "drop_ws y = vt @ x"
    using skip_ws_starts [OF t(5)] unfolding skip_ws_at k(1) by (cases lvl) (auto simp: mapColon_def drop_ws_Cons)
  have "\<not> is_char (at (t @ x) l) CHR ''}''" for l using t(1,3) by (cases kt) (auto simp: starts_value_def)
  hence "object_loop P opts (Suc n) ret (at (t @ x) l) =
    (let inp = skip_ws (at x l); ret = enumeration P (ret @ [(k, v')]) in
     if \<not> is_char inp CHR '','' then rbind (expect CHR ''}'' inp) (\<lambda>inp. Inr (OBJECT ret, inp))
     else object_loop P opts n ret (skip_ws (next_char inp)))"
    if "max M N \<le> n" "\<forall>(k', w) \<in> set ret. k' \<noteq> k \<and> \<not> is_double k'" for n l ret
    using that k(2) [of n l] v(3) [of n l] insert_new [OF assms(1) t(7,8) that(2), of v']
    unfolding object_loop.simps(2) by (simp add: skip_ws_at y v(2) expect_def Let_def)
  thus ?thesis using v(1) by (intro exI [of _ v'] exI [of _ "max M N"]) blast
qed

lemma object_loop_reads:
  assumes "json_env_ok P" "list_all2 (reads_item P opts lvl) kvs ts" "kvs \<noteq> []" "distinct (map fst kvs)"
  shows "\<exists>kvs' F N. list_all2 (rel_prod (=) same_dynamic) kvs kvs' \<and> (\<forall>ret. mset (F ret) = mset ret + mset kvs') \<and>
    (\<forall>n \<ge> N. \<forall>l ret. (\<forall>(k, v) \<in> set ret. k \<notin> fst ` set kvs \<and> \<not> is_double k) \<longrightarrow>
       object_loop P opts n ret (at (join_texts lvl ts @ newline lvl0 @ CHR ''}'' # rest) l) = Inr (OBJECT (F ret), at rest l))"
  using assms(2-)
proof (induction ts arbitrary: kvs rule: join_texts.induct [of _ lvl])
  case (2 lvl t)
  then obtain k v where d: "kvs = [(k, v)]" "reads_item P opts lvl (k, v) t" by (auto simp: list_all2_Cons2)
  obtain v' N where v: "same_dynamic v v'" "\<And>n l ret. N \<le> n \<Longrightarrow> \<forall>(k', w) \<in> set ret. k' \<noteq> k \<and> \<not> is_double k' \<Longrightarrow>
      object_loop P opts (Suc n) ret (at (t @ newline lvl0 @ CHR ''}'' # rest) l) = Inr (OBJECT (enumeration P (ret @ [(k, v')])), at rest l)"
    using object_step [OF assms(1) d(2) follows_newline [of "CHR ''}''" rest lvl0]]
    by (simp add: follows_def skip_to_char expect_def Let_def) blast
  have m: "mset (enumeration P xs) = mset xs" for xs using assms(1) by (simp add: json_env_ok_def)
  let ?F = "\<lambda>ret. enumeration P (ret @ [(k, v')])"
  have "object_loop P opts n ret (at (t @ newline lvl0 @ CHR ''}'' # rest) l) = Inr (OBJECT (?F ret), at rest l)"
    if "Suc N \<le> n" "\<forall>(k', w) \<in> set ret. k' \<noteq> k \<and> \<not> is_double k'" for n l ret
    using that v(2) [of "n - 1" ret l] by (cases n) auto
  thus ?case using v(1) d(1) m by (intro exI [of _ "[(k, v')]"] exI [of _ ?F] exI [of _ "Suc N"]) simp
next
  case (3 lvl t t' ts)
  let ?y = "join_texts lvl (t' # ts) @ newline lvl0 @ CHR ''}'' # rest"
  obtain k v kvs1 where d: "kvs = (k, v) # kvs1" "reads_item P opts lvl (k, v) t"
    "list_all2 (reads_item P opts lvl) kvs1 (t' # ts)" "kvs1 \<noteq> []" "distinct (map fst kvs1)" "k \<notin> fst ` set kvs1"
    using 3(2,4) by (auto simp: list_all2_Cons2)
  obtain kvs2 F N where ys: "list_all2 (rel_prod (=) same_dynamic) kvs1 kvs2" "\<And>ret. mset (F ret) = mset ret + mset kvs2"
    "\<And>n l ret. N \<le> n \<Longrightarrow> \<forall>(k, v) \<in> set ret. k \<notin> fst ` set kvs1 \<and> \<not> is_double k \<Longrightarrow>
       object_loop P opts n ret (at ?y l) = Inr (OBJECT (F ret), at rest l)"
    using 3(1) [OF d(3,4,5)] by blast
  obtain u where u: "join_texts lvl (t' # ts) = t' @ u" "starts_value t'"
    using d(3) join_starts [of t' lvl ts] by (auto simp: list_all2_Cons2 dest: reads_item_starts)
  obtain v' M where v: "same_dynamic v v'" "\<And>n l ret. M \<le> n \<Longrightarrow> \<forall>(k', w) \<in> set ret. k' \<noteq> k \<and> \<not> is_double k' \<Longrightarrow>
      object_loop P opts (Suc n) ret (at (t @ CHR '','' # newline lvl @ ?y) l) = object_loop P opts n (enumeration P (ret @ [(k, v')])) (at ?y l)"
    using object_step [OF assms(1) d(2), of "CHR '','' # newline lvl @ ?y"] skip_to_text [OF u(2)]
    by (simp add: follows_def skip_ws_at drop_ws_Cons u(1) Let_def) blast
  have m: "mset (enumeration P xs) = mset xs" for xs using assms(1) by (simp add: json_env_ok_def)
  have st: "set (enumeration P xs) = set xs" for xs using m by (rule mset_eq_setD)
  have nd: "\<not> is_double k" using d(2) by (auto simp: reads_item_def)
  let ?F = "\<lambda>ret. F (enumeration P (ret @ [(k, v')]))"
  have "object_loop P opts n ret (at (t @ CHR '','' # newline lvl @ ?y) l) = Inr (OBJECT (?F ret), at rest l)"
    if big: "Suc (max M N) \<le> n" and fresh: "\<forall>(k', w) \<in> set ret. k' \<notin> fst ` set kvs \<and> \<not> is_double k'" for n l ret
  proof -
    obtain n' where n: "n = Suc n'" "M \<le> n'" "N \<le> n'" using big by (cases n) auto
    have "\<forall>(k', w) \<in> set ret. k' \<noteq> k \<and> \<not> is_double k'" using fresh by (auto simp: d(1))
    hence "object_loop P opts n ret (at (t @ CHR '','' # newline lvl @ ?y) l) =
        object_loop P opts n' (enumeration P (ret @ [(k, v')])) (at ?y l)" unfolding n(1) by (rule v(2) [OF n(2)])
    moreover have "\<forall>(k', w) \<in> set (enumeration P (ret @ [(k, v')])). k' \<notin> fst ` set kvs1 \<and> \<not> is_double k'"
      using fresh d(6) nd by (auto simp: d(1) st)
    ultimately show ?thesis using ys(3) [OF n(3), of "enumeration P (ret @ [(k, v')])" l] by simp
  qed
  thus ?case using v(1) ys(1,2) d(1) m by (intro exI [of _ "(k, v') # kvs2"] exI [of _ ?F] exI [of _ "Suc (max M N)"]) simp
qed simp_all

section \<open>Any value\<close>

lemma insert_item_map: "insert_item P (fst x, g x) (map (\<lambda>y. (fst y, g y)) ys) = map (\<lambda>y. (fst y, g y)) (insert_item P x ys)"
  by (induction ys) auto

lemma sort_items_map: "sort_items P (map (\<lambda>y. (fst y, g y)) xs) = map (\<lambda>y. (fst y, g y)) (sort_items P xs)"
  by (induction xs) (simp_all add: sort_items_def insert_item_map)

lemma mset_insert_item: "mset (insert_item P x ys) = add_mset x (mset ys)"
  by (induction ys) auto

lemma mset_sort_items: "mset (sort_items P xs) = mset xs"
  by (induction xs) (simp_all add: sort_items_def mset_insert_item)

text \<open>What the printer prints is read back, whatever stands around it.\<close>

lemma starts_brackets: "starts_value (CHR ''['' # t)" "starts_value (CHR ''{'' # t)"
  by (simp_all add: starts_value_def)

lemma reads_array:
  assumes "list_all2 (\<lambda>d t. reads_value P opts d t \<and> starts_value t) xs ts" "xs \<noteq> []"
  shows "reads_value P opts (ARRAY xs) (CHR ''['' # newline lvl' @ join_texts lvl' ts @ newline lvl @ '']'')"
  unfolding reads_value_def
proof (intro allI impI)
  fix rest
  obtain d xs' t ts' where xs: "xs = d # xs'" "ts = t # ts'" "starts_value t" using assms by (cases xs) (auto simp: list_all2_Cons1)
  obtain u where u: "join_texts lvl' ts = t @ u" using join_starts [OF xs(3)] xs(2) by blast
  obtain ys N where ys: "list_all2 same_dynamic xs ys" "\<And>n l ret. N \<le> n \<Longrightarrow> array_loop P opts n ret
      (at (join_texts lvl' ts @ newline lvl @ CHR '']'' # rest) l) = Inr (ARRAY (ret @ ys), at rest l)"
    using array_loop_reads [OF assms] by blast
  have c: "\<not> is_char (at (t @ x) l) CHR '']''" for x l using xs(3) by (cases t) (auto simp: starts_value_def)
  have "parseValue P opts n (at (CHR ''['' # newline lvl' @ join_texts lvl' ts @ newline lvl @ CHR '']'' # rest) l) = Inr (ARRAY ys, at rest l)"
    if "Suc (Suc N) \<le> n" for n l
  proof -
    obtain m where m: "n = Suc (Suc m)" "N \<le> m" using \<open>Suc (Suc N) \<le> n\<close> by (cases n; cases "n - 1") auto
    show ?thesis using ys(2) [OF m(2), of "[]" l] c skip_to_text [OF xs(3)]
      by (simp add: m(1) parseValue.simps(2) parseArray.simps(2) skip_ws_at drop_ws_Cons u Let_def)
  qed
  thus "\<exists>d' rest' N. same_dynamic (ARRAY xs) d' \<and> drop_ws rest' = drop_ws rest \<and>
      (\<forall>n \<ge> N. \<forall>l. parseValue P opts n (at ((CHR ''['' # newline lvl' @ join_texts lvl' ts @ newline lvl @ '']'') @ rest) l) = Inr (d', at rest' l))"
    using same_ARRAY [OF ys(1)] by (intro exI [of _ "ARRAY ys"] exI [of _ rest] exI [of _ "Suc (Suc N)"]) simp
qed

lemma reads_object:
  assumes "json_env_ok P" "list_all2 (reads_item P opts lvl') kvs1 ts" "kvs1 \<noteq> []" "distinct (map fst kvs1)" "mset kvs = mset kvs1"
  shows "reads_value P opts (OBJECT kvs) (CHR ''{'' # newline lvl' @ join_texts lvl' ts @ newline lvl @ ''}'')"
  unfolding reads_value_def
proof (intro allI impI)
  fix rest
  obtain t ts' where ts: "ts = t # ts'" "starts_value t"
    using assms(2,3) by (cases kvs1; cases ts) (auto dest: reads_item_starts)
  obtain u where u: "join_texts lvl' ts = t @ u" using join_starts [OF ts(2)] ts(1) by blast
  obtain kvs2 F N where ys: "list_all2 (rel_prod (=) same_dynamic) kvs1 kvs2" "\<And>ret. mset (F ret) = mset ret + mset kvs2"
    "\<And>n l ret. N \<le> n \<Longrightarrow> \<forall>(k, v) \<in> set ret. k \<notin> fst ` set kvs1 \<and> \<not> is_double k \<Longrightarrow> object_loop P opts n ret
       (at (join_texts lvl' ts @ newline lvl @ CHR ''}'' # rest) l) = Inr (OBJECT (F ret), at rest l)"
    using object_loop_reads [OF assms(1-4), of lvl rest] by (elim exE conjE) (rule that; blast)
  have c: "\<not> is_char (at (t @ x) l) CHR ''}''" for x l using ts(2) by (cases t) (auto simp: starts_value_def)
  have "parseValue P opts n (at (CHR ''{'' # newline lvl' @ join_texts lvl' ts @ newline lvl @ CHR ''}'' # rest) l) = Inr (OBJECT (F []), at rest l)"
    if "Suc (Suc N) \<le> n" for n l
  proof -
    obtain m where m: "n = Suc (Suc m)" "N \<le> m" using \<open>Suc (Suc N) \<le> n\<close> by (cases n; cases "n - 1") auto
    show ?thesis using ys(3) [OF m(2), of "[]" l] c skip_to_text [OF ts(2)]
      by (simp add: m(1) parseValue.simps(2) parseObject.simps(2) skip_ws_at drop_ws_Cons u Let_def)
  qed
  moreover have "same_dynamic (OBJECT kvs) (OBJECT (F []))" using assms(5) ys(1,2) by (intro same_OBJECT) simp_all
  ultimately show "\<exists>d' rest' N. same_dynamic (OBJECT kvs) d' \<and> drop_ws rest' = drop_ws rest \<and>
      (\<forall>n \<ge> N. \<forall>l. parseValue P opts n (at ((CHR ''{'' # newline lvl' @ join_texts lvl' ts @ newline lvl @ ''}'') @ rest) l) = Inr (d', at rest' l))"
    by (intro exI [of _ "OBJECT (F [])"] exI [of _ rest] exI [of _ "Suc (Suc N)"]) simp
qed

lemma reads_empty: "reads_value P opts (ARRAY []) ''[]''" "reads_value P opts (OBJECT []) ''{}''"
proof -
  have p: "parseValue P opts n (at (''[]'' @ rest) l) = Inr (ARRAY [], at rest l)"
    "parseValue P opts n (at (''{}'' @ rest) l) = Inr (OBJECT [], at rest l)" if "2 \<le> n" for n l rest
    using that by (cases n; cases "n - 1"; simp add: parseValue.simps(2) parseArray.simps(2) parseObject.simps(2) skip_ws_at drop_ws_Cons Let_def)+
  show "reads_value P opts (ARRAY []) ''[]''"
    unfolding reads_value_def using p(1) same_ARRAY [of "[]" "[]"] by (metis list_all2_Nil)
  show "reads_value P opts (OBJECT []) ''{}''"
    unfolding reads_value_def using p(2) same_OBJECT [of "[]" "[]" "[]" "[]"] by (metis list_all2_Nil)
qed

lemma map_Inr_all2: "map g xs = map Inr ts \<Longrightarrow> list_all2 (\<lambda>x t. g x = Inr t) xs ts"
  by (simp add: list_all2_conv_all_nth list_eq_iff_nth_eq)

lemma print_object_items:
  assumes "print_value P popts lvl (OBJECT kvs) = Inr t" "kvs \<noteq> []"
  defines "lvl' \<equiv> map_option Suc lvl"
  defines "g \<equiv> \<lambda>y. printKV popts lvl' (fst y) (print_value P popts lvl' (fst y)) (print_value P popts lvl' (snd y))"
  shows "\<exists>kvs1 ts. mset kvs1 = mset kvs \<and> list_all2 (\<lambda>y t. g y = Inr t) kvs1 ts \<and>
    t = CHR ''{'' # newline lvl' @ join_texts lvl' ts @ newline lvl @ ''}''"
proof -
  define kvs1 where "kvs1 = (if sort_keys popts then sort_items P kvs else kvs)"
  have "(\<lambda>(k, v). (k, printKV popts lvl' k (print_value P popts lvl' k) (print_value P popts lvl' v))) = (\<lambda>y. (fst y, g y))"
    by (auto simp: g_def)
  hence "print_value P popts lvl (OBJECT kvs) = bracketed lvl CHR ''{'' (print_list lvl' (map g kvs1)) CHR ''}''"
    using assms(2) by (simp add: lvl'_def [symmetric] kvs1_def Let_def sort_items_map comp_def)
  then obtain u where u: "print_list lvl' (map g kvs1) = Inr u" "t = CHR ''{'' # newline lvl' @ u @ newline lvl @ ''}''"
    using assms(1) by (auto simp: bracketed_def rbind_Inr_iff lvl'_def)
  obtain ts where "map g kvs1 = map Inr ts" "u = join_texts lvl' ts" using print_list_Inr [OF u(1)] by (elim exE conjE) (rule that)
  moreover have "mset kvs1 = mset kvs" by (simp add: kvs1_def mset_sort_items)
  ultimately show ?thesis using u(2) map_Inr_all2 by blast
qed

lemma printed_item_reads:
  assumes "printKV popts lvl k (print_value P popts lvl k) (print_value P popts lvl v) = Inr t"
    and "\<And>t. print_value P popts lvl k = Inr t \<Longrightarrow> reads_value P opts k t \<and> starts_value t"
    and "\<And>t. print_value P popts lvl v = Inr t \<Longrightarrow> reads_value P opts v t \<and> starts_value t"
    and "hashable k" "\<not> is_double k" "allow_non_string_keys popts \<longrightarrow> allow_non_string_keys opts"
  shows "reads_item P opts lvl (k, v) t"
proof -
  obtain kt vt where t: "print_value P popts lvl k = Inr kt" "print_value P popts lvl v = Inr vt" "t = kt @ mapColon lvl @ vt"
    "allow_non_string_keys popts \<or> is_string k"
    using assms(1) by (auto simp: printKV_def rbind_Inr_iff split: if_splits)
  have "hd kt = quote_char" if "is_string k"
    using that t(1) by (cases k) (auto simp: escapeString_def rbind_Inr_iff)
  thus ?thesis unfolding reads_item_def using assms(2) [OF t(1)] assms(3) [OF t(2)] assms(4-6) t(3,4) by auto
qed

lemma printed_value_reads:
  "json_env_ok P \<Longrightarrow> \<not> skip_invalid_utf8 popts \<Longrightarrow> allow_non_string_keys popts \<longrightarrow> allow_non_string_keys opts \<Longrightarrow>
    json_ok P d \<Longrightarrow> print_value P popts lvl d = Inr t \<Longrightarrow> reads_value P opts d t \<and> starts_value t"
proof (induction P popts lvl d arbitrary: t rule: print_value.induct)
  case (1 P popts lvl)
  thus ?case by (auto intro: reads_word [OF parseValue_word(3) same_NULLT] simp: starts_value_def)
next
  case (2 P popts lvl b)
  thus ?case using reads_word [OF parseValue_word(1) same_BOOL] reads_word [OF parseValue_word(2) same_BOOL]
    by (cases b) (auto simp: starts_value_def)
next
  case (3 P popts lvl x)
  thus ?case using reads_double by simp
next
  case (4 P popts lvl n)
  thus ?case using reads_int by simp
next
  case (5 P popts lvl str)
  thus ?case using reads_string by simp
next
  case (6 P popts lvl xs)
  show ?case
  proof (cases "xs = []")
    case True
    thus ?thesis using 6(6) by (auto intro: reads_empty(1) simp: starts_value_def)
  next
    case False
    let ?l = "map_option Suc lvl"
    obtain u where u: "print_list ?l (map (print_value P popts ?l) xs) = Inr u" "t = CHR ''['' # newline ?l @ u @ newline lvl @ '']''"
      using 6(6) False by (auto simp: bracketed_def rbind_Inr_iff)
    obtain ts where ts: "map (print_value P popts ?l) xs = map Inr ts" "u = join_texts ?l ts"
      using print_list_Inr [OF u(1)] by (elim exE conjE) (rule that)
    have "list_all2 (\<lambda>d t. reads_value P opts d t \<and> starts_value t) xs ts"
    proof -
      have "reads_value P opts x u \<and> starts_value u" if "x \<in> set xs" "print_value P popts ?l x = Inr u" for x u
        using 6(1) [OF False that(1) 6(2,3,4) _ that(2)] 6(5) that(1) by simp
      thus ?thesis using map_Inr_all2 [OF ts(1)] unfolding list_all2_conv_all_nth by (metis nth_mem)
    qed
    thus ?thesis using reads_array [OF _ False] starts_brackets u(2) ts(2) by simp
  qed
next
  case (7 P popts lvl kvs)
  show ?case
  proof (cases "kvs = []")
    case True
    thus ?thesis using 7(7) by (auto intro: reads_empty(2) simp: starts_value_def)
  next
    case False
    let ?l = "map_option Suc lvl"
    obtain kvs1 ts where k: "mset kvs1 = mset kvs" "list_all2 (\<lambda>y t. printKV popts ?l (fst y) (print_value P popts ?l (fst y))
        (print_value P popts ?l (snd y)) = Inr t) kvs1 ts" "t = CHR ''{'' # newline ?l @ join_texts ?l ts @ newline lvl @ ''}''"
      using print_object_items [OF 7(7) False] by (elim exE conjE) (rule that)
    have st: "set kvs1 = set kvs" using k(1) by (rule mset_eq_setD)
    have item: "reads_item P opts ?l (a, b) u"
      if "(a, b) \<in> set kvs" "printKV popts ?l a (print_value P popts ?l a) (print_value P popts ?l b) = Inr u" for a b u
    proof -
      have ab: "hashable a" "\<not> is_double a" "json_ok P b" "json_ok P a"
        using 7(6) that(1) by auto (cases a; auto)
      show ?thesis
        by (rule printed_item_reads [OF that(2) 7(1) [OF False refl that(1) refl 7(3,4,5) ab(4)]
              7(2) [OF False refl that(1) refl 7(3,4,5) ab(3)] ab(1,2) 7(5)])
    qed
    have "list_all2 (reads_item P opts ?l) kvs1 ts"
      using k(2) item st by (auto simp: list_all2_conv_all_nth) (metis nth_mem prod.collapse)
    moreover have "distinct (map fst kvs1)"
      using 7(6) mset_eq_imp_distinct_iff [of "map fst kvs1" "map fst kvs"] k(1) by simp
    moreover have "kvs1 \<noteq> []" using False k(1) by auto
    ultimately show ?thesis using reads_object [OF 7(3)] starts_brackets k(1,3) by simp
  qed
qed

section \<open>Round trip\<close>

lemma printed_and_parsed:
  assumes "json_env_ok P" "json_ok P d" "serialize P popts d = Inr t" "\<not> skip_invalid_utf8 popts"
    and "allow_non_string_keys popts \<longrightarrow> allow_non_string_keys opts"
  shows "\<exists>d'. parseJson P opts t = Inr d' \<and> same_dynamic d d'"
proof -
  have "reads_value P opts d t"
    using printed_value_reads [OF assms(1,4,5,2)] assms(3) unfolding serialize_def by blast
  then obtain d' rest N where r: "same_dynamic d d'" "drop_ws rest = []"
    "\<And>n l. N \<le> n \<Longrightarrow> parseValue P opts n (at t l) = Inr (d', at rest l)"
    unfolding reads_value_def follows_def by (metis append_Nil2 drop_ws_def dropWhile.simps(1))
  have "parseValue P opts (parse_fuel t) (Input t) = parseValue P opts (parse_fuel t + N) (Input t)"
    by (rule parser_fuel(2) [symmetric])
  hence "parseValue P opts (parse_fuel t) (Input t) = Inr (d', at rest 0)" using r(3) [of "parse_fuel t + N" 0] by (simp add: Input_def)
  hence "parseJson P opts t = Inr d'" using r(2) by (simp add: parseJson_def skip_ws_at)
  thus ?thesis using r(1) by blast
qed


section \<open>What the printer accepts\<close>

text \<open>With the default options everything is printed that has string keys and no number that is not finite.\<close>

fun plain_json :: "'d json_env \<Rightarrow> 'd dynamic \<Rightarrow> bool" where
  "plain_json P (DOUBLE x) = (\<not> nan_or_inf P x)"
| "plain_json P (ARRAY xs) = (\<forall>x \<in> set xs. plain_json P x)"
| "plain_json P (OBJECT kvs) = (\<forall>(k, v) \<in> set kvs. is_string k \<and> plain_json P v)"
| "plain_json P d = True"

lemma print_list_total: "\<forall>r \<in> set rs. \<exists>t. r = Inr t \<Longrightarrow> \<exists>t. print_list lvl rs = Inr t"
  by (induction lvl rs rule: print_list.induct) auto

lemma escape_total:
  assumes "\<not> encode_non_ascii opts" "\<not> validate_utf8 opts" "\<not> skip_invalid_utf8 opts"
  shows "\<exists>t. escapeString opts str = Inr t"
proof -
  have "\<exists>t. escape_loop opts p q = Inr t" for p q
  proof (induction p)
    case (Cons b p)
    thus ?case using assms by (auto simp: escape_loop.simps [of opts "b # p" q])
  qed (simp add: escape_loop.simps)
  thus ?thesis by (auto simp: escapeString_def rbind_Inr_iff)
qed

lemma plain_printed:
  "json_env_ok P \<Longrightarrow> \<not> javascript_safe opts \<Longrightarrow> \<not> encode_non_ascii opts \<Longrightarrow> \<not> validate_utf8 opts \<Longrightarrow>
    \<not> skip_invalid_utf8 opts \<Longrightarrow> plain_json P d \<Longrightarrow> \<exists>t. print_value P opts lvl d = Inr t"
proof (induction P opts lvl d rule: print_value.induct)
  case (4 P opts lvl n)
  have "- (2 ^ 63) \<le> sint n" "sint n < 2 ^ 63" using sint_greater_eq [of n] sint_less [of n] by simp_all
  thus ?case using 4 toAppend_signed_appends [of "stack_buffer P" "sint n" "[]"]
    by (simp add: print_int_def conv_def json_env_ok_def)
next
  case (5 P opts lvl str)
  thus ?case using escape_total by simp
next
  case (6 P opts lvl xs)
  let ?l = "map_option Suc lvl"
  have "\<exists>t. print_list ?l (map (print_value P opts ?l) xs) = Inr t" if "xs \<noteq> []"
    using 6(1) [OF that _ 6(2-6)] 6(7) by (intro print_list_total) auto
  thus ?case by (auto simp: bracketed_def)
next
  case (7 P opts lvl kvs)
  show ?case
  proof (cases "kvs = []")
    case False
    let ?l = "map_option Suc lvl"
    let ?g = "\<lambda>y. printKV opts ?l (fst y) (print_value P opts ?l (fst y)) (print_value P opts ?l (snd y))"
    let ?kvs = "if sort_keys opts then sort_items P kvs else kvs"
    have st: "set ?kvs = set kvs" using mset_eq_setD [OF mset_sort_items [of P kvs]] by simp
    have "\<exists>t. ?g y = Inr t" if "y \<in> set kvs" for y
    proof -
      obtain k v where y: "y = (k, v)" by fastforce
      have kv: "is_string k" "plain_json P v" "plain_json P k" using 7(8) that y by auto (cases k; auto)
      show ?thesis using 7(1) [OF False refl that y [symmetric] 7(3-7) kv(3)] 7(2) [OF False refl that y [symmetric] 7(3-7) kv(2)] kv(1)
        by (auto simp: printKV_def y)
    qed
    hence "\<exists>t. print_list ?l (map ?g ?kvs) = Inr t" using st by (intro print_list_total) auto
    moreover have "(\<lambda>(k, v). (k, printKV opts ?l k (print_value P opts ?l k) (print_value P opts ?l v))) = (\<lambda>y. (fst y, ?g y))"
      by auto
    ultimately show ?thesis using False by (auto simp: bracketed_def Let_def sort_items_map comp_def)
  qed simp
qed (auto simp: print_floating_def)

text \<open>
  \<open>toJson\<close> and \<open>toPrettyJson\<close> print every value whose keys are distinct strings and whose doubles are finite and
  read back, and \<open>parseJson\<close> gives the value back, up to the order of items.
\<close>

lemma toJson_round_trip:
  assumes "json_env_ok P" "json_ok P d" "plain_json P d"
  shows "(\<exists>t d'. toJson P d = Inr t \<and> parseJson P opts t = Inr d' \<and> same_dynamic d d') \<and>
    (\<exists>t d'. toPrettyJson P d = Inr t \<and> parseJson P opts t = Inr d' \<and> same_dynamic d d')"
proof -
  let ?pretty = "default_opts\<lparr> pretty_formatting := True \<rparr>"
  have "\<exists>t. serialize P default_opts d = Inr t" "\<exists>u. serialize P ?pretty d = Inr u"
    unfolding serialize_def by (rule plain_printed [OF assms(1)]; simp add: default_opts_def assms(3))+
  then obtain t u where "serialize P default_opts d = Inr t" "serialize P ?pretty d = Inr u" by blast
  moreover from this have "\<exists>d'. parseJson P opts t = Inr d' \<and> same_dynamic d d'" "\<exists>d'. parseJson P opts u = Inr d' \<and> same_dynamic d d'"
    using assms(1,2) by (auto intro!: printed_and_parsed simp: default_opts_def)
  ultimately show ?thesis unfolding toJson_def toPrettyJson_def by blast
qed

section \<open>An instance\<close>

text \<open>One double, written \<open>0.5\<close>; a hash table that enumerates the latest item first.\<close>

definition sample_env :: "unit json_env" where
  "sample_env = \<lparr> print_double = (\<lambda>x. ''0.5''), parse_double = (\<lambda>t. Inr ()), nan_or_inf = (\<lambda>x. False), inf_double = (),
     neg_inf_double = (), nan_double = (), less_double = (\<lambda>x y. False), same_double_key = (\<lambda>x y. x = y),
     through_double = Inr, enumeration = rev,
     moved_items = (\<lambda>kvs. []), stack_buffer = replicate 20 CHR ''x'' \<rparr>"

definition sample_value :: "unit dynamic" where
  "sample_value = OBJECT [(STRING ''a'', ARRAY [INT64 (- 1), DOUBLE (), NULLT]), (STRING ''b'', BOOL True)]"

definition sample_text :: string where
  "sample_text = CHR ''{'' # quote_char # CHR ''a'' # quote_char # '':[-1,0.5,null],'' @ quote_char # CHR ''b'' # quote_char # '':true}''"

lemma sample_ok: "json_env_ok sample_env" "json_ok sample_env sample_value"
proof -
  have "float_text ''0.5''" unfolding float_text_def
    by (rule exI [of _ "[]"], rule exI [of _ "''0''"], rule exI [of _ "''.5''"], rule exI [of _ "[]"]) (simp add: is_digit_def schar_def byte_of_def)
  thus "json_env_ok sample_env" "json_ok sample_env sample_value"
    by (auto simp: json_env_ok_def sample_env_def sample_value_def double_ok_def Let_def)
qed

lemma sample_printed: "serialize sample_env default_opts sample_value = Inr sample_text"
  by code_simp


end
