(* ===== verification/Json_Comments.thy ===== *)
theory Json_Comments
  imports Json_Round_Trip
begin

text \<open>
  \<open>stripComments\<close> leaves JSON text alone, strings with slashes in them included, and removes comments;
  some particular behaviours of the JSON code.
\<close>

section \<open>Text that is kept\<close>

text \<open>From state \<open>st\<close> the text \<open>t\<close> is copied and leads to state \<open>st'\<close>.\<close>

definition keeps :: "comment_state \<Rightarrow> string \<Rightarrow> comment_state \<Rightarrow> bool" where
  "keeps st t st' \<longleftrightarrow> (\<forall>rest. strip_loop st (t @ rest) = rbind (strip_loop st' rest) (\<lambda>u. Inr (t @ u)))"

lemma keeps_Nil: "keeps st [] st"
  by (auto simp: keeps_def split: sum.splits) (metis rbind.simps sum.exhaust)

lemma keeps_append: "keeps st t st' \<Longrightarrow> keeps st' t' st'' \<Longrightarrow> keeps st (t @ t') st''"
  by (simp add: keeps_def result_simps)

lemma keeps_plain: "list_all (\<lambda>c. c \<noteq> CHR ''/'' \<and> c \<noteq> quote_char) t \<Longrightarrow> keeps NoComment t NoComment"
proof (induction t)
  case (Cons c t)
  have "keeps NoComment [c] NoComment" using Cons(2) by (simp add: keeps_def)
  thus ?case using keeps_append [of _ "[c]" _ t] Cons by simp
qed (rule keeps_Nil)

lemma keeps_in_string:
  "c \<noteq> backslash \<Longrightarrow> c \<noteq> quote_char \<Longrightarrow> keeps InString [c] InString" "keeps InString [backslash, c] InString"
  "keeps InString [quote_char] NoComment" "keeps NoComment [quote_char] InString"
  by (simp_all add: keeps_def)

lemma keeps_string: "list_all (\<lambda>c. c \<noteq> backslash \<and> c \<noteq> quote_char) t \<Longrightarrow> keeps InString t InString"
proof (induction t)
  case (Cons c t)
  thus ?case using keeps_append [OF keeps_in_string(1), of c t] by simp
qed (rule keeps_Nil)

text \<open>Escaped strings.\<close>

lemma hexDigit_plain: "c < 16 \<Longrightarrow> hexDigit c \<noteq> backslash \<and> hexDigit c \<noteq> quote_char"
  using hexVal_hexDigit [of c "[]" 0] by (auto simp: hexVal_def schar_def byte_of_def Let_def in_error_def)

lemma keeps_code_point:
  assumes "unat v < 0x10000"
  shows "keeps InString (escape_code_point v) InString"
proof -
  have "drop_bit 12 v < 16" using assms by (simp add: word_less_nat_alt unat_drop div_less_iff_less_mult)
  hence "list_all (\<lambda>c. c \<noteq> backslash \<and> c \<noteq> quote_char) (tl (tl (escape_code_point v)))"
    using low4_less(2) hexDigit_plain by (simp add: escape_code_point_def)
  from keeps_append [OF keeps_in_string(2) [of "CHR ''u''"] keeps_string [OF this]] show ?thesis
    by (simp add: escape_code_point_def)
qed

lemma keeps_escape_byte: "keeps InString (escape_byte b) InString"
proof -
  consider "b \<in> {0x5C, 0x22, 0x08, 0x0C, 0x0A, 0x0D, 0x09}"
    | (control) "b \<le> 0x1F" "b \<notin> {0x08, 0x0C, 0x0A, 0x0D, 0x09}" | (raw) "b \<noteq> 0x5C" "b \<noteq> 0x22" "\<not> b \<le> 0x1F" by blast
  thus ?thesis
  proof cases
    case control
    hence "unat (ucast b :: u32) < 0x10000" by (simp add: unat_ucast_byte word_le_nat_alt)
    thus ?thesis using escape_control [OF control] keeps_code_point by simp
  next
    case raw
    hence "char_at b \<noteq> backslash" "char_at b \<noteq> quote_char" using byte_char_at [of b] by (auto simp: byte_of_def)
    thus ?thesis using raw keeps_in_string(1) by (simp add: escape_byte_def)
  qed (auto simp: escape_byte_def keeps_in_string(2))
qed

lemma keeps_escaped: "escape_loop opts p q = Inr t \<Longrightarrow> \<not> skip_invalid_utf8 opts \<Longrightarrow> keeps InString t InString"
proof (induction "length p" arbitrary: p q t rule: less_induct)
  case less
  show ?case
  proof (cases p)
    case Nil
    thus ?thesis using less.prems by (simp add: escape_loop.simps keeps_Nil)
  next
    case (Cons b bs)
    from less.prems [unfolded Cons] show ?thesis
    proof (cases rule: escape_loop_cases)
      case (plain q' t')
      thus ?thesis using less.hyps [OF _ plain(1) less.prems(2)] Cons keeps_append [OF keeps_escape_byte] by simp
    next
      case (coded v rest t')
      have "length rest < length p" using decodeUtf8_shorter [OF coded(2)] Cons by simp
      hence "keeps InString t' InString" using coded(3) less.prems(2) by (rule less.hyps)
      moreover have "unat v < 0x10000" using decoded_is_encoded [OF coded(2)] coded(1) by simp
      ultimately show ?thesis using keeps_append [OF keeps_code_point] coded(4) by simp
    qed
  qed
qed

section \<open>Printed text is kept\<close>

abbreviation plain :: "string \<Rightarrow> bool" where
  "plain \<equiv> list_all (\<lambda>c. c \<noteq> CHR ''/'' \<and> c \<noteq> quote_char)"

lemma plain_digits: "list_all is_digit ds \<Longrightarrow> plain ds"
proof -
  have "\<not> is_digit CHR ''/''" by (simp add: is_digit_def schar_def byte_of_def)
  thus "list_all is_digit ds \<Longrightarrow> plain ds" by (auto simp: list_all_iff)
qed

lemma plain_float: "float_text t \<Longrightarrow> plain t"
  unfolding float_text_def by (elim exE conjE disjE) (auto simp: plain_digits)

lemma plain_newline [simp]: "plain (newline lvl)" "plain (mapColon lvl)"
  by (auto simp: newline_def mapColon_def list_all_iff split: option.splits)

lemma keeps_around:
  assumes "plain a" "keeps NoComment u NoComment" "plain b"
  shows "keeps NoComment (a @ u @ b) NoComment"
  by (rule keeps_append [OF keeps_plain [OF assms(1)] keeps_append [OF assms(2) keeps_plain [OF assms(3)]]])

lemma keeps_join: "\<forall>u \<in> set ts. keeps NoComment u NoComment \<Longrightarrow> keeps NoComment (join_texts lvl ts) NoComment"
proof (induction lvl ts rule: join_texts.induct)
  case (3 lvl t t' ts)
  have "keeps NoComment ('','' @ newline lvl) NoComment" by (rule keeps_plain) simp
  hence "keeps NoComment (t @ ('','' @ newline lvl) @ join_texts lvl (t' # ts)) NoComment"
    using 3 by (intro keeps_append [of _ t] keeps_append [of _ "'','' @ newline lvl"]) auto
  thus ?case by simp
qed (auto simp: keeps_Nil)

lemma keeps_list:
  assumes "print_list lvl rs = Inr t" "\<forall>r \<in> set rs. \<forall>u. r = Inr u \<longrightarrow> keeps NoComment u NoComment"
  shows "keeps NoComment t NoComment"
  using print_list_Inr [OF assms(1)] assms(2) keeps_join by fastforce

lemma keeps_bracketed:
  assumes "bracketed lvl l r rb = Inr t" "\<And>u. r = Inr u \<Longrightarrow> keeps NoComment u NoComment" "plain [l, rb]"
  shows "keeps NoComment t NoComment"
proof -
  obtain u where u: "r = Inr u" "t = ([l] @ newline (map_option Suc lvl)) @ u @ (newline lvl @ [rb])"
    using assms(1) by (auto simp: bracketed_def rbind_Inr_iff)
  show ?thesis unfolding u(2) by (intro keeps_around assms(2) [OF u(1)]) (use assms(3) in simp_all)
qed

lemma keeps_printed:
  "json_env_ok P \<Longrightarrow> \<not> skip_invalid_utf8 opts \<Longrightarrow> json_ok P d \<Longrightarrow> print_value P opts lvl d = Inr t \<Longrightarrow> keeps NoComment t NoComment"
proof (induction P opts lvl d arbitrary: t rule: print_value.induct)
  case (3 P opts lvl x)
  hence "t = print_double P x" by (auto simp: print_floating_def split: if_splits)
  hence "plain t" using 3(3) by (auto simp: double_ok_def Let_def plain_float)
  thus ?case by (rule keeps_plain)
next
  case (4 P opts lvl n)
  hence "print_int P opts n = Inr t" by simp
  from print_int_decimal [OF 4(1) this] have "t = decimal_int (sint n)" .
  hence "plain t" by (auto simp: decimal_int_def intro!: plain_digits) (auto simp: list_all_iff dest!: decimal_digits isdigit_is_digit)
  thus ?case by (rule keeps_plain)
next
  case (5 P opts lvl str)
  then obtain u where u: "escape_loop opts (map byte_of str) 0 = Inr u" "t = [quote_char] @ u @ [quote_char]"
    by (auto simp: escapeString_def rbind_Inr_iff)
  show ?case unfolding u(2) by (intro keeps_append [OF keeps_in_string(4)] keeps_append [OF keeps_escaped [OF u(1) 5(2)]] keeps_in_string(3))
next
  case (6 P opts lvl xs)
  show ?case
  proof (cases "xs = []")
    case False
    have "keeps NoComment u NoComment" if "print_list (map_option Suc lvl) (map (print_value P opts (map_option Suc lvl)) xs) = Inr u" for u
      using 6(1) [OF False _ 6(2,3)] 6(4) by (intro keeps_list [OF that]) auto
    thus ?thesis using 6(5) False by (auto intro: keeps_bracketed)
  qed (use 6(5) in \<open>auto intro!: keeps_plain\<close>)
next
  case (7 P opts lvl kvs)
  show ?case
  proof (cases "kvs = []")
    case False
    let ?l = "map_option Suc lvl"
    obtain kvs1 ts where k: "mset kvs1 = mset kvs" "list_all2 (\<lambda>y t. printKV opts ?l (fst y) (print_value P opts ?l (fst y))
        (print_value P opts ?l (snd y)) = Inr t) kvs1 ts" "t = (CHR ''{'' # newline ?l) @ join_texts ?l ts @ (newline lvl @ ''}'')"
      using print_object_items [OF 7(6) False] by (elim exE conjE) (rule that, simp_all)
    have st: "set kvs1 = set kvs" using k(1) by (rule mset_eq_setD)
    have item: "keeps NoComment u NoComment"
      if mem: "(a, b) \<in> set kvs" and pr: "printKV opts ?l a (print_value P opts ?l a) (print_value P opts ?l b) = Inr u" for a b u
    proof -
      have ab: "json_ok P b" "json_ok P a" using 7(5) mem by auto (cases a; auto)
      obtain kt vt where u: "print_value P opts ?l a = Inr kt" "print_value P opts ?l b = Inr vt" "u = kt @ mapColon ?l @ vt"
        using pr by (auto simp: printKV_def rbind_Inr_iff split: if_splits)
      show ?thesis unfolding u(3)
        by (rule keeps_append [OF 7(1) [OF False refl mem refl 7(3,4) ab(2) u(1)]
              keeps_append [OF keeps_plain 7(2) [OF False refl mem refl 7(3,4) ab(1) u(2)]]]) simp
    qed
    have "\<forall>u \<in> set ts. keeps NoComment u NoComment"
      using k(2) item st unfolding list_all2_conv_all_nth all_set_conv_all_nth by (metis nth_mem prod.collapse)
    thus ?thesis unfolding k(3) by (intro keeps_around keeps_join) simp_all
  qed (use 7(6) in \<open>auto intro!: keeps_plain\<close>)
qed (auto intro!: keeps_plain)

section \<open>Comments are removed\<close>

lemma strip_inline:
  "\<nexists>u v. c = u @ ''*/'' @ v \<Longrightarrow> strip_loop InlineComment (c @ ''*/'' @ rest) = strip_loop NoComment rest"
proof (induction c)
  case (Cons x c)
  have "\<nexists>u v. c = u @ ''*/'' @ v" using Cons.prems by (metis append_Cons)
  moreover have "\<not> (x = CHR ''*'' \<and> c \<noteq> [] \<and> hd c = CHR ''/'')"
    using Cons.prems [simplified, rule_format, of "[]" "tl c"] by (cases c) auto
  ultimately show ?case using Cons.IH by (cases c) auto
qed simp

lemma strip_line: "CHR 0x0A \<notin> set e \<Longrightarrow> strip_loop LineComment (e @ CHR 0x0A # rest) = strip_loop NoComment rest"
  by (induction e) auto

text \<open>
  C40: whatever the printer prints between a comment in front of it and a comment after it is what \<open>stripComments\<close>
  returns: it removes the comments and no character of the text, not even where a string has a \<open>//\<close>, a \<open>/*\<close> or
  an escaped quote in it.
\<close>

theorem comments_stripped:
  assumes "json_env_ok P" "json_ok P d" "serialize P opts d = Inr t" "\<not> skip_invalid_utf8 opts"
    and "\<nexists>u v. c = u @ ''*/'' @ v" "CHR 0x0A \<notin> set e"
  shows "stripComments (''/*'' @ c @ ''*/'' @ t @ ''//'' @ e @ [CHR 0x0A]) = Inr t"
proof -
  have "keeps NoComment t NoComment" using keeps_printed [OF assms(1,4,2)] assms(3) unfolding serialize_def by blast
  hence "strip_loop NoComment (t @ ''//'' @ e @ [CHR 0x0A]) = rbind (strip_loop NoComment (''//'' @ e @ [CHR 0x0A])) (\<lambda>u. Inr (t @ u))"
    unfolding keeps_def by blast
  also have "strip_loop NoComment (''//'' @ e @ [CHR 0x0A]) = Inr []" using strip_line [OF assms(6), of "[]"] by simp
  finally have "strip_loop NoComment (t @ ''//'' @ e @ [CHR 0x0A]) = Inr t" by simp
  thus ?thesis using strip_inline [OF assms(5), of "t @ ''//'' @ e @ [CHR 0x0A]"] by (simp add: stripComments_def)
qed

text \<open>A string with a comment and an escaped quote in it.\<close>

theorem comments_stripped_witness:
  "stripComments (''/*'' @ ''**'' @ ''*/'' @ quote_char # ''/*'' @ backslash # quote_char # ''//'' @ [quote_char] @ ''//'' @ ''end'' @ [CHR 0x0A]) =
    Inr (quote_char # ''/*'' @ backslash # quote_char # ''//'' @ [quote_char])"
proof -
  have "serialize sample_env default_opts (STRING (''/*'' @ quote_char # ''//'')) = Inr (quote_char # ''/*'' @ backslash # quote_char # ''//'' @ [quote_char])"
    by code_simp
  moreover have "\<nexists>u v. ''**'' = u @ ''*/'' @ v" by (auto simp: append_eq_Cons_conv Cons_eq_append_conv)
  ultimately show ?thesis
    using comments_stripped [OF sample_ok(1), of "STRING (''/*'' @ quote_char # ''//'')" default_opts _ "''**''" "''end''"]
    by (simp add: default_opts_def)
qed

section \<open>Particular behaviours\<close>

text \<open>The four bytes of \<open>U+1F600\<close>, which the parser makes of the escapes of its two surrogates, are not valid for the
  printer: the loop of \<open>decodeUtf8\<close> ends before the fourth byte.\<close>

lemma four_bytes_refused:
  "codePointToUtf8 0x1F600 = [0xF0, 0x9F, 0x98, 0x80]" "decodeUtf8 False (codePointToUtf8 0x1F600) = Inl InvalidUtf8"
  by code_simp+

text \<open>When a key comes twice, a number replaces the first value, but an array is lost.\<close>

lemma repeated_key:
  "parseJson sample_env default_opts (CHR ''{'' # quote_char # CHR ''a'' # quote_char # '':1,'' @ quote_char # CHR ''a'' # quote_char # '':2}'') =
    Inr (OBJECT [(STRING ''a'', INT64 2)])"
  "parseJson sample_env default_opts (CHR ''{'' # quote_char # CHR ''a'' # quote_char # '':1,'' @ quote_char # CHR ''a'' # quote_char # '':[2]}'') =
    Inr (OBJECT [(STRING ''a'', ARRAY [])])"
  by code_simp+

text \<open>A string with a zero byte is read.\<close>

lemma zero_byte_in_string: "parseString P (at [quote_char, CHR 0x00, quote_char] l) = Inr ([CHR 0x00], at [] l)"
  using reads_parseString [OF reads_as_raw, of "CHR 0x00" P "[]" l] by simp

text \<open>Lines passed over as white space are not counted.\<close>

lemma line_not_counted: "parseJson sample_env default_opts [CHR 0x0A, CHR ''x''] = Inl (ParseError 0 ''x'' ''expected json value'')"
  by code_simp

end
