(* ===== verification/Spec2Isabelle.thy ===== *)
theory Spec2Isabelle
  imports Sample_Run Varint Unicode Evicting_Cache Sorted_Vector Timeout_Queue Group_Varint_Stream Folly_Conv
    Folly_String RW_Spin_Lock Ticket_Lock Producer_Consumer Json_Comments
begin

text \<open>
  A chess problem solver and the library code it rests on.

  \<^bold>\<open>The programs.\<close> \<open>src/chess\<close> builds two programs that read a board file, a side and a number of
  moves and look for a forced mate. \<open>dfs.cc\<close> searches depth first, one object \<open>OneRound\<close> per level
  (\<open>one_round.cc\<close>), with a cache of scores by board signature (\<open>solution_cache.cc\<close>) that also keeps
  the solutions in a forest (\<open>static_forest.h\<close>). \<open>checkmate.cc\<close> runs \<open>Board::evaluate\<close>
  (\<open>board.cc\<close>), which expands the positions breadth first, ply by ply, and carries scores back.
  Both use the board, the moves (\<open>move.cc\<close>) and the pieces (\<open>piece.cc\<close>, one file per piece, and the
  table of all pieces in \<open>piece_bank.h\<close>). The signature of a board is made with two functions of
  the vendored \<open>folly\<close>: \<open>crc32c\<close> over the cells and \<open>hash_combine\<close>.

  \<^bold>\<open>Theories and sources.\<close>
  \<^item> \<open>Chess_Prelude\<close>: narrowing to \<open>int8_t\<close>, aborts and results, loop forms, and two locales about
    sequences of calls (an invariant, and a refinement of an abstract machine).
  \<^item> \<open>Piece_Type\<close>, \<open>Board_State\<close>, \<open>Move_Ops\<close>: \<open>piece.h\<close>, the record behind \<open>Board\<close>, \<open>move.cc\<close>.
    The 64 cells are a list; \<open>beyond\<close> is what memory holds outside them, which pawns on the edge
    files read.
  \<^item> \<open>Piece_Attack\<close>, \<open>Piece_Moves\<close>, \<open>Piece_Bank\<close>: \<open>canAttack\<close> and \<open>getMoves\<close> of every piece;
    \<open>piece_bank.h\<close>.
  \<^item> \<open>Board_Ops\<close>, \<open>Game_Inv\<close>, \<open>Board_Load\<close>, \<open>Board_Hash\<close>, \<open>Board_Eval\<close>: \<open>board.cc\<close>: set-up,
    moves, check, the loader, the signature, \<open>evaluate\<close> and its solution tree, and \<open>main\<close> of
    \<open>checkmate.cc\<close>; \<open>board_ok\<close> and \<open>game_ok\<close> are the invariants.
  \<^item> \<open>Heuristics\<close>, \<open>One_Round\<close>, \<open>Search_Round\<close>: the estimates, the legality test and the move lists
    of \<open>one_round.cc\<close>; the max and min steps and the storing of solutions.
  \<^item> \<open>Static_Forest\<close>, \<open>Solution_Cache\<close>: the forest and the cache. The locales \<open>node_store\<close> and
    \<open>score_cache\<close> are their interfaces, interpreted on the code's operations.
  \<^item> \<open>Move_Legality\<close>, \<open>Search_Sound\<close>, \<open>Solver\<close>: that \<open>canMove\<close> is legality; that the search is
    sound and exact, by induction on the levels, where the locale \<open>child_search\<close> is what one level
    relies on in the next; \<open>main\<close> of \<open>dfs.cc\<close>.
  \<^item> \<open>Folly_Hash\<close>, \<open>Cpu_Id\<close>, \<open>Checksum\<close>, \<open>Spooky_Stream\<close>, \<open>Spooky_V1\<close>, \<open>Spooky_V2\<close>: \<open>Hash.h\<close>,
    \<open>CpuId.h\<close>, \<open>Checksum.cpp\<close>, \<open>SpookyHashV1\<close> and \<open>SpookyHashV2\<close>, with words of 8, 32 and 64 bits.
    The locale \<open>spooky_stream\<close> holds the streaming argument and is interpreted on both versions.
  \<^item> \<open>Varint\<close>, \<open>Unicode\<close>, \<open>Evicting_Cache\<close>, \<open>Sorted_Vector\<close>, \<open>Timeout_Queue\<close>: \<open>Varint.h\<close>,
    \<open>Unicode.cpp\<close>, \<open>EvictingCacheMap.h\<close>, \<open>sorted_vector_types.h\<close> and \<open>TimeoutQueue.cpp\<close>; the
    containers and the queue interpret the locales of the prelude. \<open>runLoop\<close> may run forever, so it
    is a partial function into an option; when it returns is a theorem.
  \<^item> \<open>Folly_Bits\<close>: \<open>Bits.h\<close>: bit searches, powers of two, byte order, iterators over bits, and the loads
    and stores of bytes that the next theories use. \<open>Group_Varint\<close>, \<open>Group_Varint_Stream\<close>:
    \<open>GroupVarint.h\<close> with its generated tables, group by group and as streams. The streams are
    templates over the width; the locale \<open>group_codec\<close> is what they rely on and is interpreted for
    32-bit groups, portable and SSSE3, and for 64-bit groups.
  \<^item> \<open>Folly_Conv\<close>, \<open>Folly_Escape\<close>, \<open>Folly_String\<close>: integers and booleans of \<open>Conv.h\<close>; escapes, lower
    case, splitting, joining and hexadecimal text of \<open>String-inl.h\<close> and \<open>String.cpp\<close>.
  \<^item> \<open>Interleaving\<close>, \<open>RW_Spin_Lock\<close>, \<open>Ticket_Lock\<close>, \<open>Producer_Consumer\<close>: \<open>RWSpinLock.h\<close> (both locks) and
    \<open>ProducerConsumerQueue.h\<close>, run by threads whose atomic accesses interleave in any order. Each
    method is cut into its accesses to shared memory and a thread stands between two of them. The
    locales \<open>step_invariant\<close> and \<open>step_simulation\<close> hold the induction over runs; they are
    interpreted on both locks, which refine one abstract reader-writer lock, and on the queue,
    which refines a bounded first-in first-out queue. The locks are single words, so their accesses
    are totally ordered; the queue has two indices, and its loads may return any value that is not
    older than one already seen.
  \<^item> \<open>Json\<close>, \<open>Json_Total\<close>, \<open>Json_Strings\<close>, \<open>Json_Round_Trip\<close>, \<open>Json_Comments\<close>: \<open>json.cpp\<close> and what it uses of
    \<open>dynamic\<close>: the printer with all its options, the parser, and the removal of comments. A value is a
    tree and an object the list of its items in the order of the hash table. That the parser ends is
    shown in \<open>Json_Total\<close>, that strings and values are read back in the next two, that comments and
    nothing else are removed in the last.
  \<^item> \<open>Sample_Run\<close>: concrete boards, a concrete platform and the evaluations the witnesses use.

  \<^bold>\<open>What is shown.\<close> A mate that the depth-first search announces is a forced mate of the rules of
  chess as the code plays them (\<open>dfs_search_sound\<close>, \<open>dfs_main_sound\<close>); searches that store no
  scores are exact up to the moves \<open>isCircularMove\<close> leaves out; no check or pointer fails except in
  two named places. Legality, generation, undo, attacks and check are characterised; the
  breadth-first evaluation is the min-max value of its own scoring, whose flaws are theorems too.
  Loading is total up to its own checks and inverts the listing of a board. Hashes, checksums and
  encodings agree with reference definitions or are inverted; the containers refine abstract
  machines. Properties of one library component stand at the end of its theory: round trips of
  groups, of printed integers, of escapes and of split strings; decoders that are safe on any bytes;
  word-wise and SSSE3 code that equals its byte-wise counterpart; the exact outcome of parsing and of
  checked conversions; locks whose writers are alone and whose waiting writers are served
  in order, and a queue between two threads that neither loses, repeats nor tears an element; JSON
  that is read back as it was printed, and a parser that ends on every text.

  \<^bold>\<open>Aborts, bounds and fuel.\<close> A failed \<open>CHECK\<close>, a null pointer and a bad index are values of
  \<open>fatal\<close>. The search recurses on the number of levels, so it needs no fuel; \<open>printSolution\<close>
  follows indices of a forest that may contain cycles and takes fuel, with \<open>None\<close> when it runs out,
  and no theorem about scores depends on it. The JSON parser takes one unit of fuel per call or turn of a
  loop and gets \<open>parse_fuel\<close>, three times the length of the text plus three; \<open>parser_total\<close> shows that this
  is always enough and that more changes nothing. \<open>int\<close> values of the program stay far inside their
  range and are integers; stored rows, columns and scores are narrowed to \<open>int8_t\<close> where the code
  narrows them. The locks are shown right for the numbers of threads their header
  allows (2^30 - 1, and one less than a quarter of the ticket counts); the queue for 2 to 2^31 - 1
  slots.

  \<^bold>\<open>Parameters.\<close> What is not in the repository is an argument: \<open>std::sort\<close> (any permutation that is
  sorted), the floating-point operations and exponentials, the CRC instructions, \<open>cpuid\<close>, Boost's
  CRC engine, the standard hash of \<open>uint32_t\<close>, the values of uninitialised fields, and for JSON the
  printing and parsing of doubles and the order in which a hash table enumerates its items
  (\<open>json_env\<close>, with \<open>json_env_ok\<close> and \<open>double_ok\<close>, which hold of \<open>sample_env\<close>). The
  hypotheses \<open>sort_ok\<close>, \<open>float_ok\<close> and \<open>crc_platform_ok\<close> say what is relied on; \<open>Sample_Run\<close> shows
  that they can hold. \<open>hash_adequate\<close> says that boards stored under one signature are mates together;
  it holds trivially for searches below \<open>min_store_level\<close>.

  \<^bold>\<open>Not modelled.\<close> The rest of \<open>folly\<close> (the string class, formatting, input and output, sockets,
  futures, lock-free hash maps), which the programs do not call; floating point in \<open>Conv.h\<close>, and
  what \<open>String.cpp\<close> takes from the C library; the depth of the native stack, which bounds the nesting of
  JSON text; the operations of \<open>dynamic\<close> that \<open>json.cpp\<close> does not call; tests and build files; flags, logging and code under
  \<open>DEBUG\<close>; \<open>memsize\<close> and \<open>stats\<close> of the cache, which format numbers for the log; the inside of
  \<open>google::dense_hash_map\<close> and of Boost's containers; a negative number of moves for \<open>checkmate\<close>;
  comparisons of whole sorted vectors. Candidates for extension are further self-contained parts of
  \<open>folly\<close>: \<open>Range\<close>, \<open>DiscriminatedPtr\<close>, the storage layouts of \<open>FBString\<close> and \<open>small_vector\<close>, and
  \<open>Histogram\<close>.
\<close>

section \<open>The depth-first solver\<close>



text \<open>
  C2: a search of fewer levels than \<open>min_store_level\<close>, which stores no score, answers
  \<open>CHECKMATE\<close> exactly if there is a forced mate in which the winning side never takes its
  last move straight back (the moves \<open>isCircularMove\<close> leaves out).
\<close>

theorem dfs_search_exact:
  assumes "search_ok c b" "sort_ok (plat cf)" "0 < moves" "moves < INT_MAX"
    and "moves < min_store_level (flag cf)" and "dfs_search cf moves b c = Inr (sc, r, ca)"
  shows "sc = CHECKMATE \<longleftrightarrow> rmate (flag cf) c (nat moves) None b"
proof -
  obtain n where n: "nat moves = Suc n" "moves = int (Suc n)" using levels_Suc [OF assms(3)] .
  have env: "search_env cf c (round_board (flag cf) c b) (Suc n)"
    using assms(1,2,4,5) n by (intro search_env_round hash_adequate_uncached) auto
  show ?thesis
    using returnsD [OF dfs_search_returns [OF env round_board.start levels.child_search_axioms]
        assms(6) [unfolded n(2)]] assms(5) [unfolded n(2)] unfolding n(1) by auto
qed

theorem dfs_search_exact_witness:
  "\<exists>r ca. dfs_search sample_config 1 mate_board False = Inr (CHECKMATE, r, ca) \<and>
    rmate sample_flags False 1 None mate_board"
proof -
  obtain r ca where "dfs_search sample_config 1 mate_board False = Inr (CHECKMATE, r, ca)"
    by (rule mate_board_search)
  then show ?thesis
    using dfs_search_exact [of False mate_board sample_config 1 CHECKMATE r ca] mate_board_ok sample_sort_ok by auto
qed

text \<open>
  C3: a search of one level always returns, and answers \<open>CHECKMATE\<close> exactly if the side to
  move can mate at once.
\<close>

theorem dfs_search_one:
  assumes "search_ok c b" "sort_ok (plat cf)" "1 < min_store_level (flag cf)"
  shows "\<exists>sc r ca. dfs_search cf 1 b c = Inr (sc, r, ca) \<and> (sc = CHECKMATE \<longleftrightarrow> mate (flag cf) c 1 b)"
proof -
  have env: "search_env cf c (round_board (flag cf) c b) (Suc 0)"
    using assms by (intro search_env_round hash_adequate_uncached) auto
  note ret = dfs_search_returns [OF env round_board.start last_level.child_search_axioms]
  obtain sc r ca where run: "dfs_search cf (int (Suc 0)) b c = Inr (sc, r, ca)"
    using ret by (cases "dfs_search cf (int (Suc 0)) b c") (auto simp: returns_def)
  have "rmate (flag cf) c (Suc 0) None b \<longleftrightarrow> mate (flag cf) c (Suc 0) b"
    by (simp add: circular_def)
  with returnsD [OF ret run] assms(3) have "sc = CHECKMATE \<longleftrightarrow> mate (flag cf) c 1 b"
    by (simp only: One_nat_def) simp
  with run show ?thesis by simp
qed

theorem dfs_search_one_witness:
  "\<exists>r ca. dfs_search sample_config 1 mate_board False = Inr (CHECKMATE, r, ca)"
  using dfs_search_one [of False mate_board sample_config] mate_board_ok sample_sort_ok mate_board_mate
  by (auto simp del: mate.simps)





text \<open>
  When the side to move has no legal move, \<open>dfs\<close> still prints a path and dereferences the
  null pointer \<open>maxStepState_\<close>.
\<close>

lemma dfs_null_path:
  assumes "search_ok c b" "sort_ok (plat cf)" "0 < moves" "legal_list (flag cf) c b = []"
  shows "\<exists>sc r ca. dfs_search cf moves b c = Inr (sc, r, ca) \<and> printPath fuel ca r = Some (Inl NullPointer)"
  using dfs_search_no_moves [OF assms] by (auto simp: printPath_def deref_def Let_def)

lemma dfs_null_path_example:
  "\<exists>sc r ca. dfs_search sample_config 2 stalled_board False = Inr (sc, r, ca) \<and>
    printPath 10 ca r = Some (Inl NullPointer)"
  using dfs_null_path [of False stalled_board sample_config 2 10] stalled_board_ok sample_sort_ok by simp

section \<open>Legality\<close>

text \<open>
  C6: \<open>canMove\<close>, which never makes the move but looks at lines to the king, decides whether the
  generated move leaves the mover's king out of check, en passant included, and gives the
  scratch board back unchanged.
\<close>

theorem canMove_decides_legality:
  assumes "search_ok c b" "on_board b p" "isBlack (type p) = c" "m \<in> set (getMoves fg p b)" "view_ok r c b"
  shows "canMove r p m (isChecked b c) b = Inr (\<not> isChecked (after m b) c, b)"
  using assms by (rule canMove_iff)

theorem canMove_decides_legality_witness:
  "\<exists>r. new_OneRound None (False, False) 0 pawn_board False 0 [] = Inr r \<and>
    canMove r pawn ep_move False pawn_board = Inr (True, pawn_board)"
proof -
  obtain r where r: "new_OneRound None (False, False) 0 pawn_board False 0 [] = Inr r" "fresh r"
    "curBoard r = pawn_board" "blackFirst r = False"
    using new_OneRound_eq by blast
  have "view_ok r False pawn_board" using view_max [OF r(2)] r(3,4) by simp
  moreover have "isChecked pawn_board False = False" "isChecked (after ep_move pawn_board) False = False"
    "isBlack (type pawn) = False" by code_simp+
  ultimately show ?thesis
    using canMove_decides_legality [of False pawn_board pawn ep_move sample_flags r]
      pawn_board_ok ep_move_in r(1) by simp
qed

text \<open>
  C7: the list \<open>generateAndSortMaxMoves\<close> returns holds every legal move of the side to move and
  no other, as often as the generators produce it, in the order of falling estimates.
\<close>

theorem generated_moves:
  assumes "fresh r" "search_ok (blackFirst r) (curBoard r)"
    and "isMaxChecked r = isChecked (curBoard r) (blackFirst r)" and "sort_ok pl"
  shows "\<exists>is. generateAndSortMaxMoves pl fg r = Inr (map (\<lambda>i. legal_list fg (blackFirst r) (curBoard r) ! i) is) \<and>
    mset is = mset [0..<length (legal_list fg (blackFirst r) (curBoard r))] \<and>
    sorted_wrt (\<lambda>i j. estimates_of pl fg r ! i \<ge> estimates_of pl fg r ! j) is"
  using generate_eq [OF assms(1-3)] assms(4) unfolding sort_ok_def by blast

theorem generated_moves_witness:
  "\<exists>r is. curBoard r = mate_board \<and> generateAndSortMaxMoves sample_platform sample_flags r =
    Inr (map (\<lambda>i. legal_list sample_flags False mate_board ! i) is)"
proof -
  obtain r where r: "fresh r" "curBoard r = mate_board" "blackFirst r = False"
    using new_OneRound_eq by blast
  define r' where "r' = r\<lparr>isMaxChecked := isChecked mate_board False\<rparr>"
  have "fresh r'" "curBoard r' = mate_board" "blackFirst r' = False" "isMaxChecked r' = isChecked mate_board False"
    using r by (simp_all add: r'_def fresh_def)
  then show ?thesis
    using generated_moves [of r' sample_platform sample_flags] mate_board_ok sample_sort_ok by auto
qed

text \<open>
  C8: the invariant of a search (kings where the board says, no en passant right without its
  pawn, the opponent's king not in check, and so on) is kept by every legal move, for the
  other side.
\<close>

theorem legal_move_invariant:
  assumes "search_ok c b" "legal fg c b m"
  shows "\<exists>b'. makeMove b m = Inr b' \<and> b' = after m b \<and> search_ok (\<not> c) b'"
proof -
  have "move_fits b m" using assms(2) pseudoD [OF assms(1)] by (auto simp: legal_def)
  moreover have "wf_board b" using assms(1) by (simp add: search_ok_def game_ok_def board_ok_def)
  ultimately have "makeMove b m = Inr (after m b)" by (simp add: makeMove_eq after_def)
  then show ?thesis using after_search_ok [OF assms] by blast
qed

theorem legal_move_invariant_witness:
  "\<exists>b'. makeMove pawn_board ep_move = Inr b' \<and> b' = after ep_move pawn_board \<and> search_ok True b'"
proof -
  have "\<not> isChecked (after ep_move pawn_board) False" "\<not> isBlack (type pawn)" by code_simp+
  then have "legal sample_flags False pawn_board ep_move"
    using pawn_board_ok(5) ep_move_in by (auto simp: legal_def pseudo_def)
  then show ?thesis
    using legal_move_invariant [of False pawn_board sample_flags ep_move] pawn_board_ok(1) by simp
qed

section \<open>Moves\<close>

text \<open>
  C9: a move the generators produce, applied to the board and taken back, leaves the board
  as it was, king fields included.
\<close>

theorem apply_undo:
  assumes "board_ok b" "last_ok b" "on_board b p" "m \<in> set (getMoves fg p b)"
  shows "rbind (Move_apply m b) (Move_undo m) = Inr b"
proof -
  have "move_fits b m" using getMoves_fits(1) [OF assms(3,2,4)] .
  moreover have "wf_board b" using assms(1) by (simp add: board_ok_def)
  ultimately show ?thesis
    using Move_apply_moved undo_moved [OF assms(1)] by simp
qed

theorem apply_undo_witness:
  "rbind (Move_apply ep_move pawn_board) (Move_undo ep_move) = Inr pawn_board"
  using apply_undo [of pawn_board pawn ep_move sample_flags] pawn_board_ok ep_move_in by simp

text \<open>
  C10: the moves of a rook, bishop, queen, knight or king are exactly the moves to the squares
  it attacks that do not hold a piece of its own colour; castling never adds one.
\<close>

theorem moves_are_attacks:
  assumes "on_board b p" "type p \<notin> {W_PAWN, B_PAWN}"
  shows "set (getMoves fg p b) = new_Move b NORMAL_MOVE (position p) ` {q. canPlace p b q \<and> canAttack p b q}"
  using assms by (rule getMoves_non_pawn)

theorem moves_are_attacks_witness:
  "set (getMoves sample_flags mate_rook mate_board) =
    new_Move mate_board NORMAL_MOVE (0, 0) ` {q. canPlace mate_rook mate_board q \<and> canAttack mate_rook mate_board q}"
  using moves_are_attacks [of mate_board mate_rook sample_flags] mate_rook_ok(1)
  by (simp add: mate_rook_def position_def)

text \<open>
  The squares a rook, bishop or queen attacks are the ones it reaches over empty squares
  in a direction \<open>canAttackLine\<close> allows its type.
\<close>

lemma slider_attacks:
  assumes "is_slider (type p)" "isValidPosition (position p)" "isValidPosition tgt"
  shows "canAttack p b tgt \<longleftrightarrow>
    (\<exists>s. unit_step s \<and> canAttackLine (type p) s \<and> line_reach b (position p) tgt s)"
  using assms by (rule canAttack_slider)

lemma slider_attacks_example:
  "\<exists>s. unit_step s \<and> canAttackLine W_ROOK s \<and> line_reach mate_board (0, 0) (7, 0) s"
proof -
  have "canAttack mate_rook mate_board (7, 0)" by code_simp
  with slider_attacks [of mate_rook "(7, 0)" mate_board] show ?thesis
    by (simp add: is_slider_def position_def mate_rook_def)
qed

text \<open>
  C11: \<open>isChecked\<close> runs without failing and says whether some piece on the board attacks the
  king of the given side, which is looked up in the king field.
\<close>

theorem isChecked_meaning:
  "isChecked_run b black = Inr (\<exists>p. on_board b p \<and> isBlack (type p) \<noteq> black \<and> canAttack p b (king_of b black))"
  by (simp add: isChecked_run_eq isChecked_iff)

text \<open>No generated move takes a king, unless the opponent's king already stands in check.\<close>

lemma kings_are_not_taken:
  assumes "board_ok b" "last_ok b" "on_board b p" "m \<in> set (getMoves fg p b)"
    and "\<not> isChecked b (\<not> isBlack (type p))"
  shows "toType m \<notin> {W_KING, B_KING}"
  using assms by (rule no_king_capture)

lemma kings_are_not_taken_example: "toType ep_move \<notin> {W_KING, B_KING}"
proof -
  have "isBlack (type pawn) = False" by code_simp
  then show ?thesis
    using kings_are_not_taken [of pawn_board pawn ep_move sample_flags] pawn_board_ok ep_move_in by simp
qed

text \<open>
  What lies in memory outside the 64 cells, which the pawn generators read for pawns on
  the edge files, does not change the moves.
\<close>

lemma moves_read_the_board_only:
  assumes "on_board b p" "last_ok b"
  shows "getMoves fg p (b\<lparr>beyond := f\<rparr>) = getMoves fg p b"
  using assms by (rule getMoves_beyond)

lemma moves_read_the_board_only_example:
  "getMoves sample_flags pawn (pawn_board\<lparr>beyond := (\<lambda>_. B_QUEEN)\<rparr>) = getMoves sample_flags pawn pawn_board"
  using moves_read_the_board_only [of pawn_board pawn] pawn_board_ok by simp

text \<open>
  \<open>canCastle\<close> is false for every piece on the board: its loop over the squares between
  king and rook starts at the king's own square, which is not empty.
\<close>

lemma castling_is_never_offered:
  assumes "on_board b p"
  shows "\<not> canCastle p b smaller"
  using assms by (rule canCastle_False)

lemma castling_is_never_offered_example:
  "let b = board_of [(W_KING, (0, 4)), (W_ROOK, (0, 7)), (W_ROOK, (0, 0)), (B_KING, (7, 4))];
       k = \<lparr>type = W_KING, row = 0, col = 4\<rparr>
   in \<not> canCastle k b True \<and> \<not> canCastle k b False"
proof -
  let ?b = "board_of [(W_KING, (0, 4)), (W_ROOK, (0, 7)), (W_ROOK, (0, 0)), (B_KING, (7, 4))]"
  let ?k = "\<lparr>type = W_KING, row = 0, col = 4\<rparr>"
  have "on_board ?b ?k" by code_simp
  then show ?thesis using castling_is_never_offered [of ?b ?k] by (simp add: Let_def)
qed

section \<open>The breadth-first evaluation\<close>



text \<open>
  With a depth of two plies \<open>evaluate\<close> answers \<open>CHECKMATE\<close> for a mere check: the leaves keep
  the score of the board they were made from. A move that stalemates the opponent scores
  \<open>1 + CHECKMATE\<close> and hides every mate.
\<close>

lemma evaluate_two_plies:
  assumes "bfs_ok black b"
  shows "\<exists>tree. evaluate fg black 2 b = Inr
    ((let K = set (kids fg black (scored black 1 b))
      in if \<exists>s \<in> K. stalled fg black s then 1 + CHECKMATE
         else if \<exists>s \<in> K. isChecked s (\<not> black) then CHECKMATE
         else max (if isChecked b black then - CHECKMATE else NONE) (if K = {} then - CHECKMATE else STALLMATE)),
     tree)"
proof -
  obtain tree where "evaluate fg black 2 b = Inr (minimax fg black 2 0 b, tree)"
    using evaluate_minimax [OF assms] by metis
  then show ?thesis unfolding minimax_two [OF assms] Let_def by blast
qed

lemma evaluate_two_plies_example:
  "(\<exists>tree. evaluate sample_flags False 2 check_board = Inr (CHECKMATE, tree)) \<and>
    \<not> mate sample_flags False 1 check_board"
  using evaluate_two_plies [OF check_board_ok, of sample_flags] check_board_states check_board_no_mate
  by (simp add: list_ex_iff Let_def del: mate.simps)

text \<open>
  If the opponent of the side that moves first already stands in check, \<open>checkmate\<close>
  announces a win and then indexes the empty solution tree.
\<close>

lemma checkmate_prints_empty_tree:
  assumes "load_Board out (Some content) = Inr b" "isChecked b (first \<noteq> ''black'')"
  shows "checkmate_main fg out (Some content) first moves = Inr (Wins (first = ''black''), Inl BadIndex)"
  using assms by (simp add: checkmate_main_def evaluate_def printSolutionTree_def Let_def)

lemma checkmate_prints_empty_tree_example:
  "checkmate_main sample_flags (\<lambda>_. EMPTY) (Some (''ra8'' @ [CHR 0x0A] @ ''kg6'' @ [CHR 0x0A] @ ''Kh8'')) ''white'' 1 =
    Inr (Wins False, Inl BadIndex)"
proof -
  let ?f = "''ra8'' @ [CHR 0x0A] @ ''kg6'' @ [CHR 0x0A] @ ''Kh8''"
  have "(case load_Board (\<lambda>_. EMPTY) (Some ?f) of Inl _ \<Rightarrow> False | Inr b \<Rightarrow> isChecked b True)" by code_simp
  then obtain b where "load_Board (\<lambda>_. EMPTY) (Some ?f) = Inr b" "isChecked b True"
    by (cases "load_Board (\<lambda>_. EMPTY) (Some ?f)") auto
  then show ?thesis using checkmate_prints_empty_tree [of "\<lambda>_. EMPTY" ?f b "''white''"] by simp
qed

section \<open>Board files\<close>

text \<open>
  C13: a board that loads from a file satisfies the invariant of a game: 64 cells, each king
  exactly where its field says, no last move to take en passant.
\<close>

theorem loaded_board_ok:
  assumes "load_Board out (Some content) = Inr b"
  shows "game_ok b"
  using assms by (rule load_game_ok)

theorem loaded_board_ok_witness: "game_ok mate_board"
  using loaded_board_ok [OF mate_board_loaded] .

text \<open>
  Loading the list of the pieces of a board gives the board back, cells and king fields.
\<close>

lemma load_lists_pieces:
  assumes "board_ok b"
  shows "\<exists>b'. load_Board out (Some (board_file b)) = Inr b' \<and> positions b' = positions b \<and>
    blackKingPosition b' = blackKingPosition b \<and> whiteKingPosition b' = whiteKingPosition b"
  using assms by (rule load_board_file)

lemma load_lists_pieces_example:
  "\<exists>b'. load_Board (\<lambda>_. W_KING) (Some (board_file pawn_board)) = Inr b' \<and> positions b' = positions pawn_board"
  using load_lists_pieces [of pawn_board "\<lambda>_. W_KING"] pawn_board_ok(2) by blast


section \<open>Pieces\<close>

text \<open>
  The piece bank, filled once and read by type, row and column, gives for every square the
  piece \<open>create\<close> makes.
\<close>

lemma bank_is_create:
  assumes "isValidPosition pos"
  shows "PieceBank_get t pos = Inr (create t pos)"
  using assms by (rule PieceBank_get_eq)

lemma bank_is_create_example: "PieceBank_get W_ROOK (0, 0) = Inr (Some mate_rook)"
  using bank_is_create [of "(0, 0)" W_ROOK] by (simp add: create_eq mate_rook_def)

text \<open>
  The estimate of a piece stays between 0 and 10 when rounding keeps the order of numbers
  and the exponentials of numbers below zero lie between 0 and 1.
\<close>

lemma heuristic_bounds:
  assumes "float_ok pl" "isValidPosition (position p)" "board_ok b"
  shows "0 \<le> Piece_heuristicScore pl p b \<and> Piece_heuristicScore pl p b \<le> 10"
  using assms by (rule Piece_heuristicScore_bounds)

lemma heuristic_bounds_example: "Piece_heuristicScore sample_platform pawn pawn_board \<le> 10"
  using heuristic_bounds [of sample_platform pawn pawn_board] sample_float_ok pawn_board_ok(2)
  by (simp add: pawn_def position_def)

section \<open>The cache of scores and the solution forest\<close>



text \<open>
  In a forest with room for one more node, adding a node and hanging it under an old one
  succeeds; the old node has the new one as its last child, and the new node has its data and
  no children.
\<close>

lemma forest_child_added:
  assumes "forest_room f" "forest_look f i = Some (d, cs)"
  shows "\<exists>f'. forest_addChild i (fst (forest_add x f)) (snd (forest_add x f)) = Inr f' \<and>
    forest_look f' i = Some (d, cs @ [fst (forest_add x f)]) \<and>
    forest_look f' (fst (forest_add x f)) = Some (x, [])"
  using assms by (rule forest.add_child)

lemma forest_child_added_example:
  "let f = snd (forest_add CHR ''a'' empty_forest)
   in \<exists>f'. forest_addChild 0 (fst (forest_add CHR ''b'' f)) (snd (forest_add CHR ''b'' f)) = Inr f' \<and>
        forest_look f' 0 = Some (CHR ''a'', [fst (forest_add CHR ''b'' f)])"
proof -
  let ?f = "snd (forest_add CHR ''a'' empty_forest)"
  have "forest_room ?f" by (simp add: forest_room_def forest_add_eq)
  moreover have "forest_look ?f 0 = Some (CHR ''a'', [])"
    by (simp add: forest_add_eq look_emplace_back forest_room_def)
  ultimately show ?thesis using forest_child_added [of ?f 0] by (fastforce simp: Let_def)
qed

section \<open>Hashing\<close>

text \<open>
  C16: on every platform, with or without the instructions and at every alignment, \<open>crc32c\<close> is
  the bitwise CRC-32C remainder.
\<close>

theorem crc32c_is_bitwise:
  assumes "crc_platform_ok pl"
  shows "crc32c pl amask buf s = crc_ref buf s"
  using assms by (rule crc32c_eq)

theorem crc32c_is_bitwise_witness:
  "crc32c (crc_platform.truncate sample_platform) 3 [1, 2, 3] (- 1) = crc_ref [1, 2, 3] (- 1)"
  using crc32c_is_bitwise [OF sample_crc_ok] .

text \<open>Boards that \<open>compare\<close> equal have the same signature.\<close>

lemma equal_boards_equal_signatures:
  assumes "wf_board b" "wf_board b'" "Board_compare b b' = 0"
  shows "Board_hash pl b = Board_hash pl b'"
  using assms by (rule Board_hash_compare)

lemma equal_boards_equal_signatures_example:
  "Board_hash sample_platform pawn_board = Board_hash sample_platform (pawn_board\<lparr>lastMove := default_move\<rparr>)"
proof -
  have "wf_board pawn_board" using pawn_board_ok(2) by (simp add: board_ok_def)
  moreover have "Board_compare pawn_board (pawn_board\<lparr>lastMove := default_move\<rparr>) = 0" by code_simp
  ultimately show ?thesis
    using equal_boards_equal_signatures [of pawn_board "pawn_board\<lparr>lastMove := default_move\<rparr>"] by simp
qed

text \<open>
  C17: \<open>twang_mix64\<close> and \<open>twang_unmix64\<close> are inverse to each other on all 64-bit keys, and so
  are \<open>jenkins_rev_mix32\<close> and \<open>jenkins_rev_unmix32\<close> on all 32-bit keys.
\<close>

theorem mixers_inverse:
  "twang_unmix64 (twang_mix64 key) = key \<and> twang_mix64 (twang_unmix64 key) = key \<and>
   jenkins_rev_unmix32 (jenkins_rev_mix32 k) = k \<and> jenkins_rev_mix32 (jenkins_rev_unmix32 k) = k"
  using twang_unmix_mix finite_right_inverse [of twang_unmix64 twang_mix64]
    jenkins_unmix_mix finite_right_inverse [of jenkins_rev_unmix32 jenkins_rev_mix32] by blast

text \<open>
  C18: \<open>SpookyHashV2\<close> streamed: after \<open>Init\<close> and any sequence of \<open>Update\<close> and \<open>Final\<close> calls, \<open>Final\<close>
  gives the hash \<open>Hash128\<close> computes of the fragments put together, whatever the uninitialised
  object held.
\<close>

theorem spooky_v2_streaming:
  assumes "length (m_data s) = 192" "length (message_of calls) < 2 ^ 64"
  shows "fst (Final_v2 (run_calls Update_v2 Final_v2 calls (Init_v2 seed1 seed2 s))) =
    Hash128_v2 (message_of calls) (seed1, seed2)"
  using assms by (rule v2.streaming)

theorem spooky_v2_streaming_witness:
  "let s = \<lparr>m_data = replicate 192 0xAB, m_state = (1, 2, 3, 4, 5, 6, 7, 8, 9, 10, 11, 12),
            m_length = 17, m_remainder = 99\<rparr>;
       calls = [CallUpdate (replicate 190 1), CallFinal, CallUpdate (replicate 200 2), CallUpdate [3]]
   in fst (Final_v2 (run_calls Update_v2 Final_v2 calls (Init_v2 5 6 s))) =
      Hash128_v2 (replicate 190 1 @ replicate 200 2 @ [3]) (5, 6)"
  using spooky_v2_streaming [of "\<lparr>m_data = replicate 192 0xAB,
      m_state = (1, 2, 3, 4, 5, 6, 7, 8, 9, 10, 11, 12), m_length = 17, m_remainder = 99\<rparr>"
      "[CallUpdate (replicate 190 1), CallFinal, CallUpdate (replicate 200 2), CallUpdate [3]]" 5 6]
  by (simp add: Let_def)

text \<open>The same of \<open>SpookyHashV1\<close>.\<close>

lemma spooky_v1_streaming:
  assumes "length (m_data s) = 192" "length (message_of calls) < 2 ^ 64"
  shows "fst (Final_v1 (run_calls Update_v1 Final_v1 calls (Init_v1 seed1 seed2 s))) =
    Hash128_v1 (message_of calls) (seed1, seed2)"
  using assms by (rule v1.streaming)

lemma spooky_v1_streaming_example:
  "let s = \<lparr>m_data = replicate 192 0, m_state = (0, 0, 0, 0, 0, 0, 0, 0, 0, 0, 0, 0), m_length = 0, m_remainder = 0\<rparr>;
       calls = [CallUpdate (replicate 190 1), CallFinal, CallUpdate (replicate 200 2)]
   in fst (Final_v1 (run_calls Update_v1 Final_v1 calls (Init_v1 5 6 s))) =
      Hash128_v1 (replicate 190 1 @ replicate 200 2) (5, 6)"
  using spooky_v1_streaming [of "\<lparr>m_data = replicate 192 0,
      m_state = (0, 0, 0, 0, 0, 0, 0, 0, 0, 0, 0, 0), m_length = 0, m_remainder = 0\<rparr>"
      "[CallUpdate (replicate 190 1), CallFinal, CallUpdate (replicate 200 2)]" 5 6]
  by (simp add: Let_def)

text \<open>
  Every accessor of \<open>CpuId\<close> reads one bit of one result register of \<open>cpuid\<close>, of leaf 1 or of
  leaf 7, and is false where the processor does not have the leaf; no name stands twice in the
  tables and no two names of a table share a bit.
\<close>

lemma cpuid_features:
  "(\<forall>(nm, b) \<in> set f1c_table. cpu_feature nm (CpuId c) = Some (1 \<le> eax (c 0 0) \<and> bit (ecx (c 1 0)) b)) \<and>
   (\<forall>(nm, b) \<in> set f1d_table. cpu_feature nm (CpuId c) = Some (1 \<le> eax (c 0 0) \<and> bit (edx (c 1 0)) b)) \<and>
   (\<forall>(nm, b) \<in> set f7b_table. cpu_feature nm (CpuId c) = Some (7 \<le> eax (c 0 0) \<and> bit (ebx (c 7 0)) b)) \<and>
   (\<forall>(nm, b) \<in> set f7c_table. cpu_feature nm (CpuId c) = Some (7 \<le> eax (c 0 0) \<and> bit (ecx (c 7 0)) b)) \<and>
   distinct (map fst (f1c_table @ f1d_table @ f7b_table @ f7c_table)) \<and>
   list_all (\<lambda>table. distinct (map snd table) \<and> list_all (\<lambda>b. b < 32) (map snd table))
     [f1c_table, f1d_table, f7b_table, f7c_table]"
proof -
  have "list_all (\<lambda>table. distinct (map snd table) \<and> list_all (\<lambda>b. b < 32) (map snd table))
      [f1c_table, f1d_table, f7b_table, f7c_table]"
    using cpu_bits_distinct cpu_bits_in_word by (auto simp: list_all_iff)
  then show ?thesis
    using cpu_feature_f1 [of _ _ c] cpu_feature_f7 [of _ _ c] cpu_names_distinct by blast
qed

lemma cpuid_features_example:
  "cpu_feature ''sse42'' (CpuId sample_cpuid) = Some True \<and>
    cpu_feature ''bmi1'' (CpuId sample_cpuid) = Some False"
proof -
  have "(''sse42'', 20) \<in> set f1c_table" "(''bmi1'', 3) \<in> set f7b_table"
    by (simp_all add: f1c_table_def f7b_table_def)
  then have "cpu_feature ''sse42'' (CpuId sample_cpuid) =
        Some (1 \<le> eax (sample_cpuid 0 0) \<and> bit (ecx (sample_cpuid 1 0)) 20)"
    "cpu_feature ''bmi1'' (CpuId sample_cpuid) =
        Some (7 \<le> eax (sample_cpuid 0 0) \<and> bit (ebx (sample_cpuid 7 0)) 3)"
    using cpuid_features [of sample_cpuid] by blast+
  then show ?thesis by (simp add: sample_cpuid_def)
qed

section \<open>Encodings\<close>

text \<open>
  C19: a buffer of ten bytes is enough for \<open>encodeVarint\<close>, on every number; what it writes are the
  number's digits in base 128, at most ten, and \<open>decodeVarint\<close>, on its fast or its slow path,
  reads the number back and leaves the rest of the buffer.
\<close>

theorem varint_round_trip:
  assumes "kMaxVarintLength64 \<le> length buf"
  shows "\<exists>buf' n. encodeVarint v buf = Inr (buf', n) \<and> n \<le> kMaxVarintLength64 \<and>
    drop n buf' = drop n buf \<and> base128 (take n buf') = unat v \<and>
    decodeVarint (take n buf') = Inr (v, []) \<and> decodeVarint buf' = Inr (v, drop n buf)"
proof -
  have len: "length (varint_bytes v) \<le> length buf"
    using varint_bytes_short [of v] assms by simp
  show ?thesis
    using encodeVarint_bytes [OF len] varint_bytes_short [of v] base128_bytes [of v]
      decode_encode [of v] decode_encode [of v "[]"] by simp
qed

theorem varint_round_trip_witness:
  "\<exists>buf' n. encodeVarint 300 (replicate 12 0xFF) = Inr (buf', n) \<and> decodeVarint (take n buf') = Inr (300, [])"
proof -
  have "kMaxVarintLength64 \<le> length (replicate 12 0xFF)" by (simp add: kMaxVarintLength64_def)
  from varint_round_trip [OF this, of 300] show ?thesis by blast
qed

text \<open>
  \<open>decodeVarint\<close> refuses an input exactly if none of its first ten bytes ends a number.
\<close>

lemma varint_rejects:
  "(\<exists>e. decodeVarint bs = Inl e) \<longleftrightarrow> list_all negative (take kMaxVarintLength64 bs)"
  by (rule decodeVarint_error)

text \<open>
  \<open>encodeZigZag\<close> maps \<open>x \<ge> 0\<close> to \<open>2x\<close> and \<open>x < 0\<close> to \<open>- 2x - 1\<close>, for every 64-bit \<open>x\<close>, and
  \<open>decodeZigZag\<close> is its inverse.
\<close>

lemma zigzag_round_trip:
  "decodeZigZag (encodeZigZag v) = v \<and>
   uint (encodeZigZag v) = (if sint v < 0 then - 2 * sint v - 1 else 2 * sint v)"
  using decode_encode_zigzag uint_encodeZigZag by blast

text \<open>
  The bytes \<open>codePointToUtf8\<close> gives for a code point up to \<open>0x10FFFF\<close> decode, as UTF-8
  prescribes, to that code point, and there are as many as its range calls for.
\<close>

lemma utf8_decodes:
  assumes "unat cp \<le> 0x10FFFF"
  shows "utf8_decode (codePointToUtf8 cp @ rest) = Some (unat cp, rest) \<and>
    length (codePointToUtf8 cp) =
      (if unat cp \<le> 0x7f then 1 else if unat cp \<le> 0x7FF then 2 else if unat cp \<le> 0xFFFF then 3 else 4)"
  using utf8_round_trip [OF assms] utf8_length [of cp] assms by simp

lemma utf8_decodes_example: "utf8_decode (codePointToUtf8 0x20AC @ [1]) = Some (0x20AC, [1])"
  using utf8_decodes [of "0x20AC" "[1]"] by simp

section \<open>Containers\<close>

text \<open>
  C20: without an eviction callback, every sequence of calls on an \<open>EvictingCacheMap\<close> leaves the
  contents, in their order of use, that the abstract least-recently-used list has after the
  same calls, and a lookup reads that list.
\<close>

theorem lru_refinement:
  assumes "list_all no_hook calls"
  shows "lru_abs (fold ecm_step calls (EvictingCacheMap m n)) = fold lru_step calls ([], m, n) \<and>
    getWithoutPromotion (fold ecm_step calls (EvictingCacheMap m n)) k =
      (case map_of (fst (fold lru_step calls ([], m, n))) k of
         None \<Rightarrow> Inl KeyDoesNotExist | Some v \<Rightarrow> Inr v)"
proof -
  let ?c = "fold ecm_step calls (EvictingCacheMap m n)"
  have abs: "lru_abs ?c = fold lru_step calls ([], m, n)"
    using qc.run_refines [OF new_ecm(1) assms] by simp
  have "ecm_ok ?c" using qc.inv_run [OF new_ecm(1) assms] by (simp add: quiet_inv_def)
  moreover have "entries ?c = fst (fold lru_step calls ([], m, n))"
    by (simp add: lru_abs_def flip: abs)
  ultimately show ?thesis using abs getWithoutPromotion_eq by metis
qed

theorem lru_refinement_witness:
  "getWithoutPromotion (fold ecm_step [CSet 1 ''a'' True, CSet 2 ''b'' True, CFind 1, CSet 3 ''c'' True]
     (EvictingCacheMap 2 1)) (2 :: nat) = Inl KeyDoesNotExist"
proof -
  let ?calls = "[CSet 1 ''a'' True, CSet (2 :: nat) ''b'' True, CFind 1, CSet 3 ''c'' True]"
  have "list_all no_hook ?calls" by simp
  moreover have "map_of (fst (fold lru_step ?calls ([], 2, 1))) 2 = None" by code_simp
  ultimately show ?thesis
    using lru_refinement [of ?calls 2 1 2] by (simp only: option.case)
qed



text \<open>
  After any calls a \<open>sorted_vector_set\<close> is strictly sorted and holds the elements of the
  abstract set after the same calls, where \<open>erase(key)\<close> removes the least element that is not
  below the key; \<open>find\<close> finds the elements and nothing else.
\<close>

lemma sorted_set_refines:
  "sorted_wrt (<) (fold svs_step calls (sorted_vector_set vals)) \<and>
   set (fold svs_step calls (sorted_vector_set vals)) = fold set_step calls (set vals) \<and>
   (svs_find k (fold svs_step calls (sorted_vector_set vals)) \<noteq>
      length (fold svs_step calls (sorted_vector_set vals)) \<longleftrightarrow> k \<in> fold set_step calls (set vals))"
proof -
  have start: "ascending (\<lambda>x. x) (sorted_vector_set vals)" "set (sorted_vector_set vals) = set vals"
    using svs_range_spec [of "[]" vals] by (simp_all add: ascending_def sorted_vector_set_def)
  have all: "list_all (\<lambda>_. True) calls" by (simp add: list_all_iff)
  let ?xs = "fold svs_step calls (sorted_vector_set vals)"
  have asc: "ascending (\<lambda>x. x) ?xs" by (rule svs.inv_run [OF start(1) all])
  have "set ?xs = fold set_step calls (set vals)"
    using svs.run_refines [OF start(1) all] start(2) by simp
  with asc svs_find_spec [OF asc, of k] show ?thesis
    by (cases "k \<in> set ?xs") (simp_all add: ascending_def)
qed

text \<open>
  C23: after any calls a \<open>sorted_vector_map\<close> is strictly sorted by key and represents the finite
  map after the same calls; \<open>insert\<close> and \<open>operator[]\<close> keep an old entry, and \<open>find\<close> gives the
  position of the entry.
\<close>

theorem sorted_map_refines:
  "sorted_wrt (<) (map fst (fold svm_step calls [])) \<and>
   map_of (fold svm_step calls []) = fold map_step calls Map.empty \<and>
   (case fold map_step calls Map.empty k of
      None \<Rightarrow> svm_find k (fold svm_step calls []) = length (fold svm_step calls [])
    | Some v \<Rightarrow> fold svm_step calls [] ! svm_find k (fold svm_step calls []) = (k, v))"
proof -
  have start: "ascending fst []" by (simp add: ascending_def)
  have all: "list_all (\<lambda>_. True) calls" by (simp add: list_all_iff)
  have asc: "ascending fst (fold svm_step calls [])" by (rule svm.inv_run [OF start all])
  have abs: "map_of (fold svm_step calls []) = fold map_step calls Map.empty"
    using svm.run_refines [OF start all] by simp
  have "sorted_wrt (<) (map fst (fold svm_step calls []))"
    using asc by (simp add: ascending_def sorted_wrt_map)
  with abs svm_find_spec [OF asc, of k] show ?thesis by (simp split: option.splits)
qed

text \<open>
  C22: a queue of timeouts that was built by any calls: \<open>runOnce\<close> returns, has fired exactly the events
  that were due, in the order of their times, whatever the callbacks do to the queue, and keeps
  its invariant. If no event that is due repeats with the interval 0 and no callback adds an event
  that is already due, \<open>runLoop\<close> returns as well, and nothing is due any more.
\<close>

theorem timeout_queue_runs:
  fixes calls :: "'c tq_call list"
  defines "q \<equiv> fold tq_step calls TimeoutQueue"
  shows "(\<exists>q'. runOnce cbs now (q, w) = Some (nextExpiration q', q', fold (fire cbs now) (due now q) w) \<and> tq_ok q') \<and>
    (now < 2 ^ 63 - 1 \<longrightarrow> (\<forall>e \<in> set (due now q). repeatInterval e \<noteq> 0) \<longrightarrow>
     (\<forall>c i w. list_all (later now) (snd (cbs c i now w))) \<longrightarrow>
     (\<exists>q'. runLoop cbs now (q, w) = Some (nextExpiration q', q', fold (fire cbs now) (due now q) w) \<and>
        (\<forall>e \<in> set (timeouts q'). now < expiration e)))"
proof -
  have start: "tq_ok TimeoutQueue" by (simp add: TimeoutQueue_def tq_ok_def events_ok_def)
  have "list_all (\<lambda>_. True) calls" by (simp add: list_all_iff)
  from tq.inv_run [OF start this] have ok: "tq_ok q" by (simp add: q_def)
  have loop: "\<exists>q'. runLoop cbs now (q, w) = Some (nextExpiration q', q', fold (fire cbs now) (due now q) w) \<and>
        (\<forall>e \<in> set (timeouts q'). now < expiration e)"
    if "now < 2 ^ 63 - 1" "\<forall>e \<in> set (due now q). repeatInterval e \<noteq> 0"
      "\<forall>c i w. list_all (later now) (snd (cbs c i now w))"
    using runLoop_spec [OF ok that(2), of cbs w] that(1,3) unfolding all_later_def by blast
  show ?thesis using runOnce_spec [OF ok, of cbs now w] loop by blast
qed

theorem timeout_queue_runs_witness:
  "\<exists>r. runLoop (\<lambda>c i now w. (w @ [i], [QAdd now 5 c])) 10
     (fold tq_step [QAdd 0 7 ''a'', QAddRepeating 0 3 ''b'', QAdd 0 20 ''c''] TimeoutQueue, []) = Some r \<and>
     snd (snd r) = [2, 1]"
proof -
  let ?cs = "[QAdd 0 7 ''a'', QAddRepeating 0 3 ''b'', QAdd 0 20 ''c'']"
  let ?cb = "\<lambda>c i now w. (w @ [i], [QAdd now 5 c])"
  have "fold (fire ?cb 10) (due 10 (fold tq_step ?cs TimeoutQueue)) [] = [2, 1]"
    "list_all (\<lambda>e. repeatInterval e \<noteq> 0) (due 10 (fold tq_step ?cs TimeoutQueue))"
    by code_simp+
  then show ?thesis
    using timeout_queue_runs [of ?cb 10 ?cs "[]"] by (fastforce simp: list_all_iff)
qed

section \<open>Where the code and its intent part\<close>

text \<open>
  Facts about single operations that the code plainly did not intend; none of them breaks a
  theorem above, whose hypotheses leave these cases out or whose statements include them.
\<close>

text \<open>
  \<open>Board(true)\<close> sets up no white pawn: the second loop of \<open>Board::init\<close> adds black pawns on
  the white side's row.
\<close>

lemma init_has_no_white_pawns:
  "case new_Board out True of
     Inl _ \<Rightarrow> False
   | Inr b \<Rightarrow> W_PAWN \<notin> set (positions b) \<and> list_all (\<lambda>c. getPieceTypeAtPosition b (1, c) = B_PAWN) [0..7]"
  by (simp add: new_Board_def Board_init_def init_adds_def Board_add_def Board_set_def setInternal_def
      setKingPositionIfNeeded_def empty_board_def upto_rec1 cell_index_def getPieceTypeAtPosition_def)
    (intro not_in_update; simp)

text \<open>
  \<open>makeMove(from, to)\<close>, which the breadth-first search uses, does not recognise a white en
  passant capture: the captured pawn stays on the board.
\<close>

lemma white_en_passant_keeps_victim:
  "case makeMove_pos pawn_board (from_pos ep_move) (to_pos ep_move) of
     Inl _ \<Rightarrow> False
   | Inr (b, _) \<Rightarrow> getPieceTypeAtPosition b (5, 4) = W_PAWN \<and> getPieceTypeAtPosition b (4, 4) = B_PAWN"
  by code_simp

text \<open>
  Storing "no mate" at a height for which the cache already knows it, falls into the branch
  for mates: every later lookup at a greater height then answers \<open>CHECKMATE\<close>.
\<close>

lemma stored_no_mate_becomes_mate:
  assumes "signatures k c s = Some (lo, hi)" "h \<le> lo" "h < hi" "lvl \<le> h" "x < CHECKMATE" "lo < h'"
  shows "getScoreFromCache k (updateCache lvl k s h x c) s h' = Some CHECKMATE"
  using assms by (simp add: getScoreFromCache_def updateCache_def Let_def)

text \<open>
  Adding a solution under a key that is already stored returns the index stored before,
  not the index of the node just added, which nothing then refers to.
\<close>

lemma solution_key_kept:
  assumes "solutionMap c key = Some idx"
  shows "fst (addSolutionNode_key key b c) = idx \<and>
    forest_size (solutions (snd (addSolutionNode_key key b c))) = Suc (forest_size (solutions c))"
  using assms by (simp add: addSolutionNode_key_def addSolutionNode_def forest_add_eq Let_def)

text \<open>
  \<open>sorted_vector_set::erase(key)\<close> takes a neighbour when the key is absent;
  \<open>insert(hint, value)\<close> drops a value that belongs more than one place to the right of the hint.
\<close>

lemma erase_takes_a_neighbour: "svs_erase 2 (sorted_vector_set [3, 1 :: int]) = (1, [1])"
  by code_simp

lemma hint_loses_value: "svs_insert_hint 0 5 (sorted_vector_set [1, 2, 9 :: int]) = (0, [1, 2, 9])"
  by code_simp

text \<open>With zero entries to clear at a time, the cache outgrows its limit.\<close>

lemma clear_size_zero:
  "ecm_size (fold ecm_step [CSet (1 :: nat) ''a'' True, CSet 2 ''b'' True] (EvictingCacheMap 1 0)) = 2"
  by code_simp

text \<open>
  Advancing a bit iterator by a negative distance moves it almost \<open>2^64\<close> bits forward.
\<close>

lemma bit_iterator_negative_advance:
  "bit_pos 8 (bi_advance 8 (- 1) (makeBitIterator 0)) = 2 ^ 64 - 1"
  by (simp add: bi_advance_def makeBitIterator_def bit_pos_def Let_def)

text \<open>
  A backslash at the end of the text makes \<open>cUnescape\<close> read past it, strict or not; and \<open>uriEscape\<close>
  encodes the digit 9.
\<close>

lemma trailing_backslash_reads_on: "cUnescape strict [CHR ''a'', CHR 0x5C] out = Inl PastEnd"
  by (simp add: cUnescape_def cUnescape_loop.simps)

lemma uri_escapes_nine: "uriEscape UriAll ''89'' [] = ''8%39''"
  by (simp add: uriEscape_def uriEscapeTable_def uri_passthrough_def hexValues_def)

text \<open>\<open>estimateSpaceNeeded\<close> of the smallest 64-bit number overflows, while \<open>toAppend\<close> prints it.\<close>

lemma estimate_undefined_at_minimum:
  assumes "length buffer0 = 20"
  shows "estimateSpaceNeeded_signed 64 (- (2 ^ 63)) = Inl UndefinedNegation \<and>
    toAppend_signed buffer0 (- (2 ^ 63)) [] = Inr (decimal_int (- (2 ^ 63)))"
  using toAppend_signed_appends [OF assms, of "- (2 ^ 63)" "[]"] by (simp add: estimateSpaceNeeded_signed_def)

end
